(* ===== verification/Prelude.thy ===== *)
theory Prelude
  imports Main "HOL-Library.Word" "HOL-Library.Multiset"
begin

text \<open>
  Shared vocabulary of the development: the result type in which a kernel panic is a value,
  the sequencing combinators over it, pointers as natural numbers with a null pointer,
  and the generic facts on lists, options and machine words that the components share.
\<close>

section \<open>Kernel panics as values\<close>

text \<open>
  \<open>ASSERT\<close>, \<open>PANIC\<close> and \<open>NOT_REACHED\<close> of lib/debug.h stop the kernel. A C function
  that may do so is modelled by a function into \<open>'a res\<close>: \<open>Inl\<close> is the panic,
  \<open>Inr\<close> the value the function returns. \<open>Undefined\<close> stands for an access outside any
  object, where C gives no meaning to the program.
\<close>

datatype panic =
    Assert_fail string
  | Panic string
  | Not_reached
  | Undefined string

type_synonym 'a res = "panic + 'a"

definition require :: "bool \<Rightarrow> string \<Rightarrow> 'a res \<Rightarrow> 'a res" where
  "require b msg k = (if b then k else Inl (Assert_fail msg))"

definition bindr :: "'a res \<Rightarrow> ('a \<Rightarrow> 'b res) \<Rightarrow> 'b res" where
  "bindr m f = (case m of Inl e \<Rightarrow> Inl e | Inr x \<Rightarrow> f x)"

text \<open>
  A function with a loop that may run forever returns a \<open>'a res option\<close>; \<open>None\<close> means
  that it does not return. \<open>bindo\<close> sequences such functions.
\<close>

definition bindo :: "'a res option \<Rightarrow> ('a \<Rightarrow> 'b res option) \<Rightarrow> 'b res option" where
  "bindo m f = Option.bind m (\<lambda>r. case r of Inl e \<Rightarrow> Some (Inl e) | Inr x \<Rightarrow> f x)"

definition requireo :: "bool \<Rightarrow> string \<Rightarrow> 'a res option \<Rightarrow> 'a res option" where
  "requireo b msg k = (if b then k else Some (Inl (Assert_fail msg)))"

type_synonym ptr = nat

abbreviation (input) NULL :: ptr where
  "NULL \<equiv> 0"

text \<open>\<open>size_t\<close> and \<open>unsigned\<close> have 32 bits on the target machine.\<close>

abbreviation (input) SIZE_MOD :: nat where
  "SIZE_MOD \<equiv> 4294967296"

abbreviation (input) SIZE_MAX :: nat where
  "SIZE_MAX \<equiv> 4294967295"

text \<open>Signed integers of 32 and 64 bits wrap around on the target machine.\<close>

definition int32 :: "int \<Rightarrow> int" where
  "int32 n = (n + 2 ^ 31) mod 2 ^ 32 - 2 ^ 31"

definition int64 :: "int \<Rightarrow> int" where
  "int64 n = (n + 2 ^ 63) mod 2 ^ 64 - 2 ^ 63"

named_theorems panic_simps \<open>unfolding of the sequencing combinators\<close>

section \<open>Sequencing\<close>

lemma require_simps [simp, panic_simps]:
  "require True msg k = k"
  "require False msg k = Inl (Assert_fail msg)"
  by (simp_all add: require_def)

lemma require_Inr [simp]: "require b msg k = Inr y \<longleftrightarrow> b \<and> k = Inr y"
  by (simp add: require_def)

lemma require_trueI [intro]: "b \<Longrightarrow> k = r \<Longrightarrow> require b msg k = r"
  by simp

lemma bindr_simps [simp, panic_simps]:
  "bindr (Inl e) f = Inl e"
  "bindr (Inr x) f = f x"
  by (simp_all add: bindr_def)

lemma bindr_Inr [simp]: "bindr m f = Inr y \<longleftrightarrow> (\<exists>x. m = Inr x \<and> f x = Inr y)"
  by (cases m) auto

lemma bindr_assoc: "bindr (bindr m f) g = bindr m (\<lambda>x. bindr (f x) g)"
  by (cases m) auto

lemma bindr_cong [fundef_cong]:
  "m = m' \<Longrightarrow> (\<And>x. m' = Inr x \<Longrightarrow> f x = g x) \<Longrightarrow> bindr m f = bindr m' g"
  by (cases m') auto

lemma bindo_simps [simp, panic_simps]:
  "bindo None f = None"
  "bindo (Some (Inl e)) f = Some (Inl e)"
  "bindo (Some (Inr x)) f = f x"
  by (simp_all add: bindo_def)

lemma requireo_simps [simp, panic_simps]:
  "requireo True msg k = k"
  "requireo False msg k = Some (Inl (Assert_fail msg))"
  by (simp_all add: requireo_def)

lemma bindo_mono [partial_function_mono]:
  assumes "mono_option B" and "\<And>y. mono_option (\<lambda>f. C y f)"
  shows "mono_option (\<lambda>f. bindo (B f) (\<lambda>y. C y f))"
  unfolding bindo_def
proof (rule bind_mono [OF assms(1)])
  fix r
  show "mono_option (\<lambda>f. case r of Inl e \<Rightarrow> Some (Inl e) | Inr x \<Rightarrow> C x f)"
    by (cases r) (auto intro: assms(2) option.const_mono)
qed

lemma requireo_mono [partial_function_mono]:
  assumes "mono_option B"
  shows "mono_option (\<lambda>f. requireo b msg (B f))"
  using assms by (cases b) (auto intro: option.const_mono)

lemma require_cong [fundef_cong]:
  "b = b' \<Longrightarrow> msg = msg' \<Longrightarrow> (b' \<Longrightarrow> k = k') \<Longrightarrow> require b msg k = require b' msg' k'"
  by (simp add: require_def)

section \<open>Lists\<close>

lemma set_tl_subset: "set (tl xs) \<subseteq> set xs"
  by (cases xs) auto

lemma set_butlast_subset: "set (butlast xs) \<subseteq> set xs"
  by (auto dest: in_set_butlastD)

lemma last_notin_butlast: "distinct xs \<Longrightarrow> xs \<noteq> [] \<Longrightarrow> last xs \<notin> set (butlast xs)"
  by (metis append_butlast_last_id distinct_append disjoint_iff list.set_intros(1))

lemma hd_notin_tl: "distinct xs \<Longrightarrow> xs \<noteq> [] \<Longrightarrow> hd xs \<notin> set (tl xs)"
  by (cases xs) auto

section \<open>Natural numbers\<close>

lemma ex_ge_step: "i < n \<Longrightarrow> (\<exists>j. i \<le> j \<and> j < n \<and> P j) \<longleftrightarrow> P i \<or> (\<exists>j. Suc i \<le> j \<and> j < n \<and> P j)"
  by (metis Suc_leD Suc_leI le_less order_refl)

end
