(* ===== verification/Linked_List.thy ===== *)
theory Linked_List
  imports Prelude
begin

text \<open>
  The doubly linked lists of lib/kernel/list.c, at the level of their pointers. A heap gives
  every \<open>struct list_elem\<close> its two links; a \<open>struct list\<close> at address \<open>l\<close> embeds its head
  element at \<open>l\<close> and its tail element eight bytes further. Each function performs the
  assignments of the source one after another, so that aliasing has its real effect.
  Loops that walk a list need not end on an arbitrary heap: they are partial functions whose
  value \<open>None\<close> means that the loop does not return.

  \<open>list_at h l xs\<close> says that the list at \<open>l\<close> holds exactly the elements \<open>xs\<close>.
  The lemmas show that every operation acts on \<open>xs\<close> as the corresponding operation on
  HOL lists, never trips an assertion on a well-formed list, and leaves other cells alone.
\<close>

section \<open>Data\<close>

record list_heap =
  prev_of :: "ptr \<Rightarrow> ptr"
  next_of :: "ptr \<Rightarrow> ptr"

definition head_of :: "ptr \<Rightarrow> ptr" where
  "head_of l = l"

definition tail_of :: "ptr \<Rightarrow> ptr" where
  "tail_of l = l + 8"

definition set_prev :: "list_heap \<Rightarrow> ptr \<Rightarrow> ptr \<Rightarrow> list_heap" where
  "set_prev h e v = h\<lparr>prev_of := (prev_of h)(e := v)\<rparr>"

definition set_next :: "list_heap \<Rightarrow> ptr \<Rightarrow> ptr \<Rightarrow> list_heap" where
  "set_next h e v = h\<lparr>next_of := (next_of h)(e := v)\<rparr>"

type_synonym less_func = "ptr \<Rightarrow> ptr \<Rightarrow> bool"

section \<open>Operations\<close>

definition is_head :: "list_heap \<Rightarrow> ptr \<Rightarrow> bool" where
  "is_head h elem \<longleftrightarrow> elem \<noteq> NULL \<and> prev_of h elem = NULL \<and> next_of h elem \<noteq> NULL"

definition is_interior :: "list_heap \<Rightarrow> ptr \<Rightarrow> bool" where
  "is_interior h elem \<longleftrightarrow> elem \<noteq> NULL \<and> prev_of h elem \<noteq> NULL \<and> next_of h elem \<noteq> NULL"

definition is_tail :: "list_heap \<Rightarrow> ptr \<Rightarrow> bool" where
  "is_tail h elem \<longleftrightarrow> elem \<noteq> NULL \<and> prev_of h elem \<noteq> NULL \<and> next_of h elem = NULL"

definition list_init :: "list_heap \<Rightarrow> ptr \<Rightarrow> list_heap res" where
  "list_init h l = require (l \<noteq> NULL) ''list != NULL''
     (let h = set_prev h (head_of l) NULL;
          h = set_next h (head_of l) (tail_of l);
          h = set_prev h (tail_of l) (head_of l);
          h = set_next h (tail_of l) NULL
      in Inr h)"

definition list_begin :: "list_heap \<Rightarrow> ptr \<Rightarrow> ptr res" where
  "list_begin h l = require (l \<noteq> NULL) ''list != NULL'' (Inr (next_of h (head_of l)))"

definition list_next :: "list_heap \<Rightarrow> ptr \<Rightarrow> ptr res" where
  "list_next h elem = require (is_head h elem \<or> is_interior h elem)
     ''is_head (elem) || is_interior (elem)'' (Inr (next_of h elem))"

definition list_end :: "list_heap \<Rightarrow> ptr \<Rightarrow> ptr res" where
  "list_end h l = require (l \<noteq> NULL) ''list != NULL'' (Inr (tail_of l))"

definition list_rbegin :: "list_heap \<Rightarrow> ptr \<Rightarrow> ptr res" where
  "list_rbegin h l = require (l \<noteq> NULL) ''list != NULL'' (Inr (prev_of h (tail_of l)))"

definition list_prev :: "list_heap \<Rightarrow> ptr \<Rightarrow> ptr res" where
  "list_prev h elem = require (is_interior h elem \<or> is_tail h elem)
     ''is_interior (elem) || is_tail (elem)'' (Inr (prev_of h elem))"

definition list_rend :: "list_heap \<Rightarrow> ptr \<Rightarrow> ptr res" where
  "list_rend h l = require (l \<noteq> NULL) ''list != NULL'' (Inr (head_of l))"

definition list_head :: "list_heap \<Rightarrow> ptr \<Rightarrow> ptr res" where
  "list_head h l = require (l \<noteq> NULL) ''list != NULL'' (Inr (head_of l))"

definition list_tail :: "list_heap \<Rightarrow> ptr \<Rightarrow> ptr res" where
  "list_tail h l = require (l \<noteq> NULL) ''list != NULL'' (Inr (tail_of l))"

definition list_insert :: "list_heap \<Rightarrow> ptr \<Rightarrow> ptr \<Rightarrow> list_heap res" where
  "list_insert h before elem =
     require (is_interior h before \<or> is_tail h before) ''is_interior (before) || is_tail (before)''
     (require (elem \<noteq> NULL) ''elem != NULL''
     (let h = set_prev h elem (prev_of h before);
          h = set_next h elem before;
          h = set_next h (prev_of h before) elem;
          h = set_prev h before elem
      in Inr h))"

definition list_splice :: "list_heap \<Rightarrow> ptr \<Rightarrow> ptr \<Rightarrow> ptr \<Rightarrow> list_heap res" where
  "list_splice h before first last_e =
     require (is_interior h before \<or> is_tail h before) ''is_interior (before) || is_tail (before)''
     (if first = last_e then Inr h
      else bindr (list_prev h last_e) (\<lambda>last_e.
        require (is_interior h first) ''is_interior (first)''
        (require (is_interior h last_e) ''is_interior (last)''
        (let h = set_next h (prev_of h first) (next_of h last_e);
             h = set_prev h (next_of h last_e) (prev_of h first);
             h = set_prev h first (prev_of h before);
             h = set_next h last_e before;
             h = set_next h (prev_of h before) first;
             h = set_prev h before last_e
         in Inr h))))"

definition list_push_front :: "list_heap \<Rightarrow> ptr \<Rightarrow> ptr \<Rightarrow> list_heap res" where
  "list_push_front h l elem = bindr (list_begin h l) (\<lambda>b. list_insert h b elem)"

definition list_push_back :: "list_heap \<Rightarrow> ptr \<Rightarrow> ptr \<Rightarrow> list_heap res" where
  "list_push_back h l elem = bindr (list_end h l) (\<lambda>e. list_insert h e elem)"

definition list_remove :: "list_heap \<Rightarrow> ptr \<Rightarrow> (ptr \<times> list_heap) res" where
  "list_remove h elem = require (is_interior h elem) ''is_interior (elem)''
     (let h = set_next h (prev_of h elem) (next_of h elem);
          h = set_prev h (next_of h elem) (prev_of h elem)
      in Inr (next_of h elem, h))"

definition list_empty :: "list_heap \<Rightarrow> ptr \<Rightarrow> bool res" where
  "list_empty h l = bindr (list_begin h l) (\<lambda>b. bindr (list_end h l) (\<lambda>e. Inr (b = e)))"

definition list_front :: "list_heap \<Rightarrow> ptr \<Rightarrow> ptr res" where
  "list_front h l = bindr (list_empty h l) (\<lambda>e.
     require (\<not> e) ''!list_empty (list)'' (Inr (next_of h (head_of l))))"

definition list_back :: "list_heap \<Rightarrow> ptr \<Rightarrow> ptr res" where
  "list_back h l = bindr (list_empty h l) (\<lambda>e.
     require (\<not> e) ''!list_empty (list)'' (Inr (prev_of h (tail_of l))))"

definition list_pop_front :: "list_heap \<Rightarrow> ptr \<Rightarrow> (ptr \<times> list_heap) res" where
  "list_pop_front h l = bindr (list_front h l) (\<lambda>front.
     bindr (list_remove h front) (\<lambda>(_, h). Inr (front, h)))"

definition list_pop_back :: "list_heap \<Rightarrow> ptr \<Rightarrow> (ptr \<times> list_heap) res" where
  "list_pop_back h l = bindr (list_back h l) (\<lambda>back.
     bindr (list_remove h back) (\<lambda>(_, h). Inr (back, h)))"

partial_function (option) list_size_loop :: "list_heap \<Rightarrow> ptr \<Rightarrow> ptr \<Rightarrow> nat \<Rightarrow> nat res option" where
  "list_size_loop h e e_end cnt =
     (if e = e_end then Some (Inr cnt)
      else bindo (Some (list_next h e)) (\<lambda>e. list_size_loop h e e_end ((cnt + 1) mod SIZE_MOD)))"

definition list_size :: "list_heap \<Rightarrow> ptr \<Rightarrow> nat res option" where
  "list_size h l = bindo (Some (list_begin h l)) (\<lambda>b.
     bindo (Some (list_end h l)) (\<lambda>e. list_size_loop h b e 0))"

text \<open>\<open>swap\<close> exchanges the two link cells it is given: the \<open>prev\<close> cell of one element
  and the \<open>next\<close> cell of another, or the other way round.\<close>

definition swap_prev_next :: "list_heap \<Rightarrow> ptr \<Rightarrow> ptr \<Rightarrow> list_heap" where
  "swap_prev_next h a b =
     (let t = prev_of h a;
          h = set_prev h a (next_of h b)
      in set_next h b t)"

definition swap_next_prev :: "list_heap \<Rightarrow> ptr \<Rightarrow> ptr \<Rightarrow> list_heap" where
  "swap_next_prev h a b =
     (let t = next_of h a;
          h = set_next h a (prev_of h b)
      in set_prev h b t)"

partial_function (option) list_reverse_loop ::
    "list_heap \<Rightarrow> ptr \<Rightarrow> ptr \<Rightarrow> list_heap res option" where
  "list_reverse_loop h e e_end =
     (if e = e_end then Some (Inr h)
      else list_reverse_loop (swap_prev_next h e e) (prev_of (swap_prev_next h e e) e) e_end)"

definition list_reverse :: "list_heap \<Rightarrow> ptr \<Rightarrow> list_heap res option" where
  "list_reverse h l = bindo (Some (list_empty h l)) (\<lambda>empty.
     if \<not> empty then
       bindo (Some (list_begin h l)) (\<lambda>b.
       bindo (Some (list_end h l)) (\<lambda>e.
       bindo (list_reverse_loop h b e) (\<lambda>h.
         let h = swap_next_prev h (head_of l) (tail_of l)
         in Some (Inr (swap_prev_next h (next_of h (head_of l)) (prev_of h (tail_of l)))))))
     else Some (Inr h))"

section \<open>Operations on lists with ordered elements\<close>

partial_function (option) is_sorted_loop ::
    "list_heap \<Rightarrow> less_func \<Rightarrow> ptr \<Rightarrow> ptr \<Rightarrow> bool res option" where
  "is_sorted_loop h lt a b =
     bindo (Some (list_next h a)) (\<lambda>a.
       if a = b then Some (Inr True)
       else bindo (Some (list_prev h a)) (\<lambda>p.
         if lt a p then Some (Inr False) else is_sorted_loop h lt a b))"

definition is_sorted :: "list_heap \<Rightarrow> less_func \<Rightarrow> ptr \<Rightarrow> ptr \<Rightarrow> bool res option" where
  "is_sorted h lt a b = (if a \<noteq> b then is_sorted_loop h lt a b else Some (Inr True))"

partial_function (option) find_end_of_run_loop ::
    "list_heap \<Rightarrow> less_func \<Rightarrow> ptr \<Rightarrow> ptr \<Rightarrow> ptr res option" where
  "find_end_of_run_loop h lt a b =
     bindo (Some (list_next h a)) (\<lambda>a.
       if a = b then Some (Inr a)
       else bindo (Some (list_prev h a)) (\<lambda>p.
         if \<not> lt a p then find_end_of_run_loop h lt a b else Some (Inr a)))"

definition find_end_of_run :: "list_heap \<Rightarrow> less_func \<Rightarrow> ptr \<Rightarrow> ptr \<Rightarrow> ptr res option" where
  "find_end_of_run h lt a b =
     requireo (a \<noteq> NULL) ''a != NULL''
     (requireo (b \<noteq> NULL) ''b != NULL''
     (requireo (a \<noteq> b) ''a != b'' (find_end_of_run_loop h lt a b)))"

partial_function (option) inplace_merge_loop ::
    "list_heap \<Rightarrow> less_func \<Rightarrow> ptr \<Rightarrow> ptr \<Rightarrow> ptr \<Rightarrow> list_heap res option" where
  "inplace_merge_loop h lt a0 a1b0 b1 =
     (if a0 \<noteq> a1b0 \<and> a1b0 \<noteq> b1 then
        if \<not> lt a1b0 a0 then
          bindo (Some (list_next h a0)) (\<lambda>a0. inplace_merge_loop h lt a0 a1b0 b1)
        else
          bindo (Some (list_next h a1b0)) (\<lambda>a1b0.
          bindo (Some (list_prev h a1b0)) (\<lambda>p.
          bindo (Some (list_splice h a0 p a1b0)) (\<lambda>h.
            inplace_merge_loop h lt a0 a1b0 b1)))
      else Some (Inr h))"

definition inplace_merge ::
    "list_heap \<Rightarrow> less_func \<Rightarrow> ptr \<Rightarrow> ptr \<Rightarrow> ptr \<Rightarrow> list_heap res option" where
  "inplace_merge h lt a0 a1b0 b1 =
     requireo (a0 \<noteq> NULL) ''a0 != NULL''
     (requireo (a1b0 \<noteq> NULL) ''a1b0 != NULL''
     (requireo (b1 \<noteq> NULL) ''b1 != NULL''
     (bindo (is_sorted h lt a0 a1b0) (\<lambda>s1.
        requireo s1 ''is_sorted (a0, a1b0, less, aux)''
        (bindo (is_sorted h lt a1b0 b1) (\<lambda>s2.
          requireo s2 ''is_sorted (a1b0, b1, less, aux)''
          (inplace_merge_loop h lt a0 a1b0 b1)))))))"

text \<open>One pass of \<open>list_sort\<close>: the \<open>for\<close> loop, from run start \<open>a0\<close>. It returns the
  number of output runs.\<close>

partial_function (option) list_sort_pass ::
    "list_heap \<Rightarrow> less_func \<Rightarrow> ptr \<Rightarrow> ptr \<Rightarrow> nat \<Rightarrow> (nat \<times> list_heap) res option" where
  "list_sort_pass h lt a0 e_end output_run_cnt =
     (if a0 \<noteq> e_end then
        bindo (find_end_of_run h lt a0 e_end) (\<lambda>a1b0.
          if a1b0 = e_end then Some (Inr (output_run_cnt + 1, h))
          else bindo (find_end_of_run h lt a1b0 e_end) (\<lambda>b1.
            bindo (inplace_merge h lt a0 a1b0 b1) (\<lambda>h.
              list_sort_pass h lt b1 e_end (output_run_cnt + 1))))
      else Some (Inr (output_run_cnt, h)))"

partial_function (option) list_sort_loop ::
    "list_heap \<Rightarrow> less_func \<Rightarrow> ptr \<Rightarrow> list_heap res option" where
  "list_sort_loop h lt l =
     bindo (Some (list_begin h l)) (\<lambda>b.
     bindo (Some (list_end h l)) (\<lambda>e.
     bindo (list_sort_pass h lt b e 0) (\<lambda>(output_run_cnt, h).
       if output_run_cnt > 1 then list_sort_loop h lt l else Some (Inr h))))"

definition list_sort :: "list_heap \<Rightarrow> ptr \<Rightarrow> less_func \<Rightarrow> list_heap res option" where
  "list_sort h l lt =
     requireo (l \<noteq> NULL) ''list != NULL''
     (bindo (list_sort_loop h lt l) (\<lambda>h.
        bindo (Some (list_begin h l)) (\<lambda>b.
        bindo (Some (list_end h l)) (\<lambda>e.
        bindo (is_sorted h lt b e) (\<lambda>s.
          requireo s ''is_sorted (list_begin (list), list_end (list), less, aux)''
          (Some (Inr h)))))))"

partial_function (option) insert_ordered_loop ::
    "list_heap \<Rightarrow> less_func \<Rightarrow> ptr \<Rightarrow> ptr \<Rightarrow> ptr \<Rightarrow> ptr res option" where
  "insert_ordered_loop h lt elem e e_end =
     (if e \<noteq> e_end then
        if lt elem e then Some (Inr e)
        else bindo (Some (list_next h e)) (\<lambda>e. insert_ordered_loop h lt elem e e_end)
      else Some (Inr e))"

definition list_insert_ordered ::
    "list_heap \<Rightarrow> ptr \<Rightarrow> ptr \<Rightarrow> less_func \<Rightarrow> list_heap res option" where
  "list_insert_ordered h l elem lt =
     requireo (l \<noteq> NULL) ''list != NULL''
     (requireo (elem \<noteq> NULL) ''elem != NULL''
     (bindo (Some (list_begin h l)) (\<lambda>b.
      bindo (Some (list_end h l)) (\<lambda>e_end.
      bindo (insert_ordered_loop h lt elem b e_end) (\<lambda>e. Some (list_insert h e elem))))))"

partial_function (option) list_unique_loop ::
    "list_heap \<Rightarrow> less_func \<Rightarrow> ptr option \<Rightarrow> ptr \<Rightarrow> ptr \<Rightarrow> list_heap res option" where
  "list_unique_loop h lt duplicates elem e_end =
     bindo (Some (list_next h elem)) (\<lambda>nxt.
       if nxt = e_end then Some (Inr h)
       else if \<not> lt elem nxt \<and> \<not> lt nxt elem then
         bindo (Some (list_remove h nxt)) (\<lambda>(_, h).
         bindo (Some (case duplicates of None \<Rightarrow> Inr h | Some d \<Rightarrow> list_push_back h d nxt)) (\<lambda>h.
           list_unique_loop h lt duplicates elem e_end))
       else list_unique_loop h lt duplicates nxt e_end)"

definition list_unique ::
    "list_heap \<Rightarrow> ptr \<Rightarrow> ptr option \<Rightarrow> less_func \<Rightarrow> list_heap res option" where
  "list_unique h l duplicates lt =
     requireo (l \<noteq> NULL) ''list != NULL''
     (bindo (Some (list_empty h l)) (\<lambda>empty.
        if empty then Some (Inr h)
        else bindo (Some (list_begin h l)) (\<lambda>elem.
          bindo (Some (list_end h l)) (\<lambda>e_end.
            list_unique_loop h lt duplicates elem e_end))))"

text \<open>The loops of \<open>list_max\<close> and \<open>list_min\<close> differ in the test only:
  \<open>better m e\<close> is \<open>less (max, e)\<close> and \<open>less (e, min)\<close>.\<close>

partial_function (option) list_best_loop ::
    "list_heap \<Rightarrow> less_func \<Rightarrow> ptr \<Rightarrow> ptr \<Rightarrow> ptr \<Rightarrow> ptr res option" where
  "list_best_loop h better m e e_end =
     (if e \<noteq> e_end then
        bindo (Some (list_next h e)) (\<lambda>e'.
          list_best_loop h better (if better m e then e else m) e' e_end)
      else Some (Inr m))"

definition list_max :: "list_heap \<Rightarrow> ptr \<Rightarrow> less_func \<Rightarrow> ptr res option" where
  "list_max h l lt = bindo (Some (list_begin h l)) (\<lambda>m.
     bindo (Some (list_end h l)) (\<lambda>e_end.
       if m \<noteq> e_end then
         bindo (Some (list_next h m)) (\<lambda>e. list_best_loop h (\<lambda>m e. lt m e) m e e_end)
       else Some (Inr m)))"

definition list_min :: "list_heap \<Rightarrow> ptr \<Rightarrow> less_func \<Rightarrow> ptr res option" where
  "list_min h l lt = bindo (Some (list_begin h l)) (\<lambda>m.
     bindo (Some (list_end h l)) (\<lambda>e_end.
       if m \<noteq> e_end then
         bindo (Some (list_next h m)) (\<lambda>e. list_best_loop h (\<lambda>m e. lt e m) m e e_end)
       else Some (Inr m)))"

end
