(* ===== verification/List_Refinement.thy ===== *)
theory List_Refinement
  imports Linked_List
begin

text \<open>
  The relation between the pointer-level lists of theory Linked_List and HOL lists, and the
  behaviour of the elementary operations of lib/kernel/list.c under it: on a list that holds
  \<open>xs\<close>, insertion, removal, splicing, pushing, popping, emptiness and size act on \<open>xs\<close> as
  expected, no assertion fails, and no cell outside the list is written.
\<close>

section \<open>Lists on the heap\<close>

fun links :: "list_heap \<Rightarrow> ptr list \<Rightarrow> bool" where
  "links h (x # y # zs) \<longleftrightarrow> next_of h x = y \<and> prev_of h y = x \<and> links h (y # zs)"
| "links h _ \<longleftrightarrow> True"

definition list_cells :: "ptr \<Rightarrow> ptr list \<Rightarrow> ptr list" where
  "list_cells l xs = head_of l # xs @ [tail_of l]"

definition list_at :: "list_heap \<Rightarrow> ptr \<Rightarrow> ptr list \<Rightarrow> bool" where
  "list_at h l xs \<longleftrightarrow> links h (list_cells l xs) \<and> distinct (list_cells l xs)
     \<and> NULL \<notin> set (list_cells l xs) \<and> prev_of h (head_of l) = NULL \<and> next_of h (tail_of l) = NULL"

definition cursor :: "ptr \<Rightarrow> ptr list \<Rightarrow> ptr" where
  "cursor l xs = hd (xs @ [tail_of l])"

definition rcursor :: "ptr \<Rightarrow> ptr list \<Rightarrow> ptr" where
  "rcursor l xs = last (head_of l # xs)"

definition same_on :: "ptr set \<Rightarrow> list_heap \<Rightarrow> list_heap \<Rightarrow> bool" where
  "same_on A h h' \<longleftrightarrow> (\<forall>e\<in>A. prev_of h' e = prev_of h e \<and> next_of h' e = next_of h e)"

lemma heap_upd_simps [simp]:
  "prev_of (set_prev h e v) = (prev_of h)(e := v)"
  "next_of (set_prev h e v) = next_of h"
  "next_of (set_next h e v) = (next_of h)(e := v)"
  "prev_of (set_next h e v) = prev_of h"
  by (simp_all add: set_prev_def set_next_def)

lemma cursor_simps [simp]:
  "cursor l [] = tail_of l" "cursor l (x # xs) = x"
  "rcursor l [] = head_of l" "rcursor l (xs @ [x]) = x"
  by (simp_all add: cursor_def rcursor_def)

lemma links_append: "links h (xs @ y # zs) \<longleftrightarrow> links h (xs @ [y]) \<and> links h (y # zs)"
proof (induction xs)
  case (Cons x xs)
  then show ?case by (cases xs) auto
qed simp

lemma links_set_next: "e \<notin> set (butlast xs) \<Longrightarrow> links (set_next h e v) xs \<longleftrightarrow> links h xs"
  by (induction h xs rule: links.induct) auto

lemma links_set_prev: "e \<notin> set (tl xs) \<Longrightarrow> links (set_prev h e v) xs \<longleftrightarrow> links h xs"
  by (induction h xs rule: links.induct) auto

lemma links_notin [simp]:
  "e \<notin> set xs \<Longrightarrow> links (set_next h e v) xs \<longleftrightarrow> links h xs"
  "e \<notin> set xs \<Longrightarrow> links (set_prev h e v) xs \<longleftrightarrow> links h xs"
   apply (meson in_set_butlastD links_set_next)
  by (metis links_set_prev list.set_sel(2) tl_Nil)

lemma links_set_next_last [simp]:
  "e \<notin> set xs \<Longrightarrow> links (set_next h e v) (xs @ [e]) \<longleftrightarrow> links h (xs @ [e])"
  by (simp add: links_set_next)

lemma links_set_prev_hd [simp]:
  "e \<notin> set xs \<Longrightarrow> links (set_prev h e v) (e # xs) \<longleftrightarrow> links h (e # xs)"
  by (simp add: links_set_prev)

lemma links_same_on: "same_on (set xs) h h' \<Longrightarrow> links h' xs \<longleftrightarrow> links h xs"
  unfolding same_on_def by (induction h xs rule: links.induct) auto

lemma list_at_same_on:
  "list_at h l xs \<Longrightarrow> same_on (set (list_cells l xs)) h h' \<Longrightarrow> list_at h' l xs"
  by (auto simp: list_at_def links_same_on) (auto simp: same_on_def list_cells_def)

lemma list_at_links:
  assumes "list_at h l (xs @ ys)"
  shows "next_of h (rcursor l xs) = cursor l ys" and "prev_of h (cursor l ys) = rcursor l xs"
proof -
  obtain P where P: "head_of l # xs = P @ [rcursor l xs]"
    unfolding rcursor_def by (metis append_butlast_last_id list.distinct(1))
  obtain Q where Q: "ys @ [tail_of l] = cursor l ys # Q"
    unfolding cursor_def by (metis list.collapse append_is_Nil_conv list.distinct(1))
  have "list_cells l (xs @ ys) = P @ rcursor l xs # cursor l ys # Q"
    using P Q unfolding list_cells_def by (metis append_Cons append_assoc append_Nil)
  then have "links h (rcursor l xs # cursor l ys # Q)"
    using assms unfolding list_at_def by (metis links_append)
  then show "next_of h (rcursor l xs) = cursor l ys" "prev_of h (cursor l ys) = rcursor l xs"
    by auto
qed

lemma list_at_nonnull:
  assumes "list_at h l (xs @ ys)"
  shows "cursor l ys \<noteq> NULL" "rcursor l xs \<noteq> NULL" "l \<noteq> NULL"
proof -
  have "cursor l ys \<in> set (list_cells l (xs @ ys))"
    by (cases ys) (simp_all add: list_cells_def)
  moreover have "rcursor l xs \<in> set (list_cells l (xs @ ys))"
    by (cases xs rule: rev_cases) (simp_all add: list_cells_def)
  moreover have "l \<in> set (list_cells l (xs @ ys))"
    by (simp add: list_cells_def head_of_def)
  ultimately show "cursor l ys \<noteq> NULL" "rcursor l xs \<noteq> NULL" "l \<noteq> NULL"
    using assms unfolding list_at_def by metis+
qed

lemma cursor_eq_tail [simp]: "list_at h l (xs @ ys) \<Longrightarrow> cursor l ys = tail_of l \<longleftrightarrow> ys = []"
  by (cases ys) (auto simp: list_at_def list_cells_def)

lemma rcursor_eq_head: "list_at h l (xs @ ys) \<Longrightarrow> rcursor l xs = head_of l \<longleftrightarrow> xs = []"
  by (cases xs rule: rev_cases) (auto simp: list_at_def list_cells_def)

lemma list_at_ends:
  assumes "list_at h l xs"
  shows "list_begin h l = Inr (cursor l xs)" "list_end h l = Inr (tail_of l)"
    "list_rbegin h l = Inr (rcursor l xs)" "list_rend h l = Inr (head_of l)"
    "list_empty h l = Inr (xs = [])"
proof -
  have "l \<noteq> NULL" "next_of h (head_of l) = cursor l xs" "prev_of h (tail_of l) = rcursor l xs"
    using list_at_nonnull [of h l "[]" xs] list_at_links(1) [of h l "[]" xs]
      list_at_links(2) [of h l xs "[]"] assms by auto
  then show b: "list_begin h l = Inr (cursor l xs)" and e: "list_end h l = Inr (tail_of l)"
    and "list_rbegin h l = Inr (rcursor l xs)" "list_rend h l = Inr (head_of l)"
    by (simp_all add: list_begin_def list_end_def list_rbegin_def list_rend_def)
  show "list_empty h l = Inr (xs = [])"
    using cursor_eq_tail [of h l "[]" xs] assms by (simp add: list_empty_def b e)
qed

lemma list_at_interior:
  assumes "list_at h l (xs @ x # ys)"
  shows "is_interior h x" "next_of h x = cursor l ys" "prev_of h x = rcursor l xs" "x \<noteq> NULL"
    "list_next h x = Inr (cursor l ys)" "list_prev h x = Inr (rcursor l xs)"
proof -
  have "next_of h x = cursor l ys" "prev_of h x = rcursor l xs" "x \<noteq> NULL"
    "cursor l ys \<noteq> NULL" "rcursor l xs \<noteq> NULL"
    using list_at_links [of h l "xs @ [x]" ys] list_at_links [of h l xs "x # ys"]
      list_at_nonnull [of h l xs "x # ys"] list_at_nonnull [of h l "xs @ [x]" ys] assms by auto
  then show "is_interior h x" "next_of h x = cursor l ys" "prev_of h x = rcursor l xs" "x \<noteq> NULL"
    "list_next h x = Inr (cursor l ys)" "list_prev h x = Inr (rcursor l xs)"
    by (auto simp: is_interior_def list_next_def list_prev_def)
qed

lemma list_at_mem: "list_at h l xs \<Longrightarrow> x \<in> set xs \<Longrightarrow> is_interior h x"
  by (metis split_list list_at_interior(1))

lemma list_at_before:
  assumes "list_at h l (xs @ ys)"
  shows "is_interior h (cursor l ys) \<or> is_tail h (cursor l ys)"
    "list_prev h (cursor l ys) = Inr (rcursor l xs)"
proof -
  have "next_of h (tail_of l) = NULL" using assms by (simp add: list_at_def)
  then have "is_tail h (cursor l ys)" if "ys = []"
    using that list_at_links(2) [OF assms] list_at_nonnull [OF assms] by (simp add: is_tail_def)
  moreover have "is_interior h (cursor l ys)" if "ys \<noteq> []"
    using that assms list_at_interior by (cases ys) auto
  ultimately show *: "is_interior h (cursor l ys) \<or> is_tail h (cursor l ys)" by blast
  then show "list_prev h (cursor l ys) = Inr (rcursor l xs)"
    using list_at_links(2) [OF assms] by (simp add: list_prev_def)
qed

text \<open>The cells of a list around a gap.\<close>

lemma list_cells_gap:
  obtains P Q where "head_of l \<in> set (P @ [rcursor l xs])" "tail_of l \<in> set (cursor l ys # Q)"
    "\<And>zs. list_cells l (xs @ zs @ ys) = P @ rcursor l xs # zs @ cursor l ys # Q"
proof -
  obtain P where P: "head_of l # xs = P @ [rcursor l xs]"
    unfolding rcursor_def by (metis append_butlast_last_id list.distinct(1))
  obtain Q where Q: "ys @ [tail_of l] = cursor l ys # Q"
    unfolding cursor_def by (metis list.collapse append_is_Nil_conv list.distinct(1))
  have "list_cells l (xs @ zs @ ys) = P @ rcursor l xs # zs @ cursor l ys # Q" for zs
    using P Q unfolding list_cells_def
    by (metis append.assoc append_Cons append_Nil)
  moreover have "head_of l \<in> set (P @ [rcursor l xs])" "tail_of l \<in> set (cursor l ys # Q)"
    using P Q by (metis list.set_intros(1), metis in_set_conv_decomp)
  ultimately show thesis using that by blast
qed

lemma links_join:
  "A \<noteq> [] \<Longrightarrow> B \<noteq> [] \<Longrightarrow> links h (A @ B) \<longleftrightarrow>
     links h A \<and> links h B \<and> next_of h (last A) = hd B \<and> prev_of h (hd B) = last A"
proof (induction A)
  case (Cons a A)
  then show ?case by (cases A; cases B) auto
qed simp

lemma list_insert_at:
  assumes at: "list_at h l (xs @ ys)" and e: "e \<noteq> NULL" "e \<notin> set (list_cells l (xs @ ys))"
  shows "\<exists>h'. list_insert h (cursor l ys) e = Inr h' \<and> list_at h' l (xs @ e # ys)
    \<and> same_on (- insert e (set (list_cells l (xs @ ys)))) h h'"
proof -
  let ?p = "rcursor l xs" and ?b = "cursor l ys"
  obtain P Q where HT: "head_of l \<in> set (P @ [?p])" "tail_of l \<in> set (?b # Q)"
    and C: "\<And>zs. list_cells l (xs @ zs @ ys) = P @ ?p # zs @ ?b # Q"
    using list_cells_gap [of l xs ys] by blast
  define h' where "h' = set_prev (set_next (set_next (set_prev h e ?p) e ?b) ?p e) ?b e"
  have C0: "list_cells l (xs @ ys) = P @ ?p # ?b # Q" using C [of "[]"] by simp
  have C1: "list_cells l (xs @ e # ys) = P @ ?p # e # ?b # Q" using C [of "[e]"] by simp
  have D: "distinct (P @ ?p # e # ?b # Q)" "NULL \<notin> set (P @ ?p # e # ?b # Q)"
    using at e C0 by (auto simp: list_at_def)
  have ins: "list_insert h ?b e = Inr h'"
    using list_at_before [OF at] e list_at_links(2) [OF at] D
    by (auto simp: list_insert_def Let_def h'_def)
  have L: "links h (P @ [?p])" "links h (?b # Q)"
    using at links_join [of "P @ [?p]" "?b # Q" h] unfolding list_at_def C0 by auto
  have "links h' (P @ [?p])" "links h' (?b # Q)" "links h' [?p, e, ?b]"
    using L D by (auto simp: h'_def)
  then have "links h' (P @ ?p # e # ?b # Q)"
    using links_append [of h' P ?p "e # ?b # Q"] by simp
  moreover have "prev_of h' (head_of l) = NULL" "next_of h' (tail_of l) = NULL"
    using at D HT by (auto simp: list_at_def h'_def)
  ultimately have "list_at h' l (xs @ e # ys)"
    unfolding list_at_def C1 using D by auto
  moreover have "same_on (- insert e (set (list_cells l (xs @ ys)))) h h'"
    unfolding C0 by (auto simp: same_on_def h'_def)
  ultimately show ?thesis using ins by blast
qed

lemma list_remove_at:
  assumes at: "list_at h l (xs @ e # ys)"
  shows "\<exists>h'. list_remove h e = Inr (cursor l ys, h') \<and> list_at h' l (xs @ ys)
    \<and> same_on (- set (list_cells l (xs @ ys))) h h'"
proof -
  let ?p = "rcursor l xs" and ?b = "cursor l ys"
  obtain P Q where HT: "head_of l \<in> set (P @ [?p])" "tail_of l \<in> set (?b # Q)"
    and C: "\<And>zs. list_cells l (xs @ zs @ ys) = P @ ?p # zs @ ?b # Q"
    using list_cells_gap [of l xs ys] by blast
  define h' where "h' = set_prev (set_next h ?p ?b) ?b ?p"
  have C0: "list_cells l (xs @ ys) = P @ ?p # ?b # Q" using C [of "[]"] by simp
  have C1: "list_cells l (xs @ e # ys) = P @ ?p # e # ?b # Q" using C [of "[e]"] by simp
  have D: "distinct (P @ ?p # e # ?b # Q)" "NULL \<notin> set (P @ ?p # e # ?b # Q)"
    using at C1 by (auto simp: list_at_def)
  have rem: "list_remove h e = Inr (?b, h')"
    using list_at_interior [OF at] D by (auto simp: list_remove_def Let_def h'_def)
  have L: "links h (P @ [?p])" "links h (?b # Q)"
    using at links_join [of "P @ [?p]" "e # ?b # Q" h] links_join [of "[e]" "?b # Q" h]
    unfolding list_at_def C1 by auto
  have "links h' (P @ [?p])" "links h' (?b # Q)" "links h' [?p, ?b]"
    using L D by (auto simp: h'_def)
  then have "links h' (P @ ?p # ?b # Q)"
    using links_append [of h' P ?p "?b # Q"] by simp
  moreover have "prev_of h' (head_of l) = NULL" "next_of h' (tail_of l) = NULL"
    using at D HT by (auto simp: list_at_def h'_def)
  ultimately have "list_at h' l (xs @ ys)"
    unfolding list_at_def C0 using D by auto
  moreover have "same_on (- set (list_cells l (xs @ ys))) h h'"
    unfolding C0 by (auto simp: same_on_def h'_def)
  ultimately show ?thesis using rem by blast
qed

lemma links_cong:
  assumes "\<And>x. x \<in> set (butlast xs) \<Longrightarrow> next_of h' x = next_of h x"
    and "\<And>x. x \<in> set (tl xs) \<Longrightarrow> prev_of h' x = prev_of h x"
  shows "links h' xs \<longleftrightarrow> links h xs"
  using assms by (induction h xs rule: links.induct) auto

lemma links_keep:
  assumes "distinct xs" and "\<And>x. x \<in> set xs \<Longrightarrow> x \<noteq> last xs \<Longrightarrow> next_of h' x = next_of h x"
    and "\<And>x. x \<in> set xs \<Longrightarrow> x \<noteq> hd xs \<Longrightarrow> prev_of h' x = prev_of h x"
  shows "links h' xs \<longleftrightarrow> links h xs"
proof (cases "xs = []")
  case False
  show ?thesis
  proof (rule links_cong)
    show "next_of h' x = next_of h x" if "x \<in> set (butlast xs)" for x
      using that assms(2) last_notin_butlast [OF assms(1) False] set_butlast_subset by fastforce
    show "prev_of h' x = prev_of h x" if "x \<in> set (tl xs)" for x
      using that assms(3) hd_notin_tl [OF assms(1) False] set_tl_subset by fastforce
  qed
qed simp

lemma list_splice_same:
  assumes at: "list_at h l (xs @ Y @ M @ zs)" and ne: "Y \<noteq> []" "M \<noteq> []"
  shows "\<exists>h'. list_splice h (hd Y) (hd M) (cursor l zs) = Inr h' \<and> list_at h' l (xs @ M @ Y @ zs)
    \<and> same_on (- set (list_cells l (xs @ Y @ M @ zs))) h h'"
proof -
  let ?p = "rcursor l xs" and ?c = "cursor l zs"
  obtain P Q where HT: "head_of l \<in> set (P @ [?p])" "tail_of l \<in> set (?c # Q)"
    and C: "\<And>as. list_cells l (xs @ as @ zs) = P @ ?p # as @ ?c # Q"
    using list_cells_gap [of l xs zs] by blast
  define h' where "h' = \<lparr>prev_of = (prev_of h)(?c := last Y, hd M := ?p, hd Y := last M),
    next_of = (next_of h)(last Y := ?c, last M := hd Y, ?p := hd M)\<rparr>"
  have C0: "list_cells l (xs @ Y @ M @ zs) = P @ ?p # Y @ M @ ?c # Q" using C [of "Y @ M"] by simp
  have C1: "list_cells l (xs @ M @ Y @ zs) = P @ ?p # M @ Y @ ?c # Q" using C [of "M @ Y"] by simp
  have D: "distinct (P @ ?p # Y @ M @ ?c # Q)" "NULL \<notin> set (P @ ?p # Y @ M @ ?c # Q)"
    using at C0 by (auto simp: list_at_def)
  have mem: "last Y \<in> set Y" "last M \<in> set M" "hd Y \<in> set Y" "hd M \<in> set M" using ne by auto
  have N: "last Y \<noteq> last M" "hd Y \<noteq> hd M" "hd M \<noteq> ?c" "hd Y \<noteq> ?c" "?p \<noteq> hd M" "?p \<noteq> hd Y" "?p \<noteq> ?c"
    "last Y \<noteq> ?c" "last M \<noteq> ?c" "last Y \<noteq> ?p" "last M \<noteq> ?p"
    using mem D by auto
  have L: "links h (P @ [?p])" "links h Y" "links h M" "links h (?c # Q)"
    "next_of h ?p = hd Y" "prev_of h (hd Y) = ?p" "next_of h (last Y) = hd M" "prev_of h (hd M) = last Y"
    "next_of h (last M) = ?c" "prev_of h ?c = last M"
    using at ne links_join [of "P @ [?p]" "Y @ M @ ?c # Q" h] links_join [of Y "M @ ?c # Q" h]
      links_join [of M "?c # Q" h] unfolding list_at_def C0 by auto
  have i: "is_interior h (hd M)" "is_interior h (last M)" "is_interior h (hd Y)"
    using mem by (auto intro: list_at_mem [OF at])
  have pl: "list_prev h ?c = Inr (last M)"
    using list_at_before(1) [of h l "xs @ Y @ M" zs] at L(10) by (simp add: list_prev_def)
  have sp: "list_splice h (hd Y) (hd M) ?c = Inr h'"
    using pl i N L(5-10)
    by (simp add: list_splice_def Let_def h'_def set_prev_def set_next_def fun_upd_twist)
  have "links h' (P @ [?p]) \<longleftrightarrow> links h (P @ [?p])"
    by (rule links_keep) (use D mem in \<open>auto simp: h'_def\<close>)
  moreover have "links h' (?c # Q) \<longleftrightarrow> links h (?c # Q)"
    by (rule links_keep) (use D mem in \<open>auto simp: h'_def\<close>)
  moreover have "links h' Y \<longleftrightarrow> links h Y"
    by (rule links_keep) (use D mem in \<open>auto simp: h'_def\<close>)
  moreover have "links h' M \<longleftrightarrow> links h M"
    by (rule links_keep) (use D mem in \<open>auto simp: h'_def\<close>)
  ultimately have "links h' (P @ [?p])" "links h' (?c # Q)" "links h' Y" "links h' M"
    using L by auto
  then have "links h' (P @ ?p # M @ Y @ ?c # Q)"
    using ne N links_join [of "P @ [?p]" "M @ Y @ ?c # Q" h'] links_join [of M "Y @ ?c # Q" h']
      links_join [of Y "?c # Q" h'] by (auto simp: h'_def)
  moreover have "prev_of h' (head_of l) = prev_of h (head_of l)" "next_of h' (tail_of l) = next_of h (tail_of l)"
  proof -
    have "head_of l \<noteq> ?c" "head_of l \<notin> set M" "head_of l \<notin> set Y"
      using HT(1) D(1) by auto
    then show "prev_of h' (head_of l) = prev_of h (head_of l)" using mem by (auto simp: h'_def)
    have "tail_of l \<noteq> ?p" "tail_of l \<notin> set M" "tail_of l \<notin> set Y"
      using HT(2) D(1) by auto
    then show "next_of h' (tail_of l) = next_of h (tail_of l)" using mem by (auto simp: h'_def)
  qed
  ultimately have "list_at h' l (xs @ M @ Y @ zs)"
    using at D unfolding list_at_def C1 by auto
  moreover have "same_on (- set (list_cells l (xs @ Y @ M @ zs))) h h'"
    using mem unfolding C0 by (auto simp: same_on_def h'_def)
  ultimately show ?thesis using sp by blast
qed

section \<open>Derived operations\<close>

lemma list_init_at:
  assumes "l \<noteq> NULL"
  shows "\<exists>h'. list_init h l = Inr h' \<and> list_at h' l [] \<and> same_on (- {head_of l, tail_of l}) h h'"
  using assms
  by (auto simp: list_init_def Let_def list_at_def list_cells_def same_on_def head_of_def tail_of_def)

lemma list_push_front_at:
  assumes "list_at h l xs" and "e \<noteq> NULL" "e \<notin> set (list_cells l xs)"
  shows "\<exists>h'. list_push_front h l e = Inr h' \<and> list_at h' l (e # xs)
    \<and> same_on (- insert e (set (list_cells l xs))) h h'"
  using list_insert_at [of h l "[]" xs e] assms by (simp add: list_push_front_def list_at_ends)

lemma list_push_back_at:
  assumes "list_at h l xs" and "e \<noteq> NULL" "e \<notin> set (list_cells l xs)"
  shows "\<exists>h'. list_push_back h l e = Inr h' \<and> list_at h' l (xs @ [e])
    \<and> same_on (- insert e (set (list_cells l xs))) h h'"
  using list_insert_at [of h l xs "[]" e] assms by (simp add: list_push_back_def list_at_ends)

lemma list_pop_front_at:
  assumes at: "list_at h l (x # xs)"
  shows "\<exists>h'. list_pop_front h l = Inr (x, h') \<and> list_at h' l xs
    \<and> same_on (- set (list_cells l xs)) h h'"
proof -
  have "list_front h l = Inr x"
    using list_at_ends [OF at] list_at_links(1) [of h l "[]" "x # xs"] at by (simp add: list_front_def)
  then show ?thesis using list_remove_at [of h l "[]" x xs] at by (auto simp: list_pop_front_def)
qed

lemma list_pop_back_at:
  assumes at: "list_at h l (xs @ [x])"
  shows "\<exists>h'. list_pop_back h l = Inr (x, h') \<and> list_at h' l xs
    \<and> same_on (- set (list_cells l xs)) h h'"
proof -
  have "list_back h l = Inr x"
    using list_at_ends [OF at] list_at_links(2) [of h l "xs @ [x]" "[]"] at by (simp add: list_back_def)
  then show ?thesis using list_remove_at [of h l xs x "[]"] at by (auto simp: list_pop_back_def)
qed

lemma list_pop_front_empty: "list_at h l [] \<Longrightarrow> list_pop_front h l = Inl (Assert_fail ''!list_empty (list)'')"
  by (simp add: list_pop_front_def list_front_def list_at_ends)

lemma list_size_loop_at:
  "list_at h l (xs @ ys) \<Longrightarrow> list_size_loop h (cursor l ys) (tail_of l) c =
     Some (Inr (if ys = [] then c else (c + length ys) mod SIZE_MOD))"
proof (induction ys arbitrary: xs c)
  case Nil
  then show ?case by (simp add: list_size_loop.simps)
next
  case (Cons y ys)
  have "list_size_loop h y (tail_of l) c = list_size_loop h (cursor l ys) (tail_of l) ((c + 1) mod SIZE_MOD)"
    using list_at_interior [OF Cons.prems] cursor_eq_tail [OF Cons.prems]
    by (subst list_size_loop.simps) simp
  then show ?case
    using Cons.IH [of "xs @ [y]"] Cons.prems by (simp add: mod_simps)
qed

lemma list_size_at: "list_at h l xs \<Longrightarrow> length xs < SIZE_MOD \<Longrightarrow> list_size h l = Some (Inr (length xs))"
  using list_size_loop_at [of h l "[]" xs 0] by (auto simp: list_size_def list_at_ends)

end
