(* ===== verification/List_Sorting.thy ===== *)
theory List_Sorting
  imports List_Refinement
begin

text \<open>
  The operations of lib/kernel/list.c that compare elements: the natural merge sort
  \<open>list_sort\<close>, ordered insertion, removal of adjacent duplicates, maximum and minimum,
  and the reversal of a list. The functions \<open>split_run\<close>, \<open>merge_runs\<close> and \<open>sort_pass\<close> say on
  HOL lists what the pointer loops do; the contract of a comparison function is the locale
  \<open>strict_weak_order\<close>, interpreted on the comparison of tests/internal/list.c.
\<close>

section \<open>Runs and merging on HOL lists\<close>

fun sorted_adj :: "('a \<Rightarrow> 'a \<Rightarrow> bool) \<Rightarrow> 'a list \<Rightarrow> bool" where
  "sorted_adj lt (x # y # zs) \<longleftrightarrow> \<not> lt y x \<and> sorted_adj lt (y # zs)"
| "sorted_adj lt _ \<longleftrightarrow> True"

fun split_run :: "('a \<Rightarrow> 'a \<Rightarrow> bool) \<Rightarrow> 'a \<Rightarrow> 'a list \<Rightarrow> 'a list \<times> 'a list" where
  "split_run lt x [] = ([x], [])"
| "split_run lt x (y # ys) = (if lt y x then ([x], y # ys)
     else let (r, s) = split_run lt y ys in (x # r, s))"

fun merge_runs :: "('a \<Rightarrow> 'a \<Rightarrow> bool) \<Rightarrow> 'a list \<Rightarrow> 'a list \<Rightarrow> 'a list" where
  "merge_runs lt [] bs = bs"
| "merge_runs lt as [] = as"
| "merge_runs lt (a # as) (b # bs) =
     (if \<not> lt b a then a # merge_runs lt as (b # bs) else b # merge_runs lt (a # as) bs)"

fun nruns :: "('a \<Rightarrow> 'a \<Rightarrow> bool) \<Rightarrow> 'a list \<Rightarrow> nat" where
  "nruns lt [] = 0"
| "nruns lt [x] = 1"
| "nruns lt (x # y # zs) = (if lt y x then 1 else 0) + nruns lt (y # zs)"

lemma split_run_append: "split_run lt x ys = (r, s) \<Longrightarrow> r @ s = x # ys \<and> r \<noteq> [] \<and> hd r = x"
  by (induction lt x ys arbitrary: r s rule: split_run.induct) (auto split: if_splits prod.splits)

lemma split_run_length: "length (snd (split_run lt x ys)) \<le> length ys"
  by (induction lt x ys rule: split_run.induct) (auto split: prod.splits)

function sort_pass :: "('a \<Rightarrow> 'a \<Rightarrow> bool) \<Rightarrow> 'a list \<Rightarrow> nat \<times> 'a list" where
  "sort_pass lt [] = (0, [])"
| "sort_pass lt (x # xs) = (case split_run lt x xs of (r1, s1) \<Rightarrow>
     (case s1 of [] \<Rightarrow> (1, x # xs)
      | y # ys \<Rightarrow> (case split_run lt y ys of (r2, s2) \<Rightarrow>
          (case sort_pass lt s2 of (c, out) \<Rightarrow> (c + 1, merge_runs lt r1 r2 @ out)))))"
  by pat_completeness auto
termination
proof (relation "measure (\<lambda>(lt, xs). length xs)", goal_cases)
  case (2 lt x xs r1 s1 y ys r2 s2)
  then show ?case
    using split_run_length [of lt x xs] split_run_length [of lt y ys]
    by (simp add: prod_eq_iff) (metis Suc_leD le_imp_less_Suc le_trans length_Cons snd_conv)
qed simp

lemma split_run_sorted: "split_run lt x ys = (r, s) \<Longrightarrow> sorted_adj lt r"
proof (induction lt x ys arbitrary: r s rule: split_run.induct)
  case (2 lt x y ys)
  show ?case
  proof (cases "lt y x")
    case False
    with "2.prems" obtain r' where r': "split_run lt y ys = (r', s)" "r = x # r'"
      by (auto split: prod.splits)
    then obtain r'' where "r' = y # r''" using split_run_append [OF r'(1)] by (cases r') auto
    then show ?thesis using "2.IH" False r' by auto
  qed (use "2.prems" in auto)
qed simp

lemma split_run_nruns: "split_run lt x ys = (r, s) \<Longrightarrow> nruns lt (x # ys) = 1 + nruns lt s"
  by (induction lt x ys arbitrary: r s rule: split_run.induct) (auto split: if_splits prod.splits)

lemma mset_merge_runs: "mset (merge_runs lt as bs) = mset as + mset bs"
  by (induction lt as bs rule: merge_runs.induct) auto

lemma merge_runs_hd: "merge_runs lt as bs = z # zs \<Longrightarrow> (as \<noteq> [] \<and> z = hd as) \<or> (bs \<noteq> [] \<and> z = hd bs)"
  by (cases as; cases bs) (auto split: if_splits)

lemma sorted_adj_Cons: "sorted_adj lt (x # xs) \<longleftrightarrow> (xs = [] \<or> \<not> lt (hd xs) x \<and> sorted_adj lt xs)"
  by (cases xs) auto

lemma sort_pass_simps2:
  "split_run lt x xs = (r, []) \<Longrightarrow> sort_pass lt (x # xs) = (1, x # xs)"
  "split_run lt x xs = (r1, y # ys) \<Longrightarrow> split_run lt y ys = (r2, s2) \<Longrightarrow>
     sort_pass lt (x # xs) = (fst (sort_pass lt s2) + 1, merge_runs lt r1 r2 @ snd (sort_pass lt s2))"
  by (simp_all add: sort_pass.simps(2) split: prod.splits)

declare sort_pass.simps(2) [simp del]

lemma runs_induct [case_names Nil one two]:
  assumes "P []"
    and "\<And>x xs r. split_run lt x xs = (r, []) \<Longrightarrow> P (x # xs)"
    and "\<And>x xs r1 y ys r2 s2. split_run lt x xs = (r1, y # ys) \<Longrightarrow> split_run lt y ys = (r2, s2) \<Longrightarrow>
      P s2 \<Longrightarrow> P (x # xs)"
  shows "P xs"
proof (induction xs rule: length_induct)
  case (1 xs)
  show ?case
  proof (cases xs)
    case (Cons x ys)
    obtain r1 s1 where s1: "split_run lt x ys = (r1, s1)" by fastforce
    show ?thesis
    proof (cases s1)
      case (Cons y zs)
      obtain r2 s2 where s2: "split_run lt y zs = (r2, s2)" by fastforce
      have "length s2 < length xs"
        using split_run_length [of lt x ys] split_run_length [of lt y zs] s1 s2 Cons \<open>xs = x # ys\<close> by simp
      then show ?thesis using assms(3) s1 s2 Cons 1 \<open>xs = x # ys\<close> by blast
    qed (use assms(2) s1 Cons in blast)
  qed (use assms(1) in blast)
qed

lemma merge_induct [case_names 1 2 3]:
  assumes "\<And>bs. P [] bs" and "\<And>a as. P (a # as) []"
    and "\<And>a as b bs. P as (b # bs) \<Longrightarrow> P (a # as) bs \<Longrightarrow> P (a # as) (b # bs)"
  shows "P as bs"
proof (induction "length as + length bs" arbitrary: as bs rule: less_induct)
  case less
  then show ?case by (cases as; cases bs) (auto intro!: assms)
qed

lemma sorted_merge_runs:
  assumes asym: "asymp lt"
  shows "sorted_adj lt as \<Longrightarrow> sorted_adj lt bs \<Longrightarrow> sorted_adj lt (merge_runs lt as bs)"
  using asym
proof (induction lt as bs rule: merge_runs.induct)
  case (3 lt a as b bs)
  have tails: "sorted_adj lt as" "sorted_adj lt bs" using "3.prems" by (cases as; cases bs; auto)+
  show ?case
  proof (cases "lt b a")
    case True
    then have "sorted_adj lt (merge_runs lt (a # as) bs)" using "3.IH"(2) "3.prems" tails by blast
    moreover have "\<not> lt (hd (merge_runs lt (a # as) bs)) b"
      using True "3.prems" by (cases bs) (auto dest: asympD)
    ultimately show ?thesis using True by (simp add: sorted_adj_Cons)
  next
    case False
    then have "sorted_adj lt (merge_runs lt as (b # bs))" using "3.IH"(1) "3.prems" tails by blast
    moreover have "\<not> lt (hd (merge_runs lt as (b # bs))) a"
      using False "3.prems"(1) by (cases as) auto
    ultimately show ?thesis using False by (simp add: sorted_adj_Cons)
  qed
qed auto

lemma sort_pass_mset: "mset (snd (sort_pass lt xs)) = mset xs"
proof (induction xs rule: runs_induct [of _ lt])
  case (two x xs r1 y ys r2 s2)
  have "mset (x # xs) = mset r1 + (mset r2 + mset s2)"
    using split_run_append [OF two(1)] split_run_append [OF two(2)] by (metis mset_append)
  then show ?case using two by (simp add: sort_pass_simps2(2) mset_merge_runs)
qed (simp_all add: sort_pass_simps2(1))

lemma nruns_append: "nruns lt (xs @ ys) \<le> nruns lt xs + nruns lt ys"
proof (induction xs)
  case (Cons x xs)
  then show ?case by (cases xs; cases ys) auto
qed simp

lemma nruns_sorted: "sorted_adj lt xs \<longleftrightarrow> nruns lt xs \<le> 1"
proof (induction lt xs rule: nruns.induct)
  case (3 lt x y zs)
  have "nruns lt (y # zs) \<ge> 1" by (induction zs arbitrary: y) auto
  with 3 show ?case by auto
qed auto

lemma sort_pass_count: "2 * fst (sort_pass lt xs) \<le> nruns lt xs + 1"
proof (induction xs rule: runs_induct [of _ lt])
  case (two x xs r1 y ys r2 s2)
  then show ?case
    using split_run_nruns [OF two(1)] split_run_nruns [OF two(2)] by (simp add: sort_pass_simps2(2))
qed (auto simp: sort_pass_simps2(1) dest: split_run_nruns)

lemma sort_pass_runs:
  fixes xs
  assumes asym: "asymp lt"
  shows "nruns lt (snd (sort_pass lt xs)) \<le> fst (sort_pass lt xs)"
proof (induction xs rule: runs_induct [of _ lt])
  case (two x xs r1 y ys r2 s2)
  have "sorted_adj lt (merge_runs lt r1 r2)"
    by (rule sorted_merge_runs [OF asym split_run_sorted [OF two(1)] split_run_sorted [OF two(2)]])
  then show ?case
    using two nruns_append [of lt "merge_runs lt r1 r2" "snd (sort_pass lt s2)"]
    by (simp add: sort_pass_simps2(2) nruns_sorted)
qed (auto simp: sort_pass_simps2(1) dest: split_run_nruns)

section \<open>The sorting loops on the heap\<close>

lemma same_on_trans: "same_on A h h1 \<Longrightarrow> same_on A h1 h2 \<Longrightarrow> same_on A h h2"
  by (auto simp: same_on_def)

lemma same_on_mono: "same_on A h h' \<Longrightarrow> B \<subseteq> A \<Longrightarrow> same_on B h h'"
  by (auto simp: same_on_def)

lemma list_cells_mset: "mset xs = mset ys \<Longrightarrow> set (list_cells l xs) = set (list_cells l ys)"
  by (auto simp: list_cells_def dest: mset_eq_setD)

lemma is_sorted_loop_at:
  "list_at h l (xs @ a # as @ zs) \<Longrightarrow>
     is_sorted_loop h lt a (cursor l zs) = Some (Inr (sorted_adj lt (a # as)))"
proof (induction as arbitrary: xs a)
  case Nil
  then show ?case using list_at_interior [of h l xs a zs] by (subst is_sorted_loop.simps) simp
next
  case (Cons b as)
  have b: "list_at h l ((xs @ [a]) @ b # as @ zs)" using Cons.prems by simp
  have "b \<noteq> cursor l zs"
    using b by (cases zs) (auto simp: list_at_def list_cells_def)
  moreover have "list_next h a = Inr b" "list_prev h b = Inr a"
    using list_at_interior [of h l xs a "b # as @ zs"] list_at_interior [OF b] Cons.prems by auto
  ultimately show ?case using Cons.IH [OF b] by (subst is_sorted_loop.simps) simp
qed

lemma cursor_inj:
  "list_at h l (xs @ ys @ zs) \<Longrightarrow> cursor l (ys @ zs) = cursor l zs \<longleftrightarrow> ys = []"
  by (cases ys; cases zs) (auto simp: list_at_def list_cells_def)

lemma is_sorted_at:
  assumes "list_at h l (xs @ as @ zs)"
  shows "is_sorted h lt (cursor l (as @ zs)) (cursor l zs) = Some (Inr (sorted_adj lt as))"
proof (cases as)
  case (Cons a bs)
  then show ?thesis
    using assms cursor_inj [of h l xs as zs] is_sorted_loop_at [of h l xs a bs zs] by (simp add: is_sorted_def)
qed (simp add: is_sorted_def)

lemma find_end_of_run_at:
  assumes "list_at h l (xs @ a # as)"
  shows "find_end_of_run h lt a (tail_of l) = Some (Inr (cursor l (snd (split_run lt a as))))"
proof -
  have "find_end_of_run_loop h lt a (tail_of l) = Some (Inr (cursor l (snd (split_run lt a as))))"
    using assms
  proof (induction as arbitrary: xs a)
    case Nil
    then show ?case using list_at_interior [of h l xs a "[]"] by (subst find_end_of_run_loop.simps) simp
  next
    case (Cons b as)
    have b: "list_at h l ((xs @ [a]) @ b # as)" using Cons.prems by simp
    have "b \<noteq> tail_of l" "list_next h a = Inr b" "list_prev h b = Inr a"
      using cursor_eq_tail [OF b] list_at_interior [OF Cons.prems] list_at_interior [OF b] by auto
    then show ?case using Cons.IH [OF b] by (subst find_end_of_run_loop.simps) (simp split: prod.splits)
  qed
  then show ?thesis
    using list_at_interior [OF assms] cursor_eq_tail [OF assms] list_at_nonnull [of h l "xs @ a # as" "[]"] assms
    by (simp add: find_end_of_run_def)
qed

lemma inplace_merge_loop_at:
  assumes "list_at h l (xs @ as @ bs @ zs)"
  shows "\<exists>h'. inplace_merge_loop h lt (cursor l (as @ bs @ zs)) (cursor l (bs @ zs)) (cursor l zs) = Some (Inr h')
    \<and> list_at h' l (xs @ merge_runs lt as bs @ zs)
    \<and> same_on (- set (list_cells l (xs @ as @ bs @ zs))) h h'"
  using assms
proof (induction lt as bs arbitrary: h xs rule: merge_runs.induct)
  case (1 lt bs)
  then show ?case by (subst inplace_merge_loop.simps) (simp add: same_on_def)
next
  case (2 lt a as)
  then show ?case by (subst inplace_merge_loop.simps) (simp add: same_on_def)
next
  case (3 lt a as b bs)
  note at = "3.prems"
  have ne: "a \<noteq> b" "b \<noteq> cursor l zs"
    using at by (auto simp: list_at_def list_cells_def) (cases zs; auto)
  show ?case
  proof (cases "lt b a")
    case False
    have at': "list_at h l ((xs @ [a]) @ as @ (b # bs) @ zs)" using at by simp
    have "list_next h a = Inr (cursor l (as @ b # bs @ zs))" using list_at_interior(5) [of h l xs a] at by simp
    then show ?thesis
      using "3.IH"(1) [OF _ at'] False ne by (subst inplace_merge_loop.simps) simp
  next
    case True
    have b: "list_at h l ((xs @ a # as) @ b # bs @ zs)" using at by simp
    have nx: "list_next h b = Inr (cursor l (bs @ zs))" using list_at_interior(5) [OF b] .
    have pv: "list_prev h (cursor l (bs @ zs)) = Inr b"
      using list_at_before(2) [of h l "xs @ a # as @ [b]" "bs @ zs"] at by (simp add: rcursor_def)
    obtain h1 where h1: "list_splice h a b (cursor l (bs @ zs)) = Inr h1"
        "list_at h1 l (xs @ [b] @ (a # as) @ bs @ zs)" "same_on (- set (list_cells l (xs @ (a # as) @ (b # bs) @ zs))) h h1"
      using list_splice_same [of h l xs "a # as" "[b]" "bs @ zs"] at by auto
    obtain h2 where "inplace_merge_loop h1 lt (cursor l ((a # as) @ bs @ zs)) (cursor l (bs @ zs)) (cursor l zs) = Some (Inr h2)"
        "list_at h2 l ((xs @ [b]) @ merge_runs lt (a # as) bs @ zs)"
        "same_on (- set (list_cells l ((xs @ [b]) @ (a # as) @ bs @ zs))) h1 h2"
      using "3.IH"(2) [of "h1" "xs @ [b]"] True h1(2) by auto
    then show ?thesis
      using True ne nx pv h1 by (subst inplace_merge_loop.simps) (auto simp: same_on_def list_cells_def)
  qed
qed

lemma inplace_merge_at:
  assumes at: "list_at h l (xs @ as @ bs @ zs)" and ne: "as \<noteq> []" "bs \<noteq> []"
    and srt: "sorted_adj lt as" "sorted_adj lt bs"
  shows "\<exists>h'. inplace_merge h lt (hd as) (hd bs) (cursor l zs) = Some (Inr h')
    \<and> list_at h' l (xs @ merge_runs lt as bs @ zs)
    \<and> same_on (- set (list_cells l (xs @ as @ bs @ zs))) h h'"
proof -
  have c: "cursor l (as @ bs @ zs) = hd as" "cursor l (bs @ zs) = hd bs"
    using ne by (simp_all add: cursor_def)
  have "hd as \<noteq> NULL" "hd bs \<noteq> NULL" "cursor l zs \<noteq> NULL"
    using list_at_nonnull(1) [of h l xs "as @ bs @ zs"] list_at_nonnull(1) [of h l "xs @ as" "bs @ zs"]
      list_at_nonnull(1) [of h l "xs @ as @ bs" zs] at c by auto
  moreover have "is_sorted h lt (hd as) (hd bs) = Some (Inr True)"
    using is_sorted_at [of h l xs as "bs @ zs" lt] at srt c by simp
  moreover have "is_sorted h lt (hd bs) (cursor l zs) = Some (Inr True)"
    using is_sorted_at [of h l "xs @ as" bs zs lt] at srt c by simp
  ultimately show ?thesis
    using inplace_merge_loop_at [OF at, of lt] c by (simp add: inplace_merge_def)
qed

lemma list_sort_pass_at:
  assumes "list_at h l (xs @ ys)"
  shows "\<exists>h'. list_sort_pass h lt (cursor l ys) (tail_of l) c = Some (Inr (c + fst (sort_pass lt ys), h'))
    \<and> list_at h' l (xs @ snd (sort_pass lt ys)) \<and> same_on (- set (list_cells l (xs @ ys))) h h'"
  using assms
proof (induction ys arbitrary: h xs c rule: runs_induct [of _ lt])
  case Nil
  then show ?case by (subst list_sort_pass.simps) (simp add: same_on_def)
next
  case (one x ys r)
  then show ?case
    using cursor_eq_tail [OF one(2)] find_end_of_run_at [OF one(2), of lt]
    by (subst list_sort_pass.simps) (simp add: sort_pass_simps2(1) same_on_def)
next
  case (two x ys r1 y zs r2 s2)
  note r1 = split_run_append [OF two(1)] and r2 = split_run_append [OF two(2)]
  have at: "list_at h l (xs @ r1 @ r2 @ s2)" and at2: "list_at h l ((xs @ r1) @ y # zs)"
    using two(4) unfolding r1 [THEN conjunct1, symmetric] by (simp_all add: r2)
  obtain h1 where h1: "inplace_merge h lt x y (cursor l s2) = Some (Inr h1)"
      "list_at h1 l (xs @ merge_runs lt r1 r2 @ s2)" "same_on (- set (list_cells l (xs @ r1 @ r2 @ s2))) h h1"
    using inplace_merge_at [OF at, of lt] r1 r2 split_run_sorted [OF two(1)] split_run_sorted [OF two(2)] by auto
  obtain h2 where h2: "list_sort_pass h1 lt (cursor l s2) (tail_of l) (c + 1) =
        Some (Inr (c + 1 + fst (sort_pass lt s2), h2))"
      "list_at h2 l ((xs @ merge_runs lt r1 r2) @ snd (sort_pass lt s2))"
      "same_on (- set (list_cells l ((xs @ merge_runs lt r1 r2) @ s2))) h1 h2"
    using two(3) [of h1 "xs @ merge_runs lt r1 r2" "c + 1"] h1(2) by auto
  have sets: "set (list_cells l (xs @ r1 @ r2 @ s2)) = set (list_cells l (xs @ x # ys))"
      "set (list_cells l ((xs @ merge_runs lt r1 r2) @ s2)) = set (list_cells l (xs @ r1 @ r2 @ s2))"
    by (simp add: r2 flip: r1 [THEN conjunct1]) (rule list_cells_mset, simp add: mset_merge_runs)
  have "list_sort_pass h lt x (tail_of l) c = list_sort_pass h1 lt (cursor l s2) (tail_of l) (c + 1)"
    using cursor_eq_tail [OF two(4)] cursor_eq_tail [OF at2] find_end_of_run_at [OF two(4), of lt]
      find_end_of_run_at [OF at2, of lt] two(1,2) h1(1)
    by (subst list_sort_pass.simps) simp
  then show ?case
    using h2 same_on_trans [OF h1(3)] sets two(1,2) by (simp add: sort_pass_simps2(2))
qed

lemma list_sort_loop_at:
  assumes asym: "asymp lt" and at: "list_at h l xs"
  shows "\<exists>h' ys. list_sort_loop h lt l = Some (Inr h') \<and> list_at h' l ys
    \<and> (\<exists>n. ys = ((snd \<circ> sort_pass lt) ^^ n) xs) \<and> sorted_adj lt ys \<and> same_on (- set (list_cells l xs)) h h'"
  using at
proof (induction "nruns lt xs" arbitrary: h xs rule: less_induct)
  case less
  let ?c = "fst (sort_pass lt xs)" and ?ys = "snd (sort_pass lt xs)"
  obtain h1 where h1: "list_sort_pass h lt (cursor l xs) (tail_of l) 0 = Some (Inr (?c, h1))"
      "list_at h1 l ?ys" "same_on (- set (list_cells l xs)) h h1"
    using list_sort_pass_at [of h l "[]" xs lt 0] less.prems by auto
  have step: "list_sort_loop h lt l = (if ?c > 1 then list_sort_loop h1 lt l else Some (Inr h1))"
    using h1(1) less.prems by (subst list_sort_loop.simps) (simp add: list_at_ends)
  have ms: "mset ?ys = mset xs" by (rule sort_pass_mset)
  show ?case
  proof (cases "?c > 1")
    case True
    then have "nruns lt ?ys < nruns lt xs"
      using sort_pass_runs [OF asym, of xs] sort_pass_count [of lt xs] by linarith
    from less.hyps [OF this h1(2)] obtain h' ys n where
        "list_sort_loop h1 lt l = Some (Inr h')" "list_at h' l ys" "sorted_adj lt ys"
        "ys = ((snd \<circ> sort_pass lt) ^^ Suc n) xs" "same_on (- set (list_cells l xs)) h1 h'"
      using list_cells_mset [OF ms, of l] by (auto simp: funpow_swap1)
    then show ?thesis using step True same_on_trans [OF h1(3)] by metis
  next
    case False
    then have "sorted_adj lt ?ys" using sort_pass_runs [OF asym, of xs] nruns_sorted [of lt ?ys] by simp
    moreover have "?ys = ((snd \<circ> sort_pass lt) ^^ 1) xs" by simp
    ultimately show ?thesis using step False h1 by metis
  qed
qed

lemma list_sort_at:
  assumes asym: "asymp lt" and at: "list_at h l xs"
  shows "\<exists>h' ys. list_sort h l lt = Some (Inr h') \<and> list_at h' l ys
    \<and> (\<exists>n. ys = ((snd \<circ> sort_pass lt) ^^ n) xs) \<and> sorted_adj lt ys
    \<and> same_on (- set (list_cells l xs)) h h'"
proof -
  obtain h' ys where h': "list_sort_loop h lt l = Some (Inr h')" "list_at h' l ys"
      "\<exists>n. ys = ((snd \<circ> sort_pass lt) ^^ n) xs"
      "sorted_adj lt ys" "same_on (- set (list_cells l xs)) h h'"
    using list_sort_loop_at [OF asym at] by blast
  have "is_sorted h' lt (cursor l ys) (tail_of l) = Some (Inr True)"
    using is_sorted_at [of h' l "[]" ys "[]" lt] h' by simp
  then show ?thesis
    using h' list_at_nonnull(3) [of h l "[]" xs] at by (auto simp: list_sort_def list_at_ends)
qed

section \<open>Strict weak orders\<close>

text \<open>The contract of a \<open>list_less_func\<close>: the comparison is a strict weak order.\<close>

locale strict_weak_order =
  fixes lt :: "'a \<Rightarrow> 'a \<Rightarrow> bool"
  assumes lt_asym: "lt x y \<Longrightarrow> \<not> lt y x"
    and nlt_trans: "\<not> lt x y \<Longrightarrow> \<not> lt y z \<Longrightarrow> \<not> lt x z"
begin

lemma asymp_lt: "asymp lt"
  by (rule asympI) (rule lt_asym)

lemma sorted_adj_sorted_wrt: "sorted_adj lt xs \<longleftrightarrow> sorted_wrt (\<lambda>x y. \<not> lt y x) xs"
proof (induction xs)
  case (Cons x xs)
  then show ?case by (cases xs) (auto dest: nlt_trans)
qed simp

lemma filter_equiv_merge_runs:
  "sorted_adj lt as \<Longrightarrow> sorted_adj lt bs \<Longrightarrow>
     filter (\<lambda>y. \<not> lt x y \<and> \<not> lt y x) (merge_runs lt as bs) =
     filter (\<lambda>y. \<not> lt x y \<and> \<not> lt y x) as @ filter (\<lambda>y. \<not> lt x y \<and> \<not> lt y x) bs"
proof (induction as bs rule: merge_induct)
  case (3 a as b bs)
  show ?case
  proof (cases "lt b a")
    case True
    have "\<not> lt c a" if "c \<in> set (a # as)" for c
      using that "3.prems"(1) lt_asym by (auto simp: sorted_adj_sorted_wrt)
    then have "filter (\<lambda>y. \<not> lt x y \<and> \<not> lt y x) (a # as) = []" if "\<not> lt x b" "\<not> lt b x"
      using that True nlt_trans [of b x] nlt_trans [of b _ a] unfolding filter_empty_conv by blast
    then show ?thesis using 3 True by (auto simp: sorted_adj_Cons)
  next
    case False
    then show ?thesis using 3 by (auto simp: sorted_adj_Cons)
  qed
qed simp_all

lemma sort_pass_stable:
  "filter (\<lambda>y. \<not> lt x y \<and> \<not> lt y x) (snd (sort_pass lt xs)) = filter (\<lambda>y. \<not> lt x y \<and> \<not> lt y x) xs"
proof (induction xs rule: runs_induct [of _ lt])
  case (two a as r1 b bs r2 s2)
  have "a # as = r1 @ r2 @ s2"
    using split_run_append [OF two(1)] split_run_append [OF two(2)] by simp
  then show ?case
    using two(3) filter_equiv_merge_runs [OF split_run_sorted [OF two(1)] split_run_sorted [OF two(2)]]
    unfolding sort_pass_simps2(2) [OF two(1,2)] by simp
qed (simp_all add: sort_pass_simps2(1))

lemma after_greater:
  assumes "sorted_wrt (\<lambda>x y. \<not> lt y x) xs" "z \<in> set (dropWhile (\<lambda>y. \<not> lt e y) xs)"
  shows "lt e z"
  using assms
proof (induction xs)
  case (Cons x xs)
  then show ?case using nlt_trans [of e z x] by (auto split: if_splits)
qed simp

lemma sort_passes:
  "mset (((snd \<circ> sort_pass lt) ^^ n) xs) = mset xs"
  "filter (\<lambda>y. \<not> lt x y \<and> \<not> lt y x) (((snd \<circ> sort_pass lt) ^^ n) xs) = filter (\<lambda>y. \<not> lt x y \<and> \<not> lt y x) xs"
  by (induction n) (simp_all add: sort_pass_mset sort_pass_stable)

end

section \<open>Ordered insertion, extrema, duplicates, reversal\<close>

lemma insert_ordered_loop_at:
  "list_at h l (xs @ ys) \<Longrightarrow> insert_ordered_loop h lt e (cursor l ys) (tail_of l) =
     Some (Inr (cursor l (dropWhile (\<lambda>y. \<not> lt e y) ys)))"
proof (induction ys arbitrary: xs)
  case Nil
  then show ?case by (subst insert_ordered_loop.simps) simp
next
  case (Cons y ys)
  have "list_next h y = Inr (cursor l ys)" "y \<noteq> tail_of l"
    using list_at_interior [OF Cons.prems] cursor_eq_tail [OF Cons.prems] by auto
  then show ?case
    using Cons.IH [of "xs @ [y]"] Cons.prems by (subst insert_ordered_loop.simps) simp
qed

lemma list_insert_ordered_at:
  assumes at: "list_at h l xs" and e: "e \<noteq> NULL" "e \<notin> set (list_cells l xs)"
  shows "\<exists>h'. list_insert_ordered h l e lt = Some (Inr h')
    \<and> list_at h' l (takeWhile (\<lambda>y. \<not> lt e y) xs @ e # dropWhile (\<lambda>y. \<not> lt e y) xs)
    \<and> same_on (- insert e (set (list_cells l xs))) h h'"
proof -
  have "l \<noteq> NULL" using list_at_nonnull(3) [of h l "[]" xs] at by simp
  then show ?thesis
    using list_insert_at [of h l "takeWhile (\<lambda>y. \<not> lt e y) xs" "dropWhile (\<lambda>y. \<not> lt e y) xs" e]
      insert_ordered_loop_at [of h l "[]" xs lt e] at e
    by (simp add: list_insert_ordered_def list_at_ends)
qed

fun best :: "('a \<Rightarrow> 'a \<Rightarrow> bool) \<Rightarrow> 'a \<Rightarrow> 'a list \<Rightarrow> 'a" where
  "best better m [] = m"
| "best better m (x # xs) = best better (if better m x then x else m) xs"

lemma list_best_loop_at:
  "list_at h l (xs @ ys) \<Longrightarrow>
     list_best_loop h better m (cursor l ys) (tail_of l) = Some (Inr (best better m ys))"
proof (induction ys arbitrary: xs m)
  case Nil
  then show ?case by (subst list_best_loop.simps) simp
next
  case (Cons y ys)
  have "list_next h y = Inr (cursor l ys)" "y \<noteq> tail_of l"
    using list_at_interior [OF Cons.prems] cursor_eq_tail [OF Cons.prems] by auto
  then show ?case
    using Cons.IH [of "xs @ [y]"] Cons.prems by (subst list_best_loop.simps) simp
qed

lemma list_max_min_at:
  assumes "list_at h l (x # xs)"
  shows "list_max h l lt = Some (Inr (best lt x xs))"
    "list_min h l lt = Some (Inr (best (\<lambda>m e. lt e m) x xs))"
proof -
  have "list_next h x = Inr (cursor l xs)" "x \<noteq> tail_of l"
    using list_at_interior [of h l "[]" x xs] cursor_eq_tail [of h l "[]" "x # xs"] assms by auto
  then show "list_max h l lt = Some (Inr (best lt x xs))"
      "list_min h l lt = Some (Inr (best (\<lambda>m e. lt e m) x xs))"
    using list_best_loop_at [of h l "[x]" xs] assms
    by (simp_all add: list_max_def list_min_def list_at_ends)
qed

lemma list_max_min_empty:
  assumes "list_at h l []"
  shows "list_max h l lt = Some (Inr (tail_of l))" "list_min h l lt = Some (Inr (tail_of l))"
  using assms by (simp_all add: list_max_def list_min_def list_at_ends)

context strict_weak_order
begin

lemma best_lt:
  "best lt m xs \<in> set (m # xs) \<and> (\<forall>x \<in> set (m # xs). \<not> lt (best lt m xs) x)"
proof (induction xs arbitrary: m)
  case Nil
  then show ?case using lt_asym by auto
next
  case (Cons x xs)
  let ?m = "if lt m x then x else m"
  have IH: "best lt ?m xs \<in> set (?m # xs)" "\<forall>y \<in> set (?m # xs). \<not> lt (best lt ?m xs) y"
    using Cons.IH [of ?m] by auto
  moreover have "\<not> lt ?m m" "\<not> lt ?m x" using lt_asym by auto
  ultimately have "\<not> lt (best lt ?m xs) m" "\<not> lt (best lt ?m xs) x"
    using nlt_trans [of "best lt ?m xs" ?m] by (meson list.set_intros(1))+
  with IH show ?case by (auto split: if_splits)
qed

text \<open>The first of several maxima is returned.\<close>

lemma best_lt_first: "\<exists>ys zs. m # xs = ys @ best lt m xs # zs \<and> (\<forall>y \<in> set ys. lt y (best lt m xs))"
proof (induction xs arbitrary: m)
  case (Cons x xs)
  show ?case
  proof (cases "lt m x")
    case True
    obtain ys zs where yz: "x # xs = ys @ best lt x xs # zs" "\<forall>y \<in> set ys. lt y (best lt x xs)"
      using Cons.IH by blast
    have "lt m (best lt x xs)" using True best_lt [of x xs] nlt_trans by (meson list.set_intros(1))
    moreover have "best lt m (x # xs) = best lt x xs" using True by simp
    ultimately have "m # x # xs = (m # ys) @ best lt m (x # xs) # zs"
        "\<forall>y \<in> set (m # ys). lt y (best lt m (x # xs))" using yz by (simp_all only: append_Cons) simp
    then show ?thesis by blast
  next
    case False
    obtain ys zs where yz: "m # xs = ys @ best lt m xs # zs" "\<forall>y \<in> set ys. lt y (best lt m xs)"
      using Cons.IH by blast
    show ?thesis
    proof (cases ys)
      case Nil
      then have "m # x # xs = [] @ best lt m (x # xs) # x # xs" using yz False by auto
      then show ?thesis by (metis empty_iff empty_set)
    next
      case (Cons y ys')
      then have "lt x (best lt m xs)" using yz False nlt_trans by fastforce
      then have "m # x # xs = (m # x # ys') @ best lt m (x # xs) # zs"
          "\<forall>y \<in> set (m # x # ys'). lt y (best lt m (x # xs))" using yz False Cons by auto
      then show ?thesis by blast
    qed
  qed
qed (rule exI [of _ "[]"], rule exI [of _ "[]"], simp)

lemma sorted_insert_ordered:
  assumes "sorted_wrt (\<lambda>x y. \<not> lt y x) xs"
  shows "sorted_wrt (\<lambda>x y. \<not> lt y x) (takeWhile (\<lambda>y. \<not> lt e y) xs @ e # dropWhile (\<lambda>y. \<not> lt e y) xs)"
  using assms
proof (induction xs)
  case (Cons x xs)
  have "set (takeWhile (\<lambda>y. \<not> lt e y) xs @ e # dropWhile (\<lambda>y. \<not> lt e y) xs) = insert e (set xs)"
    by (metis Un_insert_right list.simps(15) set_append takeWhile_dropWhile_id)
  moreover have "\<not> lt y e" if "lt e x" "y \<in> set (x # xs)" for y
    using that Cons.prems lt_asym [of e x] nlt_trans [of y x e] by auto
  ultimately show ?case using Cons by auto
qed simp

end

subsection \<open>Reversal\<close>

definition swapped :: "list_heap \<Rightarrow> ptr set \<Rightarrow> list_heap" where
  "swapped h A = \<lparr>prev_of = (\<lambda>x. if x \<in> A then next_of h x else prev_of h x),
     next_of = (\<lambda>x. if x \<in> A then prev_of h x else next_of h x)\<rparr>"

lemma swap_swapped: "x \<notin> A \<Longrightarrow> swap_prev_next (swapped h A) x x = swapped h (insert x A)"
  by (auto simp: swap_prev_next_def swapped_def set_prev_def set_next_def Let_def fun_eq_iff)

lemma list_reverse_loop_at:
  "list_at h l (xs @ ys) \<Longrightarrow> list_reverse_loop (swapped h (set xs)) (cursor l ys) (tail_of l) =
     Some (Inr (swapped h (set (xs @ ys))))"
proof (induction ys arbitrary: xs)
  case Nil
  then show ?case by (subst list_reverse_loop.simps) simp
next
  case (Cons y ys)
  have "y \<notin> set xs" "y \<noteq> tail_of l" "next_of h y = cursor l ys"
    using Cons.prems cursor_eq_tail [OF Cons.prems] list_at_interior [OF Cons.prems]
    by (auto simp: list_at_def list_cells_def)
  then show ?case
    using Cons.IH [of "xs @ [y]"] Cons.prems
    by (subst list_reverse_loop.simps) (simp add: swap_swapped, simp add: swapped_def)
qed

lemma links_rev: "links \<lparr>prev_of = next_of h, next_of = prev_of h\<rparr> (rev xs) \<longleftrightarrow> links h xs"
proof (induction h xs rule: links.induct)
  case (1 h x y zs)
  then show ?case
    using links_append [of "\<lparr>prev_of = next_of h, next_of = prev_of h\<rparr>" "rev zs" y "[x]"] by auto
qed simp_all

lemma list_reverse_at:
  assumes at: "list_at h l xs"
  shows "\<exists>h'. list_reverse h l = Some (Inr h') \<and> list_at h' l (rev xs)
    \<and> same_on (- set (list_cells l xs)) h h'"
proof (cases "xs = []")
  case True
  then show ?thesis using at by (auto simp: list_reverse_def list_at_ends same_on_def)
next
  case False
  let ?a = "head_of l" and ?t = "tail_of l" and ?f = "hd xs" and ?g = "last xs"
  have D: "distinct (?a # xs @ [?t])" and N: "NULL \<notin> set (?a # xs @ [?t])"
    and E: "prev_of h ?a = NULL" "next_of h ?t = NULL" and L: "links h (?a # xs @ [?t])"
    using at by (auto simp: list_at_def list_cells_def)
  have lk: "next_of h ?a = ?f" "prev_of h ?f = ?a" "next_of h ?g = ?t" "prev_of h ?t = ?g" "links h xs"
    using L False links_join [of "[?a]" "xs @ [?t]" h] links_join [of xs "[?t]" h] by auto
  define h' where "h' = \<lparr>
    prev_of = (prev_of (swapped h (set xs)))(?t := ?f, ?g := ?a),
    next_of = (next_of (swapped h (set xs)))(?a := ?g, ?f := ?t)\<rparr>"
  have "cursor l xs = ?f" using False by (simp add: cursor_def)
  moreover have "swapped h {} = h" by (simp add: swapped_def)
  ultimately have "list_reverse_loop h ?f ?t = Some (Inr (swapped h (set xs)))"
    using list_reverse_loop_at [of h l "[]" xs] at by simp
  moreover have fg: "?f \<in> set xs" "?g \<in> set xs" using False by auto
  moreover have neq: "?f \<noteq> ?a" "?f \<noteq> ?t" "?g \<noteq> ?a" "?g \<noteq> ?t" "?a \<noteq> ?t" "?a \<notin> set xs" "?t \<notin> set xs"
    using D fg by auto
  ultimately have rev: "list_reverse h l = Some (Inr h')"
    using at False lk \<open>cursor l xs = ?f\<close>
    by (simp add: list_reverse_def list_at_ends Let_def h'_def swap_next_prev_def swap_prev_next_def
        swapped_def set_prev_def set_next_def)
  have "links h' (rev xs) \<longleftrightarrow> links \<lparr>prev_of = next_of h, next_of = prev_of h\<rparr> (rev xs)"
    by (rule links_keep) (use D False neq in \<open>auto simp: h'_def swapped_def last_rev hd_rev\<close>)
  then have "links h' (?a # rev xs @ [?t])"
    using lk(5) False neq links_rev [of h xs] links_join [of "[?a]" "rev xs @ [?t]" h'] links_join [of "rev xs" "[?t]" h']
    by (simp add: h'_def hd_rev last_rev)
  moreover have "prev_of h' ?a = NULL" "next_of h' ?t = NULL"
    using E neq by (simp_all add: h'_def swapped_def)
  ultimately have "list_at h' l (rev xs)"
    using D N by (simp add: list_at_def list_cells_def)
  moreover have "same_on (- set (list_cells l xs)) h h'"
    using fg by (auto simp: same_on_def h'_def swapped_def list_cells_def)
  ultimately show ?thesis using rev by blast
qed

subsection \<open>Removing adjacent duplicates\<close>

fun uniq :: "('a \<Rightarrow> 'a \<Rightarrow> bool) \<Rightarrow> 'a \<Rightarrow> 'a list \<Rightarrow> 'a list \<times> 'a list" where
  "uniq lt e [] = ([e], [])"
| "uniq lt e (y # ys) =
     (if \<not> lt e y \<and> \<not> lt y e then (fst (uniq lt e ys), y # snd (uniq lt e ys))
      else (e # fst (uniq lt y ys), snd (uniq lt y ys)))"

lemma list_unique_loop_at:
  assumes "list_at h l (xs @ e # ys)" and "list_at h d ds"
    and "set (list_cells l (xs @ e # ys)) \<inter> set (list_cells d ds) = {}"
  shows "\<exists>h'. list_unique_loop h lt (Some d) e (tail_of l) = Some (Inr h')
    \<and> list_at h' l (xs @ fst (uniq lt e ys)) \<and> list_at h' d (ds @ snd (uniq lt e ys))"
  using assms
proof (induction ys arbitrary: h xs e ds)
  case Nil
  then show ?case
    using list_at_interior [OF Nil(1)] by (subst list_unique_loop.simps) simp
next
  case (Cons y ys)
  note at = Cons.prems(1) and atd = Cons.prems(2) and dj = Cons.prems(3)
  have y: "list_at h l ((xs @ [e]) @ y # ys)" using at by simp
  have nx: "list_next h e = Inr y" "y \<noteq> tail_of l" "y \<noteq> NULL"
    using list_at_interior [OF at] cursor_eq_tail [OF y] list_at_interior [OF y] by auto
  show ?case
  proof (cases "\<not> lt e y \<and> \<not> lt y e")
    case True
    obtain h1 where h1: "list_remove h y = Inr (cursor l ys, h1)" "list_at h1 l (xs @ e # ys)"
        "same_on (- set (list_cells l (xs @ e # ys))) h h1"
      using list_remove_at [OF y] by auto
    have d1: "list_at h1 d ds"
      by (intro list_at_same_on [OF atd] same_on_mono [OF h1(3)]) (use dj in \<open>auto simp: list_cells_def\<close>)
    have "y \<notin> set (list_cells d ds)" using dj by (auto simp: list_cells_def)
    then obtain h2 where h2: "list_push_back h1 d y = Inr h2" "list_at h2 d (ds @ [y])"
        "same_on (- insert y (set (list_cells d ds))) h1 h2"
      using list_push_back_at [OF d1 nx(3)] by blast
    have "y \<notin> set (list_cells l (xs @ e # ys))" using at by (auto simp: list_at_def list_cells_def)
    then have dj2: "set (list_cells l (xs @ e # ys)) \<inter> set (list_cells d (ds @ [y])) = {}"
      using dj by (auto simp: list_cells_def)
    then have l2: "list_at h2 l (xs @ e # ys)"
      by (intro list_at_same_on [OF h1(2)] same_on_mono [OF h2(3)]) (auto simp: list_cells_def)
    show ?thesis
      using Cons.IH [OF l2 h2(2) dj2] True nx h1(1) h2(1) by (subst list_unique_loop.simps) simp
  next
    case False
    then show ?thesis
      using Cons.IH [OF y atd] dj nx by (subst list_unique_loop.simps) auto
  qed
qed

lemma list_unique_at:
  assumes "list_at h l (e # ys)" and "list_at h d ds"
    and "set (list_cells l (e # ys)) \<inter> set (list_cells d ds) = {}"
  shows "\<exists>h'. list_unique h l (Some d) lt = Some (Inr h')
    \<and> list_at h' l (fst (uniq lt e ys)) \<and> list_at h' d (ds @ snd (uniq lt e ys))"
  using list_unique_loop_at [of h l "[]" e ys d ds lt] list_at_nonnull(3) [of h l "[]" "e # ys"] assms
  by (simp add: list_unique_def list_at_ends)

lemma uniq_mset: "mset (fst (uniq lt e ys)) + mset (snd (uniq lt e ys)) = add_mset e (mset ys)"
  by (induction lt e ys rule: uniq.induct) auto

lemma uniq_adjacent:
  "successively (\<lambda>x y. lt x y \<or> lt y x) (fst (uniq lt e ys)) \<and> hd (fst (uniq lt e ys)) = e \<and> fst (uniq lt e ys) \<noteq> []"
  by (induction lt e ys rule: uniq.induct) (auto simp: successively_Cons)

section \<open>The comparison of the list tests\<close>

text \<open>\<open>value_less\<close> of tests/internal/list.c compares the values of the structures the two
  elements are embedded in; \<open>val\<close> gives the value stored around an element.\<close>

definition value_less :: "(ptr \<Rightarrow> int) \<Rightarrow> ptr \<Rightarrow> ptr \<Rightarrow> bool" where
  "value_less val a b \<longleftrightarrow> val a < val b"

interpretation vl: strict_weak_order "value_less val" for val
  by unfold_locales (auto simp: value_less_def)

section \<open>Properties\<close>

definition example_heap :: list_heap where
  "example_heap = \<lparr>
     prev_of = (\<lambda>_. 0)(40 := 100, 60 := 40, 20 := 60, 108 := 20),
     next_of = (\<lambda>_. 0)(100 := 40, 40 := 60, 60 := 20, 20 := 108)\<rparr>"

lemma example_list: "list_at example_heap 100 [40, 60, 20]"
  by (simp add: list_at_def list_cells_def head_of_def tail_of_def example_heap_def)

lemma example_list_fresh: "8 \<notin> set (list_cells 100 [40, 60, 20])"
  by (simp add: list_cells_def head_of_def tail_of_def)

text \<open>C8: \<open>list_sort\<close> terminates without a failed assertion on every well-formed list and
  every strict weak order, and leaves the same elements in the list, in nondecreasing order,
  with equivalent elements in their original order (the sort is stable), writing no cell
  outside the list.\<close>

theorem list_sort_correct:
  assumes "strict_weak_order lt" and "list_at h l xs"
  shows "\<exists>h' ys. list_sort h l lt = Some (Inr h') \<and> list_at h' l ys \<and> mset ys = mset xs
    \<and> sorted_wrt (\<lambda>x y. \<not> lt y x) ys
    \<and> (\<forall>x. filter (\<lambda>y. \<not> lt x y \<and> \<not> lt y x) ys = filter (\<lambda>y. \<not> lt x y \<and> \<not> lt y x) xs)
    \<and> same_on (- set (list_cells l xs)) h h'"
proof -
  obtain h' ys n where "list_sort h l lt = Some (Inr h')" "list_at h' l ys"
      "ys = ((snd \<circ> sort_pass lt) ^^ n) xs" "sorted_adj lt ys" "same_on (- set (list_cells l xs)) h h'"
    using list_sort_at [OF strict_weak_order.asymp_lt [OF assms(1)] assms(2)] by blast
  moreover have "mset ys = mset xs"
      "filter (\<lambda>y. \<not> lt x y \<and> \<not> lt y x) ys = filter (\<lambda>y. \<not> lt x y \<and> \<not> lt y x) xs" for x
    unfolding calculation(3) by (rule strict_weak_order.sort_passes [OF assms(1)])+
  ultimately show ?thesis
    using strict_weak_order.sorted_adj_sorted_wrt [OF assms(1)] by blast
qed

theorem list_sort_correct_witness:
  "\<exists>h' ys. list_sort example_heap 100 (value_less int) = Some (Inr h') \<and> list_at h' 100 ys
    \<and> mset ys = {#20, 40, 60#}"
proof -
  have "strict_weak_order (value_less int)" by unfold_locales
  from list_sort_correct [OF this example_list] show ?thesis
    by (metis add_mset_commute mset.simps)
qed

text \<open>C13: The primitive edits refine the edits of a HOL list. On a list holding
  \<open>xs @ ys\<close>, \<open>list_insert\<close> before the first element of \<open>ys\<close> (or the tail) yields
  \<open>xs @ e # ys\<close>, and removing \<open>e\<close> again gives back \<open>xs @ ys\<close> and returns the element that
  followed it; neither trips an assertion, and no cell other than the list's and the new
  element's is written.\<close>

theorem list_insert_remove:
  assumes "list_at h l (xs @ ys)" and "e \<noteq> NULL" and "e \<notin> set (list_cells l (xs @ ys))"
  shows "\<exists>h1 h2. list_insert h (cursor l ys) e = Inr h1 \<and> list_at h1 l (xs @ e # ys)
    \<and> list_remove h1 e = Inr (cursor l ys, h2) \<and> list_at h2 l (xs @ ys)
    \<and> same_on (- insert e (set (list_cells l (xs @ ys)))) h h1
    \<and> same_on (- set (list_cells l (xs @ ys))) h1 h2"
  using list_insert_at [OF assms] list_remove_at by blast

theorem list_insert_remove_witness:
  "\<exists>h1. list_insert example_heap 20 8 = Inr h1 \<and> list_at h1 100 [40, 60, 8, 20]"
  using list_insert_remove [of example_heap 100 "[40, 60]" "[20]" 8] example_list example_list_fresh
  by auto

text \<open>\<open>list_reverse\<close> returns on every well-formed list, leaves it well formed and holding
  the elements in reverse order, and writes only cells of the list.\<close>

theorem list_reverse_correct:
  assumes "list_at h l xs"
  shows "\<exists>h'. list_reverse h l = Some (Inr h') \<and> list_at h' l (rev xs)
    \<and> same_on (- set (list_cells l xs)) h h'"
  by (rule list_reverse_at [OF assms])

theorem list_reverse_correct_witness:
  "\<exists>h'. list_reverse example_heap 100 = Some (Inr h') \<and> list_at h' 100 [20, 60, 40]"
  using list_reverse_correct [OF example_list] by auto

text \<open>\<open>list_max\<close> returns an element that no element of the list exceeds, and every element
  before it is strictly smaller: with several maxima, the one that appears first. Ordered
  insertion into a sorted list keeps it sorted.\<close>

theorem list_max_first:
  assumes "strict_weak_order lt" and "list_at h l (x # xs)"
  shows "\<exists>m ys zs. list_max h l lt = Some (Inr m) \<and> x # xs = ys @ m # zs
    \<and> (\<forall>y \<in> set ys. lt y m) \<and> (\<forall>y \<in> set (x # xs). \<not> lt m y)"
  using list_max_min_at(1) [OF assms(2), of lt] strict_weak_order.best_lt [OF assms(1), of x xs]
    strict_weak_order.best_lt_first [OF assms(1), of x xs] by metis

theorem list_max_first_witness:
  "\<exists>m. list_max example_heap 100 (value_less int) = Some (Inr m) \<and> m \<in> {40, 60, 20}"
proof -
  have "strict_weak_order (value_less int)" by unfold_locales
  from list_max_first [OF this example_list] obtain m ys zs where
    "list_max example_heap 100 (value_less int) = Some (Inr m)" "[40, 60, 20] = ys @ m # zs" by auto
  moreover from this(2) have "m \<in> {40, 60, 20}" by (metis in_set_conv_decomp list.simps(15) empty_set)
  ultimately show ?thesis by blast
qed

text \<open>C9: \<open>list_insert_ordered\<close> on a sorted list puts the new element behind all elements that do not exceed it, equal ones included, and in front of all
  elements that are greater: the list stays sorted, keeps its elements in their order, and gains exactly the new element. No cell other than those of the list and the new element is written.\<close>

theorem list_insert_ordered_sorted:
  assumes "strict_weak_order lt" and "list_at h l xs" and "sorted_wrt (\<lambda>x y. \<not> lt y x) xs"
    and "e \<noteq> NULL" and "e \<notin> set (list_cells l xs)"
  shows "\<exists>h' ys zs. list_insert_ordered h l e lt = Some (Inr h') \<and> xs = ys @ zs \<and> list_at h' l (ys @ e # zs)
    \<and> (\<forall>y \<in> set ys. \<not> lt e y) \<and> (\<forall>z \<in> set zs. lt e z) \<and> sorted_wrt (\<lambda>x y. \<not> lt y x) (ys @ e # zs)
    \<and> same_on (- insert e (set (list_cells l xs))) h h'"
proof -
  let ?ys = "takeWhile (\<lambda>y. \<not> lt e y) xs" and ?zs = "dropWhile (\<lambda>y. \<not> lt e y) xs"
  have "\<forall>y \<in> set ?ys. \<not> lt e y" by (auto dest: set_takeWhileD)
  moreover have "\<forall>z \<in> set ?zs. lt e z" using strict_weak_order.after_greater [OF assms(1,3)] by blast
  ultimately show ?thesis
    using list_insert_ordered_at [OF assms(2,4,5), of lt] strict_weak_order.sorted_insert_ordered [OF assms(1,3), of e]
    by (metis takeWhile_dropWhile_id)
qed

theorem list_insert_ordered_sorted_witness:
  "\<exists>h'. list_insert_ordered example_heap 100 8 (value_less (\<lambda>_. 0)) = Some (Inr h') \<and> list_at h' 100 [40, 60, 20, 8]"
proof -
  have "strict_weak_order (value_less (\<lambda>_. 0))" by unfold_locales
  from list_insert_ordered_sorted [OF this example_list _ _ example_list_fresh]
  obtain h' ys zs where *: "list_insert_ordered example_heap 100 8 (value_less (\<lambda>_. 0)) = Some (Inr h')" "[40, 60, 20] = ys @ zs"
    "list_at h' 100 (ys @ 8 # zs)" "\<forall>z \<in> set zs. value_less (\<lambda>_. 0) 8 z"
    by (auto simp: value_less_def)
  from *(4) have "zs = []" by (cases zs) (auto simp: value_less_def)
  with * show ?thesis by auto
qed

end
