(* ===== verification/Bitmap.thy ===== *)
theory Bitmap
  imports Prelude
begin

unbundle bit_operations_syntax

text \<open>
  The bitmaps of lib/kernel/bitmap.c: an array of 32-bit words that simulates an array of
  bits. Sizes and indices are \<open>size_t\<close> values, kept as natural numbers with the
  wrap-around modulo \<open>2 ^ 32\<close> written out where the source adds; the words are machine words.
  An access to \<open>bits\<close> beyond the array is \<open>Undefined\<close>.

  \<open>bm_list\<close> reads a bitmap as a list of truth values; the lemmas show what every operation
  does to that list. The locale \<open>range_allocator\<close> is the contract that the page allocator,
  the free map of the file system and the swap table rely on; it is interpreted on
  \<open>bitmap_scan_and_flip\<close> and \<open>bitmap_set_multiple\<close>.
\<close>

section \<open>Data\<close>

type_synonym elem_type = "32 word"

record bitmap =
  bit_cnt :: nat
  bits :: "elem_type list"

abbreviation (input) ELEM_BITS :: nat where
  "ELEM_BITS \<equiv> 32"

abbreviation (input) BITMAP_ERROR :: nat where
  "BITMAP_ERROR \<equiv> SIZE_MAX"

section \<open>Operations\<close>

definition elem_idx :: "nat \<Rightarrow> nat" where
  "elem_idx bit_idx = bit_idx div ELEM_BITS"

definition bit_mask :: "nat \<Rightarrow> elem_type" where
  "bit_mask bit_idx = push_bit (bit_idx mod ELEM_BITS) 1"

definition elem_cnt :: "nat \<Rightarrow> nat" where
  "elem_cnt n = ((n + ELEM_BITS - 1) mod SIZE_MOD) div ELEM_BITS"

definition byte_cnt :: "nat \<Rightarrow> nat" where
  "byte_cnt n = (4 * elem_cnt n) mod SIZE_MOD"

definition last_mask :: "bitmap \<Rightarrow> elem_type" where
  "last_mask b = (let last_bits = bit_cnt b mod ELEM_BITS
     in if last_bits \<noteq> 0 then push_bit last_bits 1 - 1 else - 1)"

definition bitmap_buf_size :: "nat \<Rightarrow> nat" where
  "bitmap_buf_size n = (8 + byte_cnt n) mod SIZE_MOD"

definition bitmap_size :: "bitmap \<Rightarrow> nat" where
  "bitmap_size b = bit_cnt b"

text \<open>One read-modify-write of an element, as the \<open>orl\<close>, \<open>andl\<close> and \<open>xorl\<close> instructions do it.\<close>

definition update_elem :: "bitmap \<Rightarrow> nat \<Rightarrow> (elem_type \<Rightarrow> elem_type) \<Rightarrow> bitmap res" where
  "update_elem b idx f =
     (if idx < length (bits b) then Inr (b\<lparr>bits := (bits b)[idx := f (bits b ! idx)]\<rparr>)
      else Inl (Undefined ''b->bits[idx]''))"

definition bitmap_mark :: "bitmap \<Rightarrow> nat \<Rightarrow> bitmap res" where
  "bitmap_mark b bit_idx = update_elem b (elem_idx bit_idx) (\<lambda>w. w OR bit_mask bit_idx)"

definition bitmap_reset :: "bitmap \<Rightarrow> nat \<Rightarrow> bitmap res" where
  "bitmap_reset b bit_idx = update_elem b (elem_idx bit_idx) (\<lambda>w. w AND NOT (bit_mask bit_idx))"

definition bitmap_flip :: "bitmap \<Rightarrow> nat \<Rightarrow> bitmap res" where
  "bitmap_flip b bit_idx = update_elem b (elem_idx bit_idx) (\<lambda>w. w XOR bit_mask bit_idx)"

definition bitmap_set :: "bitmap \<Rightarrow> nat \<Rightarrow> bool \<Rightarrow> bitmap res" where
  "bitmap_set b idx value = require (idx < bit_cnt b) ''idx < b->bit_cnt''
     (if value then bitmap_mark b idx else bitmap_reset b idx)"

definition bitmap_test :: "bitmap \<Rightarrow> nat \<Rightarrow> bool res" where
  "bitmap_test b idx = require (idx < bit_cnt b) ''idx < b->bit_cnt''
     (if elem_idx idx < length (bits b)
      then Inr ((bits b ! elem_idx idx) AND bit_mask idx \<noteq> 0)
      else Inl (Undefined ''b->bits[elem_idx (idx)]''))"

function set_multiple_loop :: "bitmap \<Rightarrow> nat \<Rightarrow> nat \<Rightarrow> bool \<Rightarrow> nat \<Rightarrow> bitmap res" where
  "set_multiple_loop b start cnt value i =
     (if i < cnt then bindr (bitmap_set b ((start + i) mod SIZE_MOD) value)
        (\<lambda>b. set_multiple_loop b start cnt value (i + 1))
      else Inr b)"
  by pat_completeness auto
termination
  by (relation "measure (\<lambda>(b, start, cnt, value, i). cnt - i)") auto

definition bitmap_set_multiple :: "bitmap \<Rightarrow> nat \<Rightarrow> nat \<Rightarrow> bool \<Rightarrow> bitmap res" where
  "bitmap_set_multiple b start cnt value =
     require (start \<le> bit_cnt b) ''start <= b->bit_cnt''
     (require ((start + cnt) mod SIZE_MOD \<le> bit_cnt b) ''start + cnt <= b->bit_cnt''
     (set_multiple_loop b start cnt value 0))"

definition bitmap_set_all :: "bitmap \<Rightarrow> bool \<Rightarrow> bitmap res" where
  "bitmap_set_all b value = bitmap_set_multiple b 0 (bitmap_size b) value"

text \<open>\<open>bitmap_create\<close> calls \<open>malloc\<close> twice. The arguments \<open>b_ok\<close> and \<open>new_bits\<close> are the results
  of the two calls: whether the structure was allocated, and the words of the new array
  (with whatever contents), or none for a null pointer.\<close>

definition bitmap_create :: "bool \<Rightarrow> elem_type list option \<Rightarrow> nat \<Rightarrow> bitmap option res" where
  "bitmap_create b_ok new_bits n =
     (if b_ok then
        if new_bits \<noteq> None \<or> n = 0 then
          bindr (bitmap_set_all
              \<lparr>bit_cnt = n, bits = (case new_bits of Some ws \<Rightarrow> ws | None \<Rightarrow> [])\<rparr> False)
            (\<lambda>b. Inr (Some b))
        else Inr None
      else Inr None)"

definition bitmap_create_in_buf :: "nat \<Rightarrow> elem_type list \<Rightarrow> nat \<Rightarrow> bitmap res" where
  "bitmap_create_in_buf n block block_size =
     require (block_size \<ge> bitmap_buf_size n) ''block_size >= bitmap_buf_size (bit_cnt)''
     (bitmap_set_all \<lparr>bit_cnt = n, bits = block\<rparr> False)"

function count_loop :: "bitmap \<Rightarrow> nat \<Rightarrow> nat \<Rightarrow> bool \<Rightarrow> nat \<Rightarrow> nat \<Rightarrow> nat res" where
  "count_loop b start cnt value i value_cnt =
     (if i < cnt then bindr (bitmap_test b ((start + i) mod SIZE_MOD))
        (\<lambda>t. count_loop b start cnt value (i + 1) (if t = value then value_cnt + 1 else value_cnt))
      else Inr value_cnt)"
  by pat_completeness auto
termination
  by (relation "measure (\<lambda>(b, start, cnt, value, i, v). cnt - i)") auto

definition bitmap_count :: "bitmap \<Rightarrow> nat \<Rightarrow> nat \<Rightarrow> bool \<Rightarrow> nat res" where
  "bitmap_count b start cnt value =
     require (start \<le> bit_cnt b) ''start <= b->bit_cnt''
     (require ((start + cnt) mod SIZE_MOD \<le> bit_cnt b) ''start + cnt <= b->bit_cnt''
     (count_loop b start cnt value 0 0))"

function contains_loop :: "bitmap \<Rightarrow> nat \<Rightarrow> nat \<Rightarrow> bool \<Rightarrow> nat \<Rightarrow> bool res" where
  "contains_loop b start cnt value i =
     (if i < cnt then bindr (bitmap_test b ((start + i) mod SIZE_MOD))
        (\<lambda>t. if t = value then Inr True else contains_loop b start cnt value (i + 1))
      else Inr False)"
  by pat_completeness auto
termination
  by (relation "measure (\<lambda>(b, start, cnt, value, i). cnt - i)") auto

definition bitmap_contains :: "bitmap \<Rightarrow> nat \<Rightarrow> nat \<Rightarrow> bool \<Rightarrow> bool res" where
  "bitmap_contains b start cnt value =
     require (start \<le> bit_cnt b) ''start <= b->bit_cnt''
     (require ((start + cnt) mod SIZE_MOD \<le> bit_cnt b) ''start + cnt <= b->bit_cnt''
     (contains_loop b start cnt value 0))"

definition bitmap_any :: "bitmap \<Rightarrow> nat \<Rightarrow> nat \<Rightarrow> bool res" where
  "bitmap_any b start cnt = bitmap_contains b start cnt True"

definition bitmap_none :: "bitmap \<Rightarrow> nat \<Rightarrow> nat \<Rightarrow> bool res" where
  "bitmap_none b start cnt = bindr (bitmap_contains b start cnt True) (\<lambda>c. Inr (\<not> c))"

definition bitmap_all :: "bitmap \<Rightarrow> nat \<Rightarrow> nat \<Rightarrow> bool res" where
  "bitmap_all b start cnt = bindr (bitmap_contains b start cnt False) (\<lambda>c. Inr (\<not> c))"

function scan_loop :: "bitmap \<Rightarrow> nat \<Rightarrow> nat \<Rightarrow> bool \<Rightarrow> nat \<Rightarrow> nat res" where
  "scan_loop b last_i cnt value i =
     (if i \<le> last_i then bindr (bitmap_contains b i cnt (\<not> value))
        (\<lambda>c. if \<not> c then Inr i else scan_loop b last_i cnt value (i + 1))
      else Inr BITMAP_ERROR)"
  by pat_completeness auto
termination
  by (relation "measure (\<lambda>(b, last_i, cnt, value, i). Suc last_i - i)") auto

definition bitmap_scan :: "bitmap \<Rightarrow> nat \<Rightarrow> nat \<Rightarrow> bool \<Rightarrow> nat res" where
  "bitmap_scan b start cnt value =
     require (start \<le> bit_cnt b) ''start <= b->bit_cnt''
     (if cnt \<le> bit_cnt b then scan_loop b (bit_cnt b - cnt) cnt value start
      else Inr BITMAP_ERROR)"

definition bitmap_scan_and_flip :: "bitmap \<Rightarrow> nat \<Rightarrow> nat \<Rightarrow> bool \<Rightarrow> (nat \<times> bitmap) res" where
  "bitmap_scan_and_flip b start cnt value =
     bindr (bitmap_scan b start cnt value) (\<lambda>idx.
       if idx \<noteq> BITMAP_ERROR then
         bindr (bitmap_set_multiple b idx cnt (\<not> value)) (\<lambda>b. Inr (idx, b))
       else Inr (idx, b))"

declare set_multiple_loop.simps [simp del]
declare count_loop.simps [simp del]
declare contains_loop.simps [simp del]
declare scan_loop.simps [simp del]

section \<open>Bitmaps as lists of truth values\<close>

definition bm_ok :: "bitmap \<Rightarrow> bool" where
  "bm_ok b \<longleftrightarrow> bit_cnt b + 31 < SIZE_MOD \<and> length (bits b) = (bit_cnt b + 31) div 32"

definition bm_list :: "bitmap \<Rightarrow> bool list" where
  "bm_list b = map (\<lambda>i. bit (bits b ! (i div 32)) (i mod 32)) [0..<bit_cnt b]"

lemma length_bm_list [simp]: "length (bm_list b) = bit_cnt b"
  by (simp add: bm_list_def)

lemma bm_list_nth: "i < bit_cnt b \<Longrightarrow> bm_list b ! i = bit (bits b ! (i div 32)) (i mod 32)"
  by (simp add: bm_list_def)

lemma bm_ok_elem: "bm_ok b \<Longrightarrow> i < bit_cnt b \<Longrightarrow> i div 32 < length (bits b)"
  by (simp add: bm_ok_def)

lemma and_bit_mask: "(w :: elem_type) AND bit_mask i \<noteq> 0 \<longleftrightarrow> bit w (i mod 32)"
proof -
  have "bit (w AND bit_mask i) n \<longleftrightarrow> n = i mod 32 \<and> bit w (i mod 32)" for n
    by (auto simp: bit_mask_def bit_simps)
  then show ?thesis by (metis bit_eqI bit_0_eq bot_apply bot_bool_def)
qed

lemma bitmap_test_list: "bm_ok b \<Longrightarrow> i < bit_cnt b \<Longrightarrow> bitmap_test b i = Inr (bm_list b ! i)"
  using bm_ok_elem [of b i] by (simp add: bitmap_test_def elem_idx_def bm_list_nth and_bit_mask)

lemma update_elem_list:
  assumes ok: "bm_ok b" and i: "i < bit_cnt b"
    and f: "\<And>w n. n < 32 \<Longrightarrow> bit (f w) n = (if n = i mod 32 then v (bit w n) else bit w n)"
  shows "\<exists>b'. update_elem b (elem_idx i) f = Inr b' \<and> bm_ok b' \<and> bit_cnt b' = bit_cnt b
    \<and> bm_list b' = (bm_list b)[i := v (bm_list b ! i)]"
proof -
  define b' where "b' = b\<lparr>bits := (bits b)[i div 32 := f (bits b ! (i div 32))]\<rparr>"
  have "bm_list b' = (bm_list b)[i := v (bm_list b ! i)]"
  proof (rule nth_equalityI)
    fix j assume "j < length (bm_list b')"
    then have j: "j < bit_cnt b" by (simp add: b'_def)
    have ij: "j mod 32 \<noteq> i mod 32" if "j div 32 = i div 32" "j \<noteq> i" using that by (metis div_mult_mod_eq)
    have "bm_list b' ! j = bit (bits b' ! (j div 32)) (j mod 32)"
      using j by (simp add: bm_list_def b'_def)
    also have "\<dots> = (if j div 32 = i div 32 then bit (f (bits b ! (i div 32))) (j mod 32)
        else bit (bits b ! (j div 32)) (j mod 32))"
      using bm_ok_elem [OF ok j] by (auto simp: b'_def nth_list_update)
    also have "\<dots> = ((bm_list b)[i := v (bm_list b ! i)]) ! j"
      using i j ij f [of "j mod 32" "bits b ! (i div 32)"]
      by (cases "j = i"; cases "j div 32 = i div 32") (simp_all add: bm_list_nth)
    finally show "bm_list b' ! j = ((bm_list b)[i := v (bm_list b ! i)]) ! j" .
  qed (simp add: b'_def)
  moreover have "bm_ok b'" "bit_cnt b' = bit_cnt b" using ok by (simp_all add: b'_def bm_ok_def)
  moreover have "update_elem b (elem_idx i) f = Inr b'"
    using bm_ok_elem [OF ok i] by (simp add: update_elem_def elem_idx_def b'_def)
  ultimately show ?thesis by blast
qed

lemma bitmap_bits_list:
  assumes "bm_ok b" and "i < bit_cnt b"
  shows "\<exists>b'. bitmap_mark b i = Inr b' \<and> bm_ok b' \<and> bit_cnt b' = bit_cnt b \<and> bm_list b' = (bm_list b)[i := True]"
    and "\<exists>b'. bitmap_reset b i = Inr b' \<and> bm_ok b' \<and> bit_cnt b' = bit_cnt b \<and> bm_list b' = (bm_list b)[i := False]"
    and "\<exists>b'. bitmap_flip b i = Inr b' \<and> bm_ok b' \<and> bit_cnt b' = bit_cnt b
      \<and> bm_list b' = (bm_list b)[i := \<not> bm_list b ! i]"
    and "\<exists>b'. bitmap_set b i v = Inr b' \<and> bm_ok b' \<and> bit_cnt b' = bit_cnt b \<and> bm_list b' = (bm_list b)[i := v]"
proof -
  show m: "\<exists>b'. bitmap_mark b i = Inr b' \<and> bm_ok b' \<and> bit_cnt b' = bit_cnt b \<and> bm_list b' = (bm_list b)[i := True]"
    unfolding bitmap_mark_def
    by (rule update_elem_list [OF assms, where v = "\<lambda>_. True"]) (auto simp: bit_mask_def bit_simps)
  show r: "\<exists>b'. bitmap_reset b i = Inr b' \<and> bm_ok b' \<and> bit_cnt b' = bit_cnt b \<and> bm_list b' = (bm_list b)[i := False]"
    unfolding bitmap_reset_def
    by (rule update_elem_list [OF assms, where v = "\<lambda>_. False"]) (auto simp: bit_mask_def bit_simps)
  show "\<exists>b'. bitmap_flip b i = Inr b' \<and> bm_ok b' \<and> bit_cnt b' = bit_cnt b
      \<and> bm_list b' = (bm_list b)[i := \<not> bm_list b ! i]"
    unfolding bitmap_flip_def
    by (rule update_elem_list [OF assms, where v = Not]) (auto simp: bit_mask_def bit_simps)
  show "\<exists>b'. bitmap_set b i v = Inr b' \<and> bm_ok b' \<and> bit_cnt b' = bit_cnt b \<and> bm_list b' = (bm_list b)[i := v]"
    using m r assms(2) by (cases v) (simp_all add: bitmap_set_def)
qed

definition set_range :: "bool list \<Rightarrow> nat \<Rightarrow> nat \<Rightarrow> bool \<Rightarrow> bool list" where
  "set_range xs s n v = map (\<lambda>j. if s \<le> j \<and> j < s + n then v else xs ! j) [0..<length xs]"

lemma set_range_length [simp]: "length (set_range xs s n v) = length xs"
  by (simp add: set_range_def)

lemma set_range_nth [simp]: "j < length xs \<Longrightarrow> set_range xs s n v ! j = (if s \<le> j \<and> j < s + n then v else xs ! j)"
  by (simp add: set_range_def)

lemma set_multiple_loop_list:
  assumes "bm_ok b" and "start + cnt \<le> bit_cnt b" and "i \<le> cnt"
  shows "\<exists>b'. set_multiple_loop b start cnt v i = Inr b' \<and> bm_ok b' \<and> bit_cnt b' = bit_cnt b
    \<and> bm_list b' = set_range (bm_list b) (start + i) (cnt - i) v"
  using assms
proof (induction b start cnt v i rule: set_multiple_loop.induct)
  case (1 b start cnt v i)
  show ?case
  proof (cases "i < cnt")
    case True
    have lt: "start + i < bit_cnt b" "(start + i) mod SIZE_MOD = start + i"
      using "1.prems" True by (auto simp: bm_ok_def)
    obtain b1 where b1: "bitmap_set b (start + i) v = Inr b1" "bm_ok b1" "bit_cnt b1 = bit_cnt b"
        "bm_list b1 = (bm_list b)[start + i := v]"
      using bitmap_bits_list(4) [OF "1.prems"(1) lt(1)] by blast
    have "set_range (bm_list b1) (start + (i + 1)) (cnt - (i + 1)) v = set_range (bm_list b) (start + i) (cnt - i) v"
    proof (rule nth_equalityI, goal_cases)
      case (2 j)
      then show ?case using True lt b1 by (cases "j = start + i") auto
    qed (simp add: b1)
    then show ?thesis
      using "1.IH" [OF True _ b1(2)] "1.prems" True lt b1 by (subst set_multiple_loop.simps) auto
  next
    case False
    then have "set_range (bm_list b) (start + i) (cnt - i) v = bm_list b" using "1.prems"
      by (auto intro!: nth_equalityI)
    then show ?thesis using False "1.prems" by (subst set_multiple_loop.simps) simp
  qed
qed

lemma bitmap_set_multiple_list:
  assumes "bm_ok b" and "start + cnt \<le> bit_cnt b"
  shows "\<exists>b'. bitmap_set_multiple b start cnt v = Inr b' \<and> bm_ok b' \<and> bit_cnt b' = bit_cnt b
    \<and> bm_list b' = set_range (bm_list b) start cnt v"
proof -
  have "(start + cnt) mod SIZE_MOD = start + cnt" using assms by (simp add: bm_ok_def)
  then show ?thesis
    using set_multiple_loop_list [OF assms, of 0 v] assms(2) by (simp add: bitmap_set_multiple_def)
qed

lemma contains_loop_list:
  assumes "bm_ok b" and "start + cnt \<le> bit_cnt b" and "i \<le> cnt"
  shows "contains_loop b start cnt v i = Inr (\<exists>j. i \<le> j \<and> j < cnt \<and> bm_list b ! (start + j) = v)"
  using assms
proof (induction b start cnt v i rule: contains_loop.induct)
  case (1 b start cnt v i)
  show ?case
  proof (cases "i < cnt")
    case True
    have lt: "start + i < bit_cnt b" "(start + i) mod SIZE_MOD = start + i"
      using "1.prems" True by (auto simp: bm_ok_def)
    have "contains_loop b start cnt v i = (if bm_list b ! (start + i) = v then Inr True else contains_loop b start cnt v (i + 1))"
      using True bitmap_test_list [OF "1.prems"(1) lt(1)] lt by (subst contains_loop.simps) simp
    also have "\<dots> = Inr (\<exists>j. i \<le> j \<and> j < cnt \<and> bm_list b ! (start + j) = v)"
      using "1.IH" [OF True] "1.prems" True ex_ge_step [of i cnt "\<lambda>j. bm_list b ! (start + j) = v"]
        bitmap_test_list [OF "1.prems"(1) lt(1)] lt by simp
    finally show ?thesis .
  next
    case False
    then show ?thesis by (subst contains_loop.simps) auto
  qed
qed

lemma bitmap_contains_list:
  assumes "bm_ok b" and "start + cnt \<le> bit_cnt b"
  shows "bitmap_contains b start cnt v = Inr (\<exists>j. start \<le> j \<and> j < start + cnt \<and> bm_list b ! j = v)"
proof -
  have "(start + cnt) mod SIZE_MOD = start + cnt" using assms by (simp add: bm_ok_def)
  moreover have "(\<exists>j<cnt. bm_list b ! (start + j) = v) \<longleftrightarrow> (\<exists>j. start \<le> j \<and> j < start + cnt \<and> bm_list b ! j = v)"
    by (metis add_less_cancel_left le_Suc_ex le_add1)
  ultimately show ?thesis
    using contains_loop_list [OF assms, of 0 v] assms(2) by (simp add: bitmap_contains_def)
qed

lemma count_loop_list:
  assumes "bm_ok b" and "start + cnt \<le> bit_cnt b" and "i \<le> cnt"
  shows "count_loop b start cnt v i c = Inr (c + length (filter (\<lambda>j. bm_list b ! j = v) [start + i..<start + cnt]))"
  using assms
proof (induction b start cnt v i c rule: count_loop.induct)
  case (1 b start cnt v i c)
  show ?case
  proof (cases "i < cnt")
    case True
    have lt: "start + i < bit_cnt b" "(start + i) mod SIZE_MOD = start + i"
      using "1.prems" True by (auto simp: bm_ok_def)
    then show ?thesis
      using True bitmap_test_list [OF "1.prems"(1) lt(1)] "1.IH" [OF True] "1.prems"
      by (subst count_loop.simps) (simp add: upt_conv_Cons)
  next
    case False
    then show ?thesis using "1.prems" by (subst count_loop.simps) simp
  qed
qed

lemma bitmap_count_list:
  assumes "bm_ok b" and "start + cnt \<le> bit_cnt b"
  shows "bitmap_count b start cnt v = Inr (length (filter (\<lambda>j. bm_list b ! j = v) [start..<start + cnt]))"
proof -
  have "(start + cnt) mod SIZE_MOD = start + cnt" using assms by (simp add: bm_ok_def)
  then show ?thesis
    using count_loop_list [OF assms, of 0 v 0] assms(2) by (simp add: bitmap_count_def)
qed

definition free_run :: "bool list \<Rightarrow> nat \<Rightarrow> nat \<Rightarrow> bool \<Rightarrow> bool" where
  "free_run xs i n v \<longleftrightarrow> i + n \<le> length xs \<and> (\<forall>j. i \<le> j \<and> j < i + n \<longrightarrow> xs ! j = v)"

lemma scan_loop_list:
  assumes "bm_ok b" and "last_i + cnt = bit_cnt b"
  shows "(\<exists>k. scan_loop b last_i cnt v i = Inr k \<and> i \<le> k \<and> k \<le> last_i \<and> free_run (bm_list b) k cnt v
      \<and> (\<forall>m. i \<le> m \<and> m < k \<longrightarrow> \<not> free_run (bm_list b) m cnt v))
    \<or> (scan_loop b last_i cnt v i = Inr BITMAP_ERROR \<and> (\<forall>m \<ge> i. \<not> free_run (bm_list b) m cnt v))"
  using assms
proof (induction b last_i cnt v i rule: scan_loop.induct)
  case (1 b last_i cnt v i)
  show ?case
  proof (cases "i \<le> last_i")
    case True
    have c: "bitmap_contains b i cnt (\<not> v) = Inr (\<not> free_run (bm_list b) i cnt v)"
      using bitmap_contains_list [OF "1.prems"(1), of i cnt "\<not> v"] "1.prems" True by (auto simp: free_run_def)
    show ?thesis
    proof (cases "free_run (bm_list b) i cnt v")
      case run: True
      then show ?thesis using True c by (subst (1 2) scan_loop.simps) auto
    next
      case False
      have eq: "scan_loop b last_i cnt v i = scan_loop b last_i cnt v (i + 1)"
        using True c False by (subst scan_loop.simps) simp
      have split: "i \<le> m \<longleftrightarrow> m = i \<or> i + 1 \<le> m" for m by auto
      from "1.IH" [OF True c _ "1.prems"] False show ?thesis
        unfolding eq split by auto
    qed
  next
    case False
    then show ?thesis using "1.prems" by (subst (1 2) scan_loop.simps) (auto simp: free_run_def)
  qed
qed

lemma bitmap_scan_list:
  assumes "bm_ok b" and "start \<le> bit_cnt b"
  obtains (found) k where "bitmap_scan b start cnt v = Inr k" "k \<noteq> BITMAP_ERROR" "start \<le> k"
      "free_run (bm_list b) k cnt v" "\<And>m. start \<le> m \<Longrightarrow> m < k \<Longrightarrow> \<not> free_run (bm_list b) m cnt v"
    | (none) "bitmap_scan b start cnt v = Inr BITMAP_ERROR"
      "\<And>m. start \<le> m \<Longrightarrow> \<not> free_run (bm_list b) m cnt v"
proof (cases "cnt \<le> bit_cnt b")
  case True
  then have eq: "bitmap_scan b start cnt v = scan_loop b (bit_cnt b - cnt) cnt v start"
    using assms(2) by (simp add: bitmap_scan_def)
  have "bit_cnt b - cnt + cnt = bit_cnt b" using True by simp
  from scan_loop_list [OF assms(1) this, of v start] show thesis
  proof
    assume "\<exists>k. scan_loop b (bit_cnt b - cnt) cnt v start = Inr k \<and> start \<le> k \<and> k \<le> bit_cnt b - cnt
      \<and> free_run (bm_list b) k cnt v \<and> (\<forall>m. start \<le> m \<and> m < k \<longrightarrow> \<not> free_run (bm_list b) m cnt v)"
    then obtain k where k: "scan_loop b (bit_cnt b - cnt) cnt v start = Inr k" "start \<le> k" "k \<le> bit_cnt b - cnt"
        "free_run (bm_list b) k cnt v" "\<forall>m. start \<le> m \<and> m < k \<longrightarrow> \<not> free_run (bm_list b) m cnt v"
      by blast
    moreover have "k \<noteq> BITMAP_ERROR" using k(3) assms(1) unfolding bm_ok_def by linarith
    ultimately show thesis using found eq by metis
  next
    assume "scan_loop b (bit_cnt b - cnt) cnt v start = Inr BITMAP_ERROR
      \<and> (\<forall>m \<ge> start. \<not> free_run (bm_list b) m cnt v)"
    then show thesis using none eq by metis
  qed
next
  case False
  then show thesis using none assms(2) by (simp add: bitmap_scan_def free_run_def)
qed

section \<open>The contract of an allocator of ranges\<close>

locale range_allocator =
  fixes ok :: "'b \<Rightarrow> bool" and size_of :: "'b \<Rightarrow> nat" and used :: "'b \<Rightarrow> nat \<Rightarrow> bool"
    and alloc :: "'b \<Rightarrow> nat \<Rightarrow> (nat \<times> 'b) res" and release :: "'b \<Rightarrow> nat \<Rightarrow> nat \<Rightarrow> 'b res"
    and err :: nat
  assumes alloc_total: "ok b \<Longrightarrow> \<exists>i b'. alloc b n = Inr (i, b') \<and> ok b' \<and> size_of b' = size_of b"
    and alloc_fails: "ok b \<Longrightarrow> alloc b n = Inr (err, b') \<Longrightarrow> b' = b
      \<and> (\<forall>m. m + n \<le> size_of b \<longrightarrow> (\<exists>j. m \<le> j \<and> j < m + n \<and> used b j))"
    and alloc_works: "ok b \<Longrightarrow> alloc b n = Inr (i, b') \<Longrightarrow> i \<noteq> err \<Longrightarrow> i + n \<le> size_of b
      \<and> (\<forall>j. i \<le> j \<and> j < i + n \<longrightarrow> \<not> used b j)
      \<and> (\<forall>j < size_of b. used b' j \<longleftrightarrow> used b j \<or> i \<le> j \<and> j < i + n)"
    and release_works: "ok b \<Longrightarrow> i + n \<le> size_of b \<Longrightarrow> \<exists>b'. release b i n = Inr b' \<and> ok b'
      \<and> size_of b' = size_of b \<and> (\<forall>j < size_of b. used b' j \<longleftrightarrow> used b j \<and> \<not> (i \<le> j \<and> j < i + n))"
begin

lemma alloc_ok:
  "ok b \<Longrightarrow> alloc b n = Inr (i, b') \<Longrightarrow> ok b' \<and> size_of b' = size_of b"
  using alloc_total [of b n] by auto

lemma alloc_disjoint:
  assumes "ok b" and "alloc b n = Inr (i, b1)" "i \<noteq> err" and "alloc b1 m = Inr (k, b2)" "k \<noteq> err"
    and "0 < n" "0 < m"
  shows "i + n \<le> k \<or> k + m \<le> i"
proof (rule ccontr)
  assume "\<not> ?thesis"
  then have j: "i \<le> max i k" "max i k < i + n" "k \<le> max i k" "max i k < k + m" using assms(6,7) by auto
  have "ok b1" "size_of b1 = size_of b" using alloc_ok assms by blast+
  moreover have "max i k < size_of b" using alloc_works [OF assms(1-3)] j by simp
  ultimately show False
    using alloc_works [OF assms(1-3)] alloc_works [OF \<open>ok b1\<close> assms(4,5)] j by blast
qed

lemma alloc_release:
  assumes "ok b" and "alloc b n = Inr (i, b1)" "i \<noteq> err"
  shows "\<exists>b2. release b1 i n = Inr b2 \<and> ok b2 \<and> size_of b2 = size_of b
    \<and> (\<forall>j < size_of b. used b2 j = used b j)"
proof -
  have b1: "ok b1" "size_of b1 = size_of b" using alloc_ok assms by blast+
  then obtain b2 where "release b1 i n = Inr b2" "ok b2" "size_of b2 = size_of b"
      "\<forall>j < size_of b. used b2 j \<longleftrightarrow> used b1 j \<and> \<not> (i \<le> j \<and> j < i + n)"
    using release_works [of b1 i n] alloc_works [OF assms] by auto
  then show ?thesis using alloc_works [OF assms] by blast
qed

lemma alloc_succeeds:
  assumes "ok b" and "m + n \<le> size_of b" and "\<And>j. m \<le> j \<Longrightarrow> j < m + n \<Longrightarrow> \<not> used b j"
  shows "\<exists>i b'. alloc b n = Inr (i, b') \<and> i \<noteq> err"
  using alloc_total [OF assms(1), of n] alloc_fails [OF assms(1), of n] assms(2,3) by blast

end

definition bm_used :: "bitmap \<Rightarrow> nat \<Rightarrow> bool" where
  "bm_used b i \<longleftrightarrow> i < bit_cnt b \<and> bm_list b ! i"

interpretation bm: range_allocator bm_ok bit_cnt bm_used
  "\<lambda>b n. bitmap_scan_and_flip b 0 n False" "\<lambda>b i n. bitmap_set_multiple b i n False" BITMAP_ERROR
proof
  fix b n i b' assume ok: "bm_ok b"
  have "0 \<le> bit_cnt b" by simp
  note scan = bitmap_scan_list [OF ok this, of n False, case_names found none]
  show "\<exists>i b'. bitmap_scan_and_flip b 0 n False = Inr (i, b') \<and> bm_ok b' \<and> bit_cnt b' = bit_cnt b"
  proof (cases rule: scan)
    case (found k)
    then show ?thesis
      using bitmap_set_multiple_list [OF ok, of k n True] by (auto simp: bitmap_scan_and_flip_def free_run_def)
  qed (use ok in \<open>auto simp: bitmap_scan_and_flip_def\<close>)
  show "b' = b \<and> (\<forall>m. m + n \<le> bit_cnt b \<longrightarrow> (\<exists>j. m \<le> j \<and> j < m + n \<and> bm_used b j))"
    if "bitmap_scan_and_flip b 0 n False = Inr (BITMAP_ERROR, b')"
  proof (cases rule: scan)
    case none
    then have "b' = b" using that by (simp add: bitmap_scan_and_flip_def)
    moreover have "\<exists>j. m \<le> j \<and> j < m + n \<and> bm_list b ! j" if "m + n \<le> bit_cnt b" for m
      using none(2) [of m] that by (auto simp: free_run_def)
    ultimately show ?thesis unfolding bm_used_def by (meson order_less_le_trans)
  qed (use that in \<open>auto simp: bitmap_scan_and_flip_def\<close>)
  show "i + n \<le> bit_cnt b \<and> (\<forall>j. i \<le> j \<and> j < i + n \<longrightarrow> \<not> bm_used b j)
      \<and> (\<forall>j < bit_cnt b. bm_used b' j \<longleftrightarrow> bm_used b j \<or> i \<le> j \<and> j < i + n)"
    if "bitmap_scan_and_flip b 0 n False = Inr (i, b')" "i \<noteq> BITMAP_ERROR"
  proof (cases rule: scan)
    case (found k)
    then have "i = k" "i + n \<le> bit_cnt b" using that by (auto simp: bitmap_scan_and_flip_def free_run_def)
    then show ?thesis
      using found that bitmap_set_multiple_list [OF ok, of k n True]
      by (auto simp: bitmap_scan_and_flip_def free_run_def bm_used_def)
  qed (use that in \<open>auto simp: bitmap_scan_and_flip_def\<close>)
next
  fix b i n assume "bm_ok b" "i + n \<le> bit_cnt b"
  then show "\<exists>b'. bitmap_set_multiple b i n False = Inr b' \<and> bm_ok b' \<and> bit_cnt b' = bit_cnt b
      \<and> (\<forall>j < bit_cnt b. bm_used b' j \<longleftrightarrow> bm_used b j \<and> \<not> (i \<le> j \<and> j < i + n))"
    using bitmap_set_multiple_list [of b i n False] by (auto simp: bm_used_def)
qed

section \<open>Creation\<close>

lemma elem_cnt_exact: "n + 31 < SIZE_MOD \<Longrightarrow> elem_cnt n = (n + 31) div 32"
  by (simp add: elem_cnt_def)

lemma bitmap_set_all_list:
  assumes "bm_ok b"
  shows "\<exists>b'. bitmap_set_all b v = Inr b' \<and> bm_ok b' \<and> bit_cnt b' = bit_cnt b
    \<and> bm_list b' = replicate (bit_cnt b) v"
proof -
  have "set_range (bm_list b) 0 (bit_cnt b) v = replicate (bit_cnt b) v"
    by (auto intro!: nth_equalityI)
  then show ?thesis
    using bitmap_set_multiple_list [OF assms, of 0 "bit_cnt b" v] by (simp add: bitmap_set_all_def bitmap_size_def)
qed

lemma bitmap_create_in_buf_list:
  assumes "n + 31 < SIZE_MOD" and "length block = elem_cnt n" and "bitmap_buf_size n \<le> block_size"
  shows "\<exists>b. bitmap_create_in_buf n block block_size = Inr b \<and> bm_ok b \<and> bit_cnt b = n
    \<and> bm_list b = replicate n False"
  using bitmap_set_all_list [of "\<lparr>bit_cnt = n, bits = block\<rparr>" False] assms
  by (auto simp: bitmap_create_in_buf_def bm_ok_def elem_cnt_exact)

section \<open>Properties\<close>

definition example_bitmap :: bitmap where
  "example_bitmap = \<lparr>bit_cnt = 4, bits = [1]\<rparr>"

lemma example_bitmap_ok: "bm_ok example_bitmap"
  by (simp add: bm_ok_def example_bitmap_def)

text \<open>With \<open>cnt = 0\<close>, \<open>bitmap_scan_and_flip\<close> returns \<open>start\<close> and changes nothing. Its comment
  promises the value 0.\<close>

lemma bitmap_scan_and_flip_zero:
  assumes "bm_ok b" and "start \<le> bit_cnt b"
  shows "bitmap_scan_and_flip b start 0 v = Inr (start, b)"
proof -
  have "bitmap_scan b start 0 v = Inr start"
    using assms bitmap_contains_list [OF assms(1), of start 0] by (simp add: bitmap_scan_def scan_loop.simps)
  moreover have "start \<noteq> BITMAP_ERROR" using assms unfolding bm_ok_def by linarith
  moreover have "bitmap_set_multiple b start 0 w = Inr b" for w
    using assms by (simp add: bitmap_set_multiple_def set_multiple_loop.simps bm_ok_def)
  ultimately show ?thesis by (simp add: bitmap_scan_and_flip_def)
qed

text \<open>C12: \<open>bitmap_scan_and_flip\<close> on a well-formed bitmap either returns \<open>BITMAP_ERROR\<close>,
  changes nothing, and no group of \<open>cnt\<close> consecutive bits at or after \<open>start\<close> has the wanted
  value; or it returns the first index at which such a group starts and flips exactly the bits
  of that group. For \<open>cnt = 0\<close> it returns \<open>start\<close> and changes nothing; the comment of the function says that it returns 0 then, which
  is so only for \<open>start = 0\<close>.\<close>

theorem bitmap_scan_and_flip_spec:
  assumes "bm_ok b" and "start \<le> bit_cnt b"
  shows "(cnt = 0 \<longrightarrow> bitmap_scan_and_flip b start cnt v = Inr (start, b))
    \<and> ((\<exists>k b'. bitmap_scan_and_flip b start cnt v = Inr (k, b') \<and> k \<noteq> BITMAP_ERROR \<and> start \<le> k
      \<and> free_run (bm_list b) k cnt v
      \<and> (\<forall>m. start \<le> m \<and> m < k \<longrightarrow> \<not> free_run (bm_list b) m cnt v)
      \<and> bm_ok b' \<and> bit_cnt b' = bit_cnt b \<and> bm_list b' = set_range (bm_list b) k cnt (\<not> v))
    \<or> (bitmap_scan_and_flip b start cnt v = Inr (BITMAP_ERROR, b)
      \<and> (\<forall>m \<ge> start. \<not> free_run (bm_list b) m cnt v)))"
proof (intro conjI impI, goal_cases)
  case 1
  then show ?case using bitmap_scan_and_flip_zero [OF assms] by simp
next
  case 2
  show ?case
  proof (cases rule: bitmap_scan_list [OF assms, of cnt v, case_names found none])
    case (found k)
    then have "k + cnt \<le> bit_cnt b" by (simp add: free_run_def)
    from bitmap_set_multiple_list [OF assms(1) this, of "\<not> v"] found show ?thesis
      by (auto simp: bitmap_scan_and_flip_def)
  next
    case none
    then show ?thesis by (simp add: bitmap_scan_and_flip_def)
  qed
qed

lemma example_scan:
  "bitmap_scan_and_flip example_bitmap 0 2 False = Inr (1, \<lparr>bit_cnt = 4, bits = [7]\<rparr>)"
  by (simp add: example_bitmap_def bitmap_scan_and_flip_def bitmap_scan_def scan_loop.simps
      bitmap_contains_def contains_loop.simps bitmap_test_def bitmap_set_multiple_def
      set_multiple_loop.simps bitmap_set_def bitmap_mark_def update_elem_def elem_idx_def bit_mask_def)

theorem bitmap_scan_and_flip_spec_witness:
  "bm_ok example_bitmap \<and> free_run (bm_list example_bitmap) 1 2 False \<and> bitmap_scan_and_flip example_bitmap 3 0 False = Inr (3, example_bitmap)"
proof -
  have "3 \<le> bit_cnt example_bitmap" by (simp add: example_bitmap_def)
  then show ?thesis
    using bitmap_scan_and_flip_spec [OF example_bitmap_ok, of 0 2 False] bitmap_scan_and_flip_spec [OF example_bitmap_ok, of 3 0 False]
      example_bitmap_ok example_scan by auto
qed

text \<open>Single-bit operations: on a well-formed bitmap, setting bit \<open>i\<close> changes exactly bit
  \<open>i\<close> of the represented bit string, and testing reads it back; an index at or beyond the
  size is caught by the assertion.\<close>

theorem bitmap_set_test:
  assumes "bm_ok b"
  shows "if i < bit_cnt b
    then \<exists>b'. bitmap_set b i v = Inr b' \<and> bm_ok b' \<and> bm_list b' = (bm_list b)[i := v]
      \<and> (\<forall>j < bit_cnt b. bitmap_test b' j = (if j = i then Inr v else bitmap_test b j))
    else bitmap_set b i v = Inl (Assert_fail ''idx < b->bit_cnt'')
      \<and> bitmap_test b i = Inl (Assert_fail ''idx < b->bit_cnt'')"
proof (cases "i < bit_cnt b")
  case True
  then show ?thesis
    using bitmap_bits_list(4) [OF assms, of i v] by (auto simp: bitmap_test_list assms nth_list_update)
qed (simp_all add: bitmap_set_def bitmap_test_def)

theorem bitmap_set_test_witness:
  "\<exists>b'. bitmap_set example_bitmap 3 True = Inr b' \<and> bitmap_test b' 3 = Inr True
    \<and> bitmap_set example_bitmap 4 True = Inl (Assert_fail ''idx < b->bit_cnt'')"
proof -
  have "bit_cnt example_bitmap = 4" by (simp add: example_bitmap_def)
  with bitmap_set_test [OF example_bitmap_ok, of 3 True] bitmap_set_test [OF example_bitmap_ok, of 4 True]
  show ?thesis by auto
qed

end
