(* ===== verification/Vaddr.thy ===== *)
theory Vaddr
  imports Prelude
begin

unbundle bit_operations_syntax

text \<open>
  Virtual addresses and page table entries: threads/vaddr.h and threads/pte.h. Addresses,
  page directory entries and page table entries are 32-bit machine words, and the masks and
  shifts are those of the source.
\<close>

type_synonym addr = "32 word"

section \<open>vaddr.h\<close>

definition BITMASK :: "nat \<Rightarrow> nat \<Rightarrow> addr" where
  "BITMASK shift cnt = push_bit shift (push_bit cnt 1 - 1)"

abbreviation (input) PGBITS :: nat where "PGBITS \<equiv> 12"

abbreviation (input) PGSIZE :: nat where "PGSIZE \<equiv> 4096"

definition PGMASK :: addr where
  "PGMASK = BITMASK 0 PGBITS"

definition pg_ofs :: "addr \<Rightarrow> addr" where
  "pg_ofs va = va AND PGMASK"

definition pg_no :: "addr \<Rightarrow> addr" where
  "pg_no va = drop_bit PGBITS va"

definition pg_round_up :: "addr \<Rightarrow> addr" where
  "pg_round_up va = (va + 4096 - 1) AND NOT PGMASK"

definition pg_round_down :: "addr \<Rightarrow> addr" where
  "pg_round_down va = va AND NOT PGMASK"

text \<open>\<open>LOADER_PHYS_BASE\<close> of threads/loader.h.\<close>

definition PHYS_BASE :: addr where
  "PHYS_BASE = 0xc0000000"

definition is_user_vaddr :: "addr \<Rightarrow> bool" where
  "is_user_vaddr vaddr \<longleftrightarrow> vaddr < PHYS_BASE"

definition is_kernel_vaddr :: "addr \<Rightarrow> bool" where
  "is_kernel_vaddr vaddr \<longleftrightarrow> vaddr \<ge> PHYS_BASE"

definition ptov :: "addr \<Rightarrow> addr res" where
  "ptov paddr = require (paddr < PHYS_BASE) ''(void *) paddr < PHYS_BASE'' (Inr (paddr + PHYS_BASE))"

definition vtop :: "addr \<Rightarrow> addr res" where
  "vtop vaddr = require (is_kernel_vaddr vaddr) ''is_kernel_vaddr (vaddr)'' (Inr (vaddr - PHYS_BASE))"

section \<open>pte.h\<close>

abbreviation (input) PTSHIFT :: nat where "PTSHIFT \<equiv> 12"

abbreviation (input) PDSHIFT :: nat where "PDSHIFT \<equiv> 22"

definition PTMASK :: addr where
  "PTMASK = BITMASK PTSHIFT 10"

definition pt_no :: "addr \<Rightarrow> addr" where
  "pt_no va = drop_bit PTSHIFT (va AND PTMASK)"

definition pd_no :: "addr \<Rightarrow> addr" where
  "pd_no va = drop_bit PDSHIFT va"

definition PTE_FLAGS :: addr where "PTE_FLAGS = 0x00000fff"
definition PTE_ADDR :: addr where "PTE_ADDR = 0xfffff000"
definition PTE_P :: addr where "PTE_P = 0x1"
definition PTE_W :: addr where "PTE_W = 0x2"
definition PTE_U :: addr where "PTE_U = 0x4"
definition PTE_A :: addr where "PTE_A = 0x20"
definition PTE_D :: addr where "PTE_D = 0x40"

definition pde_create :: "addr \<Rightarrow> addr res" where
  "pde_create pt = require (pg_ofs pt = 0) ''pg_ofs (pt) == 0''
     (bindr (vtop pt) (\<lambda>p. Inr (p OR PTE_U OR PTE_P OR PTE_W)))"

definition pde_get_pt :: "addr \<Rightarrow> addr res" where
  "pde_get_pt pde = require (pde AND PTE_P \<noteq> 0) ''pde & PTE_P'' (ptov (pde AND PTE_ADDR))"

definition pte_create_kernel :: "addr \<Rightarrow> bool \<Rightarrow> addr res" where
  "pte_create_kernel page writable = require (pg_ofs page = 0) ''pg_ofs (page) == 0''
     (bindr (vtop page) (\<lambda>p. Inr (p OR PTE_P OR (if writable then PTE_W else 0))))"

definition pte_create_user :: "addr \<Rightarrow> bool \<Rightarrow> addr res" where
  "pte_create_user page writable = bindr (pte_create_kernel page writable) (\<lambda>e. Inr (e OR PTE_U))"

definition pte_get_page :: "addr \<Rightarrow> addr res" where
  "pte_get_page pte = ptov (pte AND PTE_ADDR)"

section \<open>Correctness\<close>

lemma PGMASK_mask: "PGMASK = mask 12"
  by (simp add: PGMASK_def BITMASK_def mask_eq_decr_exp)

lemma pg_ofs_take: "pg_ofs va = take_bit 12 va"
  by (simp add: pg_ofs_def PGMASK_mask take_bit_eq_mask)

lemma unat_size: "unat (va :: addr) < SIZE_MOD"
  using unsigned_less [of va, where 'a = nat] by simp

lemma pg_ofs_unat: "unat (pg_ofs va) = unat va mod PGSIZE"
  by (simp add: pg_ofs_take unsigned_take_bit_eq) (simp add: take_bit_eq_mod)

lemma pg_no_unat: "unat (pg_no va) = unat va div PGSIZE"
  using unat_size [of va] by (simp add: pg_no_def unsigned_drop_bit_eq) (simp add: drop_bit_eq_div take_bit_eq_mod)

lemma pg_round_down_shift: "pg_round_down va = push_bit 12 (pg_no va)"
  by (rule bit_eqI) (auto simp: pg_round_down_def pg_no_def PGMASK_mask bit_simps)

lemma pg_round_down_unat: "unat (pg_round_down va) = PGSIZE * (unat va div PGSIZE)"
proof -
  have "PGSIZE * (unat va div PGSIZE) < 4294967296" 
    using unat_size [of va] by (metis div_times_less_eq_dividend le_less_trans mult.commute)
  then show ?thesis
    by (simp add: pg_round_down_shift unsigned_push_bit_eq)
      (simp add: pg_no_unat push_bit_eq_mult take_bit_eq_mod mult.commute)
qed

lemma pg_round_up_down: "pg_round_up va = pg_round_down (va + 4095)"
  by (simp add: pg_round_up_def pg_round_down_def add.commute)

lemma pg_round_up_unat:
  assumes "unat va + 4095 < SIZE_MOD"
  shows "unat (pg_round_up va) = PGSIZE * ((unat va + 4095) div PGSIZE)"
proof -
  have "unat (va + 4095) = unat va + 4095" using assms by (subst unat_add_lem [THEN iffD1]) auto
  then show ?thesis by (simp add: pg_round_up_down pg_round_down_unat)
qed

lemma PHYS_BASE_unat: "unat PHYS_BASE = 0xc0000000"
  by (simp add: PHYS_BASE_def)

text \<open>The page number, page offset and rounding functions of vaddr.h agree with division by the page size: an
  address is its rounded-down page plus its offset, the page is the page number times the page size,
  and rounding up an address gives the least page boundary at or above it, unless the
  sum wraps around.\<close>

theorem page_split:
  "unat va = unat (pg_round_down va) + unat (pg_ofs va)
   \<and> unat (pg_round_down va) = PGSIZE * unat (pg_no va) \<and> unat (pg_ofs va) < PGSIZE
   \<and> (if unat va + 4095 < SIZE_MOD
      then unat va \<le> unat (pg_round_up va) \<and> unat (pg_round_up va) < unat va + PGSIZE \<and> pg_ofs (pg_round_up va) = 0
      else pg_round_up va = 0)"
proof -
  have ofs: "pg_ofs (pg_round_up va) = 0" if "unat va + 4095 < SIZE_MOD"
    using pg_ofs_unat [of "pg_round_up va"] pg_round_up_unat [OF that] by (simp add: unat_eq_0)
  have wrap: "pg_round_up va = 0" if "\<not> unat va + 4095 < SIZE_MOD"
  proof -
    have "unat (va + 4095) = unat va + 4095 - SIZE_MOD"
      using that unat_size [of va] by (simp add: unat_word_ariths mod_if)
    then have "unat (pg_round_down (va + 4095)) = 0"
      using unat_size [of va] that by (simp add: pg_round_down_unat)
    then show ?thesis by (simp add: pg_round_up_down unat_eq_0)
  qed
  show ?thesis
    using ofs wrap pg_round_up_unat [of va] by (auto simp: pg_round_down_unat pg_ofs_unat pg_no_unat)
qed

lemma vtop_inverse: "is_kernel_vaddr v \<Longrightarrow> v - PHYS_BASE < PHYS_BASE"
proof -
  assume "is_kernel_vaddr v"
  then have "unat (v - PHYS_BASE) = unat v - unat PHYS_BASE"
    by (simp add: is_kernel_vaddr_def unat_sub)
  then show ?thesis using unat_size [of v] by (simp add: word_less_nat_alt PHYS_BASE_unat)
qed

lemma pg_ofs_PHYS_BASE: "is_kernel_vaddr v \<Longrightarrow> pg_ofs (v - PHYS_BASE) = pg_ofs v"
proof -
  assume "is_kernel_vaddr v"
  then have u: "unat (v - PHYS_BASE) = unat v - 0xc0000000" "0xc0000000 \<le> unat v"
    by (simp_all add: is_kernel_vaddr_def unat_sub PHYS_BASE_unat word_le_nat_alt)
  then obtain k where "unat v = 0xc0000000 + k" using le_Suc_ex by blast
  then have "unat (pg_ofs (v - PHYS_BASE)) = unat (pg_ofs v)"
    using u(1) mod_mult_self4 [of 4096 786432 k] by (simp add: pg_ofs_unat)
  then show ?thesis by (rule unsigned_word_eqI)
qed

lemma page_or_flags:
  assumes "pg_ofs p = 0" and "f AND PTE_ADDR = 0"
  shows "(p OR f) AND PTE_ADDR = p"
proof -
  have "PTE_ADDR = NOT (mask 12)" by (simp add: PTE_ADDR_def mask_eq_decr_exp)
  then have "p AND PTE_ADDR = p"
    using assms(1) by (auto simp: pg_ofs_take bit_simps bit_eq_iff)
  then show ?thesis using assms(2) by (simp add: bit.conj_disj_distrib2)
qed

lemma vtop_ptov: "is_kernel_vaddr v \<Longrightarrow> ptov (v - PHYS_BASE) = Inr v"
  by (simp add: ptov_def vtop_inverse)

lemma pte_values:
  assumes "is_kernel_vaddr page" and "pg_ofs page = 0"
  shows "\<exists>k u d. pte_create_kernel page w = Inr k \<and> pte_create_user page w = Inr u \<and> pde_create page = Inr d
    \<and> pte_get_page k = Inr page \<and> pte_get_page u = Inr page \<and> pde_get_pt d = Inr page
    \<and> k AND PTE_P \<noteq> 0 \<and> u AND PTE_P \<noteq> 0 \<and> k AND PTE_U = 0 \<and> u AND PTE_U \<noteq> 0
    \<and> (k AND PTE_W \<noteq> 0 \<longleftrightarrow> w) \<and> (u AND PTE_W \<noteq> 0 \<longleftrightarrow> w)"
proof -
  let ?p = "page - PHYS_BASE"
  let ?k = "PTE_P OR (if w then PTE_W else 0)"
  have p: "pg_ofs ?p = 0" using assms by (simp add: pg_ofs_PHYS_BASE)
  have addr: "(?p OR f) AND PTE_ADDR = ?p" if "f AND PTE_ADDR = 0" for f
    using page_or_flags [OF p that] .
  have low: "?p AND m = 0" if "m AND PTE_ADDR = 0" for m
  proof -
    have "?p AND m = (?p AND PTE_ADDR) AND m" using addr [of 0] by simp
    also have "\<dots> = ?p AND (m AND PTE_ADDR)" by (simp only: and.assoc and.commute and.left_commute)
    finally show ?thesis using that by simp
  qed
  have flags: "?k AND PTE_ADDR = 0" "(?k OR PTE_U) AND PTE_ADDR = 0" "(PTE_U OR PTE_P OR PTE_W) AND PTE_ADDR = 0"
    by (simp_all add: PTE_P_def PTE_W_def PTE_U_def PTE_ADDR_def)
  have bits: "(?p OR f) AND PTE_P = f AND PTE_P" "(?p OR f) AND PTE_W = f AND PTE_W" "(?p OR f) AND PTE_U = f AND PTE_U" for f
    using low [of PTE_P] low [of PTE_W] low [of PTE_U]
    by (simp_all add: bit.conj_disj_distrib2 PTE_P_def PTE_W_def PTE_U_def PTE_ADDR_def)
  have create: "pte_create_kernel page w = Inr (?p OR ?k)" "pte_create_user page w = Inr (?p OR (?k OR PTE_U))"
    "pde_create page = Inr (?p OR (PTE_U OR PTE_P OR PTE_W))"
    using assms by (simp_all add: pte_create_user_def pte_create_kernel_def pde_create_def vtop_def or.assoc)
  show ?thesis
    unfolding create
    using vtop_ptov [OF assms(1)] flags
    by (auto simp: pte_get_page_def pde_get_pt_def addr bits) (simp_all add: PTE_P_def PTE_W_def PTE_U_def)
qed

text \<open>A page table entry made by \<open>pte_create_user\<close> or \<open>pte_create_kernel\<close> leads back to the page it was made
  for, is present, is writable exactly when asked to be, and is accessible to user code only if made by
  \<open>pte_create_user\<close>; a page directory entry made by \<open>pde_create\<close> leads back to its page table.\<close>

theorem pte_roundtrip:
  assumes "is_kernel_vaddr page" and "pg_ofs page = 0"
  shows "\<exists>k u d. pte_create_kernel page w = Inr k \<and> pte_create_user page w = Inr u \<and> pde_create page = Inr d
    \<and> pte_get_page k = Inr page \<and> pte_get_page u = Inr page \<and> pde_get_pt d = Inr page
    \<and> k AND PTE_P \<noteq> 0 \<and> u AND PTE_P \<noteq> 0 \<and> k AND PTE_U = 0 \<and> u AND PTE_U \<noteq> 0
    \<and> (k AND PTE_W \<noteq> 0 \<longleftrightarrow> w) \<and> (u AND PTE_W \<noteq> 0 \<longleftrightarrow> w)"
  using assms by (rule pte_values)

theorem pte_roundtrip_witness:
  "pte_create_user 0xc0101000 True = Inr 0x101007 \<and> pte_get_page 0x101007 = Inr 0xc0101000"
proof -
  have "is_kernel_vaddr 0xc0101000" "pg_ofs 0xc0101000 = 0"
    by (simp_all add: is_kernel_vaddr_def PHYS_BASE_def pg_ofs_def PGMASK_def BITMASK_def)
  from pte_roundtrip [OF this, of True]
  have "\<exists>u. pte_create_user 0xc0101000 True = Inr u \<and> pte_get_page u = Inr 0xc0101000" by blast
  moreover have "pte_create_user 0xc0101000 True = Inr 0x101007"
    by (simp add: pte_create_user_def pte_create_kernel_def pg_ofs_def PGMASK_def BITMASK_def vtop_def
        is_kernel_vaddr_def PHYS_BASE_def PTE_P_def PTE_W_def PTE_U_def)
  ultimately show ?thesis by auto
qed

lemma index_values: "unat (pt_no va) = unat va div 4096 mod 1024" "unat (pd_no va) = unat va div 4194304"
proof -
  have m: "PTMASK = push_bit 12 (mask 10)"
    by (simp add: PTMASK_def BITMASK_def mask_eq_decr_exp)
  have "pt_no va = take_bit 10 (drop_bit 12 va)"
    by (intro bit_eqI) (auto simp: pt_no_def m bit_simps)
  then show "unat (pt_no va) = unat va div 4096 mod 1024"
    using unat_size [of va] by (simp add: unsigned_take_bit_eq unsigned_drop_bit_eq) (simp add: take_bit_eq_mod drop_bit_eq_div)
  show "unat (pd_no va) = unat va div 4194304"
    using unat_size [of va] by (simp add: pd_no_def unsigned_drop_bit_eq) (simp add: drop_bit_eq_div take_bit_eq_mod)
qed

text \<open>The three indices that the paging hardware takes from a virtual address determine it:
  two addresses with the same page directory index, page table index and offset are equal,
  and the indices are in range.\<close>

theorem address_indices:
  "unat va = unat (pd_no va) * 2 ^ 22 + unat (pt_no va) * 2 ^ 12 + unat (pg_ofs va)
   \<and> unat (pd_no va) < 1024 \<and> unat (pt_no va) < 1024 \<and> unat (pg_ofs va) < 4096"
proof -
  have "unat va div 4194304 = unat va div 4096 div 1024" by (simp add: div_mult2_eq [symmetric])
  moreover have "unat va div 4194304 < 1024" using unat_size [of va] by simp
  moreover have "q div 1024 * 4194304 + q mod 1024 * 4096 = q * 4096" for q :: nat
    using div_mult_mod_eq [of q 1024] by linarith
  ultimately show ?thesis by (simp add: pg_ofs_unat index_values)
qed

end
