(* ===== verification/Palloc.thy ===== *)
theory Palloc
  imports Bitmap Vaddr
begin

unbundle bit_operations_syntax

text \<open>
  The page allocator of threads/palloc.c: two pools of pages, each with a bitmap of the pages in
  use. Memory is a function from addresses to bytes, so that the fills with zeros and with
  \<open>0xcc\<close> are visible. A pool's lock is held from the scan to the end of the flip and the
  operations run to completion under it, so each operation is one step of the model and the lock has no
  field of its own.

  The bitmap is a client-visible interface: the lemmas below use only the contract \<open>range_allocator\<close>,
  through its interpretation on bitmaps. The abstract state is the set of allocated page numbers.
\<close>

section \<open>Data\<close>

record pool =
  used_map :: bitmap
  base :: addr

record palloc =
  kernel_pool :: pool
  user_pool :: pool
  pmem :: "addr \<Rightarrow> 8 word"

type_synonym palloc_flags = "32 word"

definition PAL_ASSERT :: palloc_flags where "PAL_ASSERT = 1"
definition PAL_ZERO :: palloc_flags where "PAL_ZERO = 2"
definition PAL_USER :: palloc_flags where "PAL_USER = 4"

text \<open>\<open>memset\<close> on the bytes of memory, and the little-endian load of one bitmap element.\<close>

definition memset_mem :: "(addr \<Rightarrow> 8 word) \<Rightarrow> addr \<Rightarrow> 8 word \<Rightarrow> nat \<Rightarrow> addr \<Rightarrow> 8 word" where
  "memset_mem m dst v n = (\<lambda>a. if unat (a - dst) < n then v else m a)"

definition load_elem :: "(addr \<Rightarrow> 8 word) \<Rightarrow> addr \<Rightarrow> elem_type" where
  "load_elem m a = ucast (m a) OR push_bit 8 (ucast (m (a + 1)))
     OR push_bit 16 (ucast (m (a + 2))) OR push_bit 24 (ucast (m (a + 3)))"

section \<open>Operations\<close>

text \<open>\<open>DIV_ROUND_UP\<close> of lib/round.h at type \<open>size_t\<close>.\<close>

definition DIV_ROUND_UP :: "nat \<Rightarrow> nat \<Rightarrow> nat" where
  "DIV_ROUND_UP x step = ((x + step - 1) mod SIZE_MOD) div step"

text \<open>The address \<open>page_idx\<close> pages beyond \<open>b\<close>.\<close>

definition page_addr :: "addr \<Rightarrow> nat \<Rightarrow> addr" where
  "page_addr b page_idx = b + of_nat (PGSIZE * page_idx)"

definition init_pool :: "(addr \<Rightarrow> 8 word) \<Rightarrow> addr \<Rightarrow> nat \<Rightarrow> string \<Rightarrow> pool res" where
  "init_pool m start page_cnt name =
     (let bm_pages = DIV_ROUND_UP (bitmap_buf_size page_cnt) PGSIZE in
      if bm_pages > page_cnt then Inl (Panic (''Not enough memory in '' @ name @ '' for bitmap.''))
      else
        let page_cnt = page_cnt - bm_pages;
            block = map (\<lambda>i. load_elem m (start + 8 + of_nat (4 * i))) [0..<elem_cnt page_cnt]
        in bindr (bitmap_create_in_buf page_cnt block ((bm_pages * PGSIZE) mod SIZE_MOD))
             (\<lambda>bm. Inr \<lparr>used_map = bm, base = page_addr start bm_pages\<rparr>))"

text \<open>\<open>init_ram_pages\<close> is set by the loader. The pointer difference \<open>free_end - free_start\<close> is signed
  and C division truncates towards zero.\<close>

definition palloc_init :: "(addr \<Rightarrow> 8 word) \<Rightarrow> 32 word \<Rightarrow> nat \<Rightarrow> palloc res" where
  "palloc_init m init_ram_pages user_page_limit =
     bindr (ptov (1024 * 1024)) (\<lambda>free_start.
     bindr (ptov (init_ram_pages * 4096)) (\<lambda>free_end.
     let d = sint (free_end - free_start);
         free_pages = unat (word_of_int (if d \<ge> 0 then d div 4096 else - ((- d) div 4096)) :: 32 word);
         user_pages = free_pages div 2;
         user_pages = (if user_pages > user_page_limit then user_page_limit else user_pages);
         kernel_pages = free_pages - user_pages
     in bindr (init_pool m free_start kernel_pages ''kernel pool'') (\<lambda>kp.
        bindr (init_pool m (page_addr free_start kernel_pages) user_pages ''user pool'') (\<lambda>up.
        Inr \<lparr>kernel_pool = kp, user_pool = up, pmem = m\<rparr>))))"

definition page_from_pool :: "pool \<Rightarrow> addr \<Rightarrow> bool" where
  "page_from_pool p page =
     (let page_no = unat (pg_no page);
          start_page = unat (pg_no (base p));
          end_page = (start_page + bitmap_size (used_map p)) mod SIZE_MOD
      in page_no \<ge> start_page \<and> page_no < end_page)"

definition put_pool :: "palloc \<Rightarrow> bool \<Rightarrow> pool \<Rightarrow> palloc" where
  "put_pool s user p = (if user then s\<lparr>user_pool := p\<rparr> else s\<lparr>kernel_pool := p\<rparr>)"

definition get_pool :: "palloc \<Rightarrow> bool \<Rightarrow> pool" where
  "get_pool s user = (if user then user_pool s else kernel_pool s)"

definition palloc_get_multiple :: "palloc \<Rightarrow> palloc_flags \<Rightarrow> nat \<Rightarrow> (addr \<times> palloc) res" where
  "palloc_get_multiple s flags page_cnt =
     (let user = (flags AND PAL_USER \<noteq> 0); pool = get_pool s user in
      if page_cnt = 0 then Inr (0, s)
      else bindr (bitmap_scan_and_flip (used_map pool) 0 page_cnt False) (\<lambda>(page_idx, bm).
        let s = put_pool s user (pool\<lparr>used_map := bm\<rparr>);
            pages = (if page_idx \<noteq> BITMAP_ERROR then page_addr (base pool) page_idx else 0)
        in if pages \<noteq> 0 then
             Inr (pages, if flags AND PAL_ZERO \<noteq> 0
               then s\<lparr>pmem := memset_mem (pmem s) pages 0 ((PGSIZE * page_cnt) mod SIZE_MOD)\<rparr> else s)
           else if flags AND PAL_ASSERT \<noteq> 0 then Inl (Panic ''palloc_get: out of pages'')
           else Inr (pages, s)))"

definition palloc_get_page :: "palloc \<Rightarrow> palloc_flags \<Rightarrow> (addr \<times> palloc) res" where
  "palloc_get_page s flags = palloc_get_multiple s flags 1"

definition palloc_free_multiple :: "palloc \<Rightarrow> addr \<Rightarrow> nat \<Rightarrow> palloc res" where
  "palloc_free_multiple s pages page_cnt =
     require (pg_ofs pages = 0) ''pg_ofs (pages) == 0''
     (if pages = 0 \<or> page_cnt = 0 then Inr s
      else bindr (if page_from_pool (kernel_pool s) pages then Inr False
                  else if page_from_pool (user_pool s) pages then Inr True
                  else Inl Not_reached) (\<lambda>user.
        let pool = get_pool s user;
            page_idx = unat (pg_no pages - pg_no (base pool));
            s = s\<lparr>pmem := memset_mem (pmem s) pages 0xcc ((PGSIZE * page_cnt) mod SIZE_MOD)\<rparr>
        in bindr (bitmap_all (used_map pool) page_idx page_cnt) (\<lambda>all.
           require all ''bitmap_all (pool->used_map, page_idx, page_cnt)''
           (bindr (bitmap_set_multiple (used_map pool) page_idx page_cnt False) (\<lambda>bm.
              Inr (put_pool s user (pool\<lparr>used_map := bm\<rparr>)))))))"

definition palloc_free_page :: "palloc \<Rightarrow> addr \<Rightarrow> palloc res" where
  "palloc_free_page s page = palloc_free_multiple s page 1"

section \<open>Well-formed pools and the set of allocated pages\<close>

definition page_num :: "addr \<Rightarrow> nat" where
  "page_num a = unat (pg_no a)"

definition pool_ok :: "pool \<Rightarrow> bool" where
  "pool_ok p \<longleftrightarrow> bm_ok (used_map p) \<and> pg_ofs (base p) = 0 \<and> is_kernel_vaddr (base p)
     \<and> unat (base p) + PGSIZE * bit_cnt (used_map p) \<le> SIZE_MOD"

definition pool_pages :: "pool \<Rightarrow> nat set" where
  "pool_pages p = {page_num (base p) ..< page_num (base p) + bit_cnt (used_map p)}"

definition pool_allocated :: "pool \<Rightarrow> nat set" where
  "pool_allocated p = {k \<in> pool_pages p. bm_used (used_map p) (k - page_num (base p))}"

definition palloc_ok :: "palloc \<Rightarrow> bool" where
  "palloc_ok s \<longleftrightarrow> pool_ok (kernel_pool s) \<and> pool_ok (user_pool s)
     \<and> pool_pages (kernel_pool s) \<inter> pool_pages (user_pool s) = {}"

definition allocated :: "palloc \<Rightarrow> nat set" where
  "allocated s = pool_allocated (kernel_pool s) \<union> pool_allocated (user_pool s)"

definition page_range :: "addr \<Rightarrow> nat \<Rightarrow> nat set" where
  "page_range p n = {page_num p ..< page_num p + n}"

lemma page_num_inj:
  assumes "pg_ofs t = 0" "pg_ofs u = 0" "page_num t = page_num u"
  shows "t = u"
proof -
  have "unat t mod PGSIZE = 0" "unat u mod PGSIZE = 0" "unat t div PGSIZE = unat u div PGSIZE"
    using assms pg_ofs_unat [of t] pg_ofs_unat [of u] by (auto simp: page_num_def pg_no_unat)
  then have "unat t = unat u" by (metis div_mult_mod_eq)
  then show ?thesis by (rule unsigned_word_eqI)
qed

lemma pool_allocated_subset: "pool_allocated p \<subseteq> pool_pages p"
  by (auto simp: pool_allocated_def)

lemma get_put_pool [simp]:
  "get_pool (put_pool s u p) v = (if u = v then p else get_pool s v)"
  "get_pool (s\<lparr>pmem := m\<rparr>) v = get_pool s v"
  "pmem (put_pool s u p) = pmem s"
  by (simp_all add: get_pool_def put_pool_def)

lemma palloc_ok_alt:
  "palloc_ok s \<longleftrightarrow> (\<forall>u. pool_ok (get_pool s u)) \<and> pool_pages (get_pool s True) \<inter> pool_pages (get_pool s False) = {}"
  by (auto simp: palloc_ok_def get_pool_def)

lemma allocated_alt: "allocated s = pool_allocated (get_pool s u) \<union> pool_allocated (get_pool s (\<not> u))"
  by (auto simp: allocated_def get_pool_def)

lemma pool_page:
  assumes "pool_ok p" and "i < bit_cnt (used_map p)"
  shows "unat (page_addr (base p) i) = unat (base p) + PGSIZE * i" (is ?u)
    and "page_num (page_addr (base p) i) = page_num (base p) + i"
    and "pg_ofs (page_addr (base p) i) = 0"
    and "page_addr (base p) i \<noteq> 0"
proof -
  let ?a = "page_addr (base p) i"
  have b: "unat (base p) mod PGSIZE = 0" "0 < unat (base p)"
    using assms(1) pg_ofs_unat [of "base p"]
    by (auto simp: pool_ok_def is_kernel_vaddr_def word_le_nat_alt PHYS_BASE_unat)
  have lim: "unat (base p) + PGSIZE * i < SIZE_MOD" using assms by (simp add: pool_ok_def)
  then have u: "unat (of_nat (PGSIZE * i) :: addr) = PGSIZE * i"
    by (simp only: unsigned_of_nat) (simp add: take_bit_eq_mod)
  show U: ?u unfolding page_addr_def using lim u by (subst unat_add_lem [THEN iffD1]) auto
  show "page_num ?a = page_num (base p) + i" using b by (simp add: page_num_def pg_no_unat U)
  have "unat (pg_ofs ?a) = 0" using b by (simp add: pg_ofs_unat U)
  then show "pg_ofs ?a = 0" by (simp add: unat_eq_0)
  show "?a \<noteq> 0" using U b(2) by (metis add_is_0 less_numeral_extra(3) unsigned_0)
qed

lemma pool_update_ok:
  "pool_ok p \<Longrightarrow> bm_ok b \<Longrightarrow> bit_cnt b = bit_cnt (used_map p) \<Longrightarrow> pool_ok (p\<lparr>used_map := b\<rparr>)"
  by (simp add: pool_ok_def)

lemma pool_update_pages:
  "bit_cnt b = bit_cnt (used_map p) \<Longrightarrow> pool_pages (p\<lparr>used_map := b\<rparr>) = pool_pages p"
  by (simp add: pool_pages_def)

lemma put_pool_ok:
  assumes "palloc_ok s" and "bm_ok b" and "bit_cnt b = bit_cnt (used_map (get_pool s u))"
  shows "palloc_ok (put_pool s u ((get_pool s u)\<lparr>used_map := b\<rparr>))"
  using assms pool_update_ok [of "get_pool s u" b] pool_update_pages [OF assms(3)]
  by (cases u) (auto simp: palloc_ok_alt)

lemma put_pool_pages:
  assumes "bit_cnt b = bit_cnt (used_map (get_pool s u))"
  shows "pool_pages (get_pool (put_pool s u ((get_pool s u)\<lparr>used_map := b\<rparr>)) v) = pool_pages (get_pool s v)"
  using pool_update_pages [OF assms] by auto

lemma pmem_ok [simp]: "palloc_ok (s\<lparr>pmem := m\<rparr>) = palloc_ok s" "allocated (s\<lparr>pmem := m\<rparr>) = allocated s"
  by (simp_all add: palloc_ok_def allocated_def)

lemma put_pool_allocated:
  assumes "palloc_ok s" and "bit_cnt b = bit_cnt (used_map (get_pool s u))"
    and "pool_allocated ((get_pool s u)\<lparr>used_map := b\<rparr>) = pool_allocated (get_pool s u) \<union> A"
  shows "allocated (put_pool s u ((get_pool s u)\<lparr>used_map := b\<rparr>)) = allocated s \<union> A"
  using assms(3) by (auto simp: allocated_alt [of _ u])

lemma pool_scan:
  assumes "pool_ok p" and "0 < n"
  obtains (found) i b where "bitmap_scan_and_flip (used_map p) 0 n False = Inr (i, b)" "i \<noteq> BITMAP_ERROR"
      "i + n \<le> bit_cnt (used_map p)" "bm_ok b" "bit_cnt b = bit_cnt (used_map p)"
      "page_range (page_addr (base p) i) n \<subseteq> pool_pages p - pool_allocated p"
      "pool_allocated (p\<lparr>used_map := b\<rparr>) = pool_allocated p \<union> page_range (page_addr (base p) i) n"
    | (none) "bitmap_scan_and_flip (used_map p) 0 n False = Inr (BITMAP_ERROR, used_map p)"
      "\<And>k. \<not> {k ..< k + n} \<subseteq> pool_pages p - pool_allocated p"
proof -
  let ?B = "page_num (base p)"
  have ok: "bm_ok (used_map p)" using assms(1) by (simp add: pool_ok_def)
  obtain i b where ib: "bitmap_scan_and_flip (used_map p) 0 n False = Inr (i, b)" "bm_ok b"
      "bit_cnt b = bit_cnt (used_map p)"
    using bm.alloc_total [OF ok, of n] by blast
  show thesis
  proof (cases "i = BITMAP_ERROR")
    case True
    then have b: "b = used_map p" and no: "m + n \<le> bit_cnt (used_map p) \<Longrightarrow> \<exists>j. m \<le> j \<and> j < m + n \<and> bm_used (used_map p) j" for m
      using bm.alloc_fails [OF ok] ib(1) by blast+
    have "\<not> {k ..< k + n} \<subseteq> pool_pages p - pool_allocated p" for k
    proof
      assume sub: "{k ..< k + n} \<subseteq> pool_pages p - pool_allocated p"
      moreover have "k \<in> {k ..< k + n}" "k + n - 1 \<in> {k ..< k + n}" using assms(2) by auto
      ultimately have "k \<in> pool_pages p" "k + n - 1 \<in> pool_pages p" by blast+
      then obtain m where m: "k = ?B + m" "m + n \<le> bit_cnt (used_map p)"
        using assms(2) by (auto simp: pool_pages_def dest!: le_Suc_ex)
      then obtain j where "m \<le> j" "j < m + n" "bm_used (used_map p) j" using no by blast
      then have "?B + j \<in> {k ..< k + n}" "?B + j \<in> pool_allocated p"
        using m by (auto simp: pool_allocated_def pool_pages_def)
      then show False using sub by blast
    qed
    then show thesis using none ib b True by blast
  next
    case False
    note w = bm.alloc_works [OF ok ib(1) False]
    then have i: "i < bit_cnt (used_map p)" using assms(2) by auto
    have r: "page_range (page_addr (base p) i) n = {?B + i ..< ?B + i + n}"
      by (simp add: page_range_def pool_page [OF assms(1) i])
    have "page_range (page_addr (base p) i) n \<subseteq> pool_pages p - pool_allocated p"
    proof
      fix k assume "k \<in> page_range (page_addr (base p) i) n"
      then have "?B \<le> k" "i \<le> k - ?B" "k - ?B < i + n" unfolding r by auto
      then show "k \<in> pool_pages p - pool_allocated p" using w by (auto simp: pool_pages_def pool_allocated_def)
    qed
    moreover have "pool_allocated (p\<lparr>used_map := b\<rparr>) = pool_allocated p \<union> page_range (page_addr (base p) i) n"
    proof -
      have "k \<in> pool_allocated (p\<lparr>used_map := b\<rparr>) \<longleftrightarrow> k \<in> pool_allocated p \<union> {?B + i ..< ?B + i + n}" for k
      proof (cases "k \<in> pool_pages p")
        case True
        then have "?B \<le> k" "k - ?B < bit_cnt (used_map p)" by (auto simp: pool_pages_def)
        with w True show ?thesis by (auto simp: pool_allocated_def pool_pages_def ib(3))
      next
        case False
        with w show ?thesis by (auto simp: pool_allocated_def pool_pages_def ib(3))
      qed
      then show ?thesis unfolding r by blast
    qed
    ultimately show thesis using found ib False w by blast
  qed
qed

lemma memset_pages:
  assumes "pg_ofs p = 0" and "unat p + PGSIZE * n \<le> SIZE_MOD" and "0 < unat p"
  shows "memset_mem m p v ((PGSIZE * n) mod SIZE_MOD) a = (if page_num a \<in> page_range p n then v else m a)"
proof -
  obtain q where q: "unat p = PGSIZE * q" using assms(1) pg_ofs_unat [of p] by auto
  have "unat (a - p) < PGSIZE * n \<longleftrightarrow> PGSIZE * q \<le> unat a \<and> unat a < PGSIZE * (q + n)"
    using assms(2,3) unat_size [of a] q by (auto simp: unat_sub_if' word_size)
  also have "\<dots> \<longleftrightarrow> q \<le> unat a div PGSIZE \<and> unat a div PGSIZE < q + n"
    by (simp add: less_eq_div_iff_mult_less_eq div_less_iff_less_mult mult.commute)
  also have "\<dots> \<longleftrightarrow> page_num a \<in> page_range p n"
    by (simp add: page_range_def page_num_def pg_no_unat q)
  finally show ?thesis using assms(2,3) by (simp add: memset_mem_def)
qed

lemma page_from_pool_iff:
  assumes "pool_ok p"
  shows "page_from_pool p a \<longleftrightarrow> page_num a \<in> pool_pages p"
proof -
  have "page_num (base p) * PGSIZE \<le> unat (base p)" by (simp add: page_num_def pg_no_unat)
  then have "page_num (base p) + bit_cnt (used_map p) < SIZE_MOD"
    using assms unfolding pool_ok_def by linarith
  then show ?thesis
    by (simp add: page_from_pool_def page_num_def pool_pages_def bitmap_size_def Let_def)
qed

lemma pool_release:
  assumes ok: "pool_ok p" and sub: "page_range a n \<subseteq> pool_pages p" and n: "0 < n"
  shows "bitmap_all (used_map p) (unat (pg_no a - pg_no (base p))) n = Inr (page_range a n \<subseteq> pool_allocated p)"
    and "\<exists>b. bitmap_set_multiple (used_map p) (unat (pg_no a - pg_no (base p))) n False = Inr b \<and> bm_ok b
      \<and> bit_cnt b = bit_cnt (used_map p)
      \<and> pool_allocated (p\<lparr>used_map := b\<rparr>) = pool_allocated p - page_range a n"
proof -
  let ?B = "page_num (base p)" and ?i = "page_num a - page_num (base p)"
  have bm: "bm_ok (used_map p)" using ok by (simp add: pool_ok_def)
  have "page_num a \<in> page_range a n" "page_num a + n - 1 \<in> page_range a n" using n by (auto simp: page_range_def)
  then have "page_num a \<in> pool_pages p" "page_num a + n - 1 \<in> pool_pages p" using sub by blast+
  then have r: "?B \<le> page_num a" "?i + n \<le> bit_cnt (used_map p)" using n by (auto simp: pool_pages_def)
  have i: "unat (pg_no a - pg_no (base p)) = ?i" using r(1) by (simp add: page_num_def unat_sub word_le_nat_alt)
  have range: "k \<in> page_range a n \<longleftrightarrow> ?B \<le> k \<and> ?i \<le> k - ?B \<and> k - ?B < ?i + n" for k
    using r(1) by (auto simp: page_range_def)
  have "(\<forall>j. ?i \<le> j \<and> j < ?i + n \<longrightarrow> bm_list (used_map p) ! j) \<longleftrightarrow> page_range a n \<subseteq> pool_allocated p"
  proof (intro iffI subsetI allI impI)
    fix k assume "\<forall>j. ?i \<le> j \<and> j < ?i + n \<longrightarrow> bm_list (used_map p) ! j" "k \<in> page_range a n"
    then show "k \<in> pool_allocated p" using sub r(2) by (auto simp: range pool_allocated_def bm_used_def)
  next
    fix j assume "page_range a n \<subseteq> pool_allocated p" and j: "?i \<le> j \<and> j < ?i + n"
    moreover have "?B + j \<in> page_range a n" using j by (simp add: range)
    ultimately show "bm_list (used_map p) ! j" by (auto simp: pool_allocated_def bm_used_def)
  qed
  then show "bitmap_all (used_map p) (unat (pg_no a - pg_no (base p))) n = Inr (page_range a n \<subseteq> pool_allocated p)"
    using bitmap_contains_list [OF bm r(2), of False] by (auto simp: bitmap_all_def i)
  obtain b where b: "bitmap_set_multiple (used_map p) ?i n False = Inr b" "bm_ok b" "bit_cnt b = bit_cnt (used_map p)"
      "\<forall>j < bit_cnt (used_map p). bm_used b j \<longleftrightarrow> bm_used (used_map p) j \<and> \<not> (?i \<le> j \<and> j < ?i + n)"
    using bm.release_works [OF bm r(2)] by blast
  have "k \<in> pool_allocated (p\<lparr>used_map := b\<rparr>) \<longleftrightarrow> k \<in> pool_allocated p - page_range a n" for k
  proof (cases "k \<in> pool_pages p")
    case True
    then have "?B \<le> k" "k - ?B < bit_cnt (used_map p)" by (auto simp: pool_pages_def)
    with b(4) True show ?thesis by (auto simp: pool_allocated_def pool_pages_def b(3) range)
  qed (auto simp: pool_allocated_def pool_pages_def b(3))
  then show "\<exists>b. bitmap_set_multiple (used_map p) (unat (pg_no a - pg_no (base p))) n False = Inr b \<and> bm_ok b
      \<and> bit_cnt b = bit_cnt (used_map p)
      \<and> pool_allocated (p\<lparr>used_map := b\<rparr>) = pool_allocated p - page_range a n"
    using b i by auto
qed

lemma bitmap_buf_size_exact: "n \<le> 262144 \<Longrightarrow> bitmap_buf_size n = 8 + 4 * ((n + 31) div 32)"
  by (simp add: bitmap_buf_size_def byte_cnt_def elem_cnt_def add.commute)

lemma page_addr_start:
  assumes "pg_ofs b = 0" and "is_kernel_vaddr b" and "unat b + PGSIZE * i < SIZE_MOD"
  shows "unat (page_addr b i) = unat b + PGSIZE * i" and "pg_ofs (page_addr b i) = 0"
    and "is_kernel_vaddr (page_addr b i)" and "page_num (page_addr b i) = page_num b + i"
proof -
  obtain q where q: "unat b = PGSIZE * q" using assms(1) pg_ofs_unat [of b] by auto
  have u: "unat (of_nat (PGSIZE * i) :: addr) = PGSIZE * i"
    using assms(3) by (simp only: unsigned_of_nat) (simp add: take_bit_eq_mod)
  show U: "unat (page_addr b i) = unat b + PGSIZE * i"
    unfolding page_addr_def using assms(3) u by (subst unat_add_lem [THEN iffD1]) auto
  have "unat (pg_ofs (page_addr b i)) = 0" by (simp add: pg_ofs_unat U q)
  then show "pg_ofs (page_addr b i) = 0" by (simp add: unat_eq_0)
  show "is_kernel_vaddr (page_addr b i)" using assms(2) by (simp add: is_kernel_vaddr_def word_le_nat_alt U)
  show "page_num (page_addr b i) = page_num b + i" by (simp add: page_num_def pg_no_unat U q)
qed

lemma init_pool_ok:
  assumes n: "0 < n" and start: "pg_ofs start = 0" "is_kernel_vaddr start" "unat start + PGSIZE * n < SIZE_MOD"
  shows "\<exists>p. init_pool m start n name = Inr p \<and> pool_ok p \<and> pool_allocated p = {} \<and> bit_cnt (used_map p) < n
    \<and> pool_pages p \<subseteq> {page_num start ..< page_num start + n}"
proof -
  define k where "k = DIV_ROUND_UP (bitmap_buf_size n) PGSIZE"
  have small: "n \<le> 262144" using start(2,3) by (simp add: is_kernel_vaddr_def word_le_nat_alt PHYS_BASE_unat)
  then have k: "k = (8 + 4 * ((n + 31) div 32) + 4095) div 4096"
    by (simp add: k_def DIV_ROUND_UP_def bitmap_buf_size_exact)
  then have kn: "k \<le> n" "0 < k" using n by auto
  have "(n - k + 31) div 32 \<le> (n + 31) div 32" by (rule div_le_mono) simp
  moreover have "8 + 4 * ((n + 31) div 32) \<le> k * PGSIZE" using k by linarith
  ultimately have fit: "bitmap_buf_size (n - k) \<le> (k * PGSIZE) mod SIZE_MOD"
    using small kn(1) by (simp add: bitmap_buf_size_exact)
  obtain b where b: "bitmap_create_in_buf (n - k) (map (\<lambda>i. load_elem m (start + 8 + of_nat (4 * i))) [0..<elem_cnt (n - k)])
        ((k * PGSIZE) mod SIZE_MOD) = Inr b" "bm_ok b" "bit_cnt b = n - k" "bm_list b = replicate (n - k) False"
    using bitmap_create_in_buf_list [of "n - k" _ "(k * PGSIZE) mod SIZE_MOD"] small fit by force
  let ?p = "\<lparr>used_map = b, base = page_addr start k\<rparr>"
  have lt: "unat start + PGSIZE * k < SIZE_MOD" using start(3) kn(1) by simp
  note a = page_addr_start [OF start(1,2) lt]
  have "init_pool m start n name = Inr ?p"
    using b(1) kn by (simp add: init_pool_def Let_def k_def [symmetric])
  moreover have "pool_ok ?p" using a start(3) b kn by (simp add: pool_ok_def)
  moreover have "pool_allocated ?p = {}" using b by (auto simp: pool_allocated_def bm_used_def)
  moreover have "pool_pages ?p \<subseteq> {page_num start ..< page_num start + n}"
    using a(4) kn b(3) by (auto simp: pool_pages_def)
  ultimately show ?thesis using b(3) kn n by auto
qed

section \<open>Properties\<close>

lemma palloc_get_multiple_cases:
  assumes "palloc_ok s" and "0 < n"
  shows "(\<exists>p s'. palloc_get_multiple s flags n = Inr (p, s') \<and> palloc_ok s' \<and> p \<noteq> 0 \<and> pg_ofs p = 0
      \<and> page_range p n \<subseteq> pool_pages (get_pool s (flags AND PAL_USER \<noteq> 0)) - allocated s
      \<and> allocated s' = allocated s \<union> page_range p n \<and> (\<forall>v. pool_pages (get_pool s' v) = pool_pages (get_pool s v))
      \<and> (\<forall>a. pmem s' a = (if flags AND PAL_ZERO \<noteq> 0 \<and> page_num a \<in> page_range p n then 0 else pmem s a)))
    \<or> (palloc_get_multiple s flags n
          = (if flags AND PAL_ASSERT \<noteq> 0 then Inl (Panic ''palloc_get: out of pages'') else Inr (0, s))
      \<and> (\<forall>k. \<not> {k ..< k + n} \<subseteq> pool_pages (get_pool s (flags AND PAL_USER \<noteq> 0)) - allocated s))"
proof -
  let ?u = "flags AND PAL_USER \<noteq> 0"
  let ?p = "get_pool s ?u"
  have ok: "pool_ok ?p" using assms(1) by (simp add: palloc_ok_alt)
  have free: "pool_pages ?p - pool_allocated ?p = pool_pages ?p - allocated s"
    using assms(1) pool_allocated_subset [of "get_pool s (\<not> ?u)"]
    by (cases ?u) (auto simp: allocated_alt [of s ?u] palloc_ok_alt)
  show ?thesis
  proof (cases rule: pool_scan [OF ok assms(2), case_names found none])
    case (found i b)
    let ?a = "page_addr (base ?p) i"
    have i: "i < bit_cnt (used_map ?p)" using found(3) assms(2) by simp
    note a = pool_page [OF ok i]
    have lim: "unat ?a + PGSIZE * n \<le> SIZE_MOD" using found(3) ok a(1) by (simp add: pool_ok_def)
    have pos: "0 < unat ?a" using a(4) by (simp add: unat_gt_0)
    let ?s = "put_pool s ?u (?p\<lparr>used_map := b\<rparr>)"
    have "palloc_ok ?s" "allocated ?s = allocated s \<union> page_range ?a n"
      using put_pool_ok [OF assms(1) found(4,5)] put_pool_allocated [OF assms(1) found(5,7)] by auto
    then show ?thesis
      using found free a assms(2) memset_pages [OF a(3) lim pos] put_pool_pages [OF found(5)]
      by (intro disjI1) (auto simp: palloc_get_multiple_def Let_def)
  next
    case none
    have "put_pool s ?u (?p\<lparr>used_map := used_map ?p\<rparr>) = s" by (simp add: put_pool_def get_pool_def)
    then show ?thesis
      using none free assms(2) by (intro disjI2) (auto simp: palloc_get_multiple_def Let_def)
  qed
qed

text \<open>C10: \<open>palloc_get_multiple\<close> keeps the allocator well-formed. It returns the address of \<open>n\<close>
  consecutive pages of the pool that the flags select, none of them allocated before, and adds exactly these to the
  allocated pages; only these pages change, and they are zero if \<open>PAL_ZERO\<close> is given. Or the pool has no
  such pages; then it panics if \<open>PAL_ASSERT\<close> is given and otherwise returns a null pointer with the state unchanged.\<close>

theorem palloc_get_multiple_spec:
  assumes "palloc_ok s" and "0 < n"
  shows "(\<exists>p s'. palloc_get_multiple s flags n = Inr (p, s') \<and> palloc_ok s' \<and> p \<noteq> 0 \<and> pg_ofs p = 0
      \<and> page_range p n \<subseteq> pool_pages (get_pool s (flags AND PAL_USER \<noteq> 0)) - allocated s
      \<and> allocated s' = allocated s \<union> page_range p n \<and> (\<forall>v. pool_pages (get_pool s' v) = pool_pages (get_pool s v))
      \<and> (\<forall>a. pmem s' a = (if flags AND PAL_ZERO \<noteq> 0 \<and> page_num a \<in> page_range p n then 0 else pmem s a)))
    \<or> (palloc_get_multiple s flags n
          = (if flags AND PAL_ASSERT \<noteq> 0 then Inl (Panic ''palloc_get: out of pages'') else Inr (0, s))
      \<and> (\<forall>k. \<not> {k ..< k + n} \<subseteq> pool_pages (get_pool s (flags AND PAL_USER \<noteq> 0)) - allocated s))"
  using assms by (rule palloc_get_multiple_cases)

definition example_palloc :: palloc where
  "example_palloc = \<lparr>kernel_pool = \<lparr>used_map = example_bitmap, base = 0xc0101000\<rparr>,
     user_pool = \<lparr>used_map = \<lparr>bit_cnt = 4, bits = [0]\<rparr>, base = 0xc0108000\<rparr>, pmem = (\<lambda>a. 7)\<rparr>"

lemma example_palloc_ok: "palloc_ok example_palloc"
proof -
  have "pg_ofs 0xc0101000 = 0" "pg_ofs 0xc0108000 = 0" by (simp_all add: pg_ofs_def PGMASK_def BITMASK_def)
  then show ?thesis
    by (simp add: palloc_ok_def pool_ok_def example_palloc_def example_bitmap_ok bm_ok_def is_kernel_vaddr_def
        PHYS_BASE_def pool_pages_def page_num_def pg_no_unat example_bitmap_def)
qed

lemma example_palloc_pages:
  "pool_pages (kernel_pool example_palloc) = {0xc0101 ..< 0xc0105}" "allocated example_palloc = {0xc0101}"
proof -
  show "pool_pages (kernel_pool example_palloc) = {0xc0101 ..< 0xc0105}"
    by (simp add: pool_pages_def example_palloc_def page_num_def pg_no_unat example_bitmap_def)
  have one: "bm_used \<lparr>bit_cnt = 4, bits = [1]\<rparr> (k - 0xc0101) \<longleftrightarrow> k = 0xc0101" if "0xc0101 \<le> k" "k < 0xc0105" for k
    using that by (auto simp: bm_used_def bm_list_def bit_1_iff)
  show "allocated example_palloc = {0xc0101}"
    by (auto simp: allocated_def pool_allocated_def pool_pages_def example_palloc_def page_num_def pg_no_unat
        example_bitmap_def one) (auto simp: bm_used_def bm_list_def)
qed

theorem palloc_get_multiple_spec_witness:
  "\<exists>p s'. palloc_get_multiple example_palloc PAL_ZERO 2 = Inr (p, s') \<and> palloc_ok s'
     \<and> allocated s' = {0xc0101} \<union> page_range p 2 \<and> page_range p 2 \<subseteq> {0xc0102 ..< 0xc0105}"
proof -
  have pool: "get_pool example_palloc (PAL_ZERO AND PAL_USER \<noteq> 0) = kernel_pool example_palloc"
    by (simp add: get_pool_def PAL_ZERO_def PAL_USER_def)
  have "{0xc0102 ..< 0xc0102 + 2} \<subseteq> pool_pages (kernel_pool example_palloc) - allocated example_palloc"
    by (auto simp: example_palloc_pages)
  then show ?thesis
    using palloc_get_multiple_spec [OF example_palloc_ok, of 2 PAL_ZERO]
    unfolding pool example_palloc_pages by fastforce
qed

lemma palloc_free_multiple_cases:
  assumes "palloc_ok s" and "pg_ofs p = 0" and "p \<noteq> 0" and "0 < n"
  shows "if page_range p n \<subseteq> allocated s \<and> (\<exists>u. page_range p n \<subseteq> pool_pages (get_pool s u))
    then \<exists>s'. palloc_free_multiple s p n = Inr s' \<and> palloc_ok s' \<and> allocated s' = allocated s - page_range p n
      \<and> (\<forall>v. pool_pages (get_pool s' v) = pool_pages (get_pool s v))
      \<and> (\<forall>a. pmem s' a = (if page_num a \<in> page_range p n then 0xcc else pmem s a))
    else if \<exists>u. page_range p n \<subseteq> pool_pages (get_pool s u)
    then palloc_free_multiple s p n = Inl (Assert_fail ''bitmap_all (pool->used_map, page_idx, page_cnt)'')
    else page_num p \<in> pool_pages (get_pool s False) \<union> pool_pages (get_pool s True)
      \<or> palloc_free_multiple s p n = Inl Not_reached"
proof (cases "\<exists>u. page_range p n \<subseteq> pool_pages (get_pool s u)")
  case True
  then obtain u where u: "page_range p n \<subseteq> pool_pages (get_pool s u)" by blast
  let ?p = "get_pool s u"
  have ok: "pool_ok ?p" and other: "pool_pages ?p \<inter> pool_pages (get_pool s (\<not> u)) = {}"
    using assms(1) by (cases u; auto simp: palloc_ok_alt)+
  have "page_num p \<in> page_range p n" using assms(4) by (simp add: page_range_def)
  then have mem: "page_num p \<in> pool_pages ?p" "page_num p \<notin> pool_pages (get_pool s (\<not> u))" using u other by blast+
  have sel: "(if page_from_pool (kernel_pool s) p then Inr False
      else if page_from_pool (user_pool s) p then Inr True else Inl Not_reached) = (Inr u :: bool res)"
    using mem page_from_pool_iff assms(1) by (cases u) (auto simp: palloc_ok_def get_pool_def)
  have sub: "page_range p n \<subseteq> pool_allocated ?p \<longleftrightarrow> page_range p n \<subseteq> allocated s"
    using u other pool_allocated_subset [of "get_pool s (\<not> u)"] by (auto simp: allocated_alt [of s u])
  obtain b where b: "bitmap_set_multiple (used_map ?p) (unat (pg_no p - pg_no (base ?p))) n False = Inr b" "bm_ok b"
      "bit_cnt b = bit_cnt (used_map ?p)" "pool_allocated (?p\<lparr>used_map := b\<rparr>) = pool_allocated ?p - page_range p n"
    using pool_release(2) [OF ok u assms(4)] by blast
  have "pool_allocated (get_pool s (\<not> u)) \<inter> page_range p n = {}"
    using u other pool_allocated_subset [of "get_pool s (\<not> u)"] by blast
  then have al: "allocated (put_pool s u (?p\<lparr>used_map := b\<rparr>)) = allocated s - page_range p n"
    using b(4) by (auto simp: allocated_alt [of _ u])
  have okb: "palloc_ok (put_pool s u (?p\<lparr>used_map := b\<rparr>))" using put_pool_ok [OF assms(1) b(2,3)] .
  have "unat p + PGSIZE * n \<le> SIZE_MOD"
  proof -
    have "page_num p + n - 1 \<in> page_range p n" using assms(4) by (auto simp: page_range_def)
    then have "page_num p + n - 1 \<in> pool_pages ?p" using u by blast
    then have "page_num p + n \<le> page_num (base ?p) + bit_cnt (used_map ?p)" by (auto simp: pool_pages_def)
    moreover have "unat p = PGSIZE * page_num p" "unat (base ?p) = PGSIZE * page_num (base ?p)"
      using assms(2) ok pg_ofs_unat [of p] pg_ofs_unat [of "base ?p"]
      by (auto simp: page_num_def pg_no_unat pool_ok_def)
    ultimately show ?thesis using ok by (simp add: pool_ok_def)
  qed
  note mp = memset_pages [OF assms(2) this]
  have swap: "put_pool (s\<lparr>pmem := m\<rparr>) u q = (put_pool s u q)\<lparr>pmem := m\<rparr>" for m q by (simp add: put_pool_def)
  have eq: "palloc_free_multiple s p n = (if page_range p n \<subseteq> allocated s
      then Inr ((put_pool s u (?p\<lparr>used_map := b\<rparr>))\<lparr>pmem := memset_mem (pmem s) p 0xcc ((PGSIZE * n) mod SIZE_MOD)\<rparr>)
      else Inl (Assert_fail ''bitmap_all (pool->used_map, page_idx, page_cnt)''))"
    unfolding palloc_free_multiple_def sel using assms pool_release(1) [OF ok u assms(4)] b(1) sub
    by (simp add: Let_def swap)
  show ?thesis using True eq al okb mp assms(3) put_pool_pages [OF b(3)] by (auto simp: unat_gt_0)
next
  case False
  have "page_from_pool (get_pool s u) p \<longleftrightarrow> page_num p \<in> pool_pages (get_pool s u)" for u
    using assms(1) page_from_pool_iff by (simp add: palloc_ok_alt)
  from this [of False] this [of True]
  have "page_num p \<notin> pool_pages (get_pool s False) \<union> pool_pages (get_pool s True) \<Longrightarrow>
      palloc_free_multiple s p n = Inl Not_reached"
    using assms by (simp add: palloc_free_multiple_def get_pool_def)
  then show ?thesis using False by auto
qed

text \<open>C11: \<open>palloc_free_multiple\<close> on pages that lie in one pool: if all of them are allocated, exactly these are
  freed and filled with \<open>0xcc\<close>, and the allocator stays well-formed; if one of them is free already, the assertion stops the
  kernel. An address outside both pools is caught too.\<close>

theorem palloc_free_multiple_spec:
  assumes "palloc_ok s" and "pg_ofs p = 0" and "p \<noteq> 0" and "0 < n"
  shows "if page_range p n \<subseteq> allocated s \<and> (\<exists>u. page_range p n \<subseteq> pool_pages (get_pool s u))
    then \<exists>s'. palloc_free_multiple s p n = Inr s' \<and> palloc_ok s' \<and> allocated s' = allocated s - page_range p n
      \<and> (\<forall>v. pool_pages (get_pool s' v) = pool_pages (get_pool s v))
      \<and> (\<forall>a. pmem s' a = (if page_num a \<in> page_range p n then 0xcc else pmem s a))
    else if \<exists>u. page_range p n \<subseteq> pool_pages (get_pool s u)
    then palloc_free_multiple s p n = Inl (Assert_fail ''bitmap_all (pool->used_map, page_idx, page_cnt)'')
    else page_num p \<in> pool_pages (get_pool s False) \<union> pool_pages (get_pool s True)
      \<or> palloc_free_multiple s p n = Inl Not_reached"
  using assms by (rule palloc_free_multiple_cases)

theorem palloc_free_multiple_spec_witness:
  "\<exists>s'. palloc_free_multiple example_palloc 0xc0101000 1 = Inr s' \<and> allocated s' = {} \<and> pmem s' 0xc0101fff = 0xcc
    \<and> palloc_free_multiple example_palloc 0xc0102000 1
        = Inl (Assert_fail ''bitmap_all (pool->used_map, page_idx, page_cnt)'')"
proof -
  have r: "page_range 0xc0101000 1 = {0xc0101}" "page_range 0xc0102000 1 = {0xc0102}" "page_num 0xc0101fff = 0xc0101"
    by (auto simp: page_range_def page_num_def pg_no_unat)
  have o: "pg_ofs 0xc0101000 = 0" "pg_ofs 0xc0102000 = 0" by (simp_all add: pg_ofs_def PGMASK_def BITMASK_def)
  have g: "\<exists>u. {0xc0101} \<subseteq> pool_pages (get_pool example_palloc u)" "\<exists>u. {0xc0102} \<subseteq> pool_pages (get_pool example_palloc u)"
    by (rule exI [of _ False]; simp add: get_pool_def example_palloc_pages)+
  show ?thesis
    using palloc_free_multiple_spec [OF example_palloc_ok o(1), of 1]
      palloc_free_multiple_spec [OF example_palloc_ok o(2), of 1] g
    unfolding r(1,2) example_palloc_pages by (auto simp: r(3))
qed

text \<open>C14: \<open>palloc_init\<close> on a machine with between 258 pages (one megabyte and two pages) and one gigabyte of
  memory, with at least one user page allowed, gives two well-formed disjoint pools with no page allocated, and the user pool
  is smaller than the limit.\<close>

theorem palloc_init_spec:
  assumes "258 \<le> unat init_ram_pages" and "unat init_ram_pages < 262144" and "0 < user_page_limit"
  shows "\<exists>s. palloc_init m init_ram_pages user_page_limit = Inr s \<and> palloc_ok s \<and> allocated s = {}
    \<and> bit_cnt (used_map (user_pool s)) < user_page_limit"
proof -
  let ?r = "unat init_ram_pages"
  define f where "f = ?r - 256"
  define up where "up = (if f div 2 > user_page_limit then user_page_limit else f div 2)"
  define kn where "kn = f - up"
  have f: "2 \<le> f" "f < 261888" using assms(1,2) by (auto simp: f_def)
  have up: "0 < up" "up \<le> user_page_limit" "0 < kn" "kn + up = f" using f assms(3) by (auto simp: up_def kn_def)
  have r: "unat (init_ram_pages * 4096) = ?r * 4096"
    using assms(2) by (simp add: unat_word_ariths)
  then have lt: "init_ram_pages * 4096 < PHYS_BASE" using assms(2) by (simp add: word_less_nat_alt PHYS_BASE_unat)
  have "unat (init_ram_pages * 4096 - 0x100000) = f * 4096"
    using r assms(1) by (subst unat_sub) (auto simp: word_le_nat_alt f_def)
  then have "init_ram_pages * 4096 - 0x100000 = of_nat (f * 4096)" by (metis of_nat_unat ucast_id)
  then have d: "sint (init_ram_pages * 4096 - 0x100000) = int (f * 4096)"
    using f by (simp only: signed_of_nat) (simp add: signed_take_bit_int_eq_self)
  have fp: "unat (word_of_int (int (f * 4096) div 4096) :: 32 word) = f"
    using f by simp (simp only: unsigned_of_nat, simp add: take_bit_eq_mod)
  have st: "ptov (1024 * 1024) = Inr 0xc0100000" "ptov (init_ram_pages * 4096) = Inr (init_ram_pages * 4096 + PHYS_BASE)"
    using lt by (simp_all add: ptov_def) (simp_all add: PHYS_BASE_def)
  have diff: "init_ram_pages * 4096 + PHYS_BASE - 0xc0100000 = init_ram_pages * 4096 - 0x100000"
    by (simp add: PHYS_BASE_def)
  have base: "pg_ofs 0xc0100000 = 0" "is_kernel_vaddr 0xc0100000" "page_num 0xc0100000 = 0xc0100"
    by (simp_all add: pg_ofs_def PGMASK_def BITMASK_def is_kernel_vaddr_def PHYS_BASE_def page_num_def pg_no_unat)
  obtain kp where kp: "init_pool m 0xc0100000 kn ''kernel pool'' = Inr kp" "pool_ok kp" "pool_allocated kp = {}"
      "pool_pages kp \<subseteq> {0xc0100 ..< 0xc0100 + kn}"
    using init_pool_ok [OF up(3) base(1,2), of m "''kernel pool''"] base(3) up(4) f(2) by auto
  have lt2: "unat (0xc0100000 :: addr) + PGSIZE * kn < SIZE_MOD" using up(4) f(2) by simp
  note ub = page_addr_start [OF base(1,2) lt2]
  obtain q where q: "init_pool m (page_addr 0xc0100000 kn) up ''user pool'' = Inr q" "pool_ok q"
      "pool_allocated q = {}" "bit_cnt (used_map q) < up"
      "pool_pages q \<subseteq> {0xc0100 + kn ..< 0xc0100 + kn + up}"
    using init_pool_ok [OF up(1) ub(2,3), of m "''user pool''"] ub(1,4) base(3) up(4) f(2) by auto
  have "palloc_init m init_ram_pages user_page_limit = Inr \<lparr>kernel_pool = kp, user_pool = q, pmem = m\<rparr>"
    unfolding palloc_init_def st bindr_simps diff Let_def d
    using kp(1) q(1) by (auto simp: fp up_def kn_def simp del: of_nat_mult split: if_splits)
  moreover have "pool_pages kp \<inter> pool_pages q = {}" using kp(4) q(5) by fastforce
  ultimately show ?thesis using kp q up(2) by (auto simp: palloc_ok_def allocated_def)
qed

theorem palloc_init_spec_witness:
  "\<exists>s. palloc_init (\<lambda>a. 0) 1024 100 = Inr s \<and> palloc_ok s \<and> bit_cnt (used_map (user_pool s)) < 100"
  using palloc_init_spec [of 1024 100 "\<lambda>a. 0"] by auto

end
