(* ===== verification/Kernel_State.thy ===== *)
theory Kernel_State
  imports Palloc
begin

text \<open>
  The state that threads/thread.c, threads/synch.c, threads/interrupt.c and devices/timer.c share:
  the structures of thread.h and synch.h as records, and the static variables of these files
  as the fields of one record.

  Memory that holds a \<open>struct thread\<close>, \<open>struct semaphore\<close>, \<open>struct lock\<close> or \<open>struct condition\<close> is a function
  from the address of the structure to its value; whether a page really holds a thread is what
  \<open>is_thread\<close> finds out from the magic number. The lists of these files are sequences of the addresses
  of the containing structures: \<open>list_push_back\<close>, \<open>list_remove\<close> and the iteration macros act on them as
  the lemmas of \<open>List_Refinement\<close> show.

  A thread that calls the scheduler is suspended in the middle of C functions. The frames that its
  kernel stack then holds are the list \<open>kont\<close>: each \<open>frame\<close> is a return point, with the local variables
  that are still needed. A thread that is about to run its own code has \<open>K_function\<close> on top.
\<close>

section \<open>Frames of a kernel stack\<close>

datatype thread_func = F_null | F_idle | F_main | F_user nat

datatype frame =
    K_intr_set_level bool               \<comment> \<open>restore the interrupt level and return\<close>
  | K_sema_down ptr ptr bool            \<comment> \<open>sema_down_internal, after thread_block\<close>
  | K_lock_acquire ptr bool             \<comment> \<open>lock_acquire, after sema_down_internal\<close>
  | K_lock_try_acquire ptr              \<comment> \<open>lock_try_acquire, after a successful sema_try_down\<close>
  | K_cond_wait_down ptr ptr            \<comment> \<open>cond_wait, after lock_release\<close>
  | K_cond_wait_lock ptr                \<comment> \<open>cond_wait, after sema_down\<close>
  | K_cond_broadcast ptr ptr            \<comment> \<open>cond_broadcast, head of the loop\<close>
  | K_allocate_tid                      \<comment> \<open>allocate_tid, after lock_acquire\<close>
  | K_allocate_tid_ret int              \<comment> \<open>allocate_tid, after lock_release\<close>
  | K_thread_init                       \<comment> \<open>thread_init, after allocate_tid\<close>
  | K_thread_create addr thread_func ptr \<comment> \<open>thread_create, after allocate_tid\<close>
  | K_thread_create_ret int             \<comment> \<open>thread_create, after thread_yield\<close>
  | K_thread_start ptr                  \<comment> \<open>thread_start, after thread_create\<close>
  | K_kernel_thread thread_func ptr     \<comment> \<open>first entry of a thread, from switch_entry\<close>
  | K_function thread_func              \<comment> \<open>running the thread's own function\<close>
  | K_thread_exit                       \<comment> \<open>kernel_thread, after the function\<close>
  | K_idle_loop                         \<comment> \<open>idle, head of the loop\<close>
  | K_idle_halt                         \<comment> \<open>idle, after thread_block\<close>
  | K_iret                              \<comment> \<open>return from an interrupt\<close>
  | K_not_reached                       \<comment> \<open>after the call of schedule in thread_exit\<close>

section \<open>Threads\<close>

datatype thread_status = THREAD_RUNNING | THREAD_READY | THREAD_BLOCKED | THREAD_DYING

record thread =
  tid :: int
  status :: thread_status
  name :: string
  stack :: addr
  priority :: int
  base_priority :: int
  endTick :: int
  held_locks :: "ptr list"
  waiting_lock :: ptr
  magic :: "32 word"
  kont :: "frame list"
  eax :: int

definition THREAD_MAGIC :: "32 word" where "THREAD_MAGIC = 0xcd6abf4b"

abbreviation (input) PRI_MIN :: int where "PRI_MIN \<equiv> 0"
abbreviation (input) PRI_DEFAULT :: int where "PRI_DEFAULT \<equiv> 31"
abbreviation (input) PRI_MAX :: int where "PRI_MAX \<equiv> 63"
abbreviation (input) TID_ERROR :: int where "TID_ERROR \<equiv> - 1"

section \<open>Synchronization objects\<close>

record semaphore =
  sval :: nat
  waiters :: "addr list"

record lock =
  max_waiter_priority :: int
  holder :: addr

text \<open>The semaphore inside a \<open>struct lock\<close> stands after two words, the one inside a
  \<open>struct semaphore_elem\<close> after its list element.\<close>

definition lock_sema :: "ptr \<Rightarrow> ptr" where "lock_sema l = l + 8"

definition elem_sema :: "ptr \<Rightarrow> ptr" where "elem_sema e = e + 8"

section \<open>The kernel\<close>

record kernel =
  threads :: "addr \<Rightarrow> thread"
  semas :: "ptr \<Rightarrow> semaphore"
  locks :: "ptr \<Rightarrow> lock"
  conds :: "ptr \<Rightarrow> ptr list"
  sema_elem_priority :: "ptr \<Rightarrow> int"
  sleep_list :: "addr list"
  ready_list :: "addr list"
  all_list :: "addr list"
  cur :: addr
  idle_thread :: addr
  initial_thread :: addr
  tid_lock :: ptr
  next_tid :: int
  ticks :: int
  idle_ticks :: int
  kernel_ticks :: int
  thread_ticks :: nat
  level :: bool
  in_external_intr :: bool
  yield_on_return :: bool
  pages :: palloc

definition upd_thread :: "addr \<Rightarrow> (thread \<Rightarrow> thread) \<Rightarrow> kernel \<Rightarrow> kernel" where
  "upd_thread t f s = s\<lparr>threads := (threads s)(t := f (threads s t))\<rparr>"

definition upd_sema :: "ptr \<Rightarrow> (semaphore \<Rightarrow> semaphore) \<Rightarrow> kernel \<Rightarrow> kernel" where
  "upd_sema p f s = s\<lparr>semas := (semas s)(p := f (semas s p))\<rparr>"

definition upd_lock :: "ptr \<Rightarrow> (lock \<Rightarrow> lock) \<Rightarrow> kernel \<Rightarrow> kernel" where
  "upd_lock l f s = s\<lparr>locks := (locks s)(l := f (locks s l))\<rparr>"

text \<open>Entering a call leaves the return point of the caller on the stack of the running thread.\<close>

definition push_frame :: "frame \<Rightarrow> kernel \<Rightarrow> kernel" where
  "push_frame k s = upd_thread (cur s) (\<lambda>t. t\<lparr>kont := k # kont t\<rparr>) s"

definition pop_frame :: "kernel \<Rightarrow> kernel" where
  "pop_frame s = upd_thread (cur s) (\<lambda>t. t\<lparr>kont := tl (kont t)\<rparr>) s"

section \<open>Interrupt level (threads/interrupt.c)\<close>

definition intr_get_level :: "kernel \<Rightarrow> bool" where
  "intr_get_level s = level s"

definition intr_context :: "kernel \<Rightarrow> bool" where
  "intr_context s = in_external_intr s"

definition intr_enable :: "kernel \<Rightarrow> kernel res" where
  "intr_enable s = require (\<not> intr_context s) ''!intr_context ()'' (Inr (s\<lparr>level := True\<rparr>))"

definition intr_disable :: "kernel \<Rightarrow> kernel" where
  "intr_disable s = s\<lparr>level := False\<rparr>"

definition intr_set_level :: "bool \<Rightarrow> kernel \<Rightarrow> kernel res" where
  "intr_set_level l s = (if l then intr_enable s else Inr (intr_disable s))"

definition intr_yield_on_return :: "kernel \<Rightarrow> kernel res" where
  "intr_yield_on_return s = require (intr_context s) ''intr_context ()'' (Inr (s\<lparr>yield_on_return := True\<rparr>))"

section \<open>What the updates leave alone\<close>

lemma upd_thread_fields [simp]:
  "threads (upd_thread t f s) = (threads s)(t := f (threads s t))"
  "semas (upd_thread t f s) = semas s" "locks (upd_thread t f s) = locks s" "conds (upd_thread t f s) = conds s"
  "sema_elem_priority (upd_thread t f s) = sema_elem_priority s" "sleep_list (upd_thread t f s) = sleep_list s"
  "ready_list (upd_thread t f s) = ready_list s" "all_list (upd_thread t f s) = all_list s"
  "cur (upd_thread t f s) = cur s" "idle_thread (upd_thread t f s) = idle_thread s"
  "initial_thread (upd_thread t f s) = initial_thread s" "tid_lock (upd_thread t f s) = tid_lock s"
  "next_tid (upd_thread t f s) = next_tid s" "ticks (upd_thread t f s) = ticks s"
  "idle_ticks (upd_thread t f s) = idle_ticks s" "kernel_ticks (upd_thread t f s) = kernel_ticks s"
  "thread_ticks (upd_thread t f s) = thread_ticks s" "level (upd_thread t f s) = level s"
  "in_external_intr (upd_thread t f s) = in_external_intr s"
  "yield_on_return (upd_thread t f s) = yield_on_return s" "pages (upd_thread t f s) = pages s"
  by (simp_all add: upd_thread_def)

lemma upd_sema_fields [simp]:
  "semas (upd_sema p f s) = (semas s)(p := f (semas s p))"
  "threads (upd_sema p f s) = threads s" "locks (upd_sema p f s) = locks s" "conds (upd_sema p f s) = conds s"
  "sema_elem_priority (upd_sema p f s) = sema_elem_priority s" "sleep_list (upd_sema p f s) = sleep_list s"
  "ready_list (upd_sema p f s) = ready_list s" "all_list (upd_sema p f s) = all_list s"
  "cur (upd_sema p f s) = cur s" "idle_thread (upd_sema p f s) = idle_thread s"
  "initial_thread (upd_sema p f s) = initial_thread s" "tid_lock (upd_sema p f s) = tid_lock s"
  "next_tid (upd_sema p f s) = next_tid s" "ticks (upd_sema p f s) = ticks s"
  "idle_ticks (upd_sema p f s) = idle_ticks s" "kernel_ticks (upd_sema p f s) = kernel_ticks s"
  "thread_ticks (upd_sema p f s) = thread_ticks s" "level (upd_sema p f s) = level s"
  "in_external_intr (upd_sema p f s) = in_external_intr s" "yield_on_return (upd_sema p f s) = yield_on_return s"
  "pages (upd_sema p f s) = pages s"
  by (simp_all add: upd_sema_def)

lemma upd_lock_fields [simp]:
  "locks (upd_lock l f s) = (locks s)(l := f (locks s l))"
  "threads (upd_lock l f s) = threads s" "semas (upd_lock l f s) = semas s" "conds (upd_lock l f s) = conds s"
  "sema_elem_priority (upd_lock l f s) = sema_elem_priority s" "sleep_list (upd_lock l f s) = sleep_list s"
  "ready_list (upd_lock l f s) = ready_list s" "all_list (upd_lock l f s) = all_list s"
  "cur (upd_lock l f s) = cur s" "idle_thread (upd_lock l f s) = idle_thread s"
  "initial_thread (upd_lock l f s) = initial_thread s" "tid_lock (upd_lock l f s) = tid_lock s"
  "next_tid (upd_lock l f s) = next_tid s" "ticks (upd_lock l f s) = ticks s"
  "idle_ticks (upd_lock l f s) = idle_ticks s" "kernel_ticks (upd_lock l f s) = kernel_ticks s"
  "thread_ticks (upd_lock l f s) = thread_ticks s" "level (upd_lock l f s) = level s"
  "in_external_intr (upd_lock l f s) = in_external_intr s" "yield_on_return (upd_lock l f s) = yield_on_return s"
  "pages (upd_lock l f s) = pages s"
  by (simp_all add: upd_lock_def)

lemma push_frame_fields [simp]:
  "threads (push_frame k s) = (threads s)(cur s := (threads s (cur s))\<lparr>kont := k # kont (threads s (cur s))\<rparr>)"
  "semas (push_frame k s) = semas s" "locks (push_frame k s) = locks s" "conds (push_frame k s) = conds s"
  "sema_elem_priority (push_frame k s) = sema_elem_priority s" "sleep_list (push_frame k s) = sleep_list s"
  "ready_list (push_frame k s) = ready_list s" "all_list (push_frame k s) = all_list s"
  "cur (push_frame k s) = cur s" "idle_thread (push_frame k s) = idle_thread s"
  "initial_thread (push_frame k s) = initial_thread s" "tid_lock (push_frame k s) = tid_lock s"
  "next_tid (push_frame k s) = next_tid s" "ticks (push_frame k s) = ticks s"
  "idle_ticks (push_frame k s) = idle_ticks s" "kernel_ticks (push_frame k s) = kernel_ticks s"
  "thread_ticks (push_frame k s) = thread_ticks s" "level (push_frame k s) = level s"
  "in_external_intr (push_frame k s) = in_external_intr s" "yield_on_return (push_frame k s) = yield_on_return s"
  "pages (push_frame k s) = pages s"
  by (simp_all add: push_frame_def)

lemma pop_frame_fields [simp]:
  "threads (pop_frame s) = (threads s)(cur s := (threads s (cur s))\<lparr>kont := tl (kont (threads s (cur s)))\<rparr>)"
  "semas (pop_frame s) = semas s" "locks (pop_frame s) = locks s" "conds (pop_frame s) = conds s"
  "sema_elem_priority (pop_frame s) = sema_elem_priority s" "sleep_list (pop_frame s) = sleep_list s"
  "ready_list (pop_frame s) = ready_list s" "all_list (pop_frame s) = all_list s" "cur (pop_frame s) = cur s"
  "idle_thread (pop_frame s) = idle_thread s" "initial_thread (pop_frame s) = initial_thread s"
  "tid_lock (pop_frame s) = tid_lock s" "next_tid (pop_frame s) = next_tid s" "ticks (pop_frame s) = ticks s"
  "idle_ticks (pop_frame s) = idle_ticks s" "kernel_ticks (pop_frame s) = kernel_ticks s"
  "thread_ticks (pop_frame s) = thread_ticks s" "level (pop_frame s) = level s"
  "in_external_intr (pop_frame s) = in_external_intr s" "yield_on_return (pop_frame s) = yield_on_return s"
  "pages (pop_frame s) = pages s"
  by (simp_all add: pop_frame_def)

lemma intr_disable_fields [simp]:
  "level (intr_disable s) = False"
  "threads (intr_disable s) = threads s" "semas (intr_disable s) = semas s" "locks (intr_disable s) = locks s"
  "conds (intr_disable s) = conds s" "sema_elem_priority (intr_disable s) = sema_elem_priority s"
  "sleep_list (intr_disable s) = sleep_list s" "ready_list (intr_disable s) = ready_list s"
  "all_list (intr_disable s) = all_list s" "cur (intr_disable s) = cur s"
  "idle_thread (intr_disable s) = idle_thread s" "initial_thread (intr_disable s) = initial_thread s"
  "tid_lock (intr_disable s) = tid_lock s" "next_tid (intr_disable s) = next_tid s"
  "ticks (intr_disable s) = ticks s" "idle_ticks (intr_disable s) = idle_ticks s"
  "kernel_ticks (intr_disable s) = kernel_ticks s" "thread_ticks (intr_disable s) = thread_ticks s"
  "in_external_intr (intr_disable s) = in_external_intr s" "yield_on_return (intr_disable s) = yield_on_return s"
  "pages (intr_disable s) = pages s"
  by (simp_all add: intr_disable_def)

lemma intr_set_level_cases:
  "intr_set_level l s = Inr s' \<Longrightarrow> s' = s\<lparr>level := l\<rparr> \<and> (l \<longrightarrow> \<not> in_external_intr s)"
  by (auto simp: intr_set_level_def intr_enable_def intr_disable_def intr_context_def split: if_splits)

lemma intr_set_level_ok: "\<not> in_external_intr s \<or> \<not> l \<Longrightarrow> intr_set_level l s = Inr (s\<lparr>level := l\<rparr>)"
  by (auto simp: intr_set_level_def intr_enable_def intr_disable_def intr_context_def)

end
