(* ===== verification/Thread.thy ===== *)
theory Thread
  imports Kernel_State
begin

text \<open>
  The scheduler and the thread operations of threads/thread.c (priority scheduling with a list of
  sleeping threads), and the parts of devices/timer.c and threads/interrupt.c that drive
  them.
\<close>

section \<open>The running thread\<close>

definition is_thread :: "kernel \<Rightarrow> addr \<Rightarrow> bool" where
  "is_thread s t \<longleftrightarrow> t \<noteq> 0 \<and> magic (threads s t) = THREAD_MAGIC"

text \<open>The page that holds the stack pointer.\<close>

definition running_thread :: "kernel \<Rightarrow> addr" where
  "running_thread s = cur s"

definition thread_current :: "kernel \<Rightarrow> addr res" where
  "thread_current s = (let t = running_thread s in
     require (is_thread s t) ''is_thread (t)''
     (require (status (threads s t) = THREAD_RUNNING) ''t->status == THREAD_RUNNING'' (Inr t)))"

definition thread_name :: "kernel \<Rightarrow> string res" where
  "thread_name s = bindr (thread_current s) (\<lambda>t. Inr (name (threads s t)))"

definition thread_tid :: "kernel \<Rightarrow> int res" where
  "thread_tid s = bindr (thread_current s) (\<lambda>t. Inr (tid (threads s t)))"

definition timer_ticks :: "kernel \<Rightarrow> int res" where
  "timer_ticks s = (let old_level = intr_get_level s; s = intr_disable s; t = ticks s in
     bindr (intr_set_level old_level s) (\<lambda>s. Inr t))"

section \<open>Scheduling\<close>

definition thread_unblock :: "addr \<Rightarrow> kernel \<Rightarrow> kernel res" where
  "thread_unblock t s =
     require (is_thread s t) ''is_thread (t)''
     (let old_level = intr_get_level s; s = intr_disable s in
      require (status (threads s t) = THREAD_BLOCKED) ''t->status == THREAD_BLOCKED''
      (let s = s\<lparr>ready_list := ready_list s @ [t]\<rparr>;
           s = upd_thread t (\<lambda>r. r\<lparr>status := THREAD_READY\<rparr>) s
       in intr_set_level old_level s))"

text \<open>The search for the first thread of greatest priority, above \<open>max_p\<close>; \<open>best\<close> is a null pointer until one is found.\<close>

fun max_priority_loop :: "(addr \<Rightarrow> int) \<Rightarrow> addr list \<Rightarrow> int \<Rightarrow> addr \<Rightarrow> addr" where
  "max_priority_loop pri [] max_p best = best"
| "max_priority_loop pri (t # ts) max_p best =
     (if pri t > max_p then max_priority_loop pri ts (pri t) t else max_priority_loop pri ts max_p best)"

definition next_thread_to_run :: "kernel \<Rightarrow> (addr \<times> kernel) res" where
  "next_thread_to_run s =
     (if ready_list s = [] then Inr (idle_thread s, s)
      else let t = max_priority_loop (\<lambda>t. priority (threads s t)) (ready_list s) (- 1) 0
       in if t = 0 then Inl (Undefined ''list_remove (NULL)'')
          else Inr (t, s\<lparr>ready_list := remove1 t (ready_list s)\<rparr>))"

definition thread_schedule_tail :: "addr \<Rightarrow> kernel \<Rightarrow> kernel res" where
  "thread_schedule_tail prev s =
     (let t = running_thread s in
      require (\<not> intr_get_level s) ''intr_get_level () == INTR_OFF''
      (let s = upd_thread t (\<lambda>r. r\<lparr>status := THREAD_RUNNING\<rparr>) s;
           s = s\<lparr>thread_ticks := 0\<rparr>
       in if prev \<noteq> 0 \<and> status (threads s prev) = THREAD_DYING \<and> prev \<noteq> initial_thread s
          then require (prev \<noteq> t) ''prev != cur''
            (bindr (palloc_free_page (pages s) prev) (\<lambda>p.
              Inr (upd_thread prev (\<lambda>r. r\<lparr>magic := 0xcccccccc, kont := []\<rparr>) (s\<lparr>pages := p\<rparr>))))
          else Inr s))"

fun wake_sleepers :: "addr list \<Rightarrow> kernel \<Rightarrow> kernel res" where
  "wake_sleepers [] s = Inr s"
| "wake_sleepers (t # iter) s =
     require (endTick (threads s t) \<ge> 0) ''t->endTick >= 0''
     (bindr (timer_ticks s) (\<lambda>now.
      if endTick (threads s t) \<le> now
      then let s = s\<lparr>sleep_list := remove1 t (sleep_list s)\<rparr>;
               s = upd_thread t (\<lambda>r. r\<lparr>endTick := - 1\<rparr>) s
           in bindr (thread_unblock t s) (wake_sleepers iter)
      else wake_sleepers iter s))"

definition schedule :: "kernel \<Rightarrow> kernel res" where
  "schedule s = bindr (wake_sleepers (sleep_list s) s) (\<lambda>s.
     let c = running_thread s in
     bindr (next_thread_to_run s) (\<lambda>(nxt, s).
     require (\<not> intr_get_level s) ''intr_get_level () == INTR_OFF''
     (require (status (threads s c) \<noteq> THREAD_RUNNING) ''cur->status != THREAD_RUNNING''
     (require (is_thread s nxt) ''is_thread (next)''
     (if c \<noteq> nxt then thread_schedule_tail c (s\<lparr>cur := nxt\<rparr>)
      else thread_schedule_tail 0 s)))))"

section \<open>Operations\<close>

definition thread_block :: "kernel \<Rightarrow> kernel res" where
  "thread_block s =
     require (\<not> intr_context s) ''!intr_context ()''
     (require (\<not> intr_get_level s) ''intr_get_level () == INTR_OFF''
     (bindr (thread_current s) (\<lambda>t.
      schedule (upd_thread t (\<lambda>r. r\<lparr>status := THREAD_BLOCKED\<rparr>) s))))"

definition thread_yield :: "kernel \<Rightarrow> kernel res" where
  "thread_yield s = bindr (thread_current s) (\<lambda>t.
     require (\<not> intr_context s) ''!intr_context ()''
     (let old_level = intr_get_level s; s = intr_disable s;
          s = (if t \<noteq> idle_thread s then s\<lparr>ready_list := ready_list s @ [t]\<rparr> else s);
          s = upd_thread t (\<lambda>r. r\<lparr>status := THREAD_READY\<rparr>) s
      in schedule (push_frame (K_intr_set_level old_level) s)))"

definition thread_exit :: "kernel \<Rightarrow> kernel res" where
  "thread_exit s =
     require (\<not> intr_context s) ''!intr_context ()''
     (let s = intr_disable s in
      bindr (thread_current s) (\<lambda>t.
        let s = s\<lparr>all_list := remove1 t (all_list s)\<rparr>;
            s = upd_thread t (\<lambda>r. r\<lparr>status := THREAD_DYING\<rparr>) s
        in schedule (push_frame K_not_reached s)))"

definition thread_yield_for_seconds :: "int \<Rightarrow> kernel \<Rightarrow> kernel res" where
  "thread_yield_for_seconds end_tick s = bindr (thread_current s) (\<lambda>t.
     require (\<not> intr_context s) ''!intr_context ()''
     (let old_level = intr_get_level s; s = intr_disable s;
          s = s\<lparr>sleep_list := sleep_list s @ [t]\<rparr>;
          s = upd_thread t (\<lambda>r. r\<lparr>endTick := end_tick\<rparr>) s
      in thread_block (push_frame (K_intr_set_level old_level) s)))"

fun thread_foreach_loop :: "(addr \<Rightarrow> kernel \<Rightarrow> kernel res) \<Rightarrow> addr list \<Rightarrow> kernel \<Rightarrow> kernel res" where
  "thread_foreach_loop f [] s = Inr s"
| "thread_foreach_loop f (t # ts) s = bindr (f t s) (thread_foreach_loop f ts)"

definition thread_foreach :: "(addr \<Rightarrow> kernel \<Rightarrow> kernel res) \<Rightarrow> kernel \<Rightarrow> kernel res" where
  "thread_foreach f s = require (\<not> intr_get_level s) ''intr_get_level () == INTR_OFF''
     (thread_foreach_loop f (all_list s) s)"

definition thread_set_priority :: "int \<Rightarrow> kernel \<Rightarrow> kernel res" where
  "thread_set_priority new_priority s =
     (let old_level = intr_get_level s; s = intr_disable s in
      bindr (thread_current s) (\<lambda>t.
        let s = upd_thread t (\<lambda>r. r\<lparr>priority :=
              (if priority r > base_priority r
               then if priority r > new_priority then priority r else new_priority
               else new_priority)\<rparr>) s;
            s = upd_thread t (\<lambda>r. r\<lparr>base_priority := new_priority\<rparr>) s
        in thread_yield (push_frame (K_intr_set_level old_level) s)))"

definition thread_get_priority :: "kernel \<Rightarrow> int res" where
  "thread_get_priority s = (let old_level = intr_get_level s; s = intr_disable s in
     bindr (thread_current s) (\<lambda>t. bindr (intr_set_level old_level s) (\<lambda>s. Inr (priority (threads s t)))))"

definition thread_get_nice :: int where "thread_get_nice = 0"
definition thread_get_load_avg :: int where "thread_get_load_avg = 0"
definition thread_get_recent_cpu :: int where "thread_get_recent_cpu = 0"

abbreviation (input) TIME_SLICE :: nat where "TIME_SLICE \<equiv> 4"

definition thread_tick :: "kernel \<Rightarrow> kernel res" where
  "thread_tick s = bindr (thread_current s) (\<lambda>t.
     let s = (if t = idle_thread s then s\<lparr>idle_ticks := int64 (idle_ticks s + 1)\<rparr>
              else s\<lparr>kernel_ticks := int64 (kernel_ticks s + 1)\<rparr>);
         s = s\<lparr>thread_ticks := (thread_ticks s + 1) mod SIZE_MOD\<rparr>
     in if thread_ticks s \<ge> TIME_SLICE then intr_yield_on_return s else Inr s)"

definition init_thread :: "addr \<Rightarrow> string \<Rightarrow> int \<Rightarrow> kernel \<Rightarrow> kernel res" where
  "init_thread t nm pri s =
     require (t \<noteq> 0) ''t != NULL''
     (require (PRI_MIN \<le> pri \<and> pri \<le> PRI_MAX) ''PRI_MIN <= priority && priority <= PRI_MAX''
     (let s = upd_thread t (\<lambda>r. \<lparr>tid = 0, status = THREAD_BLOCKED, name = take 15 nm, stack = t + 4096,
                priority = pri, base_priority = pri, endTick = 0, held_locks = [], waiting_lock = 0,
                magic = THREAD_MAGIC, kont = kont r, eax = eax r\<rparr>) s;
          old_level = intr_get_level s; s = intr_disable s;
          s = s\<lparr>all_list := all_list s @ [t]\<rparr>
      in intr_set_level old_level s))"

definition alloc_frame :: "addr \<Rightarrow> nat \<Rightarrow> kernel \<Rightarrow> (addr \<times> kernel) res" where
  "alloc_frame t sz s =
     require (is_thread s t) ''is_thread (t)''
     (require (sz mod 4 = 0) ''size % sizeof (uint32_t) == 0''
     (let s = upd_thread t (\<lambda>r. r\<lparr>stack := stack r - of_nat sz\<rparr>) s
      in Inr (stack (threads s t), s)))"

section \<open>Timer and external interrupts\<close>

definition timer_interrupt :: "kernel \<Rightarrow> kernel res" where
  "timer_interrupt s = thread_tick (s\<lparr>ticks := int64 (ticks s + 1)\<rparr>)"

text \<open>\<open>intr_handler\<close> for an external interrupt whose registered handler is \<open>handler\<close>. The interrupt gate has
  turned interrupts off; the return from the interrupt turns them on again.\<close>

definition intr_handler_ext :: "(kernel \<Rightarrow> kernel res) \<Rightarrow> kernel \<Rightarrow> kernel res" where
  "intr_handler_ext handler s =
     require (\<not> intr_get_level s) ''intr_get_level () == INTR_OFF''
     (require (\<not> intr_context s) ''!intr_context ()''
     (bindr (handler (s\<lparr>in_external_intr := True, yield_on_return := False\<rparr>)) (\<lambda>s.
      require (\<not> intr_get_level s) ''intr_get_level () == INTR_OFF''
      (require (intr_context s) ''intr_context ()''
      (let s = s\<lparr>in_external_intr := False\<rparr>
       in if yield_on_return s then thread_yield s else Inr s)))))"

definition timer_irq :: "kernel \<Rightarrow> kernel res" where
  "timer_irq s = intr_handler_ext timer_interrupt (push_frame K_iret (s\<lparr>level := False\<rparr>))"

definition timer_elapsed :: "int \<Rightarrow> kernel \<Rightarrow> int res" where
  "timer_elapsed since s = bindr (timer_ticks s) (\<lambda>now. Inr (int64 (now - since)))"

text \<open>If the sum overflows, \<open>endTick\<close> is negative, and the assertion in \<open>schedule\<close> fails.\<close>

definition timer_sleep :: "int \<Rightarrow> kernel \<Rightarrow> kernel res" where
  "timer_sleep n s = bindr (timer_ticks s) (\<lambda>now.
     let end_tick = int64 (now + (if n > 0 then n else 0)) in
     require (intr_get_level s) ''intr_get_level () == INTR_ON''
     (thread_yield_for_seconds end_tick s))"

end
