(* ===== verification/Synch.thy ===== *)
theory Synch
  imports Thread
begin

text \<open>
  Semaphores, locks with priority donation, and condition variables: threads/synch.c.

  An operation that may put the running thread to sleep pushes its return point and calls the
  scheduler; the \<open>_resume\<close> functions are the code after such a return point. The donation
  loop of \<open>lock_acquire\<close> may run forever and is a partial function: \<open>None\<close> means that it does.
\<close>

section \<open>Semaphores\<close>

definition sema_init :: "ptr \<Rightarrow> nat \<Rightarrow> kernel \<Rightarrow> kernel res" where
  "sema_init sema v s = require (sema \<noteq> 0) ''sema != NULL''
     (Inr (upd_sema sema (\<lambda>_. \<lparr>sval = v, waiters = []\<rparr>) s))"

text \<open>The loop of \<open>update_lock_max_priority\<close> runs over the waiters from the last to the first.\<close>

fun max_waiter_loop :: "(addr \<Rightarrow> int) \<Rightarrow> addr list \<Rightarrow> int \<Rightarrow> int" where
  "max_waiter_loop pri [] m = m"
| "max_waiter_loop pri (t # ts) m = max_waiter_loop pri ts (if m > pri t then m else pri t)"

definition update_lock_max_priority :: "ptr \<Rightarrow> kernel \<Rightarrow> kernel" where
  "update_lock_max_priority mLock s =
     upd_lock mLock (\<lambda>l. l\<lparr>max_waiter_priority :=
       max_waiter_loop (\<lambda>t. priority (threads s t)) (rev (waiters (semas s (lock_sema mLock)))) (- 1)\<rparr>) s"

definition sema_down_loop :: "ptr \<Rightarrow> ptr \<Rightarrow> bool \<Rightarrow> kernel \<Rightarrow> kernel res" where
  "sema_down_loop sema mLock old_level s =
     (let t = cur s in
      if sval (semas s sema) = 0
      then let s = upd_sema sema (\<lambda>m. m\<lparr>waiters := waiters m @ [t]\<rparr>) s;
               s = (if mLock \<noteq> 0
                    then update_lock_max_priority mLock (upd_thread t (\<lambda>r. r\<lparr>waiting_lock := mLock\<rparr>) s)
                    else s)
           in thread_block (push_frame (K_sema_down sema mLock old_level) s)
      else intr_set_level old_level (upd_sema sema (\<lambda>m. m\<lparr>sval := sval m - 1\<rparr>) s))"

definition sema_down_resume :: "ptr \<Rightarrow> ptr \<Rightarrow> bool \<Rightarrow> kernel \<Rightarrow> kernel res" where
  "sema_down_resume sema mLock old_level s =
     sema_down_loop sema mLock old_level
       (if mLock \<noteq> 0 then upd_thread (cur s) (\<lambda>r. r\<lparr>waiting_lock := 0\<rparr>) s else s)"

definition sema_down_internal :: "ptr \<Rightarrow> ptr \<Rightarrow> kernel \<Rightarrow> kernel res" where
  "sema_down_internal sema mLock s =
     require (sema \<noteq> 0) ''sema != NULL''
     (require (\<not> intr_context s) ''!intr_context ()''
     (bindr (thread_current s) (\<lambda>t.
      let old_level = intr_get_level s in sema_down_loop sema mLock old_level (intr_disable s))))"

definition sema_down :: "ptr \<Rightarrow> kernel \<Rightarrow> kernel res" where
  "sema_down sema s = sema_down_internal sema 0 s"

definition sema_try_down :: "ptr \<Rightarrow> kernel \<Rightarrow> (bool \<times> kernel) res" where
  "sema_try_down sema s =
     require (sema \<noteq> 0) ''sema != NULL''
     (let old_level = intr_get_level s; s = intr_disable s;
          (success, s) = (if sval (semas s sema) > 0
            then (True, upd_sema sema (\<lambda>m. m\<lparr>sval := sval m - 1\<rparr>) s)
            else (False, s))
      in bindr (intr_set_level old_level s) (\<lambda>s. Inr (success, s)))"

definition sema_up_internal :: "ptr \<Rightarrow> ptr \<Rightarrow> kernel \<Rightarrow> kernel res" where
  "sema_up_internal sema mLock s =
     require (sema \<noteq> 0) ''sema != NULL''
     (let old_level = intr_get_level s; s = intr_disable s in
      bindr (if waiters (semas s sema) \<noteq> []
        then let top_t = max_priority_loop (\<lambda>t. priority (threads s t)) (waiters (semas s sema)) (- 1) 0
          in if top_t = 0 then Inl (Undefined ''list_remove (&NULL->elem)'')
             else bindr (thread_unblock top_t (upd_sema sema (\<lambda>m. m\<lparr>waiters := remove1 top_t (waiters m)\<rparr>) s))
               (\<lambda>s. Inr (if mLock \<noteq> 0 then update_lock_max_priority mLock s else s))
        else Inr s) (\<lambda>s.
      let s = upd_sema sema (\<lambda>m. m\<lparr>sval := (sval m + 1) mod SIZE_MOD\<rparr>) s
      in thread_yield (push_frame (K_intr_set_level old_level) s)))"

definition sema_up :: "ptr \<Rightarrow> kernel \<Rightarrow> kernel res" where
  "sema_up sema s = sema_up_internal sema 0 s"

section \<open>Locks\<close>

definition lock_init :: "ptr \<Rightarrow> kernel \<Rightarrow> kernel res" where
  "lock_init lock s = require (lock \<noteq> 0) ''lock != NULL''
     (sema_init (lock_sema lock) 1 (upd_lock lock (\<lambda>l. l\<lparr>holder := 0, max_waiter_priority := - 1\<rparr>) s))"

definition lock_held_by_current_thread :: "ptr \<Rightarrow> kernel \<Rightarrow> bool res" where
  "lock_held_by_current_thread lock s = require (lock \<noteq> 0) ''lock != NULL''
     (bindr (thread_current s) (\<lambda>t. Inr (holder (locks s lock) = t)))"

text \<open>The donation loop: \<open>pri\<close> is the priority of the running thread.\<close>

partial_function (option) donate_loop :: "int \<Rightarrow> ptr \<Rightarrow> kernel \<Rightarrow> kernel option" where
  "donate_loop pri tempLock s =
     (if tempLock \<noteq> 0 \<and> holder (locks s tempLock) \<noteq> 0
      then let h = holder (locks s tempLock) in
        if priority (threads s h) < pri
        then donate_loop pri (waiting_lock (threads s h))
          (upd_thread h (\<lambda>r. r\<lparr>priority := pri\<rparr>)
            (upd_lock tempLock (\<lambda>l. l\<lparr>max_waiter_priority := pri\<rparr>) s))
        else donate_loop pri tempLock s
      else Some s)"

definition lock_acquire :: "ptr \<Rightarrow> kernel \<Rightarrow> kernel res option" where
  "lock_acquire lock s =
     requireo (lock \<noteq> 0) ''lock != NULL''
     (requireo (\<not> intr_context s) ''!intr_context ()''
     (bindo (Some (lock_held_by_current_thread lock s)) (\<lambda>held.
      requireo (\<not> held) ''!lock_held_by_current_thread (lock)''
      (let old_level = intr_get_level s; s = intr_disable s in
       bindo (Some (thread_current s)) (\<lambda>t.
       Option.bind (donate_loop (priority (threads s t)) lock s) (\<lambda>s.
       Some (sema_down_internal (lock_sema lock) lock (push_frame (K_lock_acquire lock old_level) s))))))))"

definition lock_acquire_resume :: "ptr \<Rightarrow> bool \<Rightarrow> kernel \<Rightarrow> kernel res" where
  "lock_acquire_resume lock old_level s =
     (let t = cur s;
          s = upd_lock lock (\<lambda>l. l\<lparr>holder := t\<rparr>) s;
          s = upd_thread t (\<lambda>r. r\<lparr>held_locks := held_locks r @ [lock]\<rparr>) s
      in intr_set_level old_level s)"

definition lock_try_acquire :: "ptr \<Rightarrow> kernel \<Rightarrow> kernel res" where
  "lock_try_acquire lock s =
     require (lock \<noteq> 0) ''lock != NULL''
     (bindr (lock_held_by_current_thread lock s) (\<lambda>held.
      require (\<not> held) ''!lock_held_by_current_thread (lock)''
      (bindr (sema_try_down (lock_sema lock) s) (\<lambda>(success, s).
       Inr (if success then push_frame (K_lock_try_acquire lock) s
            else upd_thread (cur s) (\<lambda>r. r\<lparr>eax := 0\<rparr>) s)))))"

definition lock_try_acquire_resume :: "ptr \<Rightarrow> kernel \<Rightarrow> kernel res" where
  "lock_try_acquire_resume lock s = bindr (thread_current s) (\<lambda>t.
     Inr (upd_thread t (\<lambda>r. r\<lparr>eax := 1\<rparr>) (upd_lock lock (\<lambda>l. l\<lparr>holder := t\<rparr>) s)))"

text \<open>The loop of \<open>lock_release\<close> over the locks that the thread holds.\<close>

fun lock_release_loop :: "ptr \<Rightarrow> addr \<Rightarrow> ptr list \<Rightarrow> kernel \<Rightarrow> kernel" where
  "lock_release_loop lock t [] s = s"
| "lock_release_loop lock t (l # iter) s =
     (if l = lock
      then lock_release_loop lock t iter (upd_thread t (\<lambda>r. r\<lparr>held_locks := remove1 l (held_locks r)\<rparr>) s)
      else lock_release_loop lock t iter (upd_thread t (\<lambda>r. r\<lparr>priority :=
        (if priority r < max_waiter_priority (locks s l) then max_waiter_priority (locks s l) else priority r)\<rparr>) s))"

definition lock_release :: "ptr \<Rightarrow> kernel \<Rightarrow> kernel res" where
  "lock_release lock s =
     require (lock \<noteq> 0) ''lock != NULL''
     (bindr (lock_held_by_current_thread lock s) (\<lambda>held.
      require held ''lock_held_by_current_thread (lock)''
      (let old_level = intr_get_level s; s = intr_disable s in
       bindr (thread_current s) (\<lambda>t.
         let s = upd_thread t (\<lambda>r. r\<lparr>priority := base_priority r\<rparr>) s;
             s = lock_release_loop lock t (held_locks (threads s t)) s;
             s = upd_lock lock (\<lambda>l. l\<lparr>holder := 0\<rparr>) s
         in sema_up_internal (lock_sema lock) lock (push_frame (K_intr_set_level old_level) s)))))"

section \<open>Condition variables\<close>

definition cond_init :: "ptr \<Rightarrow> kernel \<Rightarrow> kernel res" where
  "cond_init cond s = require (cond \<noteq> 0) ''cond != NULL'' (Inr (s\<lparr>conds := (conds s)(cond := [])\<rparr>))"

text \<open>\<open>waiter\<close> is the address of the local \<open>struct semaphore_elem\<close>.\<close>

definition cond_wait :: "ptr \<Rightarrow> ptr \<Rightarrow> ptr \<Rightarrow> kernel \<Rightarrow> kernel res" where
  "cond_wait cond lock waiter s =
     require (cond \<noteq> 0) ''cond != NULL''
     (require (lock \<noteq> 0) ''lock != NULL''
     (require (\<not> intr_context s) ''!intr_context ()''
     (bindr (lock_held_by_current_thread lock s) (\<lambda>held.
      require held ''lock_held_by_current_thread (lock)''
      (bindr (sema_init (elem_sema waiter) 0 s) (\<lambda>s.
       bindr (thread_current s) (\<lambda>t.
       let s = s\<lparr>sema_elem_priority := (sema_elem_priority s)(waiter := priority (threads s t))\<rparr>;
           s = s\<lparr>conds := (conds s)(cond := conds s cond @ [waiter])\<rparr>
       in lock_release lock (push_frame (K_cond_wait_down waiter lock) s))))))))"

definition cond_wait_resume :: "ptr \<Rightarrow> ptr \<Rightarrow> kernel \<Rightarrow> kernel res" where
  "cond_wait_resume waiter lock s = sema_down (elem_sema waiter) (push_frame (K_cond_wait_lock lock) s)"

text \<open>The search of \<open>cond_signal\<close>; \<open>None\<close> is the uninitialized \<open>topElem\<close>.\<close>

fun top_elem_loop :: "(ptr \<Rightarrow> int) \<Rightarrow> ptr list \<Rightarrow> int \<Rightarrow> ptr option \<Rightarrow> ptr option" where
  "top_elem_loop pri [] m topElem = topElem"
| "top_elem_loop pri (e # es) m topElem =
     (if pri e > m then top_elem_loop pri es (pri e) (Some e) else top_elem_loop pri es m topElem)"

definition cond_signal :: "ptr \<Rightarrow> ptr \<Rightarrow> kernel \<Rightarrow> kernel res" where
  "cond_signal cond lock s =
     require (cond \<noteq> 0) ''cond != NULL''
     (require (lock \<noteq> 0) ''lock != NULL''
     (require (\<not> intr_context s) ''!intr_context ()''
     (bindr (lock_held_by_current_thread lock s) (\<lambda>held.
      require held ''lock_held_by_current_thread (lock)''
      (if conds s cond \<noteq> []
       then (case top_elem_loop (sema_elem_priority s) (conds s cond) (- 1) None of
            None \<Rightarrow> Inl (Undefined ''topElem'')
          | Some e \<Rightarrow> sema_up (elem_sema e) (s\<lparr>conds := (conds s)(cond := remove1 e (conds s cond))\<rparr>))
       else Inr s)))))"

text \<open>One round of the loop of \<open>cond_broadcast\<close>: \<open>cond_signal\<close> yields, so the loop is resumed later.\<close>

definition cond_broadcast_loop :: "ptr \<Rightarrow> ptr \<Rightarrow> kernel \<Rightarrow> kernel res" where
  "cond_broadcast_loop cond lock s =
     (if conds s cond \<noteq> [] then cond_signal cond lock (push_frame (K_cond_broadcast cond lock) s) else Inr s)"

definition cond_broadcast :: "ptr \<Rightarrow> ptr \<Rightarrow> kernel \<Rightarrow> kernel res" where
  "cond_broadcast cond lock s =
     require (cond \<noteq> 0) ''cond != NULL''
     (require (lock \<noteq> 0) ''lock != NULL'' (cond_broadcast_loop cond lock s))"

end
