(* ===== verification/Kernel.thy ===== *)
theory Kernel
  imports Synch
begin

text \<open>
  Thread creation and the idle thread (threads/thread.c), and the kernel as a transition system: a step
  resumes the topmost frame of the running thread, or lets the running thread's own code call an
  operation, or lets it unblock a thread that is parked, or takes a timer interrupt.
\<close>

section \<open>Thread creation\<close>

definition allocate_tid :: "kernel \<Rightarrow> kernel res option" where
  "allocate_tid s = lock_acquire (tid_lock s) (push_frame K_allocate_tid s)"

definition allocate_tid_resume :: "kernel \<Rightarrow> kernel res" where
  "allocate_tid_resume s =
     (let t = next_tid s; s = s\<lparr>next_tid := int32 (next_tid s + 1)\<rparr>
      in lock_release (tid_lock s) (push_frame (K_allocate_tid_ret t) s))"

definition return_value :: "int \<Rightarrow> kernel \<Rightarrow> kernel" where
  "return_value v s = upd_thread (cur s) (\<lambda>r. r\<lparr>eax := v\<rparr>) s"

definition thread_init :: "kernel \<Rightarrow> kernel res option" where
  "thread_init s =
     requireo (\<not> intr_get_level s) ''intr_get_level () == INTR_OFF''
     (bindo (Some (lock_init (tid_lock s) s)) (\<lambda>s.
      let s = s\<lparr>sleep_list := [], ready_list := [], all_list := [], initial_thread := running_thread s\<rparr> in
      bindo (Some (init_thread (initial_thread s) ''main'' PRI_DEFAULT s)) (\<lambda>s.
      let s = upd_thread (initial_thread s) (\<lambda>r. r\<lparr>status := THREAD_RUNNING\<rparr>) s
      in allocate_tid (push_frame K_thread_init s))))"

definition thread_init_resume :: "kernel \<Rightarrow> kernel" where
  "thread_init_resume s = upd_thread (initial_thread s) (\<lambda>r. r\<lparr>tid := eax (threads s (cur s))\<rparr>) s"

text \<open>The new page is filled with zeros, so that no frame is left in it.\<close>

definition thread_create :: "string \<Rightarrow> int \<Rightarrow> thread_func \<Rightarrow> ptr \<Rightarrow> kernel \<Rightarrow> kernel res option" where
  "thread_create nm pri function aux s =
     requireo (function \<noteq> F_null) ''function != NULL''
     (bindo (Some (palloc_get_page (pages s) PAL_ZERO)) (\<lambda>(t, p).
      let s = s\<lparr>pages := p\<rparr> in
      if t = 0 then Some (Inr (return_value TID_ERROR s))
      else bindo (Some (init_thread t nm pri (upd_thread t (\<lambda>r. r\<lparr>kont := []\<rparr>) s))) (\<lambda>s.
        allocate_tid (push_frame (K_thread_create t function aux) s))))"

text \<open>The frames of \<open>kernel_thread\<close>, \<open>switch_entry\<close> and \<open>switch_threads\<close> on the new stack have 12, 4 and
  28 bytes. Together they make the new thread start in \<open>kernel_thread\<close>.\<close>

definition thread_create_resume :: "addr \<Rightarrow> thread_func \<Rightarrow> ptr \<Rightarrow> kernel \<Rightarrow> kernel res" where
  "thread_create_resume t function aux s =
     (let new_tid = eax (threads s (cur s));
          s = upd_thread t (\<lambda>r. r\<lparr>tid := new_tid, endTick := - 1\<rparr>) s
      in bindr (alloc_frame t 12 s) (\<lambda>(kf, s).
         bindr (alloc_frame t 4 s) (\<lambda>(ef, s).
         bindr (alloc_frame t 28 s) (\<lambda>(sf, s).
         let s = upd_thread t (\<lambda>r. r\<lparr>kont := [K_kernel_thread function aux]\<rparr>) s in
         bindr (thread_unblock t s) (\<lambda>s.
         thread_yield (push_frame (K_thread_create_ret new_tid) s))))))"

definition kernel_thread :: "thread_func \<Rightarrow> ptr \<Rightarrow> kernel \<Rightarrow> kernel res" where
  "kernel_thread function aux s =
     require (function \<noteq> F_null) ''function != NULL''
     (bindr (intr_enable s) (\<lambda>s.
      let s = push_frame K_thread_exit s in
      if function = F_idle
      then bindr (thread_current s) (\<lambda>t.
        sema_up aux (push_frame K_idle_loop (s\<lparr>idle_thread := t\<rparr>)))
      else Inr (push_frame (K_function function) s)))"

text \<open>One round of the loop of \<open>idle\<close>. \<open>hlt\<close> waits for the next interrupt and changes no state.\<close>

definition idle_loop :: "kernel \<Rightarrow> kernel res" where
  "idle_loop s = thread_block (push_frame K_idle_halt (intr_disable s))"

definition idle_halt :: "kernel \<Rightarrow> kernel res" where
  "idle_halt s = Inr (push_frame K_idle_loop (s\<lparr>level := True\<rparr>))"

definition thread_start :: "ptr \<Rightarrow> kernel \<Rightarrow> kernel res option" where
  "thread_start idle_started s = bindo (Some (sema_init idle_started 0 s)) (\<lambda>s.
     thread_create ''idle'' PRI_MIN F_idle idle_started (push_frame (K_thread_start idle_started) s))"

definition thread_start_resume :: "ptr \<Rightarrow> kernel \<Rightarrow> kernel res" where
  "thread_start_resume idle_started s = bindr (intr_enable s) (sema_down idle_started)"

section \<open>Resuming a thread\<close>

fun run_frame :: "frame \<Rightarrow> kernel \<Rightarrow> kernel res option" where
  "run_frame (K_intr_set_level l) s = Some (intr_set_level l s)"
| "run_frame (K_sema_down sema mLock l) s = Some (sema_down_resume sema mLock l s)"
| "run_frame (K_lock_acquire lock l) s = Some (lock_acquire_resume lock l s)"
| "run_frame (K_lock_try_acquire lock) s = Some (lock_try_acquire_resume lock s)"
| "run_frame (K_cond_wait_down waiter lock) s = Some (cond_wait_resume waiter lock s)"
| "run_frame (K_cond_wait_lock lock) s = lock_acquire lock s"
| "run_frame (K_cond_broadcast cond lock) s = Some (cond_broadcast_loop cond lock s)"
| "run_frame K_allocate_tid s = Some (allocate_tid_resume s)"
| "run_frame (K_allocate_tid_ret t) s = Some (Inr (return_value t s))"
| "run_frame K_thread_init s = Some (Inr (thread_init_resume s))"
| "run_frame (K_thread_create t function aux) s = Some (thread_create_resume t function aux s)"
| "run_frame (K_thread_create_ret t) s = Some (Inr (return_value t s))"
| "run_frame (K_thread_start idle_started) s = Some (thread_start_resume idle_started s)"
| "run_frame (K_kernel_thread function aux) s = Some (kernel_thread function aux s)"
| "run_frame (K_function f) s = Some (Inr s)"
| "run_frame K_thread_exit s = Some (thread_exit s)"
| "run_frame K_idle_loop s = Some (idle_loop s)"
| "run_frame K_idle_halt s = Some (idle_halt s)"
| "run_frame K_iret s = Some (Inr (s\<lparr>level := True\<rparr>))"
| "run_frame K_not_reached s = Some (Inl Not_reached)"

section \<open>Calls\<close>

datatype call =
    C_sema_init ptr nat | C_sema_down ptr | C_sema_try_down ptr | C_sema_up ptr
  | C_lock_init ptr | C_lock_acquire ptr | C_lock_try_acquire ptr | C_lock_release ptr
  | C_cond_init ptr | C_cond_wait ptr ptr ptr | C_cond_signal ptr ptr | C_cond_broadcast ptr ptr
  | C_thread_create string int nat ptr | C_thread_block | C_thread_yield | C_thread_exit
  | C_thread_set_priority int | C_timer_sleep int | C_intr_set_level bool

fun do_call :: "call \<Rightarrow> kernel \<Rightarrow> kernel res option" where
  "do_call (C_sema_init p v) s = Some (sema_init p v s)"
| "do_call (C_sema_down p) s = Some (sema_down p s)"
| "do_call (C_sema_try_down p) s = Some (bindr (sema_try_down p s) (\<lambda>(b, s). Inr (return_value (if b then 1 else 0) s)))"
| "do_call (C_sema_up p) s = Some (sema_up p s)"
| "do_call (C_lock_init l) s = Some (lock_init l s)"
| "do_call (C_lock_acquire l) s = lock_acquire l s"
| "do_call (C_lock_try_acquire l) s = Some (lock_try_acquire l s)"
| "do_call (C_lock_release l) s = Some (lock_release l s)"
| "do_call (C_cond_init c) s = Some (cond_init c s)"
| "do_call (C_cond_wait c l w) s = Some (cond_wait c l w s)"
| "do_call (C_cond_signal c l) s = Some (cond_signal c l s)"
| "do_call (C_cond_broadcast c l) s = Some (cond_broadcast c l s)"
| "do_call (C_thread_create nm pri n aux) s = thread_create nm pri (F_user n) aux s"
| "do_call C_thread_block s = Some (thread_block s)"
| "do_call C_thread_yield s = Some (thread_yield s)"
| "do_call C_thread_exit s = Some (thread_exit s)"
| "do_call (C_thread_set_priority p) s = Some (thread_set_priority p s)"
| "do_call (C_timer_sleep n) s = Some (timer_sleep n s)"
| "do_call (C_intr_set_level l) s = Some (intr_set_level l s)"

section \<open>Steps\<close>

text \<open>The threads that a stack is about to make ready for the first time.\<close>

fun creates :: "frame list \<Rightarrow> addr list" where
  "creates [] = []"
| "creates (K_thread_create t f a # ks) = t # creates ks"
| "creates (k # ks) = creates ks"

text \<open>The threads for which a thread may call \<open>thread_unblock\<close>: those that wait neither for a semaphore nor for a tick nor
  for the end of their own creation, and not the idle thread, so that they have called \<open>thread_block\<close> themselves. The code
  does not check this.\<close>

definition parked :: "kernel \<Rightarrow> addr \<Rightarrow> bool" where
  "parked s t \<longleftrightarrow> t \<noteq> idle_thread s \<and> t \<notin> set (sleep_list s) \<and> (\<forall>p. t \<notin> set (waiters (semas s p)))
     \<and> (\<forall>u. t \<notin> set (creates (kont (threads s u))))"

inductive kstep :: "kernel \<Rightarrow> kernel \<Rightarrow> bool" where
  resume: "kont (threads s (cur s)) = k # ks \<Longrightarrow> run_frame k (pop_frame s) = Some (Inr s') \<Longrightarrow> kstep s s'"
| call: "kont (threads s (cur s)) = K_function f # ks \<Longrightarrow> do_call c s = Some (Inr s') \<Longrightarrow> kstep s s'"
| unblock: "kont (threads s (cur s)) = K_function f # ks \<Longrightarrow> parked s t \<Longrightarrow> thread_unblock t s = Inr s' \<Longrightarrow> kstep s s'"
| tick: "level s \<Longrightarrow> timer_irq s = Inr s' \<Longrightarrow> kstep s s'"

inductive_cases kstep_cases: "kstep s s'"

end
