(* ===== verification/Scheduler_Invariant.thy ===== *)
theory Scheduler_Invariant
  imports Kernel
begin

text \<open>
  The invariant \<open>kinv\<close> of the kernel: every list element of a thread is in at most one of the ready list, the list
  of sleepers and the wait lists, and agrees with the status of the thread; exactly one thread is running; no ready thread is
  lost; the idle thread never waits; the pages of living threads are allocated. The lemmas show what the
  scheduler does and that the operations of thread.c and synch.c keep the invariant.
\<close>

section \<open>Valid threads\<close>

lemma is_thread_fields [simp]:
  "is_thread (s\<lparr>semas := x_semas\<rparr>) = is_thread s"
  "is_thread (s\<lparr>locks := x_locks\<rparr>) = is_thread s"
  "is_thread (s\<lparr>conds := x_conds\<rparr>) = is_thread s"
  "is_thread (s\<lparr>sema_elem_priority := x_sema_elem_priority\<rparr>) = is_thread s"
  "is_thread (s\<lparr>sleep_list := x_sleep_list\<rparr>) = is_thread s"
  "is_thread (s\<lparr>ready_list := x_ready_list\<rparr>) = is_thread s"
  "is_thread (s\<lparr>all_list := x_all_list\<rparr>) = is_thread s"
  "is_thread (s\<lparr>cur := x_cur\<rparr>) = is_thread s"
  "is_thread (s\<lparr>idle_thread := x_idle_thread\<rparr>) = is_thread s"
  "is_thread (s\<lparr>next_tid := x_next_tid\<rparr>) = is_thread s"
  "is_thread (s\<lparr>ticks := x_ticks\<rparr>) = is_thread s"
  "is_thread (s\<lparr>idle_ticks := x_idle_ticks\<rparr>) = is_thread s"
  "is_thread (s\<lparr>kernel_ticks := x_kernel_ticks\<rparr>) = is_thread s"
  "is_thread (s\<lparr>thread_ticks := x_thread_ticks\<rparr>) = is_thread s"
  "is_thread (s\<lparr>level := x_level\<rparr>) = is_thread s"
  "is_thread (s\<lparr>in_external_intr := x_in_external_intr\<rparr>) = is_thread s"
  "is_thread (s\<lparr>yield_on_return := x_yield_on_return\<rparr>) = is_thread s"
  "is_thread (s\<lparr>pages := x_pages\<rparr>) = is_thread s"
  by (simp_all add: is_thread_def fun_eq_iff)

lemma is_thread_upd [simp]:
  "magic (f (threads s t)) = magic (threads s t) \<Longrightarrow> is_thread (upd_thread t f s) = is_thread s"
  "is_thread (upd_sema p g s) = is_thread s" "is_thread (upd_lock l h s) = is_thread s"
  "is_thread (push_frame k s) = is_thread s" "is_thread (pop_frame s) = is_thread s" "is_thread (intr_disable s) = is_thread s"
  by (auto simp: is_thread_def fun_eq_iff)

section \<open>The search for the thread of greatest priority\<close>

lemma max_priority_loop_split:
  assumes "\<exists>t \<in> set ts. pri t > m"
  shows "\<exists>xs ys. ts = xs @ max_priority_loop pri ts m b # ys
    \<and> (\<forall>t \<in> set xs. pri t < pri (max_priority_loop pri ts m b))
    \<and> (\<forall>t \<in> set ys. pri t \<le> pri (max_priority_loop pri ts m b)) \<and> m < pri (max_priority_loop pri ts m b)"
  using assms
proof (induction ts arbitrary: m b)
  case (Cons t ts)
  show ?case
  proof (cases "pri t > m")
    case True
    show ?thesis
    proof (cases "\<exists>u \<in> set ts. pri u > pri t")
      case hi: True
      let ?r = "max_priority_loop pri ts (pri t) t"
      obtain xs ys where "ts = xs @ ?r # ys" "\<forall>t \<in> set xs. pri t < pri ?r" "\<forall>t \<in> set ys. pri t \<le> pri ?r" "pri t < pri ?r"
        using Cons.IH [OF hi, of t] by blast
      then show ?thesis using True by (intro exI [of _ "t # xs"] exI [of _ ys]) auto
    next
      case lo: False
      have "max_priority_loop pri us (pri t) t = t" if "\<forall>u \<in> set us. pri u \<le> pri t" for us
        using that by (induction us) auto
      then have "max_priority_loop pri ts (pri t) t = t" using lo by force
      then show ?thesis using True lo by (intro exI [of _ "[]"] exI [of _ ts]) force
    qed
  next
    case False
    then have "\<exists>u \<in> set ts. pri u > m" using Cons.prems by auto
    let ?r = "max_priority_loop pri ts m b"
    obtain xs ys where "ts = xs @ ?r # ys" "\<forall>t \<in> set xs. pri t < pri ?r" "\<forall>t \<in> set ys. pri t \<le> pri ?r" "m < pri ?r"
      using Cons.IH [OF \<open>\<exists>u \<in> set ts. pri u > m\<close>, of b] by blast
    then show ?thesis using False by (intro exI [of _ "t # xs"] exI [of _ ys]) auto
  qed
qed simp

lemma max_priority_loop_none: "\<forall>t \<in> set ts. pri t \<le> m \<Longrightarrow> max_priority_loop pri ts m b = b"
  by (induction ts) auto

lemma max_priority_loop_in:
  assumes "ts \<noteq> []" and "max_priority_loop pri ts m 0 \<noteq> 0"
  shows "max_priority_loop pri ts m 0 \<in> set ts" and "\<forall>t \<in> set ts. pri t \<le> pri (max_priority_loop pri ts m 0)"
proof -
  have "\<exists>t \<in> set ts. pri t > m"
    using max_priority_loop_none [of ts pri m 0] assms(2) not_le by blast
  from max_priority_loop_split [OF this, of 0] obtain xs ys where
    *: "ts = xs @ max_priority_loop pri ts m 0 # ys"
      "\<forall>t \<in> set xs. pri t < pri (max_priority_loop pri ts m 0)"
      "\<forall>t \<in> set ys. pri t \<le> pri (max_priority_loop pri ts m 0)"
    by blast
  then have st: "set ts = set xs \<union> {max_priority_loop pri ts m 0} \<union> set ys"
    by (metis Un_insert_right list.simps(15) set_append sup_bot_right Un_insert_left)
  show "max_priority_loop pri ts m 0 \<in> set ts" using st by blast
  show "\<forall>t \<in> set ts. pri t \<le> pri (max_priority_loop pri ts m 0)" using st *(2,3) by fastforce
qed

section \<open>Well-formed queues\<close>

definition queues_ok :: "kernel \<Rightarrow> bool" where
  "queues_ok s \<longleftrightarrow> distinct (ready_list s) \<and> distinct (sleep_list s) \<and> (\<forall>p. distinct (waiters (semas s p)))
     \<and> (\<forall>t \<in> set (ready_list s). is_thread s t \<and> status (threads s t) = THREAD_READY)
     \<and> (\<forall>t \<in> set (sleep_list s). is_thread s t \<and> status (threads s t) = THREAD_BLOCKED \<and> 0 \<le> endTick (threads s t))
     \<and> (\<forall>p. \<forall>t \<in> set (waiters (semas s p)). is_thread s t \<and> status (threads s t) = THREAD_BLOCKED
          \<and> t \<notin> set (sleep_list s) \<and> (\<forall>q. t \<in> set (waiters (semas s q)) \<longrightarrow> q = p))
     \<and> (\<forall>t. is_thread s t \<and> status (threads s t) = THREAD_READY \<and> t \<noteq> idle_thread s \<longrightarrow> t \<in> set (ready_list s))"

lemma queues_okI:
  assumes "distinct (ready_list s)" "distinct (sleep_list s)" "\<And>p. distinct (waiters (semas s p))"
    and "\<And>t. t \<in> set (ready_list s) \<Longrightarrow> is_thread s t \<and> status (threads s t) = THREAD_READY"
    and "\<And>t. t \<in> set (sleep_list s) \<Longrightarrow> is_thread s t \<and> status (threads s t) = THREAD_BLOCKED \<and> 0 \<le> endTick (threads s t)"
    and "\<And>p t. t \<in> set (waiters (semas s p)) \<Longrightarrow> is_thread s t \<and> status (threads s t) = THREAD_BLOCKED \<and> t \<notin> set (sleep_list s)"
    and "\<And>p q t. t \<in> set (waiters (semas s p)) \<Longrightarrow> t \<in> set (waiters (semas s q)) \<Longrightarrow> q = p"
    and "\<And>t. is_thread s t \<Longrightarrow> status (threads s t) = THREAD_READY \<Longrightarrow> t \<noteq> idle_thread s \<Longrightarrow> t \<in> set (ready_list s)"
  shows "queues_ok s"
  using assms unfolding queues_ok_def by blast

lemma queues_okD:
  assumes "queues_ok s"
  shows "distinct (ready_list s)" "distinct (sleep_list s)" "distinct (waiters (semas s p))"
    and "t \<in> set (ready_list s) \<Longrightarrow> is_thread s t \<and> status (threads s t) = THREAD_READY"
    and "t \<in> set (sleep_list s) \<Longrightarrow> is_thread s t \<and> status (threads s t) = THREAD_BLOCKED \<and> 0 \<le> endTick (threads s t)"
    and "t \<in> set (waiters (semas s p)) \<Longrightarrow> is_thread s t \<and> status (threads s t) = THREAD_BLOCKED \<and> t \<notin> set (sleep_list s)"
    and "t \<in> set (waiters (semas s p)) \<Longrightarrow> t \<in> set (waiters (semas s q)) \<Longrightarrow> q = p"
    and "is_thread s t \<Longrightarrow> status (threads s t) = THREAD_READY \<Longrightarrow> t \<noteq> idle_thread s \<Longrightarrow> t \<in> set (ready_list s)"
  using assms unfolding queues_ok_def by blast+

section \<open>Waking the sleepers\<close>

definition due :: "kernel \<Rightarrow> addr list \<Rightarrow> addr list" where
  "due s ts = filter (\<lambda>t. endTick (threads s t) \<le> ticks s) ts"

definition woken :: "addr list \<Rightarrow> kernel \<Rightarrow> kernel" where
  "woken D s = s\<lparr>sleep_list := filter (\<lambda>t. t \<notin> set D) (sleep_list s), ready_list := ready_list s @ D,
     threads := (\<lambda>t. if t \<in> set D then (threads s t)\<lparr>endTick := - 1, status := THREAD_READY\<rparr> else threads s t)\<rparr>"

lemma woken_Nil: "woken [] s = s"
  by (simp add: woken_def)

lemma timer_ticks_off: "\<not> level s \<Longrightarrow> timer_ticks s = Inr (ticks s)"
  by (simp add: timer_ticks_def intr_get_level_def intr_set_level_def)

lemma thread_unblock_ok:
  assumes "is_thread s t" and "status (threads s t) = THREAD_BLOCKED" and "\<not> in_external_intr s \<or> \<not> level s"
  shows "thread_unblock t s = Inr (upd_thread t (\<lambda>r. r\<lparr>status := THREAD_READY\<rparr>) (s\<lparr>ready_list := ready_list s @ [t]\<rparr>))"
  using assms by (auto simp: thread_unblock_def intr_get_level_def intr_set_level_ok upd_thread_def intr_disable_def)

lemma woken_Cons:
  assumes "t \<notin> set D"
  shows "woken D (upd_thread t (\<lambda>r. r\<lparr>status := THREAD_READY\<rparr>) (upd_thread t (\<lambda>r. r\<lparr>endTick := - 1\<rparr>)
      (s\<lparr>sleep_list := filter (\<lambda>u. u \<noteq> t) (sleep_list s), ready_list := ready_list s @ [t]\<rparr>))) = woken (t # D) s"
  using assms by (auto simp: woken_def upd_thread_def fun_eq_iff intro!: filter_cong)

lemma wake_sleepers_woken:
  assumes "\<not> level s" and "distinct ts" and "distinct (sleep_list s)"
    and "\<And>t. t \<in> set ts \<Longrightarrow> is_thread s t \<and> status (threads s t) = THREAD_BLOCKED \<and> 0 \<le> endTick (threads s t)"
  shows "wake_sleepers ts s = Inr (woken (due s ts) s)"
  using assms
proof (induction ts arbitrary: s)
  case Nil
  then show ?case by (simp add: due_def woken_Nil)
next
  case (Cons t ts)
  show ?case
  proof (cases "endTick (threads s t) \<le> ticks s")
    case False
    then show ?thesis using Cons by (simp add: timer_ticks_off due_def)
  next
    case True
    let ?s1 = "upd_thread t (\<lambda>r. r\<lparr>endTick := - 1\<rparr>) (s\<lparr>sleep_list := filter (\<lambda>u. u \<noteq> t) (sleep_list s)\<rparr>)"
    let ?s2 = "upd_thread t (\<lambda>r. r\<lparr>status := THREAD_READY\<rparr>) (upd_thread t (\<lambda>r. r\<lparr>endTick := - 1\<rparr>)
      (s\<lparr>sleep_list := filter (\<lambda>u. u \<noteq> t) (sleep_list s), ready_list := ready_list s @ [t]\<rparr>))"
    have "thread_unblock t ?s1 = Inr ?s2"
      using Cons.prems(1) Cons.prems(4) [of t]
      by (subst thread_unblock_ok) (simp_all add: is_thread_def upd_thread_def)
    moreover have "remove1 t (sleep_list s) = filter (\<lambda>u. u \<noteq> t) (sleep_list s)"
      using Cons.prems(3) by (simp add: distinct_remove1_removeAll removeAll_filter_not_eq)
        (metis (mono_tags, lifting))
    ultimately have "wake_sleepers (t # ts) s = wake_sleepers ts ?s2"
      using True Cons.prems(1) Cons.prems(4) [of t] by (simp add: timer_ticks_off Let_def)
    also have "\<dots> = Inr (woken (due ?s2 ts) ?s2)"
    proof (rule Cons.IH)
      show "is_thread ?s2 u \<and> status (threads ?s2 u) = THREAD_BLOCKED \<and> 0 \<le> endTick (threads ?s2 u)" if "u \<in> set ts" for u
        using Cons.prems(2) Cons.prems(4) [of u] that by (auto simp: is_thread_def)
    qed (use Cons.prems in auto)
    also have "due ?s2 ts = due s ts"
      using Cons.prems(2) by (auto simp: due_def intro!: filter_cong)
    also have "woken (due s ts) ?s2 = woken (t # due s ts) s"
      using Cons.prems(2) by (intro woken_Cons) (auto simp: due_def)
    finally show ?thesis using True by (simp add: due_def)
  qed
qed

lemma thread_unblock_endTick: "thread_unblock t s = Inr s' \<Longrightarrow> endTick (threads s' u) = endTick (threads s u)"
  using intr_set_level_cases by (fastforce simp: thread_unblock_def Let_def)

lemma wake_sleepers_nonneg:
  assumes "wake_sleepers ts s = Inr s'" "distinct ts" "t \<in> set ts"
  shows "0 \<le> endTick (threads s t)"
  using assms
proof (induction ts arbitrary: s)
  case (Cons u ts)
  show ?case
  proof (cases "t = u")
    case True
    then show ?thesis using Cons.prems(1) by simp
  next
    case False
    obtain now where now: "timer_ticks s = Inr now" using Cons.prems(1) by auto
    show ?thesis
    proof (cases "endTick (threads s u) \<le> now")
      case True
      let ?s1 = "upd_thread u (\<lambda>r. r\<lparr>endTick := - 1\<rparr>) (s\<lparr>sleep_list := remove1 u (sleep_list s)\<rparr>)"
      obtain s2 where s2: "thread_unblock u ?s1 = Inr s2" "wake_sleepers ts s2 = Inr s'"
        using Cons.prems(1) now True by (auto simp: Let_def)
      have "0 \<le> endTick (threads s2 t)" using Cons.IH [OF s2(2)] Cons.prems(2,3) False by simp
      then show ?thesis using thread_unblock_endTick [OF s2(1), of t] False by simp
    next
      case False
      then have "wake_sleepers ts s = Inr s'" using Cons.prems(1) now by simp
      then show ?thesis using Cons.IH [of s] Cons.prems(2,3) \<open>t \<noteq> u\<close> by simp
    qed
  qed
qed simp

lemma woken_fields [simp]:
  "semas (woken D s) = semas s" "locks (woken D s) = locks s" "cur (woken D s) = cur s" "level (woken D s) = level s"
  "idle_thread (woken D s) = idle_thread s" "initial_thread (woken D s) = initial_thread s"
  "in_external_intr (woken D s) = in_external_intr s" "pages (woken D s) = pages s" "conds (woken D s) = conds s"
  "ticks (woken D s) = ticks s" "all_list (woken D s) = all_list s" "tid_lock (woken D s) = tid_lock s" "next_tid (woken D s) = next_tid s"
  "is_thread (woken D s) t = is_thread s t" "priority (threads (woken D s) t) = priority (threads s t)"
  "kont (threads (woken D s) t) = kont (threads s t)" "ready_list (woken D s) = ready_list s @ D"
  by (simp_all add: woken_def is_thread_def)

lemma woken_status:
  "status (threads (woken D s) t) = (if t \<in> set D then THREAD_READY else status (threads s t))"
  by (simp add: woken_def)

lemma woken_queues:
  assumes q: "queues_ok s"
  shows "queues_ok (woken (due s (sleep_list s)) s)"
proof -
  let ?D = "due s (sleep_list s)"
  have D: "set ?D \<subseteq> set (sleep_list s)" "distinct ?D" using queues_okD(2) [OF q] by (auto simp: due_def)
  have blocked: "t \<in> set ?D \<Longrightarrow> is_thread s t \<and> status (threads s t) = THREAD_BLOCKED" for t
    using queues_okD(5) [OF q] D by blast
  have sl: "sleep_list (woken ?D s) = filter (\<lambda>t. t \<notin> set ?D) (sleep_list s)" by (simp add: woken_def)
  have th: "threads (woken ?D s) t = threads s t" if "t \<notin> set ?D" for t using that by (simp add: woken_def)
  show ?thesis
  proof (rule queues_okI)
    show "distinct (ready_list (woken ?D s))"
      using queues_okD(1) [OF q] D queues_okD(4) [OF q] blocked by fastforce
    show "distinct (sleep_list (woken ?D s))" using queues_okD(2) [OF q] by (simp add: sl)
    show "distinct (waiters (semas (woken ?D s) p))" for p using queues_okD(3) [OF q] by simp
    show "is_thread (woken ?D s) t \<and> status (threads (woken ?D s) t) = THREAD_READY" if "t \<in> set (ready_list (woken ?D s))" for t
      using that queues_okD(4) [OF q] blocked by (auto simp: woken_status)
    show "is_thread (woken ?D s) t \<and> status (threads (woken ?D s) t) = THREAD_BLOCKED \<and> 0 \<le> endTick (threads (woken ?D s) t)"
      if "t \<in> set (sleep_list (woken ?D s))" for t
      using that queues_okD(5) [OF q] by (auto simp: sl th)
    show "is_thread (woken ?D s) t \<and> status (threads (woken ?D s) t) = THREAD_BLOCKED \<and> t \<notin> set (sleep_list (woken ?D s))"
      if "t \<in> set (waiters (semas (woken ?D s) p))" for p t
      using that queues_okD(6) [OF q, of t p] D by (auto simp: sl woken_status)
    show "q' = p" if "t \<in> set (waiters (semas (woken ?D s) p))" "t \<in> set (waiters (semas (woken ?D s) q'))" for p q' t
      using that queues_okD(7) [OF q] by simp
    show "t \<in> set (ready_list (woken ?D s))"
      if "is_thread (woken ?D s) t" "status (threads (woken ?D s) t) = THREAD_READY" "t \<noteq> idle_thread (woken ?D s)" for t
      using that queues_okD(8) [OF q] by (auto simp: woken_status split: if_splits)
  qed
qed

section \<open>Switching\<close>

definition switched :: "addr \<Rightarrow> addr list \<Rightarrow> kernel \<Rightarrow> kernel" where
  "switched nxt R s = upd_thread nxt (\<lambda>r. r\<lparr>status := THREAD_RUNNING\<rparr>)
     (s\<lparr>cur := nxt, ready_list := R, thread_ticks := 0\<rparr>)"

definition reaped :: "addr \<Rightarrow> palloc \<Rightarrow> kernel \<Rightarrow> kernel" where
  "reaped t p s = upd_thread t (\<lambda>r. r\<lparr>magic := 0xcccccccc, kont := []\<rparr>) (s\<lparr>pages := p\<rparr>)"

definition all_woken :: "kernel \<Rightarrow> kernel" where
  "all_woken s = woken (due s (sleep_list s)) s"

lemma wake_sleepers_all:
  assumes "queues_ok s" and "\<not> level s"
  shows "wake_sleepers (sleep_list s) s = Inr (all_woken s)"
  unfolding all_woken_def
  using assms queues_okD(2,5) [OF assms(1)] by (intro wake_sleepers_woken) auto

lemma all_woken_fields [simp]:
  "semas (all_woken s) = semas s" "locks (all_woken s) = locks s" "cur (all_woken s) = cur s" "level (all_woken s) = level s"
  "idle_thread (all_woken s) = idle_thread s" "initial_thread (all_woken s) = initial_thread s"
  "in_external_intr (all_woken s) = in_external_intr s" "pages (all_woken s) = pages s" "conds (all_woken s) = conds s"
  "ticks (all_woken s) = ticks s" "all_list (all_woken s) = all_list s" "tid_lock (all_woken s) = tid_lock s" "next_tid (all_woken s) = next_tid s"
  "is_thread (all_woken s) t = is_thread s t" "priority (threads (all_woken s) t) = priority (threads s t)"
  "kont (threads (all_woken s) t) = kont (threads s t)"
  "set (ready_list (all_woken s)) = set (ready_list s) \<union> {t \<in> set (sleep_list s). endTick (threads s t) \<le> ticks s}"
  by (simp_all add: all_woken_def due_def)

lemma next_thread_cases:
  assumes "next_thread_to_run s = Inr (nxt, s')"
  shows "s' = s\<lparr>ready_list := remove1 nxt (ready_list s)\<rparr>
    \<and> (if ready_list s = [] then nxt = idle_thread s
       else nxt \<in> set (ready_list s) \<and> (\<forall>t \<in> set (ready_list s). priority (threads s t) \<le> priority (threads s nxt)))"
proof (cases "ready_list s = []")
  case True
  then show ?thesis using assms by (auto simp: next_thread_to_run_def)
next
  case False
  let ?t = "max_priority_loop (\<lambda>t. priority (threads s t)) (ready_list s) (- 1) 0"
  have t: "?t \<noteq> 0" "nxt = ?t" "s' = s\<lparr>ready_list := remove1 ?t (ready_list s)\<rparr>"
    using False assms by (auto simp: next_thread_to_run_def Let_def split: if_splits)
  then show ?thesis using False max_priority_loop_in [OF False t(1)] by simp
qed

lemma schedule_cases:
  assumes "schedule s = Inr s'" and "queues_ok s" and "\<not> level s"
  obtains (switch) nxt where "is_thread s nxt" "status (threads (all_woken s) (cur s)) \<noteq> THREAD_RUNNING"
      "if ready_list (all_woken s) = [] then nxt = idle_thread s
       else nxt \<in> set (ready_list (all_woken s))
         \<and> (\<forall>t \<in> set (ready_list (all_woken s)). priority (threads s t) \<le> priority (threads s nxt))"
      "s' = switched nxt (remove1 nxt (ready_list (all_woken s))) (all_woken s)"
      "nxt = cur s \<or> cur s = 0 \<or> cur s = initial_thread s \<or> status (threads (all_woken s) (cur s)) \<noteq> THREAD_DYING"
    | (reap) nxt p where "is_thread s nxt" "status (threads (all_woken s) (cur s)) = THREAD_DYING"
      "if ready_list (all_woken s) = [] then nxt = idle_thread s
       else nxt \<in> set (ready_list (all_woken s))
         \<and> (\<forall>t \<in> set (ready_list (all_woken s)). priority (threads s t) \<le> priority (threads s nxt))"
      "nxt \<noteq> cur s" "cur s \<noteq> 0" "cur s \<noteq> initial_thread s" "palloc_free_page (pages s) (cur s) = Inr p"
      "s' = reaped (cur s) p (switched nxt (remove1 nxt (ready_list (all_woken s))) (all_woken s))"
proof -
  let ?w = "all_woken s"
  obtain nxt s1 where n: "next_thread_to_run ?w = Inr (nxt, s1)"
    and c: "status (threads s1 (cur s)) \<noteq> THREAD_RUNNING" "is_thread s1 nxt"
    and t: "(if cur s \<noteq> nxt then thread_schedule_tail (cur s) (s1\<lparr>cur := nxt\<rparr>) else thread_schedule_tail 0 s1) = Inr s'"
    using assms by (auto simp: schedule_def wake_sleepers_all running_thread_def Let_def cong: if_cong)
  have s1: "s1 = ?w\<lparr>ready_list := remove1 nxt (ready_list ?w)\<rparr>"
    and nx: "if ready_list ?w = [] then nxt = idle_thread s
       else nxt \<in> set (ready_list ?w) \<and> (\<forall>t \<in> set (ready_list ?w). priority (threads s t) \<le> priority (threads s nxt))"
    using next_thread_cases [OF n] by (auto split: if_splits)
  have th: "is_thread s nxt" using c(2) by (simp add: s1)
  have st: "status (threads ?w (cur s)) \<noteq> THREAD_RUNNING" using c(1) by (simp add: s1)
  let ?s2 = "switched nxt (remove1 nxt (ready_list ?w)) ?w"
  show thesis
  proof (cases "cur s = nxt")
    case True
    then have "s' = ?s2"
      using t by (auto simp: thread_schedule_tail_def running_thread_def s1 switched_def Let_def upd_thread_def)
    then show thesis using switch th st nx True by blast
  next
    case False
    show thesis
    proof (cases "cur s \<noteq> 0 \<and> status (threads ?w (cur s)) = THREAD_DYING \<and> cur s \<noteq> initial_thread s")
      case dead: True
      then obtain p where "palloc_free_page (pages s) (cur s) = Inr p" "s' = reaped (cur s) p ?s2"
        using t False by (auto simp: thread_schedule_tail_def running_thread_def s1 switched_def reaped_def Let_def upd_thread_def)
      then show thesis using reap th nx False dead by blast
    next
      case alive: False
      then have "s' = ?s2"
        using t False by (auto simp: thread_schedule_tail_def running_thread_def s1 switched_def Let_def upd_thread_def split: if_splits)
      then show thesis using switch th st nx alive by blast
    qed
  qed
qed

section \<open>The invariant of the kernel\<close>

text \<open>The pages of living threads are allocated; the initial thread does not lie in a pool.\<close>

definition pages_ok :: "kernel \<Rightarrow> bool" where
  "pages_ok s \<longleftrightarrow> palloc_ok (pages s)
     \<and> page_num (initial_thread s) \<notin> pool_pages (kernel_pool (pages s)) \<union> pool_pages (user_pool (pages s))
     \<and> (\<forall>t. is_thread s t \<longrightarrow> pg_ofs t = 0 \<and> (t = initial_thread s \<or> page_num t \<in> allocated (pages s)))"

text \<open>The stack of the idle thread.\<close>

fun idle_stack :: "frame list \<Rightarrow> bool" where
  "idle_stack (K_intr_set_level l # ks) = idle_stack ks"
| "idle_stack (K_iret # ks) = idle_stack ks"
| "idle_stack [K_idle_loop, K_thread_exit] = True"
| "idle_stack [K_idle_halt, K_thread_exit] = True"
| "idle_stack _ = False"

definition idle_ok :: "kernel \<Rightarrow> bool" where
  "idle_ok s \<longleftrightarrow> is_thread s (idle_thread s) \<and> idle_thread s \<notin> set (sleep_list s)
     \<and> (\<forall>p. idle_thread s \<notin> set (waiters (semas s p))) \<and> idle_stack (kont (threads s (idle_thread s)))
     \<and> status (threads s (idle_thread s)) \<noteq> THREAD_DYING"

fun boots_idle :: "frame \<Rightarrow> bool" where
  "boots_idle (K_thread_create t f a) = (f = F_idle)"
| "boots_idle (K_kernel_thread f a) = (f = F_idle)"
| "boots_idle k = False"

definition create_ok :: "kernel \<Rightarrow> bool" where
  "create_ok s \<longleftrightarrow> (\<forall>u. distinct (creates (kont (threads s u))))
     \<and> (\<forall>u v. u \<noteq> v \<longrightarrow> set (creates (kont (threads s u))) \<inter> set (creates (kont (threads s v))) = {})
     \<and> (\<forall>u. \<forall>t \<in> set (creates (kont (threads s u))). is_thread s t \<and> status (threads s t) = THREAD_BLOCKED
          \<and> t \<noteq> idle_thread s \<and> t \<notin> set (sleep_list s) \<and> (\<forall>p. t \<notin> set (waiters (semas s p))))
     \<and> (\<forall>u. \<forall>k \<in> set (kont (threads s u)). \<not> boots_idle k)"

definition sys_ok :: "kernel \<Rightarrow> bool" where
  "sys_ok s \<longleftrightarrow> queues_ok s \<and> pages_ok s \<and> idle_ok s \<and> create_ok s \<and> \<not> in_external_intr s \<and> is_thread s (cur s)"

definition kinv :: "kernel \<Rightarrow> bool" where
  "kinv s \<longleftrightarrow> sys_ok s \<and> status (threads s (cur s)) = THREAD_RUNNING
     \<and> (\<forall>t. is_thread s t \<and> status (threads s t) = THREAD_RUNNING \<longrightarrow> t = cur s)"

definition sched_pre :: "kernel \<Rightarrow> bool" where
  "sched_pre s \<longleftrightarrow> sys_ok s \<and> \<not> level s \<and> (\<forall>t. is_thread s t \<longrightarrow> status (threads s t) \<noteq> THREAD_RUNNING)"

lemma queues_ok_cong:
  assumes "\<And>t. status (threads s' t) = status (threads s t) \<and> magic (threads s' t) = magic (threads s t)
      \<and> endTick (threads s' t) = endTick (threads s t)"
    and "\<And>p. waiters (semas s' p) = waiters (semas s p)"
    and "ready_list s' = ready_list s" "sleep_list s' = sleep_list s" "idle_thread s' = idle_thread s"
  shows "queues_ok s' = queues_ok s"
  unfolding queues_ok_def is_thread_def by (simp only: assms)

lemma sys_ok_cong:
  assumes "\<And>t. status (threads s' t) = status (threads s t) \<and> magic (threads s' t) = magic (threads s t)
      \<and> kont (threads s' t) = kont (threads s t) \<and> endTick (threads s' t) = endTick (threads s t)"
    and "\<And>p. waiters (semas s' p) = waiters (semas s p)"
    and "ready_list s' = ready_list s" "sleep_list s' = sleep_list s" "cur s' = cur s" "idle_thread s' = idle_thread s"
      "initial_thread s' = initial_thread s" "pages s' = pages s" "in_external_intr s' = in_external_intr s"
  shows "sys_ok s' = sys_ok s"
  unfolding sys_ok_def queues_ok_def pages_ok_def idle_ok_def create_ok_def is_thread_def
  by (simp only: assms)

lemma kinv_cong:
  assumes "\<And>t. status (threads s' t) = status (threads s t) \<and> magic (threads s' t) = magic (threads s t)
      \<and> kont (threads s' t) = kont (threads s t) \<and> endTick (threads s' t) = endTick (threads s t)"
    and "\<And>p. waiters (semas s' p) = waiters (semas s p)"
    and "ready_list s' = ready_list s" "sleep_list s' = sleep_list s" "cur s' = cur s" "idle_thread s' = idle_thread s"
      "initial_thread s' = initial_thread s" "pages s' = pages s" "in_external_intr s' = in_external_intr s"
  shows "kinv s' = kinv s"
  unfolding kinv_def sys_ok_cong [OF assms] is_thread_def by (simp only: assms)

lemma sched_pre_cong:
  assumes "\<And>t. status (threads s' t) = status (threads s t) \<and> magic (threads s' t) = magic (threads s t)
      \<and> kont (threads s' t) = kont (threads s t) \<and> endTick (threads s' t) = endTick (threads s t)"
    and "\<And>p. waiters (semas s' p) = waiters (semas s p)"
    and "ready_list s' = ready_list s" "sleep_list s' = sleep_list s" "cur s' = cur s" "idle_thread s' = idle_thread s"
      "initial_thread s' = initial_thread s" "pages s' = pages s" "in_external_intr s' = in_external_intr s"
    and "level s' = level s"
  shows "sched_pre s' = sched_pre s"
  unfolding sched_pre_def sys_ok_cong [OF assms(1-9)] is_thread_def by (simp only: assms)

lemma kinvD:
  assumes "kinv s"
  shows "queues_ok s" "pages_ok s" "idle_ok s" "create_ok s" "\<not> in_external_intr s" "is_thread s (cur s)" "sys_ok s"
    "status (threads s (cur s)) = THREAD_RUNNING"
    "is_thread s t \<Longrightarrow> status (threads s t) = THREAD_RUNNING \<Longrightarrow> t = cur s"
  using assms by (auto simp: kinv_def sys_ok_def)

lemma create_okD:
  assumes "create_ok s" and "t \<in> set (creates (kont (threads s u)))"
  shows "is_thread s t" "status (threads s t) = THREAD_BLOCKED" "t \<noteq> idle_thread s" "t \<notin> set (sleep_list s)"
    "t \<notin> set (waiters (semas s p))" "t \<in> set (creates (kont (threads s v))) \<Longrightarrow> v = u"
  using assms unfolding create_ok_def by blast+

section \<open>Scheduling keeps the invariant\<close>

lemma all_woken_threads:
  "threads (all_woken s) t = (if t \<in> set (sleep_list s) \<and> endTick (threads s t) \<le> ticks s
     then (threads s t)\<lparr>endTick := - 1, status := THREAD_READY\<rparr> else threads s t)"
  by (simp add: all_woken_def woken_def due_def)

lemma all_woken_sleep: "sleep_list (all_woken s) = filter (\<lambda>t. \<not> endTick (threads s t) \<le> ticks s) (sleep_list s)"
  by (auto simp: all_woken_def woken_def due_def intro!: filter_cong)

lemma all_woken_sys:
  assumes "sys_ok s"
  shows "sys_ok (all_woken s)"
proof -
  have q: "queues_ok (all_woken s)" using woken_queues assms by (simp add: sys_ok_def all_woken_def)
  have i: "idle_ok (all_woken s)" using assms by (auto simp: sys_ok_def idle_ok_def all_woken_sleep all_woken_threads)
  have c: "create_ok (all_woken s)"
    using assms unfolding sys_ok_def create_ok_def by (auto simp: all_woken_sleep all_woken_threads)
  show ?thesis using assms q i c by (auto simp: sys_ok_def pages_ok_def)
qed

lemma next_not_queued:
  assumes ok: "sys_ok w" and nxt: "if ready_list w = [] then nxt = idle_thread w else nxt \<in> set (ready_list w)"
  shows "nxt \<notin> set (sleep_list w)" "nxt \<notin> set (waiters (semas w p))" "nxt \<notin> set (creates (kont (threads w u)))"
    "status (threads w nxt) \<noteq> THREAD_DYING"
proof -
  have q: "queues_ok w" and i: "idle_ok w" and c: "create_ok w" using ok by (auto simp: sys_ok_def)
  have *: "nxt = idle_thread w \<or> status (threads w nxt) = THREAD_READY"
    using nxt queues_okD(4) [OF q] by (auto split: if_splits)
  show "nxt \<notin> set (sleep_list w)" "nxt \<notin> set (waiters (semas w p))" "nxt \<notin> set (creates (kont (threads w u)))"
    "status (threads w nxt) \<noteq> THREAD_DYING"
    using * i queues_okD(5,6) [OF q, of nxt] create_okD(2,3) [OF c, of nxt u] by (auto simp: idle_ok_def)
qed

lemma switched_sys:
  assumes ok: "sys_ok w" and th: "is_thread w nxt"
    and nxt: "if ready_list w = [] then nxt = idle_thread w else nxt \<in> set (ready_list w)"
  shows "sys_ok (switched nxt (remove1 nxt (ready_list w)) w)" (is "sys_ok ?s")
proof -
  note n = next_not_queued [OF ok nxt]
  have q: "queues_ok w" and c: "create_ok w" using ok by (auto simp: sys_ok_def)
  have th': "threads ?s t = (if t = nxt then (threads w t)\<lparr>status := THREAD_RUNNING\<rparr> else threads w t)" for t
    by (simp add: switched_def)
  have it: "is_thread ?s = is_thread w" by (simp add: switched_def)
  have sel: "sleep_list ?s = sleep_list w" "semas ?s = semas w" "ready_list ?s = remove1 nxt (ready_list w)"
    "idle_thread ?s = idle_thread w" "pages ?s = pages w" "initial_thread ?s = initial_thread w" "cur ?s = nxt"
    "in_external_intr ?s = in_external_intr w" "ticks ?s = ticks w"
    by (simp_all add: switched_def)
  have "queues_ok ?s"
  proof (rule queues_okI, unfold sel it)
    show "is_thread w t \<and> status (threads ?s t) = THREAD_READY" if "t \<in> set (remove1 nxt (ready_list w))" for t
      using that queues_okD(1,4) [OF q] by (auto simp: th')
    show "is_thread w t \<and> status (threads ?s t) = THREAD_BLOCKED \<and> 0 \<le> endTick (threads ?s t)" if "t \<in> set (sleep_list w)" for t
      using that queues_okD(5) [OF q] n(1) by (auto simp: th')
    show "is_thread w t \<and> status (threads ?s t) = THREAD_BLOCKED \<and> t \<notin> set (sleep_list w)" if "t \<in> set (waiters (semas w p))" for p t
      using that queues_okD(6) [OF q] n(2) by (auto simp: th')
    show "t \<in> set (remove1 nxt (ready_list w))"
      if "is_thread w t" "status (threads ?s t) = THREAD_READY" "t \<noteq> idle_thread w" for t
      using that queues_okD(8) [OF q] by (auto simp: th' split: if_splits)
  qed (use queues_okD(1,2,3,7) [OF q] in auto)
  moreover have "idle_ok ?s" using ok unfolding idle_ok_def sel it th' by (auto simp: sys_ok_def idle_ok_def)
  moreover have "create_ok ?s"
    using c n(3) unfolding create_ok_def sel it th' by (auto split: if_splits)
  moreover have "pages_ok ?s" using ok unfolding pages_ok_def sel it by (simp add: sys_ok_def pages_ok_def)
  ultimately show ?thesis using ok th by (simp add: sys_ok_def sel it)
qed

lemma allocated_in_pool: "k \<in> allocated s \<Longrightarrow> \<exists>u. k \<in> pool_pages (get_pool s u)"
  using pool_allocated_subset by (fastforce simp: allocated_alt [of s True])

lemma palloc_free_page_ok:
  assumes "palloc_ok s" and "pg_ofs t = 0" and "t \<noteq> 0" and "page_num t \<in> allocated s"
  shows "\<exists>s'. palloc_free_page s t = Inr s' \<and> palloc_ok s' \<and> allocated s' = allocated s - {page_num t}
    \<and> (\<forall>v. pool_pages (get_pool s' v) = pool_pages (get_pool s v))"
proof -
  have r: "page_range t 1 = {page_num t}" by (auto simp: page_range_def)
  have "page_range t 1 \<subseteq> allocated s \<and> (\<exists>u. page_range t 1 \<subseteq> pool_pages (get_pool s u))"
    unfolding r using assms(4) allocated_in_pool by auto
  then show ?thesis
    using palloc_free_multiple_cases [OF assms(1-3), of 1] by (simp only: palloc_free_page_def r) auto
qed

lemma is_thread_reaped: "is_thread (reaped c p s) t \<longleftrightarrow> is_thread s t \<and> t \<noteq> c"
  by (simp add: is_thread_def reaped_def THREAD_MAGIC_def)

lemma reaped_sys:
  assumes ok: "sys_ok s" and c: "status (threads s c) = THREAD_DYING" "c \<noteq> cur s" "c \<noteq> initial_thread s" "is_thread s c"
    and free: "palloc_free_page (pages s) c = Inr p"
  shows "sys_ok (reaped c p s)" (is "sys_ok ?s")
proof -
  have q: "queues_ok s" and i: "idle_ok s" and cr: "create_ok s" and pg: "pages_ok s" using ok by (auto simp: sys_ok_def)
  have th: "threads ?s t = (if t = c then (threads s t)\<lparr>magic := 0xcccccccc, kont := []\<rparr> else threads s t)" for t
    by (simp add: reaped_def)
  note it = is_thread_reaped
  have sel: "sleep_list ?s = sleep_list s" "semas ?s = semas s" "ready_list ?s = ready_list s"
    "idle_thread ?s = idle_thread s" "pages ?s = p" "initial_thread ?s = initial_thread s" "cur ?s = cur s"
    "in_external_intr ?s = in_external_intr s" "ticks ?s = ticks s"
    by (simp_all add: reaped_def)
  have nq: "c \<notin> set (ready_list s)" "c \<notin> set (sleep_list s)" "c \<notin> set (waiters (semas s p))"
    "c \<notin> set (creates (kont (threads s u)))" "c \<noteq> idle_thread s" for p u
    using queues_okD(4,5,6) [OF q, of c] create_okD(2) [OF cr, of c] i c(1) by (auto simp: idle_ok_def)
  have "queues_ok ?s"
  proof (rule queues_okI, unfold sel it)
    show "t \<in> set (ready_list s)"
      if "is_thread s t \<and> t \<noteq> c" "status (threads ?s t) = THREAD_READY" "t \<noteq> idle_thread s" for t
      using that queues_okD(8) [OF q] by (auto simp: th)
    show "(is_thread s t \<and> t \<noteq> c) \<and> status (threads ?s t) = THREAD_READY" if "t \<in> set (ready_list s)" for t
      using that queues_okD(4) [OF q] nq(1) by (auto simp: th)
    show "(is_thread s t \<and> t \<noteq> c) \<and> status (threads ?s t) = THREAD_BLOCKED \<and> 0 \<le> endTick (threads ?s t)"
      if "t \<in> set (sleep_list s)" for t
      using that queues_okD(5) [OF q] nq(2) by (auto simp: th)
    show "(is_thread s t \<and> t \<noteq> c) \<and> status (threads ?s t) = THREAD_BLOCKED \<and> t \<notin> set (sleep_list s)"
      if "t \<in> set (waiters (semas s p))" for p t
      using that queues_okD(6) [OF q, of t p] nq(3) by (auto simp: th)
  qed (use queues_okD(1,2,3,7) [OF q] in auto)
  moreover have "idle_ok ?s" using i nq unfolding idle_ok_def sel it th by auto
  moreover have "create_ok ?s" using cr nq unfolding create_ok_def sel it th by (auto split: if_splits)
  moreover have "pages_ok ?s"
  proof -
    have t: "pg_ofs c = 0" "page_num c \<in> allocated (pages s)" "c \<noteq> 0"
      using pg c(3,4) by (auto simp: pages_ok_def is_thread_def)
    obtain p' where "palloc_free_page (pages s) c = Inr p'" "palloc_ok p'" "allocated p' = allocated (pages s) - {page_num c}"
        "\<And>v. pool_pages (get_pool p' v) = pool_pages (get_pool (pages s) v)"
      using palloc_free_page_ok [OF _ t(1,3,2)] pg by (auto simp: pages_ok_def)
    then have p: "palloc_ok p" "allocated p = allocated (pages s) - {page_num c}"
      and pools: "pool_pages (get_pool p v) = pool_pages (get_pool (pages s) v)" for v
      using free by auto
    have "pg_ofs t = 0 \<and> (t = initial_thread s \<or> page_num t \<in> allocated p)" if "is_thread s t" "t \<noteq> c" for t
      using that pg t(1) page_num_inj [of t c] by (auto simp: pages_ok_def p(2))
    then show ?thesis
      using pg p(1) pools [of True] pools [of False] unfolding pages_ok_def sel it by (auto simp: get_pool_def)
  qed
  ultimately show ?thesis using ok c(2) by (simp add: sys_ok_def sel it)
qed

lemma schedule_kinv:
  assumes "sched_pre s" and "schedule s = Inr s'"
  shows "kinv s'"
proof -
  let ?w = "all_woken s"
  have ok: "sys_ok s" "\<not> level s" and run: "\<And>t. is_thread s t \<Longrightarrow> status (threads s t) \<noteq> THREAD_RUNNING"
    using assms(1) by (auto simp: sched_pre_def)
  have q: "queues_ok s" using ok by (simp add: sys_ok_def)
  have w: "sys_ok ?w" using all_woken_sys [OF ok(1)] .
  have run_w: "is_thread s t \<Longrightarrow> status (threads ?w t) \<noteq> THREAD_RUNNING" for t using run by (simp add: all_woken_threads)
  have sw: "sys_ok (switched nxt (remove1 nxt (ready_list ?w)) ?w)
      \<and> status (threads (switched nxt (remove1 nxt (ready_list ?w)) ?w) nxt) = THREAD_RUNNING
      \<and> (\<forall>t. is_thread s t \<and> status (threads (switched nxt (remove1 nxt (ready_list ?w)) ?w) t) = THREAD_RUNNING \<longrightarrow> t = nxt)"
    if "is_thread s nxt" "if ready_list ?w = [] then nxt = idle_thread s else nxt \<in> set (ready_list ?w) \<and> P" for nxt P
    using switched_sys [OF w, of nxt] that run_w by (auto simp: switched_def split: if_splits)
  have sel: "cur (switched n R ?w) = n" "is_thread (switched n R ?w) = is_thread s" for n R
    by (simp_all add: switched_def is_thread_def fun_eq_iff all_woken_threads)
  show ?thesis
  proof (cases rule: schedule_cases [OF assms(2) q ok(2), case_names switch reap])
    case (switch nxt)
    show ?thesis unfolding kinv_def switch(4) sel using sw [OF switch(1,3)] by blast
  next
    case (reap nxt p)
    let ?s = "switched nxt (remove1 nxt (ready_list ?w)) ?w"
    have "sys_ok (reaped (cur s) p ?s)"
      using reap ok(1) by (intro reaped_sys conjunct1 [OF sw [OF reap(1,3)]]) (auto simp: switched_def sys_ok_def)
    moreover have "threads (reaped (cur s) p ?s) t = (if t = cur s then (threads ?s t)\<lparr>magic := 0xcccccccc, kont := []\<rparr> else threads ?s t)"
        "cur (reaped (cur s) p ?s) = nxt" for t
      by (simp_all add: reaped_def sel)
    ultimately show ?thesis
      unfolding kinv_def reap(8) using reap(4) sw [OF reap(1,3)] by (simp add: is_thread_reaped sel)
  qed
qed

section \<open>Updates that keep the invariant\<close>

lemma creates_cases: "creates (k # ks) = (case k of K_thread_create t f a \<Rightarrow> t # creates ks | _ \<Rightarrow> creates ks)"
  by (cases k) auto

lemma cur_not_queued:
  assumes "kinv s"
  shows "cur s \<notin> set (ready_list s)" "cur s \<notin> set (sleep_list s)" "cur s \<notin> set (waiters (semas s p))"
    "cur s \<notin> set (creates (kont (threads s u)))"
  using queues_okD(4,5,6) [OF kinvD(1) [OF assms], of "cur s"] create_okD(2) [OF kinvD(4) [OF assms], of "cur s"] kinvD(8) [OF assms]
  by auto

lemma kinv_set_kont:
  assumes k: "kinv s"
    and ks: "set (creates ks) \<subseteq> set (creates (kont (threads s (cur s))))" "distinct (creates ks)"
      "\<And>k. k \<in> set ks \<Longrightarrow> \<not> boots_idle k" "cur s = idle_thread s \<Longrightarrow> idle_stack ks"
  shows "kinv (upd_thread (cur s) (\<lambda>r. r\<lparr>kont := ks\<rparr>) s)" (is "kinv ?s")
proof -
  have st: "status (threads ?s t) = status (threads s t)" "endTick (threads ?s t) = endTick (threads s t)"
    "kont (threads ?s t) = (if t = cur s then ks else kont (threads s t))" for t by simp_all
  have it: "is_thread ?s = is_thread s" by simp
  have "queues_ok ?s" using kinvD(1) [OF k] by (subst queues_ok_cong) simp_all
  moreover have "pages_ok ?s" using kinvD(2) [OF k] unfolding pages_ok_def it by simp
  moreover have "idle_ok ?s" using kinvD(3) [OF k] ks(4) unfolding idle_ok_def st it by (auto split: if_splits)
  moreover have "create_ok ?s" unfolding create_ok_def st it
  proof (intro conjI allI impI ballI)
    show "distinct (creates (if u = cur s then ks else kont (threads s u)))" for u
      using kinvD(4) [OF k] ks(2) by (simp add: create_ok_def)
    show "set (creates (if u = cur s then ks else kont (threads s u))) \<inter> set (creates (if v = cur s then ks else kont (threads s v))) = {}"
      if "u \<noteq> v" for u v
      using that ks(1) create_okD(6) [OF kinvD(4) [OF k]] by (auto split: if_splits)
    fix u t assume "t \<in> set (creates (if u = cur s then ks else kont (threads s u)))"
    then have t: "t \<in> set (creates (kont (threads s u)))" using ks(1) by (auto split: if_splits)
    note * = create_okD [OF kinvD(4) [OF k] t]
    show "is_thread s t" "status (threads s t) = THREAD_BLOCKED" "t \<noteq> idle_thread ?s" "t \<notin> set (sleep_list ?s)"
      "t \<notin> set (waiters (semas ?s p))" for p using * by simp_all
  next
    fix u k assume "k \<in> set (if u = cur s then ks else kont (threads s u))"
    then show "\<not> boots_idle k" using kinvD(4) [OF k] ks(3) by (auto simp: create_ok_def split: if_splits)
  qed
  ultimately show ?thesis using k by (simp add: kinv_def sys_ok_def)
qed

lemma kinv_push:
  assumes k: "kinv s" and "creates [f] = []" "\<not> boots_idle f" and "cur s \<noteq> idle_thread s \<or> idle_stack (f # kont (threads s (cur s)))"
  shows "kinv (push_frame f s)"
proof -
  have "creates (f # ks) = creates ks" for ks using assms(2) by (cases f) auto
  then have "kinv (upd_thread (cur s) (\<lambda>r. r\<lparr>kont := f # kont (threads s (cur s))\<rparr>) s)"
    using assms kinvD(4) [OF k] by (intro kinv_set_kont) (auto simp: create_ok_def)
  moreover have "push_frame f s = upd_thread (cur s) (\<lambda>r. r\<lparr>kont := f # kont (threads s (cur s))\<rparr>) s"
    by (simp add: push_frame_def upd_thread_def)
  ultimately show ?thesis by (simp only:)
qed

lemma kinv_pop:
  assumes k: "kinv s" and top: "kont (threads s (cur s)) = f # ks" and "cur s \<noteq> idle_thread s \<or> idle_stack ks"
  shows "kinv (pop_frame s)"
proof -
  have "set (creates ks) \<subseteq> set (creates (f # ks))" "distinct (creates (f # ks)) \<Longrightarrow> distinct (creates ks)" by (cases f; auto)+
  moreover have "distinct (creates (kont (threads s (cur s))))" "\<And>k. k \<in> set (kont (threads s (cur s))) \<Longrightarrow> \<not> boots_idle k"
    using kinvD(4) [OF k] by (auto simp: create_ok_def)
  ultimately have "kinv (upd_thread (cur s) (\<lambda>r. r\<lparr>kont := ks\<rparr>) s)"
    using assms(3) unfolding top by (intro kinv_set_kont [OF k]) (auto simp: top)
  moreover have "pop_frame s = upd_thread (cur s) (\<lambda>r. r\<lparr>kont := ks\<rparr>) s"
    using top by (simp add: pop_frame_def upd_thread_def)
  ultimately show ?thesis by simp
qed

section \<open>Leaving the processor\<close>

lemma sched_preI:
  assumes k: "kinv s"
    and th: "\<And>t. threads s' t = (if t = cur s then (threads s t)\<lparr>status := st, endTick := e\<rparr> else threads s t)"
    and st: "st \<noteq> THREAD_RUNNING" "st = THREAD_DYING \<Longrightarrow> cur s \<noteq> idle_thread s"
    and eq: "cur s' = cur s" "idle_thread s' = idle_thread s" "initial_thread s' = initial_thread s" "pages s' = pages s"
      "in_external_intr s' = in_external_intr s" "\<not> level s'"
    and rl: "ready_list s' = ready_list s @ R" "sleep_list s' = sleep_list s @ S"
      "\<And>p. waiters (semas s' p) = waiters (semas s p) @ W p"
    and cases: "st = THREAD_READY \<and> R = (if cur s = idle_thread s then [] else [cur s]) \<and> S = [] \<and> W = (\<lambda>p. [])
      \<or> st = THREAD_BLOCKED \<and> R = [] \<and> S = [] \<and> W = (\<lambda>p. [])
      \<or> st = THREAD_BLOCKED \<and> cur s \<noteq> idle_thread s \<and> R = [] \<and> S = [cur s] \<and> 0 \<le> e \<and> W = (\<lambda>p. [])
      \<or> st = THREAD_BLOCKED \<and> cur s \<noteq> idle_thread s \<and> R = [] \<and> S = [] \<and> W = (\<lambda>p. if p = pw then [cur s] else [])
      \<or> st = THREAD_DYING \<and> R = [] \<and> S = [] \<and> W = (\<lambda>p. [])"
  shows "sched_pre s'"
proof -
  note q = kinvD(1) [OF k] and n = cur_not_queued [OF k] and cth = kinvD(6) [OF k]
  have it: "is_thread s' = is_thread s" by (simp add: is_thread_def fun_eq_iff th)
  have mem: "t \<in> set R \<Longrightarrow> t = cur s \<and> st = THREAD_READY" "t \<in> set S \<Longrightarrow> t = cur s \<and> st = THREAD_BLOCKED \<and> 0 \<le> e"
    "t \<in> set (W p) \<Longrightarrow> t = cur s \<and> st = THREAD_BLOCKED \<and> p = pw \<and> S = []" for t p
    using cases by (auto split: if_splits)
  have ds: "distinct R" "distinct S" "distinct (W p)" for p using cases by (auto split: if_splits)
  have idle: "idle_thread s \<notin> set S" "idle_thread s \<notin> set (W p)" for p using cases by auto
  have qu: "queues_ok s'"
  proof (rule queues_okI, unfold it rl eq th)
    show "distinct (ready_list s @ R)" "distinct (sleep_list s @ S)" "distinct (waiters (semas s p) @ W p)" for p
      using queues_okD(1,2,3) [OF q] ds n mem by auto
    show "is_thread s t \<and> status (if t = cur s then (threads s t)\<lparr>status := st, endTick := e\<rparr> else threads s t) = THREAD_READY"
      if "t \<in> set (ready_list s @ R)" for t
      using that queues_okD(4) [OF q, of t] mem(1) [of t] n(1) cth by auto
    show "is_thread s t \<and> status (if t = cur s then (threads s t)\<lparr>status := st, endTick := e\<rparr> else threads s t) = THREAD_BLOCKED
        \<and> 0 \<le> endTick (if t = cur s then (threads s t)\<lparr>status := st, endTick := e\<rparr> else threads s t)"
      if "t \<in> set (sleep_list s @ S)" for t
      using that queues_okD(5) [OF q, of t] mem(2) [of t] n(2) cth by auto
    show "is_thread s t \<and> status (if t = cur s then (threads s t)\<lparr>status := st, endTick := e\<rparr> else threads s t) = THREAD_BLOCKED
        \<and> t \<notin> set (sleep_list s @ S)" if "t \<in> set (waiters (semas s p) @ W p)" for p t
    proof (cases "t \<in> set (W p)")
      case True
      then show ?thesis using mem(3) [OF True] n(2) cth by simp
    next
      case False
      then have w: "t \<in> set (waiters (semas s p))" using that by simp
      then have "t \<noteq> cur s" using n(3) by blast
      then show ?thesis using queues_okD(6) [OF q w] mem(2) by auto
    qed
    show "q' = p" if "t \<in> set (waiters (semas s p) @ W p)" "t \<in> set (waiters (semas s q') @ W q')" for p q' t
      using that queues_okD(7) [OF q, of t p q'] mem(3) [of t p] mem(3) [of t q'] n(3) [of p] n(3) [of q'] by auto
    show "t \<in> set (ready_list s @ R)" if "is_thread s t"
      "status (if t = cur s then (threads s t)\<lparr>status := st, endTick := e\<rparr> else threads s t) = THREAD_READY" "t \<noteq> idle_thread s" for t
      using that queues_okD(8) [OF q, of t] cases by (auto split: if_splits)
  qed
  have i: "idle_ok s'"
    using kinvD(3) [OF k] idle st(2) unfolding idle_ok_def it rl eq th by auto
  have c: "create_ok s'"
    using kinvD(4) [OF k] n(4) mem unfolding create_ok_def it rl eq th by (auto split: if_splits)
  have p: "pages_ok s'" using kinvD(2) [OF k] unfolding pages_ok_def it eq by simp
  show ?thesis
    using qu i c p kinvD(5,6) [OF k] kinvD(9) [OF k] st(1) eq(6)
    unfolding sched_pre_def sys_ok_def it eq th by auto
qed

section \<open>Becoming ready\<close>

lemma kinv_ready:
  assumes k: "kinv s" and t: "is_thread s t" "status (threads s t) = THREAD_BLOCKED" "t \<noteq> idle_thread s"
      "t \<notin> set (sleep_list s)" "\<And>u. t \<notin> set (creates (kont (threads s u)))"
    and ks: "set (creates ks) \<subseteq> set (creates (kont (threads s t)))" "distinct (creates ks)" "\<And>k. k \<in> set ks \<Longrightarrow> \<not> boots_idle k"
    and th: "\<And>u. status (threads s' u) = (if u = t then THREAD_READY else status (threads s u))"
      "\<And>u. kont (threads s' u) = (if u = t then ks else kont (threads s u))"
      "\<And>u. magic (threads s' u) = magic (threads s u)" "\<And>u. u \<noteq> t \<Longrightarrow> endTick (threads s' u) = endTick (threads s u)"
    and rl: "ready_list s' = ready_list s @ [t]" "sleep_list s' = sleep_list s"
      "\<And>p. waiters (semas s' p) = removeAll t (waiters (semas s p))"
    and eq: "cur s' = cur s" "idle_thread s' = idle_thread s" "initial_thread s' = initial_thread s" "pages s' = pages s"
      "in_external_intr s' = in_external_intr s"
  shows "kinv s'"
proof -
  note q = kinvD(1) [OF k] and c = kinvD(4) [OF k]
  have it: "is_thread s' = is_thread s" by (simp add: is_thread_def fun_eq_iff th)
  have tc: "t \<noteq> cur s" using t(2) kinvD(8) [OF k] by auto
  have "queues_ok s'"
  proof (rule queues_okI, unfold it rl eq th)
    show "distinct (ready_list s @ [t])" using queues_okD(1,4) [OF q] t(2) by auto
    show "distinct (removeAll t (waiters (semas s p)))" for p using queues_okD(3) [OF q] by (simp add: distinct_removeAll)
    show "is_thread s u \<and> (if u = t then THREAD_READY else status (threads s u)) = THREAD_READY" if "u \<in> set (ready_list s @ [t])" for u
      using that queues_okD(4) [OF q, of u] t(1) by auto
    show "is_thread s u \<and> (if u = t then THREAD_READY else status (threads s u)) = THREAD_BLOCKED \<and> 0 \<le> endTick (threads s' u)"
      if "u \<in> set (sleep_list s)" for u
      using that queues_okD(5) [OF q, of u] t(4) th(4) [of u] by auto
    show "is_thread s u \<and> (if u = t then THREAD_READY else status (threads s u)) = THREAD_BLOCKED \<and> u \<notin> set (sleep_list s)"
      if "u \<in> set (removeAll t (waiters (semas s p)))" for p u
      using that queues_okD(6) [OF q, of u p] by auto
    show "q' = p" if "u \<in> set (removeAll t (waiters (semas s p)))" "u \<in> set (removeAll t (waiters (semas s q')))" for p q' u
      using that queues_okD(7) [OF q, of u p q'] by auto
    show "u \<in> set (ready_list s @ [t])"
      if "is_thread s u" "(if u = t then THREAD_READY else status (threads s u)) = THREAD_READY" "u \<noteq> idle_thread s" for u
      using that queues_okD(8) [OF q, of u] by (auto split: if_splits)
  qed (use queues_okD(2) [OF q] in simp)
  moreover have "idle_ok s'" using kinvD(3) [OF k] t(3) unfolding idle_ok_def it rl eq th by auto
  moreover have "create_ok s'" unfolding create_ok_def it rl eq th
  proof (intro conjI allI impI ballI)
    show "distinct (creates (if u = t then ks else kont (threads s u)))" for u using c ks(2) by (simp add: create_ok_def)
    show "set (creates (if u = t then ks else kont (threads s u))) \<inter> set (creates (if v = t then ks else kont (threads s v))) = {}"
      if "u \<noteq> v" for u v
      using that ks(1) create_okD(6) [OF c] by (auto split: if_splits)
    fix u v assume "v \<in> set (creates (if u = t then ks else kont (threads s u)))"
    then have v: "v \<in> set (creates (kont (threads s u)))" using ks(1) by (auto split: if_splits)
    note * = create_okD [OF c v]
    have vt: "v \<noteq> t" using v t(5) by blast
    show "is_thread s v" "(if v = t then THREAD_READY else status (threads s v)) = THREAD_BLOCKED" "v \<noteq> idle_thread s" "v \<notin> set (sleep_list s)"
      "v \<notin> set (removeAll t (waiters (semas s p)))" for p using * vt by simp_all
  next
    fix u k assume "k \<in> set (if u = t then ks else kont (threads s u))"
    then show "\<not> boots_idle k" using c ks(3) by (auto simp: create_ok_def split: if_splits)
  qed
  moreover have "pages_ok s'" using kinvD(2) [OF k] unfolding pages_ok_def it eq by simp
  moreover have "\<forall>u. is_thread s u \<and> (if u = t then THREAD_READY else status (threads s u)) = THREAD_RUNNING \<longrightarrow> u = cur s"
    using k by (simp add: kinv_def)
  ultimately show ?thesis
    using kinvD(5,6,8) [OF k] tc unfolding kinv_def sys_ok_def it eq th by simp
qed

lemma removeAll_unique:
  assumes "queues_ok s" and "t \<in> set (waiters (semas s p))"
  shows "((waiters \<circ> semas s)(p := remove1 t (waiters (semas s p)))) q = removeAll t (waiters (semas s q))"
proof (cases "q = p")
  case True
  then show ?thesis using queues_okD(3) [OF assms(1), of p] by (simp add: distinct_remove1_removeAll)
next
  case False
  then have "t \<notin> set (waiters (semas s q))" using queues_okD(7) [OF assms(1,2)] by blast
  then show ?thesis using False by simp
qed

section \<open>Operations of thread.c\<close>

lemma thread_current_kinv: "kinv s \<Longrightarrow> thread_current s = Inr (cur s)"
  by (simp add: thread_current_def running_thread_def kinvD)

lemma thread_yield_kinv:
  assumes k: "kinv s" and y: "thread_yield s = Inr s'"
  shows "kinv s'"
proof -
  let ?f = "K_intr_set_level (level s)"
  have kp: "kinv (push_frame ?f s)" using kinvD(3) [OF k] by (intro kinv_push [OF k]) (auto simp: idle_ok_def)
  let ?s1 = "push_frame ?f (upd_thread (cur s) (\<lambda>r. r\<lparr>status := THREAD_READY\<rparr>)
    (if cur s \<noteq> idle_thread s then (intr_disable s)\<lparr>ready_list := ready_list s @ [cur s]\<rparr> else intr_disable s))"
  have "schedule ?s1 = Inr s'"
    using y k by (simp add: thread_yield_def thread_current_kinv intr_get_level_def Let_def intr_context_def kinvD cong: if_cong)
  moreover have "sched_pre ?s1"
    by (rule sched_preI [OF kp, where st = THREAD_READY and e = "endTick (threads s (cur s))" and S = "[]" and W = "\<lambda>p. []"
        and R = "if cur s = idle_thread s then [] else [cur s]"]) (auto simp: fun_eq_iff)
  ultimately show ?thesis using schedule_kinv by blast
qed

section \<open>Updates that the invariant does not see\<close>

lemma kinv_fields [simp]:
  "kinv (s\<lparr>locks := x_locks\<rparr>) = kinv s" "kinv (s\<lparr>conds := x_conds\<rparr>) = kinv s"
  "kinv (s\<lparr>sema_elem_priority := x_sema_elem_priority\<rparr>) = kinv s"
  "kinv (s\<lparr>all_list := x_all_list\<rparr>) = kinv s"
  "kinv (s\<lparr>next_tid := x_next_tid\<rparr>) = kinv s"
  "kinv (s\<lparr>idle_ticks := x_idle_ticks\<rparr>) = kinv s"
  "kinv (s\<lparr>kernel_ticks := x_kernel_ticks\<rparr>) = kinv s"
  "kinv (s\<lparr>ticks := x_ticks\<rparr>) = kinv s"
  "kinv (s\<lparr>thread_ticks := x_thread_ticks\<rparr>) = kinv s"
  "kinv (s\<lparr>level := x_level\<rparr>) = kinv s"
  "kinv (s\<lparr>yield_on_return := x_yield_on_return\<rparr>) = kinv s"
  by (rule kinv_cong; simp)+

lemma kinv_upd [simp]:
  "(\<And>r. status (f r) = status r \<and> magic (f r) = magic r \<and> kont (f r) = kont r \<and> endTick (f r) = endTick r) \<Longrightarrow>
    kinv (upd_thread t f s) = kinv s"
  "(\<And>m. waiters (g m) = waiters m) \<Longrightarrow> kinv (upd_sema p g s) = kinv s"
  "kinv (upd_lock l h s) = kinv s" "kinv (intr_disable s) = kinv s"
  "kinv (update_lock_max_priority l s) = kinv s" "kinv (return_value v s) = kinv s"
  by (rule kinv_cong; simp add: update_lock_max_priority_def return_value_def)+

lemma update_lock_fields [simp]:
  "threads (update_lock_max_priority l s) = threads s" "semas (update_lock_max_priority l s) = semas s"
  "cur (update_lock_max_priority l s) = cur s" "idle_thread (update_lock_max_priority l s) = idle_thread s"
  "level (update_lock_max_priority l s) = level s" "ready_list (update_lock_max_priority l s) = ready_list s"
  "sleep_list (update_lock_max_priority l s) = sleep_list s" "initial_thread (update_lock_max_priority l s) = initial_thread s"
  "pages (update_lock_max_priority l s) = pages s" "in_external_intr (update_lock_max_priority l s) = in_external_intr s"
  "ticks (update_lock_max_priority l s) = ticks s" "is_thread (update_lock_max_priority l s) = is_thread s"
  by (simp_all add: update_lock_max_priority_def)

lemma intr_set_level_kinv: "kinv s \<Longrightarrow> intr_set_level l s = Inr s' \<Longrightarrow> kinv s'"
  using intr_set_level_cases by fastforce

section \<open>Operations of thread.c\<close>

lemma thread_exit_kinv:
  assumes k: "kinv s" and c: "cur s \<noteq> idle_thread s" and y: "thread_exit s = Inr s'"
  shows "kinv s'"
proof -
  have kp: "kinv (push_frame K_not_reached s)" using c by (intro kinv_push [OF k]) auto
  let ?s1 = "push_frame K_not_reached (upd_thread (cur s) (\<lambda>r. r\<lparr>status := THREAD_DYING\<rparr>)
    ((intr_disable s)\<lparr>all_list := remove1 (cur s) (all_list s)\<rparr>))"
  have "thread_current (intr_disable s) = Inr (cur s)" using thread_current_kinv [of "intr_disable s"] k by simp
  then have "schedule ?s1 = Inr s'"
    using y by (simp add: thread_exit_def Let_def)
  moreover have "sched_pre ?s1"
    by (rule sched_preI [OF kp, where st = THREAD_DYING and e = "endTick (threads s (cur s))" and S = "[]" and W = "\<lambda>p. []"
        and R = "[]"]) (use c in \<open>auto simp: fun_eq_iff\<close>)
  ultimately show ?thesis using schedule_kinv by blast
qed

lemma thread_yield_for_seconds_kinv:
  assumes k: "kinv s" and c: "cur s \<noteq> idle_thread s" and y: "thread_yield_for_seconds e s = Inr s'"
  shows "kinv s'"
proof -
  let ?f = "K_intr_set_level (level s)"
  have kp: "kinv (push_frame ?f s)" using c by (intro kinv_push [OF k]) auto
  let ?s0 = "push_frame ?f (upd_thread (cur s) (\<lambda>r. r\<lparr>endTick := e\<rparr>)
    ((intr_disable s)\<lparr>sleep_list := sleep_list s @ [cur s]\<rparr>))"
  let ?s1 = "upd_thread (cur s) (\<lambda>r. r\<lparr>status := THREAD_BLOCKED\<rparr>) ?s0"
  have "thread_current ?s0 = Inr (cur s)" using k by (simp add: thread_current_def running_thread_def kinvD)
  then have sch: "schedule ?s1 = Inr s'"
    using y k by (simp add: thread_yield_for_seconds_def thread_current_kinv intr_get_level_def Let_def intr_context_def kinvD thread_block_def)
  then obtain s2 where w: "wake_sleepers (sleep_list s @ [cur s]) ?s1 = Inr s2" by (auto simp: schedule_def)
  have e: "0 \<le> e"
    using wake_sleepers_nonneg [OF w, of "cur s"] queues_okD(2) [OF kinvD(1) [OF k]] cur_not_queued(2) [OF k] by simp
  note sch
  moreover have "sched_pre ?s1"
    by (rule sched_preI [OF kp, where st = THREAD_BLOCKED and e = e and S = "[cur s]" and W = "\<lambda>p. []"
        and R = "[]"]) (use c e in \<open>auto simp: fun_eq_iff\<close>)
  ultimately show ?thesis using schedule_kinv by blast
qed

lemma thread_block_kinv:
  assumes k: "kinv s" and y: "thread_block s = Inr s'"
  shows "kinv s'"
proof -
  let ?s1 = "upd_thread (cur s) (\<lambda>r. r\<lparr>status := THREAD_BLOCKED\<rparr>) s"
  have "\<not> level s" "schedule ?s1 = Inr s'"
    using y k by (auto simp: thread_block_def thread_current_kinv intr_get_level_def)
  moreover from this(1) have "sched_pre ?s1"
    by (intro sched_preI [OF k, where st = THREAD_BLOCKED and e = "endTick (threads s (cur s))" and S = "[]" and W = "\<lambda>p. []"
        and R = "[]"]) (auto simp: fun_eq_iff)
  ultimately show ?thesis using schedule_kinv by blast
qed

lemma thread_unblock_parked:
  assumes k: "kinv s" and p: "parked s t" and y: "thread_unblock t s = Inr s'"
  shows "kinv s'"
proof -
  have t: "is_thread s t" "status (threads s t) = THREAD_BLOCKED"
    using y unfolding thread_unblock_def Let_def by auto
  have s': "s' = upd_thread t (\<lambda>r. r\<lparr>status := THREAD_READY\<rparr>) (s\<lparr>ready_list := ready_list s @ [t]\<rparr>)"
    using y t kinvD(5) [OF k] by (subst (asm) thread_unblock_ok) auto
  show ?thesis
    by (rule kinv_ready [OF k t, where ks = "kont (threads s t)"])
      (use p kinvD(4) [OF k] in \<open>auto simp: s' parked_def create_ok_def\<close>)
qed

lemma thread_set_priority_kinv:
  assumes k: "kinv s" and c: "cur s \<noteq> idle_thread s" and y: "thread_set_priority n s = Inr s'"
  shows "kinv s'"
proof -
  have "thread_current (intr_disable s) = Inr (cur s)" using thread_current_kinv [of "intr_disable s"] k by simp
  let ?f = "\<lambda>r. if priority r > base_priority r then if priority r > n then priority r else n else n"
  have "thread_yield (push_frame (K_intr_set_level (level s)) (upd_thread (cur s) (\<lambda>r. r\<lparr>base_priority := n\<rparr>)
      (upd_thread (cur s) (\<lambda>r. r\<lparr>priority := ?f r\<rparr>) (intr_disable s)))) = Inr s'"
    using y by (simp only: thread_set_priority_def Let_def intr_get_level_def \<open>thread_current (intr_disable s) = _\<close> bindr_simps)
  moreover have "kinv (push_frame (K_intr_set_level (level s)) (upd_thread (cur s) (\<lambda>r. r\<lparr>base_priority := n\<rparr>)
      (upd_thread (cur s) (\<lambda>r. r\<lparr>priority := ?f r\<rparr>) (intr_disable s))))"
    using k c by (intro kinv_push) auto
  ultimately show ?thesis using thread_yield_kinv by blast
qed

lemma thread_tick_fields:
  assumes "thread_tick s = Inr s'"
  shows "threads s' = threads s" "semas s' = semas s" "ready_list s' = ready_list s" "sleep_list s' = sleep_list s" "cur s' = cur s"
    "idle_thread s' = idle_thread s" "initial_thread s' = initial_thread s" "pages s' = pages s" "ticks s' = ticks s"
    "locks s' = locks s" "level s' = level s"
proof -
  have pick: "(if c then intr_yield_on_return x else Inr x) = Inr z \<Longrightarrow> z = x \<or> z = x\<lparr>yield_on_return := True\<rparr>" for c x z
    by (auto simp: intr_yield_on_return_def split: if_splits)
  obtain t n where "s' = (if t then s\<lparr>idle_ticks := int64 (idle_ticks s + 1)\<rparr> else s\<lparr>kernel_ticks := int64 (kernel_ticks s + 1)\<rparr>)\<lparr>thread_ticks := n\<rparr>
      \<or> s' = (if t then s\<lparr>idle_ticks := int64 (idle_ticks s + 1)\<rparr> else s\<lparr>kernel_ticks := int64 (kernel_ticks s + 1)\<rparr>)\<lparr>thread_ticks := n, yield_on_return := True\<rparr>"
    using assms unfolding thread_tick_def Let_def bindr_Inr by (blast dest: pick)
  then show "threads s' = threads s" "semas s' = semas s" "ready_list s' = ready_list s" "sleep_list s' = sleep_list s" "cur s' = cur s"
    "idle_thread s' = idle_thread s" "initial_thread s' = initial_thread s" "pages s' = pages s" "ticks s' = ticks s"
    "locks s' = locks s" "level s' = level s"
    by (cases t; auto)+
qed

lemma timer_irq_kinv:
  assumes k: "kinv s" and y: "timer_irq s = Inr s'"
  shows "kinv s'"
proof -
  let ?s0 = "push_frame K_iret (s\<lparr>level := False\<rparr>)"
  have k0: "kinv ?s0" using k kinvD(3) [OF k] by (intro kinv_push) (auto simp: idle_ok_def)
  obtain s1 where s1: "thread_tick (?s0\<lparr>in_external_intr := True, yield_on_return := False, ticks := int64 (ticks s + 1)\<rparr>) = Inr s1"
    and s': "(if yield_on_return s1 then thread_yield (s1\<lparr>in_external_intr := False\<rparr>) else Inr (s1\<lparr>in_external_intr := False\<rparr>)) = Inr s'"
    using y k by (auto simp: timer_irq_def intr_handler_ext_def timer_interrupt_def intr_get_level_def intr_context_def kinvD Let_def)
  have "kinv (?s0\<lparr>ticks := int64 (ticks s + 1)\<rparr>)" using k0 by simp
  moreover have "kinv (s1\<lparr>in_external_intr := False\<rparr>) = kinv (?s0\<lparr>ticks := int64 (ticks s + 1)\<rparr>)"
    using thread_tick_fields [OF s1] kinvD(5) [OF k] by (intro kinv_cong) simp_all
  ultimately show ?thesis using s' thread_yield_kinv by (auto split: if_splits)
qed

section \<open>Operations of synch.c\<close>

lemma sema_down_loop_kinv:
  assumes k: "kinv s" and c: "cur s \<noteq> idle_thread s" and y: "sema_down_loop sema mLock l s = Inr s'"
  shows "kinv s'"
proof (cases "sval (semas s sema) = 0")
  case False
  then have "intr_set_level l (upd_sema sema (\<lambda>m. m\<lparr>sval := sval m - 1\<rparr>) s) = Inr s'"
    using y by (simp add: sema_down_loop_def Let_def)
  from intr_set_level_kinv [OF _ this] show ?thesis using k by simp
next
  case True
  let ?f = "K_sema_down sema mLock l"
  let ?w = "\<lambda>s. if mLock \<noteq> 0 then upd_thread (cur s) (\<lambda>r. r\<lparr>waiting_lock := mLock\<rparr>) s else s"
  have kp: "kinv (?w (push_frame ?f s))" using c kinv_push [OF k, of ?f] by auto
  let ?s0 = "push_frame ?f (if mLock \<noteq> 0
      then update_lock_max_priority mLock (upd_thread (cur s) (\<lambda>r. r\<lparr>waiting_lock := mLock\<rparr>)
        (upd_sema sema (\<lambda>m. m\<lparr>waiters := waiters m @ [cur s]\<rparr>) s))
      else upd_sema sema (\<lambda>m. m\<lparr>waiters := waiters m @ [cur s]\<rparr>) s)"
  let ?s1 = "upd_thread (cur s) (\<lambda>r. r\<lparr>status := THREAD_BLOCKED\<rparr>) ?s0"
  have cc: "cur ?s0 = cur s" by simp
  have "thread_current ?s0 = Inr (cur s)" using k by (simp add: thread_current_def running_thread_def kinvD)
  moreover have "thread_block ?s0 = Inr s'" using y True by (simp add: sema_down_loop_def Let_def cong: if_cong)
  ultimately have "schedule ?s1 = Inr s'" and l: "\<not> level s" by (simp_all add: thread_block_def intr_get_level_def split: if_splits)
  moreover have "sched_pre ?s1"
    by (rule sched_preI [OF kp, where st = THREAD_BLOCKED and e = "endTick (threads s (cur s))" and S = "[]" and R = "[]"
        and W = "\<lambda>p. if p = sema then [cur s] else []" and pw = sema]) (use c l in \<open>auto simp: fun_eq_iff\<close>)
  ultimately show ?thesis using schedule_kinv by blast
qed

lemma sema_down_internal_kinv:
  assumes k: "kinv s" and c: "cur s \<noteq> idle_thread s" and y: "sema_down_internal sema mLock s = Inr s'"
  shows "kinv s'"
proof -
  have "sema_down_loop sema mLock (level s) (intr_disable s) = Inr s'"
    using y by (auto simp: sema_down_internal_def Let_def intr_get_level_def)
  from sema_down_loop_kinv [OF _ _ this] show ?thesis using k c by simp
qed

lemma sema_down_resume_kinv:
  assumes k: "kinv s" and c: "cur s \<noteq> idle_thread s" and y: "sema_down_resume sema mLock l s = Inr s'"
  shows "kinv s'"
  by (rule sema_down_loop_kinv [OF _ _ y [unfolded sema_down_resume_def]]) (use k c in auto)

lemma sema_try_down_kinv: "kinv s \<Longrightarrow> sema_try_down sema s = Inr (b, s') \<Longrightarrow> kinv s' \<and> cur s' = cur s \<and> idle_thread s' = idle_thread s"
  by (auto simp: sema_try_down_def Let_def dest: intr_set_level_cases split: if_splits)

lemma thread_unblock_kinv:
  assumes k: "kinv s" and w: "t \<in> set (waiters (semas s p))"
    and y: "thread_unblock t (upd_sema p (\<lambda>m. m\<lparr>waiters := remove1 t (waiters m)\<rparr>) s) = Inr s'"
  shows "kinv s' \<and> cur s' = cur s \<and> idle_thread s' = idle_thread s"
proof -
  note q = kinvD(1) [OF k] and c = kinvD(4) [OF k]
  have t: "is_thread s t" "status (threads s t) = THREAD_BLOCKED" "t \<notin> set (sleep_list s)"
    using queues_okD(6) [OF q w] by auto
  have s': "s' = upd_thread t (\<lambda>r. r\<lparr>status := THREAD_READY\<rparr>)
      ((upd_sema p (\<lambda>m. m\<lparr>waiters := remove1 t (waiters m)\<rparr>) s)\<lparr>ready_list := ready_list s @ [t]\<rparr>)"
    using y t kinvD(5) [OF k] by (subst (asm) thread_unblock_ok) auto
  have "kinv s'"
  proof (rule kinv_ready [OF k t(1,2) _ t(3), where ks = "kont (threads s t)"])
    show "t \<noteq> idle_thread s" using kinvD(3) [OF k] w by (auto simp: idle_ok_def)
    show "t \<notin> set (creates (kont (threads s u)))" for u using create_okD(5) [OF c, of t u p] w by blast
    show "waiters (semas s' q) = removeAll t (waiters (semas s q))" for q
      using removeAll_unique [OF q w, of q] by (cases "q = p") (simp_all add: s')
  qed (use c in \<open>auto simp: s' create_ok_def\<close>)
  then show ?thesis by (simp add: s')
qed

lemma sema_up_internal_kinv:
  assumes k: "kinv s" and y: "sema_up_internal sema mLock s = Inr s'"
  shows "kinv s'"
proof -
  let ?s0 = "intr_disable s"
  have k0: "kinv ?s0" using k by simp
  obtain s1 where s1: "kinv s1" "cur s1 = cur s" "idle_thread s1 = idle_thread s"
    and s': "thread_yield (push_frame (K_intr_set_level (level s)) (upd_sema sema (\<lambda>m. m\<lparr>sval := (sval m + 1) mod SIZE_MOD\<rparr>) s1)) = Inr s'"
  proof (cases "waiters (semas s sema) = []")
    case True
    then show thesis using y k0 that [of ?s0] by (auto simp: sema_up_internal_def Let_def intr_get_level_def)
  next
    case False
    let ?top = "max_priority_loop (\<lambda>t. priority (threads s t)) (waiters (semas s sema)) (- 1) 0"
    obtain s2 where s2: "?top \<noteq> 0" "thread_unblock ?top (upd_sema sema (\<lambda>m. m\<lparr>waiters := remove1 ?top (waiters m)\<rparr>) ?s0) = Inr s2"
      and s': "thread_yield (push_frame (K_intr_set_level (level s)) (upd_sema sema (\<lambda>m. m\<lparr>sval := (sval m + 1) mod SIZE_MOD\<rparr>)
          (if mLock \<noteq> 0 then update_lock_max_priority mLock s2 else s2))) = Inr s'"
      using y False by (auto simp: sema_up_internal_def Let_def intr_get_level_def split: if_splits)
    have "?top \<in> set (waiters (semas ?s0 sema))" using max_priority_loop_in(1) [OF False s2(1)] by simp
    then have "kinv s2 \<and> cur s2 = cur ?s0 \<and> idle_thread s2 = idle_thread ?s0" using thread_unblock_kinv [OF k0 _ s2(2)] by blast
    then show thesis using s' that [of "if mLock \<noteq> 0 then update_lock_max_priority mLock s2 else s2"] by simp
  qed
  have "kinv (push_frame (K_intr_set_level (level s)) (upd_sema sema (\<lambda>m. m\<lparr>sval := (sval m + 1) mod SIZE_MOD\<rparr>) s1))"
    using s1 kinvD(3) [OF s1(1)] by (intro kinv_push) (auto simp: idle_ok_def)
  then show ?thesis using s' thread_yield_kinv by blast
qed

lemma sema_init_kinv:
  assumes k: "kinv s" and y: "sema_init p v s = Inr s'"
  shows "kinv s' \<and> cur s' = cur s \<and> idle_thread s' = idle_thread s \<and> (\<forall>t. kont (threads s' t) = kont (threads s t))"
proof -
  have s': "s' = upd_sema p (\<lambda>_. \<lparr>sval = v, waiters = []\<rparr>) s" using y by (simp add: sema_init_def)
  have it: "is_thread s' = is_thread s" by (simp add: s')
  have w: "set (waiters (semas s' q)) \<subseteq> set (waiters (semas s q))" "distinct (waiters (semas s q)) \<Longrightarrow> distinct (waiters (semas s' q))" for q
    by (simp_all add: s')
  have sel: "threads s' = threads s" "ready_list s' = ready_list s" "sleep_list s' = sleep_list s" "idle_thread s' = idle_thread s"
    by (simp_all add: s')
  note q = kinvD(1) [OF k]
  have "queues_ok s'"
  proof (rule queues_okI, unfold it sel)
    show "distinct (waiters (semas s' p))" for p using w(2) queues_okD(3) [OF q] by blast
    show "is_thread s t \<and> status (threads s t) = THREAD_BLOCKED \<and> t \<notin> set (sleep_list s)" if "t \<in> set (waiters (semas s' p))" for p t
      using that w(1) queues_okD(6) [OF q] by blast
    show "q' = p" if "t \<in> set (waiters (semas s' p))" "t \<in> set (waiters (semas s' q'))" for p q' t
      using that w(1) queues_okD(7) [OF q] by blast
  qed (use queues_okD(1,2,4,5,8) [OF q] in blast)+
  moreover have "idle_ok s'" using kinvD(3) [OF k] w(1) unfolding idle_ok_def it sel by blast
  moreover have "t \<notin> set (waiters (semas s' q))" if "t \<notin> set (waiters (semas s q))" for t q using w(1) that by blast
  then have "create_ok s'" using kinvD(4) [OF k] unfolding create_ok_def it sel by simp
  moreover have "pages_ok s'" using kinvD(2) [OF k] unfolding pages_ok_def it by (simp add: s')
  moreover have "cur s' = cur s" "ticks s' = ticks s" "in_external_intr s' = in_external_intr s" by (simp_all add: s')
  ultimately have "kinv s'"
    using k unfolding kinv_def sys_ok_def it sel by (metis (no_types, lifting))
  then show ?thesis by (simp add: s')
qed

end
