(* ===== verification/Kernel_Invariant.thy ===== *)
theory Kernel_Invariant
  imports Scheduler_Invariant
begin

unbundle bit_operations_syntax

text \<open>
  Locks, condition variables, thread creation and the idle thread keep the invariant \<open>kinv\<close>, and so
  does every step of the transition system \<open>kstep\<close>. Priority donation changes nothing but priorities.
\<close>

section \<open>Donation\<close>

definition same_but_priority :: "kernel \<Rightarrow> kernel \<Rightarrow> bool" where
  "same_but_priority s s' \<longleftrightarrow> (\<forall>t. (threads s' t)\<lparr>priority := 0\<rparr> = (threads s t)\<lparr>priority := 0\<rparr>)
     \<and> (\<forall>l. holder (locks s' l) = holder (locks s l)) \<and> s'\<lparr>threads := threads s, locks := locks s\<rparr> = s"

lemma same_but_priority_refl: "same_but_priority s s"
  by (simp add: same_but_priority_def)

lemma same_but_priority_upd:
  assumes "same_but_priority (upd_thread h (\<lambda>r. r\<lparr>priority := p\<rparr>) (upd_lock l (\<lambda>k. k\<lparr>max_waiter_priority := m\<rparr>) s)) s'"
  shows "same_but_priority s s'"
proof -
  let ?s = "upd_thread h (\<lambda>r. r\<lparr>priority := p\<rparr>) (upd_lock l (\<lambda>k. k\<lparr>max_waiter_priority := m\<rparr>) s)"
  have "s'\<lparr>threads := threads ?s, locks := locks ?s\<rparr> = ?s" using assms by (simp add: same_but_priority_def)
  then have "(s'\<lparr>threads := threads ?s, locks := locks ?s\<rparr>)\<lparr>threads := threads s, locks := locks s\<rparr> = ?s\<lparr>threads := threads s, locks := locks s\<rparr>"
    by (simp only:)
  then have "s'\<lparr>threads := threads s, locks := locks s\<rparr> = s" by (simp add: upd_thread_def upd_lock_def)
  moreover have "(threads s' t)\<lparr>priority := 0\<rparr> = (threads s t)\<lparr>priority := 0\<rparr>" for t
    using assms unfolding same_but_priority_def by (cases "t = h") auto
  moreover have "holder (locks s' k) = holder (locks s k)" for k
    using assms unfolding same_but_priority_def by (cases "k = l") auto
  ultimately show ?thesis by (simp add: same_but_priority_def)
qed

lemma donate_loop_same:
  assumes "donate_loop pri l s = Some s'"
  shows "same_but_priority s s'"
proof (rule donate_loop.raw_induct [where P = "\<lambda>pri l s s'. same_but_priority s s'", OF _ assms])
  fix d pri l s s'
  assume IH: "\<And>pri l s s'. d pri l s = Some s' \<Longrightarrow> same_but_priority s s'"
    and eq: "(if l \<noteq> 0 \<and> holder (locks s l) \<noteq> 0
      then let h = holder (locks s l) in
        if priority (threads s h) < pri
        then d pri (waiting_lock (threads s h))
          (upd_thread h (\<lambda>r. r\<lparr>priority := pri\<rparr>) (upd_lock l (\<lambda>l. l\<lparr>max_waiter_priority := pri\<rparr>) s))
        else d pri l s
      else Some s) = Some s'"
  show "same_but_priority s s'"
    using eq unfolding Let_def
    by (auto simp: same_but_priority_refl split: if_splits intro: IH same_but_priority_upd [OF IH])
qed

lemma same_but_priority_fields:
  assumes "same_but_priority s s'"
  shows "semas s' = semas s" "cur s' = cur s" "idle_thread s' = idle_thread s" "level s' = level s" "ready_list s' = ready_list s"
    "sleep_list s' = sleep_list s" "initial_thread s' = initial_thread s" "pages s' = pages s" "in_external_intr s' = in_external_intr s"
    "ticks s' = ticks s" "conds s' = conds s" "tid_lock s' = tid_lock s" "next_tid s' = next_tid s"
proof -
  have eq: "s'\<lparr>threads := threads s, locks := locks s\<rparr> = s" using assms by (simp add: same_but_priority_def)
  show "semas s' = semas s" using arg_cong [OF eq, of semas] by simp
  show "cur s' = cur s" using arg_cong [OF eq, of cur] by simp
  show "idle_thread s' = idle_thread s" using arg_cong [OF eq, of idle_thread] by simp
  show "level s' = level s" using arg_cong [OF eq, of level] by simp
  show "ready_list s' = ready_list s" using arg_cong [OF eq, of ready_list] by simp
  show "sleep_list s' = sleep_list s" using arg_cong [OF eq, of sleep_list] by simp
  show "initial_thread s' = initial_thread s" using arg_cong [OF eq, of initial_thread] by simp
  show "pages s' = pages s" using arg_cong [OF eq, of pages] by simp
  show "in_external_intr s' = in_external_intr s" using arg_cong [OF eq, of in_external_intr] by simp
  show "ticks s' = ticks s" using arg_cong [OF eq, of ticks] by simp
  show "conds s' = conds s" using arg_cong [OF eq, of conds] by simp
  show "tid_lock s' = tid_lock s" using arg_cong [OF eq, of tid_lock] by simp
  show "next_tid s' = next_tid s" using arg_cong [OF eq, of next_tid] by simp
qed

lemma same_but_priority_thread:
  assumes "same_but_priority s s'"
  shows "status (threads s' t) = status (threads s t)" "magic (threads s' t) = magic (threads s t)" "kont (threads s' t) = kont (threads s t)"
    "endTick (threads s' t) = endTick (threads s t)" "base_priority (threads s' t) = base_priority (threads s t)"
    "held_locks (threads s' t) = held_locks (threads s t)" "waiting_lock (threads s' t) = waiting_lock (threads s t)"
    "holder (locks s' l) = holder (locks s l)"
proof -
  have eq: "(threads s' t)\<lparr>priority := 0\<rparr> = (threads s t)\<lparr>priority := 0\<rparr>" using assms by (simp add: same_but_priority_def)
  show "status (threads s' t) = status (threads s t)" using arg_cong [OF eq, of status] by simp
  show "magic (threads s' t) = magic (threads s t)" using arg_cong [OF eq, of magic] by simp
  show "kont (threads s' t) = kont (threads s t)" using arg_cong [OF eq, of kont] by simp
  show "endTick (threads s' t) = endTick (threads s t)" using arg_cong [OF eq, of endTick] by simp
  show "base_priority (threads s' t) = base_priority (threads s t)" using arg_cong [OF eq, of base_priority] by simp
  show "held_locks (threads s' t) = held_locks (threads s t)" using arg_cong [OF eq, of held_locks] by simp
  show "waiting_lock (threads s' t) = waiting_lock (threads s t)" using arg_cong [OF eq, of waiting_lock] by simp
  show "holder (locks s' l) = holder (locks s l)" using assms by (simp add: same_but_priority_def)
qed

lemma donate_loop_kinv: "donate_loop pri l s = Some s' \<Longrightarrow> kinv s' = kinv s"
  by (drule donate_loop_same, rule kinv_cong) (simp_all add: same_but_priority_fields same_but_priority_thread)

section \<open>Locks and condition variables keep the invariant\<close>

lemma lock_acquire_kinv:
  assumes k: "kinv s" and c: "cur s \<noteq> idle_thread s" and y: "lock_acquire l s = Some (Inr s')"
  shows "kinv s'"
proof -
  obtain s1 where d: "donate_loop (priority (threads s (cur s))) l (intr_disable s) = Some s1"
    and s': "sema_down_internal (lock_sema l) l (push_frame (K_lock_acquire l (level s)) s1) = Inr s'"
    using y k thread_current_kinv [of "intr_disable s"]
    by (auto simp: lock_acquire_def requireo_def bindo_def Let_def lock_held_by_current_thread_def thread_current_kinv intr_get_level_def
        bind_eq_Some_conv split: if_splits sum.splits)
  have "kinv s1" "cur s1 = cur s" "idle_thread s1 = idle_thread s"
    using donate_loop_kinv [OF d] same_but_priority_fields [OF donate_loop_same [OF d]] k by auto
  then have "kinv (push_frame (K_lock_acquire l (level s)) s1)" using c by (intro kinv_push) auto
  from sema_down_internal_kinv [OF this _ s'] show ?thesis using c \<open>cur s1 = cur s\<close> \<open>idle_thread s1 = idle_thread s\<close> by simp
qed

lemma lock_acquire_resume_kinv: "kinv s \<Longrightarrow> lock_acquire_resume l lv s = Inr s' \<Longrightarrow> kinv s'"
  unfolding lock_acquire_resume_def Let_def by (erule intr_set_level_kinv [rotated]) simp

lemma lock_try_acquire_kinv:
  assumes k: "kinv s" and c: "cur s \<noteq> idle_thread s" and y: "lock_try_acquire l s = Inr s'"
  shows "kinv s'"
proof -
  obtain b s1 where s1: "sema_try_down (lock_sema l) s = Inr (b, s1)"
    and s': "s' = (if b then push_frame (K_lock_try_acquire l) s1 else upd_thread (cur s1) (\<lambda>r. r\<lparr>eax := 0\<rparr>) s1)"
    using y by (auto simp: lock_try_acquire_def)
  have "kinv s1" "cur s1 = cur s" "idle_thread s1 = idle_thread s" using sema_try_down_kinv [OF k s1] by auto
  then show ?thesis using c by (auto simp: s' intro!: kinv_push)
qed

lemma lock_try_acquire_resume_kinv: "kinv s \<Longrightarrow> lock_try_acquire_resume l s = Inr s' \<Longrightarrow> kinv s'"
  by (auto simp: lock_try_acquire_resume_def)

lemma lock_release_loop_same:
  "kinv (lock_release_loop l t ls s) = kinv s \<and> cur (lock_release_loop l t ls s) = cur s
   \<and> idle_thread (lock_release_loop l t ls s) = idle_thread s \<and> kont (threads (lock_release_loop l t ls s) u) = kont (threads s u)"
  by (induction ls arbitrary: s) (simp_all split: if_splits)

lemma lock_release_kinv:
  assumes k: "kinv s" and c: "cur s \<noteq> idle_thread s" and y: "lock_release l s = Inr s'"
  shows "kinv s'"
proof -
  have "thread_current (intr_disable s) = Inr (cur s)" using thread_current_kinv [of "intr_disable s"] k by simp
  then obtain ls where "sema_up_internal (lock_sema l) l (push_frame (K_intr_set_level (level s)) (upd_lock l (\<lambda>l. l\<lparr>holder := 0\<rparr>)
      (lock_release_loop l (cur s) ls (upd_thread (cur s) (\<lambda>r. r\<lparr>priority := base_priority r\<rparr>) (intr_disable s))))) = Inr s'"
    using y by (auto simp: lock_release_def Let_def intr_get_level_def)
  from sema_up_internal_kinv [OF _ this] show ?thesis
    using k c lock_release_loop_same by (intro \<open>kinv _ \<Longrightarrow> kinv s'\<close> kinv_push) auto
qed

lemma cond_wait_kinv:
  assumes k: "kinv s" and c: "cur s \<noteq> idle_thread s" and y: "cond_wait cond l w s = Inr s'"
  shows "kinv s'"
proof -
  obtain s1 pr cs where s1: "sema_init (elem_sema w) 0 s = Inr s1"
    and s': "lock_release l (push_frame (K_cond_wait_down w l) (s1\<lparr>sema_elem_priority := pr, conds := cs\<rparr>)) = Inr s'"
    using y by (auto simp: cond_wait_def Let_def)
  have "kinv s1" "cur s1 = cur s" "idle_thread s1 = idle_thread s" using sema_init_kinv [OF k s1] by auto
  then have "kinv (push_frame (K_cond_wait_down w l) (s1\<lparr>sema_elem_priority := pr, conds := cs\<rparr>))" using c by (intro kinv_push) auto
  from lock_release_kinv [OF this _ s'] show ?thesis using c \<open>cur s1 = cur s\<close> \<open>idle_thread s1 = idle_thread s\<close> by simp
qed

lemma cond_wait_resume_kinv:
  assumes k: "kinv s" and c: "cur s \<noteq> idle_thread s" and y: "cond_wait_resume w l s = Inr s'"
  shows "kinv s'"
proof -
  have "kinv (push_frame (K_cond_wait_lock l) s)" using k c by (intro kinv_push) auto
  from sema_down_internal_kinv [OF this _ y [unfolded cond_wait_resume_def sema_down_def]] show ?thesis using c by simp
qed

lemma cond_signal_kinv:
  assumes k: "kinv s" and y: "cond_signal cond l s = Inr s'"
  shows "kinv s'"
proof (cases "conds s cond = []")
  case True
  then show ?thesis using y k by (auto simp: cond_signal_def)
next
  case False
  then obtain e cs where "sema_up_internal (elem_sema e) 0 (s\<lparr>conds := cs\<rparr>) = Inr s'"
    using y by (auto simp: cond_signal_def sema_up_def split: option.splits)
  from sema_up_internal_kinv [OF _ this] show ?thesis using k by simp
qed

lemma cond_broadcast_loop_kinv:
  assumes k: "kinv s" and c: "cur s \<noteq> idle_thread s" and y: "cond_broadcast_loop cond l s = Inr s'"
  shows "kinv s'"
proof -
  have "kinv (push_frame (K_cond_broadcast cond l) s)" using k c by (intro kinv_push) auto
  then show ?thesis using y k cond_signal_kinv by (auto simp: cond_broadcast_loop_def split: if_splits)
qed

lemma lock_init_kinv:
  assumes k: "kinv s" and y: "lock_init l s = Inr s'"
  shows "kinv s'"
  using sema_init_kinv [of "upd_lock l (\<lambda>l. l\<lparr>holder := 0, max_waiter_priority := - 1\<rparr>) s"] y k
  by (auto simp: lock_init_def)

section \<open>Thread creation keeps the invariant\<close>

lemma new_page_fresh:
  assumes k: "kinv s" and a: "palloc_get_page (pages s) PAL_ZERO = Inr (t, p)" "t \<noteq> 0"
  shows "\<not> is_thread s t" "pg_ofs t = 0" "palloc_ok p" "allocated p = insert (page_num t) (allocated (pages s))"
    "pool_pages (get_pool p v) = pool_pages (get_pool (pages s) v)"
proof -
  have pg: "pages_ok s" using kinvD(2) [OF k] .
  have r: "page_range t 1 = {page_num t}" by (auto simp: page_range_def)
  have "palloc_get_multiple (pages s) PAL_ZERO 1 = Inr (t, p)" using a(1) by (simp add: palloc_get_page_def)
  then have g: "palloc_ok p" "pg_ofs t = 0" "page_range t 1 \<subseteq> pool_pages (get_pool (pages s) (PAL_ZERO AND PAL_USER \<noteq> 0)) - allocated (pages s)"
      "allocated p = allocated (pages s) \<union> page_range t 1" "\<forall>v. pool_pages (get_pool p v) = pool_pages (get_pool (pages s) v)"
    using palloc_get_multiple_cases [of "pages s" 1 PAL_ZERO] pg a(2) by (auto simp: pages_ok_def split: if_splits)
  show "palloc_ok p" "pg_ofs t = 0" "pool_pages (get_pool p v) = pool_pages (get_pool (pages s) v)" using g by auto
  show "allocated p = insert (page_num t) (allocated (pages s))" using g(4) unfolding r by simp
  have "page_num t \<in> pool_pages (kernel_pool (pages s)) \<union> pool_pages (user_pool (pages s))" "page_num t \<notin> allocated (pages s)"
    using g(3) unfolding r by (auto simp: get_pool_def split: if_splits)
  then show "\<not> is_thread s t" using pg by (auto simp: pages_ok_def)
qed

lemma kinv_new:
  assumes k: "kinv s" and t: "\<not> is_thread s t" "t \<noteq> 0" "pg_ofs t = 0"
    and p: "palloc_ok p" "allocated p = insert (page_num t) (allocated (pages s))"
      "\<And>v. pool_pages (get_pool p v) = pool_pages (get_pool (pages s) v)"
    and th: "threads s' = (threads s)(t := r)" "magic r = THREAD_MAGIC" "status r = THREAD_BLOCKED" "kont r = []"
    and eq: "pages s' = p" "semas s' = semas s" "ready_list s' = ready_list s" "sleep_list s' = sleep_list s" "cur s' = cur s"
      "idle_thread s' = idle_thread s" "initial_thread s' = initial_thread s" "in_external_intr s' = in_external_intr s"
  shows "kinv s' \<and> is_thread s' t \<and> t \<noteq> idle_thread s \<and> t \<notin> set (sleep_list s) \<and> t \<notin> set (waiters (semas s q))
    \<and> t \<notin> set (creates (kont (threads s u))) \<and> t \<noteq> cur s"
proof -
  note qu = kinvD(1) [OF k] and c = kinvD(4) [OF k]
  have it: "is_thread s' u \<longleftrightarrow> is_thread s u \<or> u = t" for u using th t(2) by (auto simp: is_thread_def)
  have fresh: "t \<notin> set (ready_list s)" "t \<notin> set (sleep_list s)" "t \<notin> set (waiters (semas s q))" "t \<noteq> cur s" "t \<noteq> idle_thread s"
    "t \<notin> set (creates (kont (threads s u)))" for q u
    using t(1) queues_okD(4,5,6) [OF qu, of t] create_okD(1) [OF c, of t u] kinvD(6) [OF k] kinvD(3) [OF k] by (auto simp: idle_ok_def)
  have st: "status (threads s' u) = (if u = t then THREAD_BLOCKED else status (threads s u))"
    "kont (threads s' u) = (if u = t then [] else kont (threads s u))" "u \<noteq> t \<Longrightarrow> threads s' u = threads s u" for u
    using th by auto
  have "queues_ok s'"
  proof (rule queues_okI, unfold it eq st(1))
    show "(is_thread s u \<or> u = t) \<and> (if u = t then THREAD_BLOCKED else status (threads s u)) = THREAD_READY" if "u \<in> set (ready_list s)" for u
      using that queues_okD(4) [OF qu, of u] fresh(1) by auto
    show "(is_thread s u \<or> u = t) \<and> (if u = t then THREAD_BLOCKED else status (threads s u)) = THREAD_BLOCKED \<and> 0 \<le> endTick (threads s' u)"
      if "u \<in> set (sleep_list s)" for u
      using that queues_okD(5) [OF qu, of u] fresh(2) st(3) [of u] by auto
    show "(is_thread s u \<or> u = t) \<and> (if u = t then THREAD_BLOCKED else status (threads s u)) = THREAD_BLOCKED \<and> u \<notin> set (sleep_list s)"
      if "u \<in> set (waiters (semas s q))" for q u
      using that queues_okD(6) [OF qu, of u q] by auto
    show "u \<in> set (ready_list s)"
      if "is_thread s u \<or> u = t" "(if u = t then THREAD_BLOCKED else status (threads s u)) = THREAD_READY" "u \<noteq> idle_thread s" for u
      using that queues_okD(8) [OF qu, of u] by (auto split: if_splits)
  qed (use queues_okD(1,2,3,7) [OF qu] in auto)
  moreover have "idle_ok s'" using kinvD(3) [OF k] fresh(5) unfolding idle_ok_def it eq st by auto
  moreover have "create_ok s'" using c fresh(6) unfolding create_ok_def it eq st by (auto split: if_splits)
  moreover have "pages_ok s'"
    using kinvD(2) [OF k] p t(3) p(3) [of True] p(3) [of False] unfolding pages_ok_def it eq by (auto simp: get_pool_def)
  moreover have "\<forall>u. (is_thread s u \<or> u = t) \<and> (if u = t then THREAD_BLOCKED else status (threads s u)) = THREAD_RUNNING \<longrightarrow> u = cur s"
    using k by (auto simp: kinv_def)
  ultimately have "kinv s'"
    using kinvD(5,6,8) [OF k] fresh(4) unfolding kinv_def sys_ok_def it eq st(1) by simp
  then show ?thesis using fresh it by simp
qed

lemma kinv_push_create:
  assumes k: "kinv s" and c: "cur s \<noteq> idle_thread s" and f: "f \<noteq> F_idle"
    and t: "is_thread s t" "status (threads s t) = THREAD_BLOCKED" "t \<noteq> idle_thread s" "t \<notin> set (sleep_list s)"
      "\<And>p. t \<notin> set (waiters (semas s p))" "\<And>u. t \<notin> set (creates (kont (threads s u)))"
  shows "kinv (push_frame (K_thread_create t f a) s)" (is "kinv ?s")
proof -
  have st: "status (threads ?s u) = status (threads s u)" "endTick (threads ?s u) = endTick (threads s u)"
    "kont (threads ?s u) = (if u = cur s then K_thread_create t f a # kont (threads s u) else kont (threads s u))" for u by simp_all
  have it: "is_thread ?s = is_thread s" by simp
  have cr: "creates (kont (threads ?s u)) = (if u = cur s then t # creates (kont (threads s u)) else creates (kont (threads s u)))" for u
    by simp
  note co = kinvD(4) [OF k]
  have "queues_ok ?s" using kinvD(1) [OF k] by (subst queues_ok_cong) simp_all
  moreover have "pages_ok ?s" using kinvD(2) [OF k] unfolding pages_ok_def it by simp
  moreover have "idle_ok ?s" using kinvD(3) [OF k] c unfolding idle_ok_def st it by auto
  moreover have "create_ok ?s" unfolding create_ok_def st(1) it cr
  proof (intro conjI allI impI ballI)
    show "distinct (if u = cur s then t # creates (kont (threads s u)) else creates (kont (threads s u)))" for u
      using co t(6) by (auto simp: create_ok_def)
    show "set (if u = cur s then t # creates (kont (threads s u)) else creates (kont (threads s u)))
        \<inter> set (if v = cur s then t # creates (kont (threads s v)) else creates (kont (threads s v))) = {}" if "u \<noteq> v" for u v
      using that t(6) [of u] t(6) [of v] create_okD(6) [OF co] by (auto split: if_splits)
    fix u v assume "v \<in> set (if u = cur s then t # creates (kont (threads s u)) else creates (kont (threads s u)))"
    then have "v = t \<or> v \<in> set (creates (kont (threads s u)))" by (auto split: if_splits)
    then show "is_thread s v" "status (threads s v) = THREAD_BLOCKED" "v \<noteq> idle_thread ?s" "v \<notin> set (sleep_list ?s)"
      "v \<notin> set (waiters (semas ?s p))" for p
      using create_okD [OF co, of v u] t(1-5) by auto
  next
    fix u k assume "k \<in> set (kont (threads ?s u))"
    then show "\<not> boots_idle k" using co f unfolding st(3) by (auto simp: create_ok_def split: if_splits)
  qed
  moreover have "cur ?s = cur s" "ticks ?s = ticks s" "in_external_intr ?s = in_external_intr s" by simp_all
  ultimately show ?thesis using k unfolding kinv_def sys_ok_def st(1) it by (metis (no_types, lifting))
qed

lemma allocate_tid_kinv:
  assumes k: "kinv s" and c: "cur s \<noteq> idle_thread s" and y: "allocate_tid s = Some (Inr s')"
  shows "kinv s'"
proof -
  have "kinv (push_frame K_allocate_tid s)" using k c by (intro kinv_push) auto
  from lock_acquire_kinv [OF this _ y [unfolded allocate_tid_def]] show ?thesis using c by simp
qed

lemma allocate_tid_resume_kinv:
  assumes k: "kinv s" and c: "cur s \<noteq> idle_thread s" and y: "allocate_tid_resume s = Inr s'"
  shows "kinv s'"
proof -
  have "kinv (push_frame (K_allocate_tid_ret (next_tid s)) (s\<lparr>next_tid := int32 (next_tid s + 1)\<rparr>))" using k c by (intro kinv_push) auto
  moreover have y': "lock_release (tid_lock s) (push_frame (K_allocate_tid_ret (next_tid s)) (s\<lparr>next_tid := int32 (next_tid s + 1)\<rparr>)) = Inr s'"
    using y by (simp add: allocate_tid_resume_def Let_def)
  ultimately show ?thesis using lock_release_kinv [OF _ _ y'] c by simp
qed

lemma init_thread_result:
  assumes "init_thread t nm pri s = Inr s'"
  shows "t \<noteq> 0 \<and> s' = (upd_thread t (\<lambda>r. \<lparr>tid = 0, status = THREAD_BLOCKED, name = take 15 nm, stack = t + 4096,
      priority = pri, base_priority = pri, endTick = 0, held_locks = [], waiting_lock = 0,
      magic = THREAD_MAGIC, kont = kont r, eax = eax r\<rparr>) s)\<lparr>all_list := all_list s @ [t]\<rparr> \<and> PRI_MIN \<le> pri \<and> pri \<le> PRI_MAX"
proof -
  let ?S = "upd_thread t (\<lambda>r. \<lparr>tid = 0, status = THREAD_BLOCKED, name = take 15 nm, stack = t + 4096,
      priority = pri, base_priority = pri, endTick = 0, held_locks = [], waiting_lock = 0,
      magic = THREAD_MAGIC, kont = kont r, eax = eax r\<rparr>) s"
  have "t \<noteq> 0" "PRI_MIN \<le> pri" "pri \<le> PRI_MAX"
    and l: "intr_set_level (level ?S) ((intr_disable ?S)\<lparr>all_list := all_list (intr_disable ?S) @ [t]\<rparr>) = Inr s'"
    using assms unfolding init_thread_def Let_def intr_get_level_def unfolding require_Inr by blast+
  moreover from intr_set_level_cases [OF l] have "s' = ?S\<lparr>all_list := all_list s @ [t]\<rparr>"
    by (simp add: upd_thread_def intr_disable_def)
  ultimately show ?thesis by simp
qed

lemma thread_create_kinv:
  assumes k: "kinv s" and c: "cur s \<noteq> idle_thread s" and f: "f \<noteq> F_idle" and y: "thread_create nm pri f a s = Some (Inr s')"
  shows "kinv s'"
proof -
  obtain t p where a: "palloc_get_page (pages s) PAL_ZERO = Inr (t, p)"
    and y1: "(if t = 0 then Some (Inr (return_value TID_ERROR (s\<lparr>pages := p\<rparr>)))
      else bindo (Some (init_thread t nm pri (upd_thread t (\<lambda>r. r\<lparr>kont := []\<rparr>) (s\<lparr>pages := p\<rparr>)))) (\<lambda>s.
        allocate_tid (push_frame (K_thread_create t f a) s))) = Some (Inr s')"
    using y by (auto simp: thread_create_def requireo_def bindo_def Let_def split: if_splits sum.splits)
  show ?thesis
  proof (cases "t = 0")
    case True
    have "p = pages s"
      using a True palloc_get_multiple_cases [of "pages s" 1 PAL_ZERO] kinvD(2) [OF k]
      by (auto simp: palloc_get_page_def pages_ok_def split: if_splits)
    then show ?thesis using True y1 k by auto
  next
    case False
    note fr = new_page_fresh [OF k a False]
    obtain s2 where s2: "init_thread t nm pri (upd_thread t (\<lambda>r. r\<lparr>kont := []\<rparr>) (s\<lparr>pages := p\<rparr>)) = Inr s2"
      and s': "allocate_tid (push_frame (K_thread_create t f a) s2) = Some (Inr s')"
      using y1 False by (auto simp: bindo_def split: sum.splits)
    have eq: "s2 = (upd_thread t (\<lambda>r. \<lparr>tid = 0, status = THREAD_BLOCKED, name = take 15 nm, stack = t + 4096,
      priority = pri, base_priority = pri, endTick = 0, held_locks = [], waiting_lock = 0,
      magic = THREAD_MAGIC, kont = [], eax = eax r\<rparr>) (s\<lparr>pages := p\<rparr>))\<lparr>all_list := all_list s @ [t]\<rparr>"
      using init_thread_result [OF s2] by (simp add: upd_thread_def)
    have n: "kinv s2 \<and> is_thread s2 t \<and> t \<noteq> idle_thread s \<and> t \<notin> set (sleep_list s) \<and> t \<notin> set (waiters (semas s q))
      \<and> t \<notin> set (creates (kont (threads s u))) \<and> t \<noteq> cur s" for q u
      by (rule kinv_new [OF k fr(1) False fr(2-5), where r = "\<lparr>tid = 0, status = THREAD_BLOCKED, name = take 15 nm, stack = t + 4096,
      priority = pri, base_priority = pri, endTick = 0, held_locks = [], waiting_lock = 0,
      magic = THREAD_MAGIC, kont = [], eax = eax (threads s t)\<rparr>"]) (simp_all add: eq)
    have "kinv (push_frame (K_thread_create t f a) s2)"
      using n c f by (intro kinv_push_create) (auto simp: eq)
    then show ?thesis using allocate_tid_kinv [OF _ _ s'] c by (simp add: eq)
  qed
qed

lemma alloc_frame_result:
  "alloc_frame t n s = Inr (x, s') \<Longrightarrow> s' = upd_thread t (\<lambda>r. r\<lparr>stack := stack r - of_nat n\<rparr>) s"
  by (auto simp: alloc_frame_def Let_def)

lemma thread_create_resume_kinv:
  assumes k: "kinv s" and c: "cur s \<noteq> idle_thread s" and f: "f \<noteq> F_idle"
    and t: "is_thread s t" "status (threads s t) = THREAD_BLOCKED" "t \<noteq> idle_thread s" "t \<notin> set (sleep_list s)"
      "\<And>p. t \<notin> set (waiters (semas s p))" "\<And>u. t \<notin> set (creates (kont (threads s u)))"
    and y: "thread_create_resume t f a s = Inr s'"
  shows "kinv s'"
proof -
  let ?v = "eax (threads s (cur s))"
  obtain kf s1 ef s2 sf s3 s4 where a1: "alloc_frame t 12 (upd_thread t (\<lambda>r. r\<lparr>tid := ?v, endTick := - 1\<rparr>) s) = Inr (kf, s1)"
    and a2: "alloc_frame t 4 s1 = Inr (ef, s2)" and a3: "alloc_frame t 28 s2 = Inr (sf, s3)"
    and s4: "thread_unblock t (upd_thread t (\<lambda>r. r\<lparr>kont := [K_kernel_thread f a]\<rparr>) s3) = Inr s4"
    and s': "thread_yield (push_frame (K_thread_create_ret ?v) s4) = Inr s'"
    using y by (auto simp: thread_create_resume_def Let_def)
  have s3: "s3 = upd_thread t (\<lambda>r. r\<lparr>stack := stack r - 28\<rparr>) (upd_thread t (\<lambda>r. r\<lparr>stack := stack r - 4\<rparr>)
      (upd_thread t (\<lambda>r. r\<lparr>stack := stack r - 12\<rparr>) (upd_thread t (\<lambda>r. r\<lparr>tid := ?v, endTick := - 1\<rparr>) s)))"
    using alloc_frame_result [OF a1] alloc_frame_result [OF a2] alloc_frame_result [OF a3] by simp
  have s4': "s4 = upd_thread t (\<lambda>r. r\<lparr>status := THREAD_READY\<rparr>)
      ((upd_thread t (\<lambda>r. r\<lparr>kont := [K_kernel_thread f a]\<rparr>) s3)\<lparr>ready_list := ready_list s3 @ [t]\<rparr>)"
    using s4 t(1,2) kinvD(5) [OF k] by (subst (asm) thread_unblock_ok) (auto simp: s3)
  have "kinv s4"
    by (rule kinv_ready [OF k t(1-4,6), where ks = "[K_kernel_thread f a]"]) (use f t(5) in \<open>auto simp: s4' s3\<close>)
  moreover have "cur s4 = cur s" "idle_thread s4 = idle_thread s" by (simp_all add: s4' s3)
  ultimately have "kinv (push_frame (K_thread_create_ret ?v) s4)" using c by (intro kinv_push) auto
  then show ?thesis using s' thread_yield_kinv by blast
qed

section \<open>Every step keeps the invariant\<close>

lemma idle_stack_idle:
  "idle_stack (K_idle_loop # ks) \<longleftrightarrow> ks = [K_thread_exit]" "idle_stack (K_idle_halt # ks) \<longleftrightarrow> ks = [K_thread_exit]"
  by (rule idle_stack.cases [of "K_idle_loop # ks"]; simp) (rule idle_stack.cases [of "K_idle_halt # ks"]; simp)

lemma idle_loop_kinv:
  assumes k: "kinv s" and top: "kont (threads s (cur s)) = K_idle_loop # ks" and y: "idle_loop (pop_frame s) = Inr s'"
  shows "kinv s'"
proof -
  let ?ks = "K_idle_halt # ks"
  have ks: "idle_stack ?ks" if "cur s = idle_thread s"
  proof -
    have "idle_stack (K_idle_loop # ks)" using kinvD(3) [OF k] top that by (auto simp: idle_ok_def)
    then show ?thesis by (simp add: idle_stack_idle)
  qed
  have cr: "distinct (creates (K_idle_loop # ks))" "\<forall>k \<in> set (K_idle_loop # ks). \<not> boots_idle k"
    using kinvD(4) [OF k] top unfolding create_ok_def by metis+
  have kp: "kinv (upd_thread (cur s) (\<lambda>r. r\<lparr>kont := ?ks\<rparr>) s)" (is "kinv ?s0")
    using cr ks by (intro kinv_set_kont [OF k]) (auto simp: top)
  let ?s1 = "push_frame K_idle_halt (intr_disable (pop_frame s))"
  have "thread_current ?s1 = Inr (cur s)" using k by (simp add: thread_current_def running_thread_def kinvD)
  then have "schedule (upd_thread (cur s) (\<lambda>r. r\<lparr>status := THREAD_BLOCKED\<rparr>) ?s1) = Inr s'"
    using y by (simp add: idle_loop_def thread_block_def)
  moreover have "sched_pre (upd_thread (cur s) (\<lambda>r. r\<lparr>status := THREAD_BLOCKED\<rparr>) ?s1)"
    by (rule sched_preI [OF kp, where st = THREAD_BLOCKED and e = "endTick (threads s (cur s))" and S = "[]" and W = "\<lambda>p. []"
        and R = "[]"]) (auto simp: fun_eq_iff top)
  ultimately show ?thesis using schedule_kinv by blast
qed

lemma idle_halt_kinv:
  assumes k: "kinv s" and top: "kont (threads s (cur s)) = K_idle_halt # ks" and y: "idle_halt (pop_frame s) = Inr s'"
  shows "kinv s'"
proof -
  let ?ks = "K_idle_loop # ks"
  have ks: "idle_stack ?ks" if "cur s = idle_thread s"
  proof -
    have "idle_stack (K_idle_halt # ks)" using kinvD(3) [OF k] top that by (auto simp: idle_ok_def)
    then show ?thesis by (simp add: idle_stack_idle)
  qed
  have cr: "distinct (creates (K_idle_halt # ks))" "\<forall>k \<in> set (K_idle_halt # ks). \<not> boots_idle k"
    using kinvD(4) [OF k] top unfolding create_ok_def by metis+
  have kp: "kinv (upd_thread (cur s) (\<lambda>r. r\<lparr>kont := ?ks\<rparr>) s)" (is "kinv ?s0")
    using cr ks by (intro kinv_set_kont [OF k]) (auto simp: top)
  have "kinv s' = kinv ?s0" using y top by (intro kinv_cong) (auto simp: idle_halt_def)
  then show ?thesis using kp by simp
qed

lemma kernel_thread_kinv:
  assumes k: "kinv s" and c: "cur s \<noteq> idle_thread s" and f: "f \<noteq> F_idle" and y: "kernel_thread f a s = Inr s'"
  shows "kinv s'"
proof -
  obtain s1 where s1: "intr_enable s = Inr s1" and s': "s' = push_frame (K_function f) (push_frame K_thread_exit s1)"
    using y f by (auto simp: kernel_thread_def Let_def)
  have "s1 = s\<lparr>level := True\<rparr>" using s1 by (simp add: intr_enable_def)
  then have "kinv (push_frame K_thread_exit s1)" "cur s1 = cur s" "idle_thread s1 = idle_thread s" using k c by (auto intro: kinv_push)
  then show ?thesis using c unfolding s' by (simp add: kinv_push)
qed

lemma timer_sleep_kinv:
  assumes k: "kinv s" and c: "cur s \<noteq> idle_thread s" and y: "timer_sleep n s = Inr s'"
  shows "kinv s'"
proof -
  have "timer_ticks s = Inr (ticks s)"
    using kinvD(5) [OF k] by (simp add: timer_ticks_def intr_get_level_def Let_def intr_set_level_ok)
  then have "thread_yield_for_seconds (int64 (ticks s + (if n > 0 then n else 0))) s = Inr s'"
    using y by (simp add: timer_sleep_def Let_def)
  from thread_yield_for_seconds_kinv [OF k c this] show ?thesis .
qed

lemma not_idle:
  assumes "kinv s" and "kont (threads s (cur s)) = f # ks" and "\<not> idle_stack (f # ks)"
  shows "cur s \<noteq> idle_thread s"
  using kinvD(3) [OF assms(1)] assms(2,3) by (auto simp: idle_ok_def)

lemma run_frame_kinv:
  assumes k: "kinv s" and top: "kont (threads s (cur s)) = f # ks" and y: "run_frame f (pop_frame s) = Some (Inr s')"
  shows "kinv s'"
proof -
  have pop: "kinv (pop_frame s)" if "cur s \<noteq> idle_thread s \<or> idle_stack ks" using kinv_pop [OF k top that] .
  have ni: "cur (pop_frame s) \<noteq> idle_thread (pop_frame s) \<and> kinv (pop_frame s)" if "\<not> idle_stack (f # ks)"
    using not_idle [OF k top that] pop by simp
  have nb: "\<not> boots_idle f" using kinvD(4) [OF k] top by (auto simp: create_ok_def) (metis list.set_intros(1))
  show ?thesis
  proof (cases f)
    case (K_intr_set_level l)
    then show ?thesis using y pop intr_set_level_kinv [of "pop_frame s" l s'] not_idle [OF k top] by auto
  next
    case (K_sema_down p l lv)
    then show ?thesis using y ni sema_down_resume_kinv [of "pop_frame s"] by auto
  next
    case (K_lock_acquire l lv)
    then show ?thesis using y ni lock_acquire_resume_kinv [of "pop_frame s"] by auto
  next
    case (K_lock_try_acquire l)
    then show ?thesis using y ni lock_try_acquire_resume_kinv [of "pop_frame s"] by auto
  next
    case (K_cond_wait_down w l)
    then show ?thesis using y ni cond_wait_resume_kinv [of "pop_frame s"] by auto
  next
    case (K_cond_wait_lock l)
    then show ?thesis using y ni lock_acquire_kinv [of "pop_frame s"] by auto
  next
    case (K_cond_broadcast cd l)
    then show ?thesis using y ni cond_broadcast_loop_kinv [of "pop_frame s" cd l s'] by auto
  next
    case K_allocate_tid
    then show ?thesis using y ni allocate_tid_resume_kinv [of "pop_frame s"] by auto
  next
    case (K_thread_create t g a)
    have t: "t \<in> set (creates (kont (threads s (cur s))))" using top K_thread_create by simp
    note c = create_okD [OF kinvD(4) [OF k] t]
    have "distinct (creates (kont (threads s (cur s))))" using kinvD(4) [OF k] by (simp add: create_ok_def)
    then have "t \<notin> set (creates (kont (threads (pop_frame s) u)))" for u
    proof (cases "u = cur s")
      case True
      then show ?thesis using \<open>distinct _\<close> top K_thread_create by simp
    next
      case False
      then show ?thesis using c(6) [of u] by auto
    qed
    moreover have "g \<noteq> F_idle" using nb K_thread_create by simp
    moreover have r: "thread_create_resume t g a (pop_frame s) = Inr s'" using y K_thread_create by simp
    moreover have "cur (pop_frame s) \<noteq> idle_thread (pop_frame s)" "kinv (pop_frame s)" using ni K_thread_create by simp_all
    ultimately show ?thesis
      using thread_create_resume_kinv [OF _ _ _ _ _ _ _ _ _ r] c(1-5) by (cases "t = cur s") simp_all
  next
    case (K_thread_start p)
    obtain s1 where "intr_enable (pop_frame s) = Inr s1" "sema_down_internal p 0 s1 = Inr s'"
      using y K_thread_start by (auto simp: thread_start_resume_def sema_down_def)
    then show ?thesis using ni K_thread_start sema_down_internal_kinv [of "(pop_frame s)\<lparr>level := True\<rparr>" p 0 s'] by (auto simp: intr_enable_def)
  next
    case (K_kernel_thread g a)
    then show ?thesis using y ni nb kernel_thread_kinv [of "pop_frame s"] by auto
  next
    case K_thread_exit
    then show ?thesis using y ni thread_exit_kinv [of "pop_frame s"] by auto
  next
    case K_idle_loop
    then show ?thesis using y top idle_loop_kinv [OF k] by simp
  next
    case K_idle_halt
    then show ?thesis using y top idle_halt_kinv [OF k] by simp
  next
    case K_iret
    then show ?thesis using y pop not_idle [OF k top] by (cases "idle_stack ks") auto
  qed (use y ni in \<open>auto simp: thread_init_resume_def\<close>)
qed

lemma do_call_kinv:
  assumes k: "kinv s" and c: "cur s \<noteq> idle_thread s" and y: "do_call op s = Some (Inr s')"
  shows "kinv s'"
proof (cases op)
  case (C_sema_init p v)
  then show ?thesis using y sema_init_kinv [OF k] by auto
next
  case (C_sema_down p)
  then show ?thesis using y sema_down_internal_kinv [OF k c] by (auto simp: sema_down_def)
next
  case (C_sema_try_down p)
  then obtain b s1 where "sema_try_down p s = Inr (b, s1)" "s' = return_value (if b then 1 else 0) s1" using y by auto
  then show ?thesis using sema_try_down_kinv [OF k] by auto
next
  case (C_sema_up p)
  then show ?thesis using y sema_up_internal_kinv [OF k] by (auto simp: sema_up_def)
next
  case (C_cond_broadcast cd l)
  then show ?thesis using y cond_broadcast_loop_kinv [OF k c] by (auto simp: cond_broadcast_def)
next
  case (C_thread_create nm pri n a)
  then show ?thesis using y thread_create_kinv [OF k c, of "F_user n"] by auto
next
  case (C_cond_init cd)
  then show ?thesis using y k by (auto simp: cond_init_def)
next
  case (C_intr_set_level l)
  then show ?thesis using y intr_set_level_kinv [OF k] by auto
qed (use y lock_init_kinv [OF k] lock_acquire_kinv [OF k c] lock_try_acquire_kinv [OF k c] lock_release_kinv [OF k c]
      cond_wait_kinv [OF k c] cond_signal_kinv [OF k] thread_block_kinv [OF k] thread_yield_kinv [OF k] thread_exit_kinv [OF k c]
      thread_set_priority_kinv [OF k c] timer_sleep_kinv [OF k c] in auto)

lemma kstep_kinv: "kstep s s' \<Longrightarrow> kinv s \<Longrightarrow> kinv s'"
proof (induction rule: kstep.induct)
  case (resume s k ks s')
  then show ?case using run_frame_kinv by blast
next
  case (call s f ks c s')
  then show ?case using do_call_kinv [of s c s'] not_idle [of s "K_function f" ks] by simp
next
  case (unblock s f ks t s')
  then show ?case using thread_unblock_parked by blast
next
  case (tick s s')
  then show ?case using timer_irq_kinv by blast
qed

end
