(* ===== verification/Kernel_Properties.thy ===== *)
theory Kernel_Properties
  imports Kernel_Invariant
begin

text \<open>
  The properties of the scheduler, of semaphores and of locks: the invariant holds in every reachable state, the scheduler picks the
  thread of greatest priority, \<open>sema_up\<close> wakes the waiter of greatest priority, and priority donation raises the chain of holders. The last
  part shows the calls on which the donation loop does not end.
\<close>

section \<open>The scheduler\<close>

lemma all_woken_ready: "ready_list (all_woken s) = ready_list s @ filter (\<lambda>t. endTick (threads s t) \<le> ticks s) (sleep_list s)"
  by (simp add: all_woken_def due_def)

lemma next_thread_total:
  assumes "\<And>t. t \<in> set (ready_list s) \<Longrightarrow> t \<noteq> 0 \<and> 0 \<le> priority (threads s t)"
  shows "(ready_list s = [] \<and> next_thread_to_run s = Inr (idle_thread s, s))
    \<or> (\<exists>xs t ys. ready_list s = xs @ t # ys \<and> (\<forall>u \<in> set xs. priority (threads s u) < priority (threads s t))
      \<and> (\<forall>u \<in> set ys. priority (threads s u) \<le> priority (threads s t))
      \<and> next_thread_to_run s = Inr (t, s\<lparr>ready_list := remove1 t (ready_list s)\<rparr>))"
proof (cases "ready_list s = []")
  case False
  let ?pri = "\<lambda>t. priority (threads s t)"
  let ?m = "max_priority_loop ?pri (ready_list s) (- 1) 0"
  have "\<exists>t \<in> set (ready_list s). ?pri t > - 1" 
    using assms [of "hd (ready_list s)"] False by (intro bexI [of _ "hd (ready_list s)"]) auto
  from max_priority_loop_split [OF this, of 0] obtain xs ys where
    *: "ready_list s = xs @ ?m # ys" "\<forall>t \<in> set xs. ?pri t < ?pri ?m" "\<forall>t \<in> set ys. ?pri t \<le> ?pri ?m" by blast
  then have "?m \<in> set (ready_list s)" by (metis in_set_conv_decomp)
  then have "?m \<noteq> 0" using assms by blast
  then have "next_thread_to_run s = Inr (?m, s\<lparr>ready_list := remove1 ?m (ready_list s)\<rparr>)"
    using False by (simp add: next_thread_to_run_def Let_def)
  with * show ?thesis by blast
qed (simp add: next_thread_to_run_def)

lemma schedule_total:
  assumes pre: "sched_pre s" and pri: "\<And>t. is_thread s t \<Longrightarrow> 0 \<le> priority (threads s t)"
  shows "\<exists>s'. schedule s = Inr s' \<and> sleep_list s' = filter (\<lambda>t. ticks s < endTick (threads s t)) (sleep_list s)
    \<and> thread_ticks s' = 0 \<and>
    (if ready_list (all_woken s) = [] then cur s' = idle_thread s \<and> ready_list s' = []
     else \<exists>xs ys. ready_list (all_woken s) = xs @ cur s' # ys \<and> ready_list s' = xs @ ys
       \<and> (\<forall>t \<in> set xs. priority (threads s t) < priority (threads s (cur s')))
       \<and> (\<forall>t \<in> set ys. priority (threads s t) \<le> priority (threads s (cur s'))))"
proof -
  let ?w = "all_woken s"
  have ok: "sys_ok s" "\<not> level s" and run: "is_thread s t \<Longrightarrow> status (threads s t) \<noteq> THREAD_RUNNING" for t
    using pre by (auto simp: sched_pre_def)
  have q: "queues_ok s" "queues_ok ?w" and idle: "is_thread s (idle_thread s)" and pg: "pages_ok s" and c: "is_thread s (cur s)"
    using ok all_woken_sys [OF ok(1)] by (auto simp: sys_ok_def idle_ok_def)
  have live: "t \<in> set (ready_list ?w) \<Longrightarrow> is_thread s t" for t using queues_okD(4) [OF q(2), of t] by simp
  then have "t \<in> set (ready_list ?w) \<Longrightarrow> t \<noteq> 0 \<and> 0 \<le> priority (threads ?w t)" for t using pri by (auto simp: is_thread_def)
  note nt = next_thread_total [of ?w, OF this]
  obtain nxt R where n: "next_thread_to_run ?w = Inr (nxt, ?w\<lparr>ready_list := R\<rparr>)" "is_thread s nxt"
    and sel: "if ready_list ?w = [] then nxt = idle_thread s \<and> R = []
     else \<exists>xs ys. ready_list ?w = xs @ nxt # ys \<and> R = xs @ ys
       \<and> (\<forall>t \<in> set xs. priority (threads s t) < priority (threads s nxt)) \<and> (\<forall>t \<in> set ys. priority (threads s t) \<le> priority (threads s nxt))"
  proof (cases "ready_list ?w = []")
    case True
    moreover have "?w = ?w\<lparr>ready_list := []\<rparr>" using True by simp
    ultimately show thesis using nt idle that [of "idle_thread s" "[]"] by (metis all_woken_fields(5) append_is_Nil_conv list.distinct(1))
  next
    case False
    then obtain xs t ys where x: "ready_list ?w = xs @ t # ys" "\<forall>u \<in> set xs. priority (threads s u) < priority (threads s t)"
        "\<forall>u \<in> set ys. priority (threads s u) \<le> priority (threads s t)"
        "next_thread_to_run ?w = Inr (t, ?w\<lparr>ready_list := remove1 t (ready_list ?w)\<rparr>)"
      using nt by auto
    have "remove1 t (ready_list ?w) = xs @ ys" using queues_okD(1) [OF q(2)] by (simp add: x(1) remove1_append)
    moreover have "is_thread s t" using live x(1) by simp
    ultimately show thesis using that [of t "xs @ ys"] x False by auto
  qed
  let ?s1 = "?w\<lparr>ready_list := R\<rparr>"
  have st: "status (threads ?w (cur s)) \<noteq> THREAD_RUNNING" using run c by (simp add: all_woken_threads)
  have "\<exists>s'. schedule s = Inr s' \<and> sleep_list s' = sleep_list ?w \<and> thread_ticks s' = 0 \<and> cur s' = nxt \<and> ready_list s' = R"
  proof (cases "nxt = cur s")
    case True
    then show ?thesis
      using n st ok(2) c by (simp add: schedule_def wake_sleepers_all [OF q(1) ok(2)] running_thread_def Let_def intr_get_level_def thread_schedule_tail_def)
  next
    case False
    show ?thesis
    proof (cases "status (threads ?w (cur s)) = THREAD_DYING \<and> cur s \<noteq> initial_thread s")
      case True
      have "\<exists>p. palloc_free_page (pages s) (cur s) = Inr p"
        using palloc_free_page_ok [of "pages s" "cur s"] pg c True by (auto simp: pages_ok_def is_thread_def)
      then show ?thesis
        using n st ok(2) c False True
        by (auto simp: schedule_def wake_sleepers_all [OF q(1) ok(2)] running_thread_def Let_def intr_get_level_def thread_schedule_tail_def)
    next
      case alive: False
      then show ?thesis
        using n st ok(2) c False
        by (auto simp: schedule_def wake_sleepers_all [OF q(1) ok(2)] running_thread_def Let_def intr_get_level_def thread_schedule_tail_def)
    qed
  qed
  moreover have "sleep_list ?w = filter (\<lambda>t. ticks s < endTick (threads s t)) (sleep_list s)"
    by (simp add: all_woken_sleep not_le)
  ultimately show ?thesis using sel by (auto split: if_splits)
qed

section \<open>Properties of the scheduler\<close>

definition mk_thread :: "thread_status \<Rightarrow> int \<Rightarrow> frame list \<Rightarrow> thread" where
  "mk_thread st p ks = \<lparr>tid = 1, status = st, name = '''', stack = 0, priority = p, base_priority = p, endTick = - 1,
     held_locks = [], waiting_lock = 0, magic = THREAD_MAGIC, kont = ks, eax = 0\<rparr>"

definition example_kernel :: kernel where
  "example_kernel = \<lparr>threads = (\<lambda>t. if t = 0xc000e000 then mk_thread THREAD_RUNNING 31 [K_function F_main]
       else if t = 0xc0101000 then mk_thread THREAD_BLOCKED 0 [K_idle_halt, K_thread_exit]
       else (mk_thread THREAD_BLOCKED 0 [])\<lparr>magic := 0\<rparr>),
     semas = (\<lambda>p. \<lparr>sval = 1, waiters = []\<rparr>), locks = (\<lambda>l. \<lparr>max_waiter_priority = - 1, holder = 0\<rparr>), conds = (\<lambda>c. []),
     sema_elem_priority = (\<lambda>e. 0), sleep_list = [], ready_list = [], all_list = [0xc000e000, 0xc0101000], cur = 0xc000e000,
     idle_thread = 0xc0101000, initial_thread = 0xc000e000, tid_lock = 64, next_tid = 3, ticks = 5, idle_ticks = 0, kernel_ticks = 0,
     thread_ticks = 2, level = True, in_external_intr = False, yield_on_return = False, pages = example_palloc\<rparr>"

lemma example_is_thread: "is_thread example_kernel t \<longleftrightarrow> t = 0xc000e000 \<or> t = 0xc0101000"
  by (simp add: is_thread_def example_kernel_def mk_thread_def THREAD_MAGIC_def)

lemma example_kinv: "kinv example_kernel"
proof -
  have pn: "page_num 0xc000e000 = 0xc000e" "page_num 0xc0101000 = 0xc0101" by (simp_all add: page_num_def pg_no_unat)
  have po: "pg_ofs 0xc000e000 = 0" "pg_ofs 0xc0101000 = 0" by (simp_all add: pg_ofs_def PGMASK_def BITMASK_def)
  have "pool_pages (user_pool example_palloc) = {0xc0108 ..< 0xc010c}"
    by (simp add: pool_pages_def example_palloc_def page_num_def pg_no_unat)
  then have "pages_ok example_kernel"
    unfolding pages_ok_def example_is_thread
    using pn po example_palloc_ok example_palloc_pages by (auto simp: example_kernel_def)
  moreover have "queues_ok example_kernel"
    unfolding queues_ok_def example_is_thread by (auto simp: example_kernel_def mk_thread_def)
  moreover have "idle_ok example_kernel"
    unfolding idle_ok_def example_is_thread by (simp add: example_kernel_def mk_thread_def)
  moreover have "create_ok example_kernel"
    unfolding create_ok_def by (simp add: example_kernel_def mk_thread_def)
  moreover have "cur example_kernel = 0xc000e000" "\<not> in_external_intr example_kernel"
    "status (threads example_kernel t) = THREAD_RUNNING \<longleftrightarrow> t = 0xc000e000" for t
    by (simp_all add: example_kernel_def mk_thread_def)
  ultimately show ?thesis by (simp add: kinv_def sys_ok_def example_is_thread)
qed

text \<open>C1: The invariant of the kernel is kept by every sequence of steps. A step resumes the topmost frame of the running thread, or is a timer
  interrupt, or is a call by a thread of one of \<open>sema_init\<close>, \<open>sema_down\<close>, \<open>sema_try_down\<close>, \<open>sema_up\<close>, \<open>lock_init\<close>, \<open>lock_acquire\<close>,
  \<open>lock_try_acquire\<close>, \<open>lock_release\<close>, \<open>cond_init\<close>, \<open>cond_wait\<close>, \<open>cond_signal\<close>, \<open>cond_broadcast\<close>, \<open>thread_create\<close>, \<open>thread_block\<close>, \<open>thread_yield\<close>,
  \<open>thread_exit\<close>, \<open>thread_set_priority\<close>, \<open>timer_sleep\<close> and \<open>intr_set_level\<close> with any arguments, or of \<open>thread_unblock\<close> for a thread that is on no wait list, does not sleep, is
  not being created and is not the idle thread; a call that panics or does not return is no step. The invariant says that each thread is in at most one queue, the
  queues agree with the status of their threads, exactly one thread is running and it is the current one, no ready thread is
  missing from the ready list, the idle thread never waits for a semaphore or a tick, and the page of every living thread stays allocated.\<close>

theorem kernel_invariant:
  assumes "kstep\<^sup>*\<^sup>* s s'" and "kinv s"
  shows "kinv s'"
  using assms by (induction rule: rtranclp_induct) (auto intro: kstep_kinv)

theorem kernel_invariant_witness:
  "kstep\<^sup>*\<^sup>* example_kernel (example_kernel\<lparr>level := False\<rparr>) \<and> kinv (example_kernel\<lparr>level := False\<rparr>)"
proof -
  have "do_call (C_intr_set_level False) example_kernel = Some (Inr (example_kernel\<lparr>level := False\<rparr>))"
    by (simp add: intr_set_level_def intr_disable_def)
  then have "kstep example_kernel (example_kernel\<lparr>level := False\<rparr>)"
    by (rule kstep.call [rotated, of _ _ _ F_main "[]"]) (simp add: example_kernel_def mk_thread_def)
  then have r: "kstep\<^sup>*\<^sup>* example_kernel (example_kernel\<lparr>level := False\<rparr>)" by blast
  from kernel_invariant [OF r example_kinv] r show ?thesis by blast
qed

text \<open>C2: In a state that satisfies the invariant but for the status of the current thread, \<open>schedule\<close>, entered with interrupts off and no thread running, does not fail if no thread has a negative priority. It wakes exactly the sleepers
  whose tick has come; then it switches to the thread of greatest priority among the ready threads, to the one that has waited longest if there
  are several, or to the idle thread if there is none. The other ready threads keep their order, and a new time slice starts. (Without the
  condition on priorities, which \<open>thread_set_priority\<close> does not ensure, \<open>next_thread_to_run\<close> may pass a null pointer to \<open>list_remove\<close>.)\<close>

theorem schedule_priority:
  assumes "sched_pre s" and "\<forall>t. is_thread s t \<longrightarrow> 0 \<le> priority (threads s t)"
    and "R = ready_list s @ filter (\<lambda>t. endTick (threads s t) \<le> ticks s) (sleep_list s)"
  shows "\<exists>s'. schedule s = Inr s' \<and> kinv s' \<and> sleep_list s' = filter (\<lambda>t. ticks s < endTick (threads s t)) (sleep_list s)
    \<and> thread_ticks s' = 0 \<and>
    (if R = [] then cur s' = idle_thread s \<and> ready_list s' = []
     else \<exists>xs ys. R = xs @ cur s' # ys \<and> ready_list s' = xs @ ys
       \<and> (\<forall>t \<in> set xs. priority (threads s t) < priority (threads s (cur s')))
       \<and> (\<forall>t \<in> set ys. priority (threads s t) \<le> priority (threads s (cur s'))))"
  using schedule_total [OF assms(1)] schedule_kinv [OF assms(1)] assms(2) unfolding assms(3) all_woken_ready [symmetric] by blast

lemma example_sched_pre:
  "sched_pre (upd_thread 0xc000e000 (\<lambda>r. r\<lparr>status := THREAD_READY\<rparr>) (example_kernel\<lparr>level := False, ready_list := [0xc000e000]\<rparr>))"
  by (rule sched_preI [OF example_kinv, where st = THREAD_READY and e = "- 1" and S = "[]" and W = "\<lambda>p. []" and R = "[0xc000e000]"])
    (auto simp: example_kernel_def mk_thread_def)

theorem schedule_priority_witness:
  "\<exists>s'. schedule (upd_thread 0xc000e000 (\<lambda>r. r\<lparr>status := THREAD_READY\<rparr>)
      (example_kernel\<lparr>level := False, ready_list := [0xc000e000]\<rparr>)) = Inr s' \<and> cur s' = 0xc000e000 \<and> ready_list s' = []"
proof -
  let ?s = "upd_thread 0xc000e000 (\<lambda>r. r\<lparr>status := THREAD_READY\<rparr>) (example_kernel\<lparr>level := False, ready_list := [0xc000e000]\<rparr>)"
  have "\<forall>t. is_thread ?s t \<longrightarrow> 0 \<le> priority (threads ?s t)" by (simp add: example_kernel_def mk_thread_def is_thread_def)
  moreover have "[0xc000e000] = ready_list ?s @ filter (\<lambda>t. endTick (threads ?s t) \<le> ticks ?s) (sleep_list ?s)"
    by (simp add: example_kernel_def)
  ultimately show ?thesis using schedule_priority [OF example_sched_pre] by (fastforce simp: Cons_eq_append_conv)
qed

section \<open>Priority donation\<close>

text \<open>The threads to which the thread that wants lock \<open>l\<close> donates: the holder of \<open>l\<close>, the holder of the lock that one
  waits for, and so on.\<close>

inductive donee :: "kernel \<Rightarrow> ptr \<Rightarrow> addr \<Rightarrow> bool" for s l where
  direct: "l \<noteq> 0 \<Longrightarrow> holder (locks s l) \<noteq> 0 \<Longrightarrow> donee s l (holder (locks s l))"
| nested: "donee s l t \<Longrightarrow> waiting_lock (threads s t) \<noteq> 0 \<Longrightarrow> holder (locks s (waiting_lock (threads s t))) \<noteq> 0 \<Longrightarrow>
    donee s l (holder (locks s (waiting_lock (threads s t))))"

lemma donee_step:
  assumes "donee s l t" and "holder (locks s l) = h"
  shows "t = h \<or> donee s (waiting_lock (threads s h)) t"
  using assms
proof (induction rule: donee.induct)
  case (nested t)
  then show ?case using donee.direct [of "waiting_lock (threads s h)" s] donee.nested [of s "waiting_lock (threads s h)" t] by auto
qed simp

lemma donee_cong:
  assumes "donee s l t" and "\<And>k. holder (locks s' k) = holder (locks s k)" and "\<And>u. waiting_lock (threads s' u) = waiting_lock (threads s u)"
  shows "donee s' l t"
  using assms(1)
proof (induction rule: donee.induct)
  case direct
  then show ?case using donee.direct [of l s'] assms(2) by simp
next
  case (nested t)
  then show ?case using donee.nested [of s' l t] assms(2,3) by simp
qed

lemma donate_loop_spec:
  assumes "donate_loop pri l s = Some s'"
  shows "(\<forall>t. donee s l t \<longrightarrow> priority (threads s t) < pri \<and> priority (threads s' t) = pri)
    \<and> (\<forall>t. \<not> donee s l t \<longrightarrow> priority (threads s' t) = priority (threads s t))"
proof (rule donate_loop.raw_induct [where P = "\<lambda>pri l s s'. (\<forall>t. donee s l t \<longrightarrow> priority (threads s t) < pri \<and> priority (threads s' t) = pri)
    \<and> (\<forall>t. \<not> donee s l t \<longrightarrow> priority (threads s' t) = priority (threads s t))", OF _ assms], goal_cases)
  case (1 d pri l s s')
  show ?case
  proof (cases "l \<noteq> 0 \<and> holder (locks s l) \<noteq> 0")
    case False
    then have "\<not> donee s l t" for t
    proof -
      have "donee s l t \<Longrightarrow> l \<noteq> 0 \<and> holder (locks s l) \<noteq> 0" by (induction rule: donee.induct) auto
      then show ?thesis using False by blast
    qed
    moreover have "s' = s" using 1(2) False by (simp split: if_splits)
    ultimately show ?thesis by blast
  next
    case True
    let ?h = "holder (locks s l)"
    let ?s1 = "upd_thread ?h (\<lambda>r. r\<lparr>priority := pri\<rparr>) (upd_lock l (\<lambda>l. l\<lparr>max_waiter_priority := pri\<rparr>) s)"
    have h: "donee s l ?h" using donee.direct True by blast
    have w: "waiting_lock (threads ?s1 u) = waiting_lock (threads s u)" "holder (locks ?s1 k) = holder (locks s k)" for u k by auto
    show ?thesis
    proof (cases "priority (threads s ?h) < pri")
      case lt: True
      then have "d pri (waiting_lock (threads s ?h)) ?s1 = Some s'" using 1(2) True by (simp add: Let_def)
      note IH = 1(1) [OF this]
      have not_h: "\<not> donee ?s1 (waiting_lock (threads s ?h)) ?h" using spec [OF conjunct1 [OF IH], of ?h] by simp
      have "donee s l t \<longleftrightarrow> t = ?h \<or> donee ?s1 (waiting_lock (threads s ?h)) t" for t
      proof
        assume "donee s l t"
        from donee_step [OF this refl] show "t = ?h \<or> donee ?s1 (waiting_lock (threads s ?h)) t"
        proof
          assume "donee s (waiting_lock (threads s ?h)) t"
          from donee_cong [OF this w(2,1)] show ?thesis by simp
        qed simp
      next
        assume "t = ?h \<or> donee ?s1 (waiting_lock (threads s ?h)) t"
        moreover have "donee s l t" if "donee ?s1 (waiting_lock (threads s ?h)) t" for t
        proof -
          from that have "donee s (waiting_lock (threads s ?h)) t" by (rule donee_cong) (simp_all add: w)
          then show ?thesis
            by (induction rule: donee.induct) (use h donee.nested in blast)+
        qed
        ultimately show "donee s l t" using h by blast
      qed
      with IH not_h lt show ?thesis by (auto split: if_splits)
    next
      case False
      then show ?thesis using 1 True by (simp add: Let_def)
    qed
  qed
qed

lemma donate_loop_stuck:
  assumes "l \<noteq> 0" "holder (locks s l) \<noteq> 0" "pri \<le> priority (threads s (holder (locks s l)))"
  shows "donate_loop pri l s = None"
proof (cases "donate_loop pri l s")
  case (Some s')
  have "donee s l (holder (locks s l))" using donee.direct assms by blast
  then show ?thesis using donate_loop_spec [OF Some] assms(3) by auto
qed

text \<open>C3: When the donation loop of \<open>lock_acquire\<close> ends, exactly the threads of the chain of holders have been raised,
  each of them from a smaller priority to that of the donor, and every other thread has kept its priority.\<close>

theorem donation_chain:
  assumes "donate_loop pri l s = Some s'"
  shows "priority (threads s' t) = (if donee s l t then pri else priority (threads s t)) \<and> (donee s l t \<longrightarrow> priority (threads s t) < pri)"
  using donate_loop_spec [OF assms] by auto

definition example_donation :: kernel where
  "example_donation = example_kernel\<lparr>threads := (threads example_kernel)(
       0xc0102000 := (mk_thread THREAD_BLOCKED 3 [])\<lparr>waiting_lock := 32\<rparr>, 0xc0103000 := mk_thread THREAD_READY 5 []),
     locks := (locks example_kernel)(16 := \<lparr>max_waiter_priority = - 1, holder = 0xc0102000\<rparr>,
       32 := \<lparr>max_waiter_priority = 3, holder = 0xc0103000\<rparr>)\<rparr>"

theorem donation_chain_witness:
  "\<exists>s'. donate_loop 31 16 example_donation = Some s' \<and> priority (threads s' 0xc0102000) = 31 \<and> priority (threads s' 0xc0103000) = 31"
proof -
  have th: "threads example_donation 0xc0102000 = (mk_thread THREAD_BLOCKED 3 [])\<lparr>waiting_lock := 32\<rparr>"
    "threads example_donation 0xc0103000 = mk_thread THREAD_READY 5 []"
    and lk: "holder (locks example_donation 16) = 0xc0102000" "holder (locks example_donation 32) = 0xc0103000"
    by (simp_all add: example_donation_def)
  have "\<exists>s'. donate_loop 31 16 example_donation = Some s'"
    by (subst donate_loop.simps, simp add: lk th mk_thread_def)
      (subst donate_loop.simps, simp add: lk th mk_thread_def, subst donate_loop.simps, simp add: lk th mk_thread_def)
  then obtain s' where s': "donate_loop 31 16 example_donation = Some s'" by blast
  have "donee example_donation 16 0xc0102000" using donee.direct [of 16 example_donation] lk by simp
  moreover have "donee example_donation 16 0xc0103000"
    using donee.nested [OF calculation] lk th by simp
  ultimately show ?thesis using donation_chain [OF s', where t = "0xc0102000"] donation_chain [OF s', where t = "0xc0103000"] s' by auto
qed

text \<open>C4: \<open>lock_acquire\<close> of a lock that a thread of at least the caller's priority holds never returns: the donation loop does not
  advance, with interrupts off. (The loop was meant to stop there and to let the caller wait for the lock.)\<close>

theorem lock_acquire_hangs:
  assumes "kinv s" and "lock \<noteq> 0" and "holder (locks s lock) \<noteq> 0" and "holder (locks s lock) \<noteq> cur s"
    and "priority (threads s (cur s)) \<le> priority (threads s (holder (locks s lock)))"
  shows "lock_acquire lock s = None"
proof -
  have "thread_current (intr_disable s) = Inr (cur s)" using thread_current_kinv [of "intr_disable s"] assms(1) by simp
  then show ?thesis
    using assms donate_loop_stuck [of lock "intr_disable s" "priority (threads s (cur s))"] thread_current_kinv [OF assms(1)]
    by (simp add: lock_acquire_def lock_held_by_current_thread_def intr_context_def kinvD Let_def)
qed

theorem lock_acquire_hangs_witness:
  "lock_acquire 16 (example_kernel\<lparr>locks := (locks example_kernel)(16 := \<lparr>max_waiter_priority = - 1, holder = 0xc0101000\<rparr>),
     threads := (threads example_kernel)(0xc0101000 := (threads example_kernel 0xc0101000)\<lparr>priority := 31\<rparr>)\<rparr>) = None"
proof -
  let ?s = "upd_thread 0xc0101000 (\<lambda>r. r\<lparr>priority := 31\<rparr>)
    (upd_lock 16 (\<lambda>_. \<lparr>max_waiter_priority = - 1, holder = 0xc0101000\<rparr>) example_kernel)"
  have "kinv ?s" using example_kinv by simp
  then have "lock_acquire 16 ?s = None"
    by (rule lock_acquire_hangs) (simp_all add: example_kernel_def mk_thread_def)
  then show ?thesis by (simp add: upd_thread_def upd_lock_def)
qed

section \<open>Yielding, waking and releasing\<close>

lemma schedule_same:
  assumes "sched_pre s" and "schedule s = Inr s'"
  shows "priority (threads s' t) = priority (threads s t)" "idle_thread s' = idle_thread s" "semas s' = semas s" "locks s' = locks s"
    "base_priority (threads s' t) = base_priority (threads s t)" "held_locks (threads s' t) = held_locks (threads s t)"
proof -
  have pre: "queues_ok s" "\<not> level s" using assms(1) by (auto simp: sched_pre_def sys_ok_def)
  have w: "priority (threads (all_woken s) u) = priority (threads s u)" "base_priority (threads (all_woken s) u) = base_priority (threads s u)"
    "held_locks (threads (all_woken s) u) = held_locks (threads s u)" for u by (simp_all add: all_woken_threads)
  have "priority (threads s' t) = priority (threads s t) \<and> idle_thread s' = idle_thread s \<and> semas s' = semas s \<and> locks s' = locks s
    \<and> base_priority (threads s' t) = base_priority (threads s t) \<and> held_locks (threads s' t) = held_locks (threads s t)"
  proof (cases rule: schedule_cases [OF assms(2) pre, case_names switch reap])
    case (switch nxt)
    show ?thesis unfolding switch(4) by (simp add: switched_def w)
  next
    case (reap nxt p)
    show ?thesis unfolding reap(8) by (simp add: switched_def reaped_def w)
  qed
  then show "priority (threads s' t) = priority (threads s t)" "idle_thread s' = idle_thread s" "semas s' = semas s" "locks s' = locks s"
    "base_priority (threads s' t) = base_priority (threads s t)" "held_locks (threads s' t) = held_locks (threads s t)" by blast+
qed

lemma yield_state:
  assumes "kinv s"
  shows "\<exists>s1. thread_yield s = schedule s1 \<and> sched_pre s1 \<and> (\<forall>t. priority (threads s1 t) = priority (threads s t)
      \<and> base_priority (threads s1 t) = base_priority (threads s t) \<and> held_locks (threads s1 t) = held_locks (threads s t))
    \<and> is_thread s1 = is_thread s \<and> semas s1 = semas s \<and> locks s1 = locks s \<and> idle_thread s1 = idle_thread s \<and> sleep_list s1 = sleep_list s
    \<and> ready_list s1 = (if cur s = idle_thread s then ready_list s else ready_list s @ [cur s])"
proof -
  let ?f = "K_intr_set_level (level s)"
  have kp: "kinv (push_frame ?f s)" using kinvD(3) [OF assms] by (intro kinv_push [OF assms]) (auto simp: idle_ok_def)
  let ?s1 = "push_frame ?f (upd_thread (cur s) (\<lambda>r. r\<lparr>status := THREAD_READY\<rparr>)
    (if cur s \<noteq> idle_thread s then (intr_disable s)\<lparr>ready_list := ready_list s @ [cur s]\<rparr> else intr_disable s))"
  have "thread_yield s = schedule ?s1"
    using assms by (simp add: thread_yield_def thread_current_kinv intr_get_level_def Let_def intr_context_def kinvD cong: if_cong)
  moreover have "sched_pre ?s1"
    by (rule sched_preI [OF kp, where st = THREAD_READY and e = "endTick (threads s (cur s))" and S = "[]" and W = "\<lambda>p. []"
        and R = "if cur s = idle_thread s then [] else [cur s]"]) (auto simp: fun_eq_iff)
  ultimately show ?thesis by (intro exI [of _ ?s1]) (auto simp: is_thread_def fun_eq_iff)
qed

lemma ready_after_schedule:
  assumes "sched_pre s" and "schedule s = Inr s'"
  shows "set (ready_list s) \<subseteq> insert (cur s') (set (ready_list s'))"
    and "\<forall>t \<in> set (ready_list s'). priority (threads s' t) \<le> priority (threads s' (cur s'))"
proof -
  have pre: "queues_ok s" "\<not> level s" using assms(1) by (auto simp: sched_pre_def sys_ok_def)
  note same = schedule_same(1) [OF assms]
  have *: "\<exists>nxt. cur s' = nxt \<and> ready_list s' = remove1 nxt (ready_list (all_woken s))
    \<and> (\<forall>t \<in> set (ready_list (all_woken s)). priority (threads s t) \<le> priority (threads s nxt))"
    by (rule schedule_cases [OF assms(2) pre]) (auto simp: switched_def reaped_def simp del: all_woken_fields(17) split: if_splits)
  show "set (ready_list s) \<subseteq> insert (cur s') (set (ready_list s'))"
  proof
    fix t assume "t \<in> set (ready_list s)"
    then have "t \<in> set (ready_list (all_woken s))" by simp
    then show "t \<in> insert (cur s') (set (ready_list s'))" using * by (cases "t = cur s'") auto
  qed
  show "\<forall>t \<in> set (ready_list s'). priority (threads s' t) \<le> priority (threads s' (cur s'))"
    unfolding same using * by (metis notin_set_remove1)
qed

text \<open>C5: In a state that satisfies the invariant of the kernel and in which no thread has a negative priority, \<open>thread_yield\<close> does not fail and leaves the processor to a thread of greatest priority: afterwards no thread that is
  ready to run, other than the idle thread, has a greater priority than the running one.\<close>

theorem thread_yield_highest:
  assumes "kinv s" and "\<forall>t. is_thread s t \<longrightarrow> 0 \<le> priority (threads s t)"
  shows "\<exists>s'. thread_yield s = Inr s' \<and> kinv s'
    \<and> (\<forall>t. is_thread s' t \<and> status (threads s' t) = THREAD_READY \<and> t \<noteq> idle_thread s' \<longrightarrow>
        priority (threads s' t) \<le> priority (threads s' (cur s')))"
proof -
  obtain s1 where s1: "thread_yield s = schedule s1" "sched_pre s1" "\<forall>t. priority (threads s1 t) = priority (threads s t)" "is_thread s1 = is_thread s"
    using yield_state [OF assms(1)] by blast
  obtain s' where s': "schedule s1 = Inr s'" using schedule_total [OF s1(2)] assms(2) s1(3,4) by auto
  have k: "kinv s'" using schedule_kinv [OF s1(2) s'] .
  show ?thesis
    using s1(1) s' k ready_after_schedule(2) [OF s1(2) s'] queues_okD(8) [OF kinvD(1) [OF k]] by auto
qed

theorem thread_yield_highest_witness:
  "\<exists>s'. thread_yield example_kernel = Inr s' \<and> kinv s'"
proof -
  have "\<forall>t. is_thread example_kernel t \<longrightarrow> 0 \<le> priority (threads example_kernel t)"
    by (simp add: example_kernel_def mk_thread_def)
  from thread_yield_highest [OF example_kinv this] show ?thesis by blast
qed

lemma sema_up_state:
  assumes k: "kinv s" and p: "p \<noteq> 0" and pri: "\<And>t. is_thread s t \<Longrightarrow> 0 \<le> priority (threads s t)"
  shows "\<exists>s1 xs ws. sema_up_internal p l s = thread_yield s1 \<and> kinv s1 \<and> is_thread s1 = is_thread s
    \<and> (\<forall>t. priority (threads s1 t) = priority (threads s t) \<and> base_priority (threads s1 t) = base_priority (threads s t)
        \<and> held_locks (threads s1 t) = held_locks (threads s t))
    \<and> ready_list s1 = ready_list s @ xs \<and> waiters (semas s1 p) = ws \<and> sval (semas s1 p) = (sval (semas s p) + 1) mod SIZE_MOD
    \<and> (if waiters (semas s p) = [] then xs = [] \<and> ws = []
       else \<exists>ys t zs. waiters (semas s p) = ys @ t # zs \<and> xs = [t] \<and> ws = ys @ zs
         \<and> (\<forall>u \<in> set ys. priority (threads s u) < priority (threads s t)) \<and> (\<forall>u \<in> set zs. priority (threads s u) \<le> priority (threads s t)))
    \<and> idle_thread s1 = idle_thread s \<and> cur s1 = cur s \<and> (\<forall>k. holder (locks s1 k) = holder (locks s k))"
proof (cases "waiters (semas s p) = []")
  case True
  let ?s1 = "push_frame (K_intr_set_level (level s)) (upd_sema p (\<lambda>m. m\<lparr>sval := (sval m + 1) mod SIZE_MOD\<rparr>) (intr_disable s))"
  have "kinv ?s1" using k kinvD(3) [OF k] by (intro kinv_push) (auto simp: idle_ok_def)
  then show ?thesis using True p
    by (intro exI [of _ ?s1] exI [of _ "[]"]) (auto simp: sema_up_internal_def Let_def intr_get_level_def)
next
  case False
  note q = kinvD(1) [OF k]
  let ?pri = "\<lambda>t. priority (threads s t)"
  let ?t = "max_priority_loop ?pri (waiters (semas s p)) (- 1) 0"
  have live: "t \<in> set (waiters (semas s p)) \<Longrightarrow> is_thread s t \<and> status (threads s t) = THREAD_BLOCKED" for t
    using queues_okD(6) [OF q, of t p] by simp
  have "\<exists>t \<in> set (waiters (semas s p)). ?pri t > - 1"
    using False pri [of "hd (waiters (semas s p))"] live [of "hd (waiters (semas s p))"] by (intro bexI [of _ "hd (waiters (semas s p))"]) auto
  from max_priority_loop_split [OF this, of 0] obtain ys zs where
    w: "waiters (semas s p) = ys @ ?t # zs" "\<forall>t \<in> set ys. ?pri t < ?pri ?t" "\<forall>t \<in> set zs. ?pri t \<le> ?pri ?t" by blast
  then have t: "?t \<in> set (waiters (semas s p))" by (metis in_set_conv_decomp)
  have rem: "remove1 ?t (waiters (semas s p)) = ys @ zs"
  proof -
    have "distinct (ys @ ?t # zs)" using queues_okD(3) [OF q, of p] w(1) by simp
    then have "remove1 ?t (ys @ ?t # zs) = ys @ zs" by (simp add: remove1_append)
    then show ?thesis using w(1) by simp
  qed
  let ?s0 = "upd_sema p (\<lambda>m. m\<lparr>waiters := remove1 ?t (waiters m)\<rparr>) (intr_disable s)"
  let ?s2 = "upd_thread ?t (\<lambda>r. r\<lparr>status := THREAD_READY\<rparr>) (?s0\<lparr>ready_list := ready_list s @ [?t]\<rparr>)"
  have ub: "thread_unblock ?t ?s0 = Inr ?s2" using live [OF t] by (subst thread_unblock_ok) auto
  have k0: "kinv (intr_disable s)" using k by simp
  have t0: "?t \<in> set (waiters (semas (intr_disable s) p))" using t by simp
  have k2: "kinv ?s2" using thread_unblock_kinv [OF k0 t0 ub] by blast
  let ?s3 = "if l \<noteq> 0 then update_lock_max_priority l ?s2 else ?s2"
  let ?s1 = "push_frame (K_intr_set_level (level s)) (upd_sema p (\<lambda>m. m\<lparr>sval := (sval m + 1) mod SIZE_MOD\<rparr>) ?s3)"
  have "kinv ?s1" using k2 kinvD(3) [OF k2] by (intro kinv_push) (auto simp: idle_ok_def)
  moreover have "?t \<noteq> 0" using live [OF t] by (simp add: is_thread_def)
  ultimately show ?thesis
    using False p ub w rem
    by (intro exI [of _ ?s1] exI [of _ "[?t]"] exI [of _ "ys @ zs"])
      (auto simp: sema_up_internal_def Let_def intr_get_level_def is_thread_def fun_eq_iff update_lock_max_priority_def)
qed

text \<open>C6: In a state that satisfies the invariant and in which no thread has a negative priority, \<open>sema_up\<close> called by a thread for a semaphore (not a null pointer) does not fail and increments the semaphore, modulo \<open>2 ^ 32\<close>, whether or not threads wait for it. If there are
  waiting threads, it wakes the one of greatest priority, the one that has waited longest if there are several; that thread is then running or ready, and
  the others wait on in their order.\<close>

theorem sema_up_wakes_highest:
  assumes "kinv s" and "p \<noteq> 0" and "\<forall>t. is_thread s t \<longrightarrow> 0 \<le> priority (threads s t)"
  shows "\<exists>s'. sema_up p s = Inr s' \<and> kinv s' \<and> sval (semas s' p) = (sval (semas s p) + 1) mod SIZE_MOD
    \<and> (if waiters (semas s p) = [] then waiters (semas s' p) = []
       else \<exists>ys t zs. waiters (semas s p) = ys @ t # zs \<and> waiters (semas s' p) = ys @ zs
         \<and> (\<forall>u \<in> set ys. priority (threads s u) < priority (threads s t)) \<and> (\<forall>u \<in> set zs. priority (threads s u) \<le> priority (threads s t))
         \<and> (t = cur s' \<or> t \<in> set (ready_list s')))"
proof -
  obtain s1 xs where s1: "sema_up p s = thread_yield s1" "kinv s1" "is_thread s1 = is_thread s"
      "\<forall>t. priority (threads s1 t) = priority (threads s t)" "ready_list s1 = ready_list s @ xs"
      "sval (semas s1 p) = (sval (semas s p) + 1) mod SIZE_MOD"
    and w: "if waiters (semas s p) = [] then waiters (semas s1 p) = []
       else \<exists>ys t zs. waiters (semas s p) = ys @ t # zs \<and> xs = [t] \<and> waiters (semas s1 p) = ys @ zs
         \<and> (\<forall>u \<in> set ys. priority (threads s u) < priority (threads s t)) \<and> (\<forall>u \<in> set zs. priority (threads s u) \<le> priority (threads s t))"
    using sema_up_state [OF assms(1,2), of 0] assms(3) unfolding sema_up_def by (metis (no_types, lifting))
  obtain s2 where s2: "thread_yield s1 = schedule s2" "sched_pre s2" "\<forall>t. priority (threads s2 t) = priority (threads s1 t)"
      "is_thread s2 = is_thread s1" "semas s2 = semas s1"
      "ready_list s2 = (if cur s1 = idle_thread s1 then ready_list s1 else ready_list s1 @ [cur s1])"
    using yield_state [OF s1(2)] by blast
  obtain s' where s': "schedule s2 = Inr s'" using schedule_total [OF s2(2)] assms(3) s1(3,4) s2(3,4) by auto
  have "set xs \<subseteq> insert (cur s') (set (ready_list s'))" using ready_after_schedule(1) [OF s2(2) s'] s2(6) s1(5) by (auto split: if_splits)
  then have r: "t = cur s' \<or> t \<in> set (ready_list s')" if "xs = [t]" for t using that by simp
  have "\<exists>ys t zs. waiters (semas s p) = ys @ t # zs \<and> waiters (semas s1 p) = ys @ zs
         \<and> (\<forall>u \<in> set ys. priority (threads s u) < priority (threads s t)) \<and> (\<forall>u \<in> set zs. priority (threads s u) \<le> priority (threads s t))
         \<and> (t = cur s' \<or> t \<in> set (ready_list s'))" if ne: "waiters (semas s p) \<noteq> []"
  proof -
    obtain ys t zs where "waiters (semas s p) = ys @ t # zs" "xs = [t]" "waiters (semas s1 p) = ys @ zs"
      "\<forall>u \<in> set ys. priority (threads s u) < priority (threads s t)" "\<forall>u \<in> set zs. priority (threads s u) \<le> priority (threads s t)"
      using w ne by (auto simp only: if_False)
    with r [of t] show ?thesis by blast
  qed
  moreover have "semas s' = semas s1" using s2(5) schedule_same(3) [OF s2(2) s'] by simp
  ultimately show ?thesis
    using w s1(1,6) s2(1) s' schedule_kinv [OF s2(2) s'] by (simp split: if_splits)
qed

definition example_palloc2 :: palloc where
  "example_palloc2 = put_pool example_palloc False ((kernel_pool example_palloc)\<lparr>used_map := \<lparr>bit_cnt = 4, bits = [3]\<rparr>\<rparr>)"

lemma example_palloc2_ok:
  "palloc_ok example_palloc2" "pool_pages (kernel_pool example_palloc2) = {0xc0101 ..< 0xc0105}"
  "pool_pages (user_pool example_palloc2) = {0xc0108 ..< 0xc010c}" "0xc0101 \<in> allocated example_palloc2" "0xc0102 \<in> allocated example_palloc2"
proof -
  let ?b = "\<lparr>bit_cnt = 4, bits = [3]\<rparr>"
  have c: "bit_cnt ?b = bit_cnt (used_map (get_pool example_palloc False))" "get_pool example_palloc False = kernel_pool example_palloc"
    by (simp_all add: get_pool_def example_palloc_def example_bitmap_def)
  show "palloc_ok example_palloc2"
    using put_pool_ok [OF example_palloc_ok _ c(1)] unfolding example_palloc2_def c(2) by (simp add: bm_ok_def)
  show k: "pool_pages (kernel_pool example_palloc2) = {0xc0101 ..< 0xc0105}" "pool_pages (user_pool example_palloc2) = {0xc0108 ..< 0xc010c}"
    by (simp_all add: example_palloc2_def put_pool_def pool_pages_def example_palloc_def page_num_def pg_no_unat)
  have u: "bm_used ?b 0" "bm_used ?b (Suc 0)" by (simp_all add: bm_used_def bm_list_def)
  have "0xc0101 + i \<in> pool_allocated (kernel_pool example_palloc2)" if "bm_used ?b i" "i < 4" for i
    using that unfolding pool_allocated_def k(1)
    by (simp add: example_palloc2_def put_pool_def example_palloc_def page_num_def pg_no_unat)
  from this [of 0] this [of 1] u show "0xc0101 \<in> allocated example_palloc2" "0xc0102 \<in> allocated example_palloc2"
    by (simp_all add: allocated_def)
qed

definition example_waiting :: kernel where
  "example_waiting = upd_sema 8 (\<lambda>m. \<lparr>sval = 0, waiters = [0xc0102000]\<rparr>) (upd_thread 0xc0102000 (\<lambda>r. mk_thread THREAD_BLOCKED 40 [])
     (example_kernel\<lparr>pages := example_palloc2\<rparr>))"

lemma example_waiting_kinv: "kinv example_waiting"
proof -
  have it: "is_thread example_waiting t \<longleftrightarrow> t = 0xc000e000 \<or> t = 0xc0101000 \<or> t = 0xc0102000" for t
    by (simp add: example_waiting_def is_thread_def example_kernel_def mk_thread_def THREAD_MAGIC_def)
  have pn: "page_num 0xc000e000 = 0xc000e" "page_num 0xc0101000 = 0xc0101" "page_num 0xc0102000 = 0xc0102"
    by (simp_all add: page_num_def pg_no_unat)
  have po: "pg_ofs 0xc000e000 = 0" "pg_ofs 0xc0101000 = 0" "pg_ofs 0xc0102000 = 0"
    by (simp_all add: pg_ofs_def PGMASK_def BITMASK_def)
  have "pages example_waiting = example_palloc2" "initial_thread example_waiting = 0xc000e000"
    by (simp_all add: example_waiting_def example_kernel_def)
  then have "pages_ok example_waiting"
    unfolding pages_ok_def it using pn po example_palloc2_ok by simp
  moreover have "queues_ok example_waiting"
    unfolding queues_ok_def it by (auto simp: example_waiting_def example_kernel_def mk_thread_def)
  moreover have "idle_ok example_waiting"
    unfolding idle_ok_def it by (simp add: example_waiting_def example_kernel_def mk_thread_def)
  moreover have "create_ok example_waiting"
    unfolding create_ok_def by (simp add: example_waiting_def example_kernel_def mk_thread_def)
  moreover have "cur example_waiting = 0xc000e000" "\<not> in_external_intr example_waiting"
    "status (threads example_waiting t) = THREAD_RUNNING \<longleftrightarrow> t = 0xc000e000" for t
    by (simp_all add: example_waiting_def example_kernel_def mk_thread_def)
  ultimately show ?thesis by (simp add: kinv_def sys_ok_def it)
qed

theorem sema_up_wakes_highest_witness:
  "(\<exists>s'. sema_up 8 example_waiting = Inr s' \<and> waiters (semas s' 8) = [] \<and> sval (semas s' 8) = 1 \<and> (0xc0102000 = cur s' \<or> 0xc0102000 \<in> set (ready_list s')))
    \<and> (\<exists>s'. sema_up 12 example_waiting = Inr s' \<and> waiters (semas s' 12) = [] \<and> sval (semas s' 12) = 2)"
proof -
  have w: "waiters (semas example_waiting 8) = [0xc0102000]" "waiters (semas example_waiting 12) = []"
    and v: "sval (semas example_waiting 8) = 0" "sval (semas example_waiting 12) = 1"
    and p: "\<forall>t. is_thread example_waiting t \<longrightarrow> 0 \<le> priority (threads example_waiting t)"
    by (simp_all add: example_waiting_def example_kernel_def mk_thread_def)
  have "\<exists>s'. sema_up 8 example_waiting = Inr s' \<and> waiters (semas s' 8) = [] \<and> sval (semas s' 8) = 1
      \<and> (0xc0102000 = cur s' \<or> 0xc0102000 \<in> set (ready_list s'))"
    using sema_up_wakes_highest [OF example_waiting_kinv _ p, of 8] w v by (auto simp: Cons_eq_append_conv)
  moreover have "\<exists>s'. sema_up 12 example_waiting = Inr s' \<and> waiters (semas s' 12) = [] \<and> sval (semas s' 12) = 2"
    using sema_up_wakes_highest [OF example_waiting_kinv _ p, of 12] w v by auto
  ultimately show ?thesis by simp
qed

lemma lock_release_loop_spec:
  "threads (lock_release_loop l t ls s) = (threads s)(t := (threads s t)\<lparr>
      priority := foldl (\<lambda>p k. max p (max_waiter_priority (locks s k))) (priority (threads s t)) (filter (\<lambda>k. k \<noteq> l) ls),
      held_locks := foldl (\<lambda>hs k. remove1 k hs) (held_locks (threads s t)) (filter (\<lambda>k. k = l) ls)\<rparr>)
   \<and> locks (lock_release_loop l t ls s) = locks s \<and> semas (lock_release_loop l t ls s) = semas s"
proof (induction ls arbitrary: s)
  case (Cons k ls)
  have m: "(if p < q then q else p) = max p q" for p q :: int by simp
  show ?case using Cons by (auto simp: m)
qed simp

lemma foldl_max: "foldl (\<lambda>p k. max p (f k)) (a :: int) xs = Max (insert a (f ` set xs))"
proof (induction xs arbitrary: a)
  case (Cons x xs)
  have "foldl (\<lambda>p k. max p (f k)) a (x # xs) = Max (insert (max a (f x)) (f ` set xs))" using Cons by simp
  also have "\<dots> = Max (insert a (insert (f x) (f ` set xs)))" by (cases xs) (simp_all add: max.assoc)
  finally show ?case by simp
qed simp

lemma foldl_remove1: "distinct hs \<Longrightarrow> foldl (\<lambda>hs k. remove1 k hs) hs (filter (\<lambda>k. k = l) hs) = filter (\<lambda>k. k \<noteq> l) hs"
proof (induction hs)
  case (Cons h hs)
  have no: "filter (\<lambda>k. k = l) hs = []" if "l \<notin> set hs" using that by (auto simp: filter_empty_conv)
  have id: "filter (\<lambda>k. k \<noteq> l) hs = hs" if "l \<notin> set hs" using that by (auto simp: filter_id_conv)
  have one: "filter (\<lambda>k. k = l) hs = [l]" if "l \<in> set hs"
    using that Cons.prems by (induction hs) (auto simp: filter_empty_conv)
  show ?case
  proof (cases "h = l")
    case True
    then show ?thesis using Cons.prems no id by auto
  next
    case False
    then show ?thesis using Cons one no id by (cases "l \<in> set hs") auto
  qed
qed simp

text \<open>C7: In a state that satisfies the invariant, \<open>lock_release\<close> by the holder does not fail if no thread has a negative priority or base priority and no lock is twice on the caller's list \<open>held_locks\<close>. It gives the
  lock up, takes it off the list, and gives the thread the greatest of its base priority and the priorities donated through the locks that remain on the list. (A lock that was
  taken by \<open>lock_try_acquire\<close> is not on the list.)\<close>

theorem lock_release_priority:
  assumes "kinv s" and "l \<noteq> 0" and "holder (locks s l) = cur s" and "distinct (held_locks (threads s (cur s)))"
    and "\<forall>t. is_thread s t \<longrightarrow> 0 \<le> priority (threads s t) \<and> 0 \<le> base_priority (threads s t)"
  shows "\<exists>s'. lock_release l s = Inr s' \<and> kinv s' \<and> holder (locks s' l) = 0
    \<and> held_locks (threads s' (cur s)) = filter (\<lambda>k. k \<noteq> l) (held_locks (threads s (cur s)))
    \<and> priority (threads s' (cur s)) = Max (insert (base_priority (threads s (cur s)))
        ((\<lambda>k. max_waiter_priority (locks s k)) ` (set (held_locks (threads s (cur s))) - {l})))"
proof -
  let ?t = "cur s" and ?hs = "held_locks (threads s (cur s))"
  let ?s0 = "upd_thread ?t (\<lambda>r. r\<lparr>priority := base_priority r\<rparr>) (intr_disable s)"
  let ?s1 = "lock_release_loop l ?t ?hs ?s0"
  let ?s2 = "push_frame (K_intr_set_level (level s)) (upd_lock l (\<lambda>l. l\<lparr>holder := 0\<rparr>) ?s1)"
  let ?m = "Max (insert (base_priority (threads s ?t)) ((\<lambda>k. max_waiter_priority (locks s k)) ` (set ?hs - {l})))"
  have "thread_current (intr_disable s) = Inr ?t" using thread_current_kinv [of "intr_disable s"] assms(1) by simp
  then have eq: "lock_release l s = sema_up_internal (lock_sema l) l ?s2"
    using assms(1-3) by (simp add: lock_release_def lock_held_by_current_thread_def thread_current_kinv Let_def intr_get_level_def)
  note spec = lock_release_loop_spec [of l ?t ?hs ?s0] and same = lock_release_loop_same [of l ?t ?hs ?s0]
  have st: "{k \<in> set ?hs. k \<noteq> l} = set ?hs - {l}" by auto
  have th: "priority (threads ?s2 ?t) = ?m" "held_locks (threads ?s2 ?t) = filter (\<lambda>k. k \<noteq> l) ?hs"
    "t \<noteq> ?t \<Longrightarrow> priority (threads ?s2 t) = priority (threads s t)" for t
    using spec same foldl_remove1 [OF assms(4), of l] by (auto simp: foldl_max st)
  have k2: "kinv ?s2" using assms(1) same kinvD(3) [OF assms(1)] by (intro kinv_push) (auto simp: idle_ok_def)
  have it: "is_thread ?s2 = is_thread s" using spec by (simp add: is_thread_def fun_eq_iff)
  have b: "base_priority (threads s ?t) \<le> ?m" "0 \<le> base_priority (threads s ?t)"
    using assms(5) kinvD(6) [OF assms(1)] by (auto intro: Max_ge)
  have pri: "0 \<le> priority (threads ?s2 t)" if "is_thread ?s2 t" for t
  proof (cases "t = ?t")
    case True
    show ?thesis unfolding True th(1) using b by linarith
  next
    case False
    then show ?thesis using th(3) [OF False] that assms(5) unfolding it by simp
  qed
  have "lock_sema l \<noteq> 0" by (simp add: lock_sema_def)
  obtain s3 where s3: "sema_up_internal (lock_sema l) l ?s2 = thread_yield s3" "kinv s3" "is_thread s3 = is_thread ?s2"
      "\<forall>t. priority (threads s3 t) = priority (threads ?s2 t)" "\<forall>t. held_locks (threads s3 t) = held_locks (threads ?s2 t)"
      "\<forall>k. holder (locks s3 k) = holder (locks ?s2 k)"
    using sema_up_state [OF k2 \<open>lock_sema l \<noteq> 0\<close> pri, of l] by blast
  obtain s4 where s4: "thread_yield s3 = schedule s4" "sched_pre s4" "\<forall>t. priority (threads s4 t) = priority (threads s3 t)"
      "\<forall>t. held_locks (threads s4 t) = held_locks (threads s3 t)" "is_thread s4 = is_thread s3" "locks s4 = locks s3"
    using yield_state [OF s3(2)] by blast
  obtain s' where s': "schedule s4 = Inr s'" using schedule_total [OF s4(2)] pri s3(3,4) s4(3,5) by auto
  have "holder (locks ?s2 l) = 0" by simp
  then show ?thesis
    using eq s3 s4 s' schedule_same [OF s4(2) s'] schedule_kinv [OF s4(2) s'] th by auto
qed

theorem lock_release_priority_witness:
  "\<exists>s'. lock_release 16 (upd_lock 32 (\<lambda>l. l\<lparr>max_waiter_priority := 40\<rparr>) (upd_lock 16 (\<lambda>l. l\<lparr>holder := 0xc000e000\<rparr>)
      (upd_thread 0xc000e000 (\<lambda>r. r\<lparr>held_locks := [16, 32], priority := 50\<rparr>) example_kernel))) = Inr s'
    \<and> priority (threads s' 0xc000e000) = 40 \<and> held_locks (threads s' 0xc000e000) = [32]"
proof -
  let ?s = "upd_lock 32 (\<lambda>l. l\<lparr>max_waiter_priority := 40\<rparr>) (upd_lock 16 (\<lambda>l. l\<lparr>holder := 0xc000e000\<rparr>)
      (upd_thread 0xc000e000 (\<lambda>r. r\<lparr>held_locks := [16, 32], priority := 50\<rparr>) example_kernel))"
  have "kinv ?s" using example_kinv by simp
  moreover have "holder (locks ?s 16) = cur ?s" "distinct (held_locks (threads ?s (cur ?s)))"
    "\<forall>t. is_thread ?s t \<longrightarrow> 0 \<le> priority (threads ?s t) \<and> 0 \<le> base_priority (threads ?s t)"
    by (simp_all add: example_kernel_def mk_thread_def)
  moreover have "cur ?s = 0xc000e000" "held_locks (threads ?s 0xc000e000) = [16, 32]" "base_priority (threads ?s 0xc000e000) = 31"
    "max_waiter_priority (locks ?s 32) = 40"
    by (simp_all add: example_kernel_def mk_thread_def)
  ultimately show ?thesis using lock_release_priority [of ?s 16] by auto
qed

end
