(* ===== verification/Arithmetic.thy ===== *)
theory Arithmetic
  imports Prelude "HOL-Library.Signed_Division"
begin

unbundle bit_operations_syntax

text \<open>
  The 64-bit division routines of lib/arithmetic.c, on machine words. \<open>divl\<close> is the x86 instruction: it
  traps if the divisor is zero or the quotient does not fit in 32 bits. The main theorem is that \<open>udiv64\<close>, which reduces a 64-bit
  division to one such instruction and a correction step, never traps and computes the quotient.
\<close>

section \<open>Routines\<close>

definition divl :: "64 word \<Rightarrow> 32 word \<Rightarrow> 32 word res" where
  "divl n d = (if d \<noteq> 0 \<and> unat n div unat d < 2 ^ 32 then Inr (of_nat (unat n div unat d))
     else Inl (Panic ''#DE Divide Error''))"

definition nlz :: "32 word \<Rightarrow> nat" where
  "nlz x =
     (let n = 0;
          (n, x) = (if x \<le> 0x0000FFFF then (n + 16, push_bit 16 x) else (n, x));
          (n, x) = (if x \<le> 0x00FFFFFF then (n + 8, push_bit 8 x) else (n, x));
          (n, x) = (if x \<le> 0x0FFFFFFF then (n + 4, push_bit 4 x) else (n, x));
          (n, x) = (if x \<le> 0x3FFFFFFF then (n + 2, push_bit 2 x) else (n, x));
          n = (if x \<le> 0x7FFFFFFF then n + 1 else n)
      in n)"

definition udiv64 :: "64 word \<Rightarrow> 64 word \<Rightarrow> 64 word res" where
  "udiv64 n d =
     (if drop_bit 32 d = 0 then
        let b = push_bit 32 (1 :: 64 word);
            n1 = ucast (drop_bit 32 n) :: 32 word;
            n0 = ucast n :: 32 word;
            d0 = ucast d :: 32 word
        in if d0 = 0 then Inl (Panic ''#DE Divide Error'')
           else bindr (divl (b * ucast (n1 mod d0) + ucast n0) d0) (\<lambda>q. Inr (ucast q + b * ucast (n1 div d0)))
      else if n < d then Inr 0
      else
        let d1 = ucast (drop_bit 32 d) :: 32 word;
            s = nlz d1
        in bindr (divl (drop_bit 1 n) (ucast (drop_bit 32 (push_bit s d)))) (\<lambda>q32.
           let q = ucast (drop_bit (31 - s) q32) :: 64 word
           in Inr (if n - (q - 1) * d < d then q - 1 else q)))"

definition umod64 :: "64 word \<Rightarrow> 64 word \<Rightarrow> 32 word res" where
  "umod64 n d = bindr (udiv64 n d) (\<lambda>q. Inr (ucast (n - d * q)))"

text \<open>A signed 64-bit value is the word that represents it; \<open>0 \<le>s\<close> is the sign test.\<close>

definition abs64 :: "64 word \<Rightarrow> 64 word" where
  "abs64 n = (if 0 \<le> sint n then n else - n)"

definition sdiv64 :: "64 word \<Rightarrow> 64 word \<Rightarrow> 64 word res" where
  "sdiv64 n d = bindr (udiv64 (abs64 n) (abs64 d)) (\<lambda>q_abs.
     Inr (if (sint n < 0) = (sint d < 0) then q_abs else - q_abs))"

definition smod64 :: "64 word \<Rightarrow> 64 word \<Rightarrow> 32 word res" where
  "smod64 n d = bindr (sdiv64 n d) (\<lambda>q. Inr (ucast (n - d * q)))"

definition divdi3 :: "64 word \<Rightarrow> 64 word \<Rightarrow> 64 word res" where
  "divdi3 n d = sdiv64 n d"

definition moddi3 :: "64 word \<Rightarrow> 64 word \<Rightarrow> 64 word res" where
  "moddi3 n d = bindr (smod64 n d) (\<lambda>r. Inr (scast r))"

definition udivdi3 :: "64 word \<Rightarrow> 64 word \<Rightarrow> 64 word res" where
  "udivdi3 n d = udiv64 n d"

definition umoddi3 :: "64 word \<Rightarrow> 64 word \<Rightarrow> 64 word res" where
  "umoddi3 n d = bindr (umod64 n d) (\<lambda>r. Inr (ucast r))"

section \<open>Leading zeros\<close>

lemma shift_small:
  assumes "unat (x :: 'a :: len word) * 2 ^ k < 2 ^ LENGTH('a)"
  shows "unat (push_bit k x) = unat x * 2 ^ k"
proof -
  have "unat (push_bit k x) = take_bit LENGTH('a) (push_bit k (unat x))" by (simp add: unsigned_push_bit_eq)
  also have "\<dots> = unat x * 2 ^ k" using assms by (simp add: push_bit_eq_mult take_bit_eq_mod)
  finally show ?thesis .
qed

text \<open>One stage of \<open>nlz\<close>: a word below \<open>2 ^ (32 - k)\<close> is shifted by \<open>k\<close>.\<close>

lemma nlz_stage:
  fixes x :: "32 word"
  assumes st: "(n', x') = (if x \<le> thr then (n + k, push_bit k x) else (n, x))"
    and x: "unat x = v * 2 ^ n" "2 ^ a \<le> unat x" and thr: "unat thr = 2 ^ b - 1" "b + k = 32" "a + k \<ge> b"
  shows "unat x' = v * 2 ^ n' \<and> 2 ^ b \<le> unat x' \<and> n' \<le> n + k"
proof (cases "x \<le> thr")
  case True
  have "unat x < 2 ^ b" using True thr(1) by (simp add: word_le_nat_alt) (metis Suc_pred less_Suc_eq_le zero_less_numeral zero_less_power)
  then have "unat x * 2 ^ k < 2 ^ 32" using thr(2) by (metis mult_less_mono1 power_add zero_less_numeral zero_less_power)
  then have u: "unat (push_bit k x) = unat x * 2 ^ k" by (intro shift_small) simp
  have "(2 :: nat) ^ b \<le> 2 ^ (a + k)" using thr(3) by (intro power_increasing) auto
  also have "\<dots> \<le> unat x * 2 ^ k" using x(2) by (simp add: power_add)
  finally show ?thesis using True st u x(1) by (simp add: power_add mult.assoc)
next
  case False
  then have "2 ^ b \<le> unat x" using thr(1) by (simp add: word_le_nat_alt)
  then show ?thesis using False st x(1) by simp
qed

lemma nlz_spec:
  assumes "x \<noteq> 0"
  shows "nlz x \<le> 31" and "2 ^ 31 \<le> unat x * 2 ^ nlz x" and "unat x * 2 ^ nlz x < 2 ^ 32"
proof -
  obtain n1 x1 where s1: "(n1, x1) = (if x \<le> 0x0000FFFF then (0 + 16 :: nat, push_bit 16 x) else (0, x))" by (metis prod.exhaust)
  obtain n2 x2 where s2: "(n2, x2) = (if x1 \<le> 0x00FFFFFF then (n1 + 8, push_bit 8 x1) else (n1, x1))" by (metis prod.exhaust)
  obtain n3 x3 where s3: "(n3, x3) = (if x2 \<le> 0x0FFFFFFF then (n2 + 4, push_bit 4 x2) else (n2, x2))" by (metis prod.exhaust)
  obtain n4 x4 where s4: "(n4, x4) = (if x3 \<le> 0x3FFFFFFF then (n3 + 2, push_bit 2 x3) else (n3, x3))" by (metis prod.exhaust)
  have "0 < unat x" using assms by (simp add: unat_gt_0)
  then have i1: "unat x1 = unat x * 2 ^ n1 \<and> 2 ^ 16 \<le> unat x1 \<and> n1 \<le> 0 + 16"
    by (intro nlz_stage [OF s1, where a = 0]) auto
  then have i2: "unat x2 = unat x * 2 ^ n2 \<and> 2 ^ 24 \<le> unat x2 \<and> n2 \<le> n1 + 8"
    by (intro nlz_stage [OF s2, where a = 16]) auto
  then have i3: "unat x3 = unat x * 2 ^ n3 \<and> 2 ^ 28 \<le> unat x3 \<and> n3 \<le> n2 + 4"
    by (intro nlz_stage [OF s3, where a = 24]) auto
  then have i4: "unat x4 = unat x * 2 ^ n4 \<and> 2 ^ 30 \<le> unat x4 \<and> n4 \<le> n3 + 2"
    by (intro nlz_stage [OF s4, where a = 28]) auto
  have eq: "nlz x = (if x4 \<le> 0x7FFFFFFF then n4 + 1 else n4)"
    unfolding nlz_def Let_def s1 [symmetric] prod.case s2 [symmetric] s3 [symmetric] s4 [symmetric] ..
  have lt: "unat x4 < 2 ^ 32" using unsigned_less [of x4, where 'a = nat] by simp
  show "nlz x \<le> 31" using i1 i2 i3 i4 eq by auto
  show "2 ^ 31 \<le> unat x * 2 ^ nlz x" using i4 eq by (auto simp: word_le_nat_alt)
  show "unat x * 2 ^ nlz x < 2 ^ 32" using i4 eq lt by (auto simp: word_le_nat_alt)
qed

section \<open>The correction step\<close>

text \<open>\<open>D\<close> is the divisor with its low bits cleared, so that its quotient is off by at most one.\<close>

lemma quotient_estimate:
  fixes n d v s :: nat
  assumes "s \<le> 31" "2 ^ 31 \<le> v" "v * 2 ^ (32 - s) \<le> d" "d < (v + 1) * 2 ^ (32 - s)" "n < 2 ^ 64"
  shows "n div d \<le> n div (v * 2 ^ (32 - s))" and "n div (v * 2 ^ (32 - s)) \<le> n div d + 1"
proof -
  let ?D = "v * 2 ^ (32 - s)"
  define e where "e = d - ?D"
  have pos: "0 < ?D" using assms(2) by (metis nat_0_less_mult_iff zero_less_numeral zero_less_power order_less_le_trans)
  then show "n div d \<le> n div ?D" using assms(3) by (intro div_le_mono2) auto
  have d: "d = ?D + e" "e + 1 \<le> 2 ^ (32 - s)" using assms(3,4) by (auto simp: e_def)
  let ?q = "n div d"
  show "n div ?D \<le> ?q + 1"
  proof (rule ccontr)
    assume "\<not> ?thesis"
    then have "?q + 2 \<le> n div ?D" by simp
    then have big: "(?q + 2) * ?D \<le> n" using pos by (metis div_times_less_eq_dividend le_trans mult_le_mono1)
    have "n < (?q + 1) * d" using pos assms(3) by (metis Suc_eq_plus1 dividend_less_div_times mult.commute order_less_le_trans mult_Suc add.commute)
    then have "(?q + 2) * ?D < (?q + 1) * (?D + e)" using big d(1) by simp
    then have De: "?D < (?q + 1) * e" by (simp add: algebra_simps)
    have "?D * ?D < (?q + 1) * e * ?D" using De pos by (simp only: mult_less_mono1)
    also have "\<dots> \<le> e * ((?q + 2) * ?D)" by (simp add: algebra_simps)
    also have "\<dots> \<le> e * (2 ^ 64 - 1)" using big assms(5) by (intro mult_le_mono2) simp
    finally have lt: "?D * ?D < e * (2 ^ 64 - 1)" .
    have p: "(2 :: nat) ^ (63 - s) = 2 ^ 31 * 2 ^ (32 - s)"
    proof -
      have "63 - s = 31 + (32 - s)" using assms(1) by simp
      then show ?thesis by (simp only: power_add)
    qed
    have le: "2 ^ (63 - s) \<le> ?D" unfolding p using assms(2) by (rule mult_le_mono1)
    have "126 - 2 * s = (63 - s) + (63 - s)" using assms(1) by simp
    then have "(2 :: nat) ^ (126 - 2 * s) = 2 ^ (63 - s) * 2 ^ (63 - s)" by (simp only: power_add)
    also have "\<dots> \<le> ?D * ?D" using mult_le_mono [OF le le] .
    also have "\<dots> < e * (2 ^ 64 - 1)" by (rule lt)
    also have "\<dots> \<le> e * 2 ^ 64" by (intro mult_le_mono2) simp
    also have "\<dots> \<le> (2 ^ (32 - s) - 1) * 2 ^ 64" using d(2) by (intro mult_le_mono1) linarith
    finally have fin: "(2 :: nat) ^ (126 - 2 * s) < (2 ^ (32 - s) - 1) * 2 ^ 64" .
    show False
    proof (cases "s = 31")
      case True
      then show ?thesis using fin by simp
    next
      case False
      then have "(2 :: nat) ^ (96 - s) \<le> 2 ^ (126 - 2 * s)" using assms(1) by (intro power_increasing) auto
      moreover have "(2 ^ (32 - s) - 1) * 2 ^ 64 \<le> (2 :: nat) ^ (96 - s)"
      proof -
        have "96 - s = (32 - s) + 64" using assms(1) by simp
        then have "(2 :: nat) ^ (96 - s) = 2 ^ (32 - s) * 2 ^ 64" by (simp only: power_add)
        then show ?thesis by (simp add: mult_le_mono1)
      qed
      ultimately show ?thesis using fin by linarith
    qed
  qed
qed


lemma unat_combine:
  "unat (push_bit 32 1 * ucast (x :: 32 word) + ucast (y :: 32 word) :: 64 word) = 2 ^ 32 * unat x + unat y"
proof -
  have "unat x < 2 ^ 32" "unat y < 2 ^ 32" using unsigned_less [of x, where 'a = nat] unsigned_less [of y, where 'a = nat] by simp_all
  then have lt: "2 ^ 32 * unat x + unat y < 2 ^ 64" by simp
  have "push_bit 32 1 * ucast x + ucast y = (of_nat (2 ^ 32 * unat x + unat y) :: 64 word)"
    by (simp add: push_bit_eq_mult)
  then show ?thesis using lt by (simp only: unsigned_of_nat) (simp add: take_bit_eq_mod)
qed

lemma unat_hi: "unat (ucast (drop_bit 32 n) :: 32 word) = unat (n :: 64 word) div 2 ^ 32"
proof -
  have "unat n div 2 ^ 32 < 2 ^ 32" using unsigned_less [of n, where 'a = nat] by (simp add: less_mult_imp_div_less)
  then show ?thesis by (simp add: unsigned_ucast_eq drop_bit_eq_div take_bit_eq_mod unat_div_distrib)
qed

lemma unat_lo: "unat (ucast n :: 32 word) = unat (n :: 64 word) mod 2 ^ 32"
  by (simp add: unsigned_ucast_eq take_bit_eq_mod)

lemma two_digit_division:
  fixes d n1 n0 b :: nat
  assumes "0 < d" "n0 < b"
  shows "(b * n1 + n0) div d = b * (n1 div d) + (b * (n1 mod d) + n0) div d"
    and "(b * (n1 mod d) + n0) div d < b"
proof -
  have "b * n1 + n0 = d * (b * (n1 div d)) + (b * (n1 mod d) + n0)"
    by (metis (no_types, lifting) add.assoc distrib_left mult.left_commute mult_div_mod_eq)
  then show "(b * n1 + n0) div d = b * (n1 div d) + (b * (n1 mod d) + n0) div d"
    using assms(1) by (simp only: div_mult_self2 [OF less_imp_neq [OF assms(1), symmetric]] add.commute)
  have "n1 mod d + 1 \<le> d" using assms(1) by (simp add: Suc_leI)
  then have "b * (n1 mod d + 1) \<le> b * d" by (rule mult_le_mono2)
  then have "b * (n1 mod d) + n0 < b * d" using assms(2) by simp
  then show "(b * (n1 mod d) + n0) div d < b" by (simp add: less_mult_imp_div_less)
qed

lemma udiv64_small:
  assumes "drop_bit 32 d = 0" "d \<noteq> 0"
  shows "udiv64 n d = Inr (n div d)"
proof -
  let ?n1 = "ucast (drop_bit 32 n) :: 32 word" and ?n0 = "ucast n :: 32 word" and ?d0 = "ucast d :: 32 word"
  have "unat (ucast (drop_bit 32 d) :: 32 word) = 0" by (simp only: assms(1)) simp
  then have "unat d div 2 ^ 32 = 0" by (simp only: unat_hi)
  then have d0: "unat ?d0 = unat d" by (simp add: unat_lo div_eq_0_iff)
  have pos: "0 < unat d" using assms(2) by (simp add: unat_gt_0)
  then have nz: "?d0 \<noteq> 0" using d0 by (metis less_irrefl unat_0)
  have b: "unat ?n0 < 2 ^ 32" using unsigned_less [of ?n0, where 'a = nat] by simp
  note tdd = two_digit_division [OF pos b, of "unat ?n1"]
  have q: "unat (push_bit 32 1 * ucast (?n1 mod ?d0) + ucast ?n0 :: 64 word) div unat ?d0
      = (2 ^ 32 * (unat ?n1 mod unat d) + unat ?n0) div unat d"
    by (simp only: unat_combine unat_mod_distrib d0)
  have dl: "divl (push_bit 32 1 * ucast (?n1 mod ?d0) + ucast ?n0) ?d0
      = Inr (of_nat ((2 ^ 32 * (unat ?n1 mod unat d) + unat ?n0) div unat d))"
    using tdd(2) nz by (simp only: divl_def q) simp
  have n: "unat n = 2 ^ 32 * unat ?n1 + unat ?n0" using unat_hi [of n] unat_lo [of n] by simp
  let ?q = "(2 ^ 32 * (unat ?n1 mod unat d) + unat ?n0) div unat d"
  have "unat (of_nat ?q :: 32 word) = ?q" using tdd(2) by (simp add: unsigned_of_nat take_bit_eq_mod)
  then have "unat (push_bit 32 1 * ucast (?n1 div ?d0) + ucast (of_nat ?q :: 32 word) :: 64 word) = unat n div unat d"
    using tdd(1) by (simp only: unat_combine unat_div_distrib d0 n)
  then have "ucast (of_nat ?q :: 32 word) + push_bit 32 1 * ucast (?n1 div ?d0) = n div d"
    by (simp only: word_unat_eq_iff unat_div_distrib add.commute)
  then show ?thesis using assms(1) nz by (simp only: udiv64_def Let_def dl bindr_simps if_True if_False simp_thms)
qed


text \<open>The divisor, normalized so that its highest bit is set.\<close>

lemma normalized_divisor:
  fixes d :: "64 word"
  assumes "drop_bit 32 d \<noteq> 0"
  defines "s \<equiv> nlz (ucast (drop_bit 32 d))" and "v \<equiv> unat (ucast (drop_bit 32 (push_bit (nlz (ucast (drop_bit 32 d))) d)) :: 32 word)"
  shows "s \<le> 31" "2 ^ 31 \<le> v" "v * 2 ^ (32 - s) \<le> unat d" "unat d < (v + 1) * 2 ^ (32 - s)"
proof -
  let ?d1 = "ucast (drop_bit 32 d) :: 32 word"
  have "unat (drop_bit 32 d) < 2 ^ 32"
    using unsigned_less [of d, where 'a = nat] by (simp add: drop_bit_eq_div unat_div_distrib less_mult_imp_div_less)
  then have "unat ?d1 = unat (drop_bit 32 d)" by (simp add: unsigned_ucast_eq take_bit_eq_mod)
  then have nz: "?d1 \<noteq> 0" using assms(1) by (metis unat_0 unsigned_word_eqI)
  show s: "s \<le> 31" unfolding s_def by (rule nlz_spec(1) [OF nz])
  define w where "w = unat d div 2 ^ 32"
  have d1: "unat ?d1 = w" unfolding w_def by (rule unat_hi)
  have lo: "2 ^ 31 \<le> w * 2 ^ s" and hi: "w * 2 ^ s < 2 ^ 32"
    using nlz_spec(2,3) [OF nz] unfolding s_def d1 by simp_all
  have d: "w * 2 ^ 32 \<le> unat d" "unat d < (w + 1) * 2 ^ 32"
    unfolding w_def by (auto simp: dividend_less_div_times div_times_less_eq_dividend)
  have p: "(2 :: nat) ^ 32 = 2 ^ (32 - s) * 2 ^ s" using s by (simp only: power_add [symmetric]) simp
  have "w < 2 ^ (32 - s)" using hi unfolding p by simp
  then have "(w + 1) * 2 ^ s \<le> 2 ^ 32" unfolding p by (intro mult_le_mono1) simp
  then have "((w + 1) * 2 ^ s) * 2 ^ 32 \<le> 2 ^ 32 * 2 ^ 32" by (rule mult_le_mono1)
  moreover have "unat d * 2 ^ s < ((w + 1) * 2 ^ s) * 2 ^ 32" using mult_less_mono1 [OF d(2), of "2 ^ s"] by (simp only: ac_simps zero_less_power zero_less_numeral simp_thms)
  ultimately have lt: "unat d * 2 ^ s < 2 ^ 64" by simp
  have "unat (push_bit s d) = unat d * 2 ^ s"
    using lt by (intro shift_small) simp
  then have v: "v = unat d * 2 ^ s div 2 ^ 32" using unat_hi [of "push_bit s d"] unfolding v_def s_def by simp
  have "w * 2 ^ s * 2 ^ 32 \<le> unat d * 2 ^ s" using mult_le_mono1 [OF d(1), of "2 ^ s"] by (simp add: ac_simps)
  then have "w * 2 ^ s \<le> v" unfolding v by (simp add: less_eq_div_iff_mult_less_eq)
  then show "2 ^ 31 \<le> v" using lo by simp
  have "v * 2 ^ 32 \<le> unat d * 2 ^ s" "unat d * 2 ^ s < (v + 1) * 2 ^ 32"
    unfolding v by (auto simp: dividend_less_div_times div_times_less_eq_dividend)
  then have "(v * 2 ^ (32 - s)) * 2 ^ s \<le> unat d * 2 ^ s" "unat d * 2 ^ s < ((v + 1) * 2 ^ (32 - s)) * 2 ^ s"
    unfolding p by (simp_all only: mult.assoc)
  then show "v * 2 ^ (32 - s) \<le> unat d" "unat d < (v + 1) * 2 ^ (32 - s)" by simp_all
qed

lemma corrected_quotient:
  fixes n d q :: "64 word"
  assumes "d \<le> n" "unat n div unat d \<le> unat q" "unat q \<le> unat n div unat d + 1" "d \<noteq> 0"
  shows "(if n - (q - 1) * d < d then q - 1 else q) = n div d"
proof -
  let ?k = "n div d"
  have k: "unat ?k = unat n div unat d" by (rule unat_div_distrib)
  have n: "n = ?k * d + n mod d" by (rule div_mult_mod_eq [symmetric])
  have md: "n mod d < d" using assms(4) by (simp add: word_mod_less_divisor word_gt_0)
  consider "q = ?k + 1" | "q = ?k"
  proof (cases "unat q = unat ?k")
    case True
    then show ?thesis using that(2) by (simp add: unsigned_word_eqI)
  next
    case False
    then have "unat q = unat ?k + 1" using assms(2,3) k by simp
    then have "q = ?k + 1" by (metis of_nat_1 of_nat_add of_nat_unat ucast_id)
    then show ?thesis using that(1) by simp
  qed
  then show ?thesis
  proof cases
    case 1
    have "n - (q - 1) * d = n mod d" using 1 by (simp add: minus_div_mult_eq_mod)
    then show ?thesis using 1 md by simp
  next
    case 2
    have e: "n - (q - 1) * d = n mod d + d" using 2 n by (simp add: algebra_simps)
    have "0 < unat d" using assms(4) by (simp add: unat_gt_0)
    then have "unat (n mod d) + unat d \<le> unat n"
      using assms(1) unat_mod_distrib [of n d] by (simp add: word_le_nat_alt mod_if [of "unat n"])
        (metis le_mod_geq mod_less_eq_dividend le_diff_conv2 add.commute)
    then have "unat (n mod d) + unat d < 2 ^ LENGTH(64)" using unsigned_less [of n, where 'a = nat] by simp
    then have "unat (n mod d + d) = unat (n mod d) + unat d" by (simp add: unat_add_lem [symmetric])
    then have "\<not> n mod d + d < d" by (simp add: word_less_nat_alt)
    then show ?thesis using 2 e by simp
  qed
qed


lemma udiv64_big:
  assumes "drop_bit 32 d \<noteq> 0" "d \<le> n"
  shows "udiv64 n d = Inr (n div d)"
proof -
  define s where "s = nlz (ucast (drop_bit 32 d))"
  define w where "w = (ucast (drop_bit 32 (push_bit s d)) :: 32 word)"
  note nd = normalized_divisor [OF assms(1), folded s_def, folded w_def]
  define Q where "Q = unat n div 2 div unat w"
  have lt: "unat n < 2 ^ 64" using unsigned_less [of n, where 'a = nat] by simp
  have "unat n div 2 < 2 ^ 63" using lt by simp
  then have "unat n div 2 < 2 ^ 32 * unat w" using nd(2) by simp
  then have q32: "Q < 2 ^ 32" unfolding Q_def by (rule less_mult_imp_div_less)
  have wz: "w \<noteq> 0" using nd(2) by auto
  have half: "unat (drop_bit 1 n) = unat n div 2" by (simp add: drop_bit_eq_div unat_div_distrib)
  have dl: "divl (drop_bit 1 n) w = Inr (of_nat Q)" using q32 wz by (simp only: divl_def half Q_def [symmetric] if_True simp_thms)
  define q where "q = (ucast (drop_bit (31 - s) (of_nat Q :: 32 word)) :: 64 word)"
  have uQ: "unat (of_nat Q :: 32 word) = Q" using q32 by (simp add: unsigned_of_nat take_bit_eq_mod)
  have "unat (drop_bit (31 - s) (of_nat Q :: 32 word)) = Q div 2 ^ (31 - s)"
    by (simp only: unsigned_drop_bit_eq uQ) (use q32 in \<open>simp add: take_bit_eq_mod drop_bit_eq_div\<close>)
  then have uq: "unat q = Q div 2 ^ (31 - s)" unfolding q_def 
    using le_less_trans [OF div_le_dividend q32, of "2 ^ (31 - s)"] by (simp add: unsigned_ucast_eq take_bit_eq_mod)
  have pw: "(2 :: nat) * 2 ^ (31 - s) = 2 ^ (32 - s)" 
  proof -
    have "32 - s = Suc (31 - s)" using nd(1) by simp
    then show ?thesis by (simp only: power_Suc)
  qed
  have "unat q = unat n div (unat w * 2 ^ (32 - s))"
    unfolding uq Q_def by (simp only: div_mult2_eq [symmetric] pw [symmetric] ac_simps)
  then have "(if n - (q - 1) * d < d then q - 1 else q) = n div d"
    using quotient_estimate [OF nd lt] assms by (intro corrected_quotient) (auto simp: not_le)
  then show ?thesis
    using assms by (simp only: udiv64_def Let_def s_def [symmetric] w_def [symmetric] dl bindr_simps if_False q_def [symmetric] not_less [symmetric])
qed

lemma udiv64_correct:
  assumes "d \<noteq> 0"
  shows "udiv64 n d = Inr (n div d)"
proof (cases "drop_bit 32 d = 0")
  case True
  then show ?thesis using assms by (rule udiv64_small)
next
  case False
  show ?thesis
  proof (cases "d \<le> n")
    case True
    then show ?thesis using False by (intro udiv64_big)
  next
    case n: False
    then have "n div d = 0" by (simp add: word_unat_eq_iff unat_div_distrib word_le_nat_alt)
    then show ?thesis using False n by (simp add: udiv64_def not_le)
  qed
qed

lemma udiv64_zero: "udiv64 n 0 = Inl (Panic ''#DE Divide Error'')"
  by (simp add: udiv64_def)


section \<open>Signed division\<close>

lemma sint_nonzero: "(w :: 'a :: len word) \<noteq> 0 \<Longrightarrow> sint w \<noteq> 0"
  by (simp add: signed_eq_0_iff)

lemma abs64_word: "abs64 n = word_of_int \<bar>sint n\<bar>"
  by (simp add: abs64_def)

lemma abs64_uint: "uint (abs64 n) = \<bar>sint n\<bar>"
proof -
  have "\<bar>sint n\<bar> < 2 ^ 64" using sint_lt [of n] sint_ge [of n] by auto
  then show ?thesis unfolding abs64_word by (simp add: unsigned_of_int take_bit_eq_mod)
qed

lemma sdiv64_value:
  assumes "d \<noteq> 0"
  shows "sdiv64 n d = Inr (word_of_int (sint n sdiv sint d))"
proof -
  have sd: "sint d \<noteq> 0" using assms by (rule sint_nonzero)
  then have "abs64 d \<noteq> 0" by (metis abs64_uint abs_0_eq unsigned_0)
  then have "udiv64 (abs64 n) (abs64 d) = Inr (abs64 n div abs64 d)" by (rule udiv64_correct)
  moreover have "abs64 n div abs64 d = word_of_int (\<bar>sint n\<bar> div \<bar>sint d\<bar>)"
    by (simp only: word_div_def abs64_uint)
  ultimately show ?thesis using sd
    by (auto simp: sdiv64_def signed_divide_int_def sgn_if split: if_splits)
qed

lemma sdiv_fits:
  assumes "d \<noteq> 0" and "sint n \<noteq> - (2 ^ 63) \<or> sint d \<noteq> - 1"
  shows "sint (word_of_int (sint n sdiv sint d) :: 64 word) = sint (n :: 64 word) sdiv sint (d :: 64 word)"
proof -
  let ?k = "sint n sdiv sint d"
  have n: "- (2 ^ 63) \<le> sint n" "sint n < 2 ^ 63" using sint_ge [of n] sint_lt [of n] by simp_all
  have sd: "sint d \<noteq> 0" using assms(1) by (rule sint_nonzero)
  have "- (2 ^ 63) \<le> ?k \<and> ?k < 2 ^ 63"
  proof (cases "\<bar>sint d\<bar> = 1")
    case True
    then have "sint d = 1 \<or> sint d = - 1" by linarith
    then show ?thesis using n assms(2) by (auto simp: signed_divide_int_def sgn_if)
  next
    case False
    then have "2 \<le> \<bar>sint d\<bar>" using sd by linarith
    then have "\<bar>sint n\<bar> div \<bar>sint d\<bar> \<le> \<bar>sint n\<bar> div 2" by (intro zdiv_mono2) auto
    then have "\<bar>sint n\<bar> div \<bar>sint d\<bar> < 2 ^ 63" using n by linarith
    moreover have "0 \<le> \<bar>sint n\<bar> div \<bar>sint d\<bar>" by (simp add: pos_imp_zdiv_nonneg_iff sd)
    ultimately show ?thesis by (auto simp: signed_divide_int_def sgn_if)
  qed
  then show ?thesis by (simp add: int_word_sint signed_take_bit_int_eq_self)
qed

lemma umod64_value:
  assumes "d \<noteq> 0"
  shows "umod64 n d = Inr (ucast (n mod d))"
  using assms by (simp add: umod64_def udiv64_correct minus_mult_div_eq_mod)

section \<open>Properties\<close>

text \<open>C32: The 64-bit unsigned division of the kernel gives the quotient for every divisor but zero: the
  32-bit machine division inside it never traps, and its estimate from the normalized divisor is corrected to
  the exact quotient. Division by zero is a divide error.\<close>

theorem udivdi3_correct:
  "udivdi3 n d = (if d = 0 then Inl (Panic ''#DE Divide Error'') else Inr (n div d))"
  by (simp add: udivdi3_def udiv64_correct udiv64_zero)

text \<open>The signed 64-bit division truncates towards zero, for every pair of signs: its result is
  the truncated quotient of the signed values, except for the one quotient that 64 bits cannot represent.\<close>

theorem divdi3_truncates:
  assumes "d \<noteq> 0" and "sint n \<noteq> - (2 ^ 63) \<or> sint d \<noteq> - 1"
  shows "\<exists>q. divdi3 n d = Inr q \<and> sint q = sint n sdiv sint d"
  using assms by (simp add: divdi3_def sdiv64_value sdiv_fits)

theorem divdi3_truncates_witness: "\<exists>q. divdi3 (- 7) 2 = Inr q \<and> sint q = - 3"
  using divdi3_truncates [of 2 "- 7"] by simp

text \<open>C33: The 64-bit remainder operation keeps only 32 bits of the remainder, because the function that
  computes it returns a \<open>uint32_t\<close>: it gives the remainder exactly if the remainder is below \<open>2 ^ 32\<close>.\<close>

theorem umoddi3_truncated:
  assumes "d \<noteq> 0"
  shows "umoddi3 n d = Inr (n mod d) \<longleftrightarrow> n mod d < 2 ^ 32"
proof -
  let ?r = "n mod d"
  have "umoddi3 n d = Inr (ucast (ucast ?r :: 32 word))" using assms by (simp add: umoddi3_def umod64_value)
  moreover have "unat (ucast (ucast ?r :: 32 word) :: 64 word) = unat ?r mod 2 ^ 32"
    using mod_less_divisor [of "2 ^ 32" "unat ?r"]
    by (subst unsigned_ucast_eq, subst unat_lo) (simp add: take_bit_eq_mod)
  moreover have "unat ?r mod 2 ^ 32 = unat ?r \<longleftrightarrow> unat ?r < 2 ^ 32" by (metis mod_less mod_less_divisor zero_less_numeral zero_less_power)
  ultimately show ?thesis by (simp add: word_unat_eq_iff word_less_nat_alt)
qed

theorem umoddi3_truncated_witness:
  "umoddi3 (2 ^ 33 + 5) (2 ^ 40) \<noteq> Inr ((2 ^ 33 + 5) mod 2 ^ 40)"
  using umoddi3_truncated [of "2 ^ 40" "2 ^ 33 + 5"] by simp

end
