(* ===== verification/Strings.thy ===== *)
theory Strings
  imports Vaddr
begin

text \<open>
  The functions of lib/string.c on a memory of bytes, with 32-bit addresses that wrap around.
  A loop with a counter is recursion on the counter; a loop that runs up to a null byte is a partial
  function, which returns \<open>None\<close> if it never meets one. The proofs read a string in memory as
  the list of its bytes.
\<close>

type_synonym memory = "addr \<Rightarrow> 8 word"

section \<open>Blocks of memory\<close>

primrec memcpy_loop :: "memory \<Rightarrow> addr \<Rightarrow> addr \<Rightarrow> nat \<Rightarrow> memory" where
  "memcpy_loop m dst src 0 = m"
| "memcpy_loop m dst src (Suc n) = memcpy_loop (m(dst := m src)) (dst + 1) (src + 1) n"

definition memcpy :: "memory \<Rightarrow> addr \<Rightarrow> addr \<Rightarrow> nat \<Rightarrow> (addr \<times> memory) res" where
  "memcpy m dst src n =
     require (dst \<noteq> 0 \<or> n = 0) ''dst != NULL || size == 0''
     (require (src \<noteq> 0 \<or> n = 0) ''src != NULL || size == 0''
     (Inr (dst, memcpy_loop m dst src n)))"

text \<open>The second loop of \<open>memmove\<close> counts down from the end. The pointer \<open>dst\<close> is the one that both loops have
  moved.\<close>

primrec memmove_down :: "memory \<Rightarrow> addr \<Rightarrow> addr \<Rightarrow> nat \<Rightarrow> memory" where
  "memmove_down m dst src 0 = m"
| "memmove_down m dst src (Suc n) = memmove_down (m(dst - 1 := m (src - 1))) (dst - 1) (src - 1) n"

definition memmove :: "memory \<Rightarrow> addr \<Rightarrow> addr \<Rightarrow> nat \<Rightarrow> (addr \<times> memory) res" where
  "memmove m dst src n =
     require (dst \<noteq> 0 \<or> n = 0) ''dst != NULL || size == 0''
     (require (src \<noteq> 0 \<or> n = 0) ''src != NULL || size == 0''
     (if dst < src then Inr (dst + of_nat n, memcpy_loop m dst src n)
      else let dst' = dst + of_nat n; src' = src + of_nat n
           in Inr (dst' - of_nat n, memmove_down m dst' src' n)))"

primrec memcmp_loop :: "memory \<Rightarrow> addr \<Rightarrow> addr \<Rightarrow> nat \<Rightarrow> int" where
  "memcmp_loop m a b 0 = 0"
| "memcmp_loop m a b (Suc n) =
     (if m a \<noteq> m b then (if m a > m b then 1 else - 1) else memcmp_loop m (a + 1) (b + 1) n)"

definition memcmp :: "memory \<Rightarrow> addr \<Rightarrow> addr \<Rightarrow> nat \<Rightarrow> int res" where
  "memcmp m a b n =
     require (a \<noteq> 0 \<or> n = 0) ''a != NULL || size == 0''
     (require (b \<noteq> 0 \<or> n = 0) ''b != NULL || size == 0''
     (Inr (memcmp_loop m a b n)))"

primrec memchr_loop :: "memory \<Rightarrow> addr \<Rightarrow> 8 word \<Rightarrow> nat \<Rightarrow> addr" where
  "memchr_loop m block ch 0 = 0"
| "memchr_loop m block ch (Suc n) = (if m block = ch then block else memchr_loop m (block + 1) ch n)"

definition memchr :: "memory \<Rightarrow> addr \<Rightarrow> int \<Rightarrow> nat \<Rightarrow> addr res" where
  "memchr m block ch n =
     require (block \<noteq> 0 \<or> n = 0) ''block != NULL || size == 0'' (Inr (memchr_loop m block (word_of_int ch) n))"

primrec memset_loop :: "memory \<Rightarrow> addr \<Rightarrow> 8 word \<Rightarrow> nat \<Rightarrow> memory" where
  "memset_loop m dst v 0 = m"
| "memset_loop m dst v (Suc n) = memset_loop (m(dst := v)) (dst + 1) v n"

definition memset :: "memory \<Rightarrow> addr \<Rightarrow> int \<Rightarrow> nat \<Rightarrow> (addr \<times> memory) res" where
  "memset m dst value n =
     require (dst \<noteq> 0 \<or> n = 0) ''dst != NULL || size == 0'' (Inr (dst, memset_loop m dst (word_of_int value) n))"

section \<open>Strings\<close>

partial_function (option) strcmp_loop :: "memory \<Rightarrow> addr \<Rightarrow> addr \<Rightarrow> int option" where
  "strcmp_loop m a b =
     (if m a \<noteq> 0 \<and> m a = m b then strcmp_loop m (a + 1) (b + 1)
      else Some (if m a < m b then - 1 else if m a > m b then 1 else 0))"

definition strcmp :: "memory \<Rightarrow> addr \<Rightarrow> addr \<Rightarrow> int res option" where
  "strcmp m a b =
     requireo (a \<noteq> 0) ''a != NULL''
     (requireo (b \<noteq> 0) ''b != NULL'' (map_option Inr (strcmp_loop m a b)))"

partial_function (option) strchr_loop :: "memory \<Rightarrow> addr \<Rightarrow> 8 word \<Rightarrow> addr option" where
  "strchr_loop m string c =
     (if m string = c then Some string
      else if m string = 0 then Some 0
      else strchr_loop m (string + 1) c)"

definition strchr :: "memory \<Rightarrow> addr \<Rightarrow> int \<Rightarrow> addr res option" where
  "strchr m string c = requireo (string \<noteq> 0) ''string != NULL'' (map_option Inr (strchr_loop m string (word_of_int c)))"

text \<open>The common loop of \<open>strcspn\<close> and \<open>strspn\<close>: \<open>found\<close> is the outcome of \<open>strchr\<close> that ends it.\<close>

partial_function (option) span_loop :: "memory \<Rightarrow> addr \<Rightarrow> addr \<Rightarrow> bool \<Rightarrow> addr \<Rightarrow> addr res option" where
  "span_loop m string stop found len =
     (if m (string + len) \<noteq> 0 then
        bindo (strchr m stop (sint (m (string + len)))) (\<lambda>p.
          if (p \<noteq> 0) = found then Some (Inr len) else span_loop m string stop found (len + 1))
      else Some (Inr len))"

definition strcspn :: "memory \<Rightarrow> addr \<Rightarrow> addr \<Rightarrow> addr res option" where
  "strcspn m string stop = span_loop m string stop True 0"

definition strspn :: "memory \<Rightarrow> addr \<Rightarrow> addr \<Rightarrow> addr res option" where
  "strspn m string skip = span_loop m string skip False 0"

partial_function (option) strpbrk :: "memory \<Rightarrow> addr \<Rightarrow> addr \<Rightarrow> addr res option" where
  "strpbrk m string stop =
     (if m string \<noteq> 0 then
        bindo (strchr m stop (sint (m string))) (\<lambda>p.
          if p \<noteq> 0 then Some (Inr string) else strpbrk m (string + 1) stop)
      else Some (Inr 0))"

partial_function (option) strrchr_loop :: "memory \<Rightarrow> addr \<Rightarrow> 8 word \<Rightarrow> addr \<Rightarrow> addr option" where
  "strrchr_loop m string c p =
     (if m string \<noteq> 0 then strrchr_loop m (string + 1) c (if m string = c then string else p) else Some p)"

definition strrchr :: "memory \<Rightarrow> addr \<Rightarrow> int \<Rightarrow> addr option" where
  "strrchr m string c = strrchr_loop m string (word_of_int c) 0"

partial_function (option) strlen_loop :: "memory \<Rightarrow> addr \<Rightarrow> addr option" where
  "strlen_loop m p = (if m p \<noteq> 0 then strlen_loop m (p + 1) else Some p)"

definition strlen :: "memory \<Rightarrow> addr \<Rightarrow> nat res option" where
  "strlen m string = requireo (string \<noteq> 0) ''string != NULL''
     (Option.bind (strlen_loop m string) (\<lambda>p. Some (Inr (unat (p - string)))))"

function strnlen_loop :: "memory \<Rightarrow> addr \<Rightarrow> nat \<Rightarrow> nat \<Rightarrow> nat" where
  "strnlen_loop m string maxlen len =
     (if m (string + of_nat len) \<noteq> 0 \<and> len < maxlen then strnlen_loop m string maxlen (len + 1) else len)"
  by pat_completeness auto
termination by (relation "measure (\<lambda>(m, s, maxlen, len). maxlen - len)") auto

definition strnlen :: "memory \<Rightarrow> addr \<Rightarrow> nat \<Rightarrow> nat" where
  "strnlen m string maxlen = strnlen_loop m string maxlen 0"

function strstr_loop :: "memory \<Rightarrow> addr \<Rightarrow> addr \<Rightarrow> nat \<Rightarrow> nat \<Rightarrow> nat \<Rightarrow> addr res" where
  "strstr_loop m haystack needle last_i needle_len i =
     (if i \<le> last_i then
        bindr (memcmp m (haystack + of_nat i) needle needle_len) (\<lambda>c.
          if c = 0 then Inr (haystack + of_nat i) else strstr_loop m haystack needle last_i needle_len (i + 1))
      else Inr 0)"
  by pat_completeness auto
termination by (relation "measure (\<lambda>(m, h, n, last_i, nl, i). Suc last_i - i)") auto

definition strstr :: "memory \<Rightarrow> addr \<Rightarrow> addr \<Rightarrow> addr res option" where
  "strstr m haystack needle =
     bindo (strlen m haystack) (\<lambda>haystack_len.
     bindo (strlen m needle) (\<lambda>needle_len.
       if haystack_len \<ge> needle_len
       then Some (strstr_loop m haystack needle (haystack_len - needle_len) needle_len 0)
       else Some (Inr 0)))"

text \<open>\<open>strtok_r\<close>. The first loop returns the position that it has reached and whether the string ended there.\<close>

partial_function (option) strtok_skip :: "memory \<Rightarrow> addr \<Rightarrow> addr \<Rightarrow> (bool \<times> addr) res option" where
  "strtok_skip m delimiters s =
     bindo (strchr m delimiters (sint (m s))) (\<lambda>p.
       if p \<noteq> 0 then (if m s = 0 then Some (Inr (True, s)) else strtok_skip m delimiters (s + 1))
       else Some (Inr (False, s)))"

partial_function (option) strtok_scan :: "memory \<Rightarrow> addr \<Rightarrow> addr \<Rightarrow> addr res option" where
  "strtok_scan m delimiters s =
     bindo (strchr m delimiters (sint (m s))) (\<lambda>p.
       if p = 0 then strtok_scan m delimiters (s + 1) else Some (Inr s))"

text \<open>\<open>save_ptr\<close> is the value that the pointer designates, \<open>None\<close> for a null pointer. The result has the token, the new
  saved position and the memory.\<close>

definition strtok_r :: "memory \<Rightarrow> addr \<Rightarrow> addr \<Rightarrow> addr option \<Rightarrow> (addr \<times> addr \<times> memory) res option" where
  "strtok_r m s delimiters save_ptr =
     requireo (delimiters \<noteq> 0) ''delimiters != NULL''
     (requireo (save_ptr \<noteq> None) ''save_ptr != NULL''
     (let s = (if s = 0 then the save_ptr else s) in
      requireo (s \<noteq> 0) ''s != NULL''
      (bindo (strtok_skip m delimiters s) (\<lambda>(at_end, s).
       if at_end then Some (Inr (0, s, m))
       else let token = s in
         bindo (strtok_scan m delimiters s) (\<lambda>s.
           if m s \<noteq> 0 then Some (Inr (token, s + 1, m(s := 0))) else Some (Inr (token, s, m)))))))"

text \<open>The loop that the comment of \<open>strtok_r\<close> shows: it collects the tokens of a string.\<close>

partial_function (option) strtok_all :: "memory \<Rightarrow> addr \<Rightarrow> addr \<Rightarrow> addr \<Rightarrow> (addr list \<times> memory) res option" where
  "strtok_all m s delimiters save =
     bindo (strtok_r m s delimiters (Some save)) (\<lambda>(token, save, m).
       if token \<noteq> 0 then bindo (strtok_all m 0 delimiters save) (\<lambda>(ts, m). Some (Inr (token # ts, m)))
       else Some (Inr ([], m)))"

definition strlcpy :: "memory \<Rightarrow> addr \<Rightarrow> addr \<Rightarrow> nat \<Rightarrow> (nat \<times> memory) res option" where
  "strlcpy m dst src n =
     requireo (dst \<noteq> 0) ''dst != NULL''
     (requireo (src \<noteq> 0) ''src != NULL''
     (bindo (strlen m src) (\<lambda>src_len.
       if n > 0 then
         let dst_len = (if src_len < n - 1 then src_len else n - 1) in
         bindo (Some (memcpy m dst src dst_len)) (\<lambda>(_, m). Some (Inr (src_len, m(dst + of_nat dst_len := 0))))
       else Some (Inr (src_len, m)))))"

definition strlcat :: "memory \<Rightarrow> addr \<Rightarrow> addr \<Rightarrow> nat \<Rightarrow> (nat \<times> memory) res option" where
  "strlcat m dst src n =
     requireo (dst \<noteq> 0) ''dst != NULL''
     (requireo (src \<noteq> 0) ''src != NULL''
     (bindo (strlen m src) (\<lambda>src_len.
      bindo (strlen m dst) (\<lambda>dst_len.
       if n > 0 \<and> dst_len < n then
         let copy_cnt = n - dst_len - 1;
             copy_cnt = (if src_len < copy_cnt then src_len else copy_cnt)
         in bindo (Some (memcpy m (dst + of_nat dst_len) src copy_cnt)) (\<lambda>(_, m).
              Some (Inr ((src_len + dst_len) mod SIZE_MOD, m(dst + of_nat (dst_len + copy_cnt) := 0))))
       else Some (Inr ((src_len + dst_len) mod SIZE_MOD, m))))))"

section \<open>Copying\<close>

text \<open>What a copy should leave in memory.\<close>

definition copied :: "memory \<Rightarrow> addr \<Rightarrow> addr \<Rightarrow> nat \<Rightarrow> memory" where
  "copied m dst src n = (\<lambda>a. if unat (a - dst) < n then m (src + (a - dst)) else m a)"

lemma unat_minus_one_shift:
  fixes a d :: addr
  assumes "a \<noteq> d"
  shows "unat (a - (d + 1)) + 1 = unat (a - d)"
proof -
  have "a - d \<noteq> 0" using assms by simp
  then have "unat (a - d) - 1 = unat (a - d - 1)" by (simp add: unat_minus_one)
  moreover have "0 < unat (a - d)" using \<open>a - d \<noteq> 0\<close> by (simp add: unat_gt_0)
  ultimately show ?thesis by (simp add: diff_diff_eq)
qed

lemma memcpy_loop_copied:
  assumes "n \<le> 2 ^ 32" and "dst = src \<or> n \<le> unat (dst - src)"
  shows "memcpy_loop m dst src n = copied m dst src n"
  using assms
proof (induction n arbitrary: m dst src)
  case 0
  show ?case by (simp add: copied_def)
next
  case (Suc n)
  let ?m = "m(dst := m src)"
  have IH: "memcpy_loop ?m (dst + 1) (src + 1) n = copied ?m (dst + 1) (src + 1) n"
    using Suc.prems by (intro Suc.IH) auto
  have "copied ?m (dst + 1) (src + 1) n a = copied m dst src (Suc n) a" for a
  proof (cases "a = dst")
    case True
    have "unat (a - (dst + 1)) = 2 ^ 32 - 1"
      using True by (simp add: unsigned_minus_1_eq_mask mask_eq_exp_minus_1)
    then show ?thesis using True Suc.prems(1) by (simp add: copied_def)
  next
    case False
    note sh = unat_minus_one_shift [OF False]
    have src: "src + 1 + (a - (dst + 1)) = src + (a - dst)" by simp
    have "src + (a - dst) \<noteq> dst" if "unat (a - dst) < Suc n"
    proof
      assume "src + (a - dst) = dst"
      then have "a - dst = dst - src" by (simp add: algebra_simps)
      then show False using Suc.prems(2) that False by auto
    qed
    then show ?thesis using sh False by (simp add: copied_def src)
  qed
  then show ?case using IH by auto
qed

lemma memmove_down_copied:
  assumes "n \<le> 2 ^ 32" and "dst = src \<or> n \<le> unat (src - dst)"
  shows "memmove_down m (dst + of_nat n) (src + of_nat n) n = copied m dst src n"
  using assms
proof (induction n arbitrary: m)
  case 0
  show ?case by (simp add: copied_def)
next
  case (Suc n)
  let ?m = "m(dst + of_nat n := m (src + of_nat n))"
  have IH: "memmove_down ?m (dst + of_nat n) (src + of_nat n) n = copied ?m dst src n"
    using Suc.prems by (intro Suc.IH) auto
  have un: "unat (of_nat n :: addr) = n" using Suc.prems(1) by (simp add: unsigned_of_nat take_bit_eq_mod)
  have "copied ?m dst src n a = copied m dst src (Suc n) a" for a
  proof (cases "a = dst + of_nat n")
    case True
    then show ?thesis using un by (simp add: copied_def)
  next
    case False
    then have ne: "unat (a - dst) \<noteq> n" by (metis add_diff_cancel_left' diff_add_cancel add.commute of_nat_unat ucast_id)
    have "src + (a - dst) \<noteq> dst + of_nat n" if lt: "unat (a - dst) < n"
    proof
      assume "src + (a - dst) = dst + of_nat n"
      then have e: "src - dst = of_nat n - (a - dst)" by (simp add: algebra_simps)
      have "unat (of_nat n - (a - dst)) = n - unat (a - dst)" using lt un by (simp add: unat_sub_if')
      then have "unat (src - dst) = n - unat (a - dst)" by (simp only: e)
      then show False using Suc.prems(2) lt by auto
    qed
    then show ?thesis using ne False by (auto simp: copied_def)
  qed
  then show ?case using IH by (simp add: add.assoc [symmetric] fun_eq_iff)
qed


lemma memmove_value:
  assumes "dst \<noteq> 0" "src \<noteq> 0" "unat dst + n \<le> 2 ^ 32" "unat src + n \<le> 2 ^ 32"
  shows "memmove m dst src n = Inr (if dst < src then dst + of_nat n else dst, copied m dst src n)"
proof (cases "dst < src")
  case True
  then have "unat (dst - src) = 2 ^ 32 + unat dst - unat src" by (simp add: unat_sub_if' word_less_nat_alt)
  then have "memcpy_loop m dst src n = copied m dst src n"
    using assms(3,4) by (intro memcpy_loop_copied) auto
  then show ?thesis using True assms(1,2) by (simp add: memmove_def)
next
  case False
  then have "dst = src \<or> src < dst" by auto
  then have "dst = src \<or> unat (src - dst) = 2 ^ 32 + unat src - unat dst"
    by (auto simp: unat_sub_if' word_less_nat_alt)
  then have "memmove_down m (dst + of_nat n) (src + of_nat n) n = copied m dst src n"
    using assms(3,4) by (intro memmove_down_copied) auto
  then show ?thesis using False assms(1,2) by (simp add: memmove_def)
qed

section \<open>Strings in memory\<close>

text \<open>\<open>cstr m a bs\<close>: the bytes \<open>bs\<close>, none of them null, stand at \<open>a\<close>, followed by a null byte.\<close>

fun cstr :: "memory \<Rightarrow> addr \<Rightarrow> 8 word list \<Rightarrow> bool" where
  "cstr m a [] \<longleftrightarrow> m a = 0"
| "cstr m a (b # bs) \<longleftrightarrow> m a = b \<and> b \<noteq> 0 \<and> cstr m (a + 1) bs"

lemma cstr_append: "cstr m a (bs @ cs) \<longleftrightarrow>
    (\<forall>i < length bs. m (a + of_nat i) = bs ! i \<and> bs ! i \<noteq> 0) \<and> cstr m (a + of_nat (length bs)) cs"
proof (induction bs arbitrary: a)
  case (Cons b bs)
  show ?case by (simp add: Cons.IH All_less_Suc2 add.assoc conj_ac) 
qed simp


lemma cstr_nth:
  assumes "cstr m a bs"
  shows "i < length bs \<Longrightarrow> m (a + of_nat i) = bs ! i \<and> bs ! i \<noteq> 0" and "m (a + of_nat (length bs)) = 0"
  using assms cstr_append [of m a bs "[]"] by auto

lemma cstr_cong:
  assumes "cstr m a bs" and "\<And>i. i \<le> length bs \<Longrightarrow> m' (a + of_nat i) = m (a + of_nat i)"
  shows "cstr m' a bs"
  using assms cstr_append [of m a bs "[]"] cstr_append [of m' a bs "[]"] by simp

lemma cstr_drop: "cstr m a bs \<Longrightarrow> n \<le> length bs \<Longrightarrow> cstr m (a + of_nat n) (drop n bs)"
  using cstr_append [of m a "take n bs" "drop n bs"] by (simp add: min_absorb2)

lemma cstr_length:
  assumes "cstr m a bs"
  shows "length bs < 2 ^ 32"
proof (rule ccontr)
  assume "\<not> ?thesis"
  then have le: "2 ^ 32 \<le> length bs" by simp
  define i where "i = length bs - 2 ^ 32"
  have "(of_nat (length bs) :: addr) = of_nat i + of_nat (2 ^ 32)"
    using le unfolding i_def by (simp only: of_nat_add [symmetric]) simp
  also have "\<dots> = of_nat i" by simp
  finally have "m (a + of_nat i) = 0" using cstr_nth(2) [OF assms] by simp
  moreover have "i < length bs" using le unfolding i_def by (simp add: diff_less)
  ultimately show False using cstr_nth(1) [OF assms] by auto
qed

text \<open>A string that does not wrap around the end of the address space.\<close>

definition string_at :: "memory \<Rightarrow> addr \<Rightarrow> 8 word list \<Rightarrow> bool" where
  "string_at m a bs \<longleftrightarrow> cstr m a bs \<and> a \<noteq> 0 \<and> unat a + length bs < 2 ^ 32"

lemma unat_plus_small: "unat (a :: addr) + n < 2 ^ 32 \<Longrightarrow> unat (a + of_nat n) = unat a + n"
  by (simp add: unat_word_ariths unsigned_of_nat take_bit_eq_mod)

lemma string_at_nonnull:
  assumes "string_at m a bs" "i \<le> length bs"
  shows "a + of_nat i \<noteq> 0"
proof -
  have "unat a \<noteq> 0" using assms(1) by (simp add: string_at_def unat_eq_0)
  moreover have "unat (a + of_nat i) = unat a + i" using assms by (intro unat_plus_small) (simp add: string_at_def)
  ultimately show ?thesis by (metis add_is_0 unat_0)
qed

lemma offset_eq: "i < 2 ^ 32 \<Longrightarrow> j < 2 ^ 32 \<Longrightarrow> (a :: addr) + of_nat i = a + of_nat j \<longleftrightarrow> i = j"
  by (simp add: word_of_nat_eq_iff take_bit_eq_mod)

lemma offset_inj:
  assumes "unat (a :: addr) + i < 2 ^ 32" "unat a + j < 2 ^ 32" "a + of_nat i = a + of_nat j"
  shows "i = j"
  using unat_plus_small [OF assms(1)] unat_plus_small [OF assms(2)] unfolding assms(3) by linarith

lemma string_at_drop:
  assumes "string_at m a bs" "n \<le> length bs"
  shows "string_at m (a + of_nat n) (drop n bs)"
  using assms string_at_nonnull [OF assms] unat_plus_small [of a n] by (auto simp: string_at_def intro: cstr_drop)

lemma string_at_cong:
  assumes "string_at m a bs" and "\<And>i. i \<le> length bs \<Longrightarrow> m' (a + of_nat i) = m (a + of_nat i)"
  shows "string_at m' a bs"
  using assms by (auto simp: string_at_def intro: cstr_cong)

section \<open>Loops up to the null byte\<close>

lemma strlen_loop_value: "cstr m a bs \<Longrightarrow> strlen_loop m a = Some (a + of_nat (length bs))"
proof (induction bs arbitrary: a)
  case Nil
  then show ?case by (subst strlen_loop.simps) simp
next
  case (Cons b bs)
  then show ?case by (subst strlen_loop.simps) (simp add: add.assoc)
qed

lemma strlen_value:
  assumes "cstr m a bs" "a \<noteq> 0"
  shows "strlen m a = Some (Inr (length bs))"
  using strlen_loop_value [OF assms(1)] assms(2) cstr_length [OF assms(1)]
  by (simp add: strlen_def unsigned_of_nat take_bit_eq_mod)

lemma strchr_loop_value:
  "cstr m a bs \<Longrightarrow> strchr_loop m a c =
     Some (if c = 0 \<or> c \<in> set bs then a + of_nat (length (takeWhile (\<lambda>b. b \<noteq> c) bs)) else 0)"
proof (induction bs arbitrary: a)
  case Nil
  then show ?case by (subst strchr_loop.simps) auto
next
  case (Cons b bs)
  then show ?case by (subst strchr_loop.simps) (auto simp: add.assoc)
qed

text \<open>The test \<open>strchr (delimiters, *s) != NULL\<close>.\<close>

lemma strchr_found:
  assumes "string_at m d ds"
  obtains p where "strchr m d (sint c) = Some (Inr p)" "p \<noteq> 0 \<longleftrightarrow> c = 0 \<or> c \<in> set ds"
proof -
  let ?p = "if c = 0 \<or> c \<in> set ds then d + of_nat (length (takeWhile (\<lambda>b. b \<noteq> c) ds)) else 0"
  have "cstr m d ds" "d \<noteq> 0" using assms by (auto simp: string_at_def)
  then have "strchr m d (sint c) = Some (Inr ?p)" by (simp add: strchr_def strchr_loop_value)
  moreover have "?p \<noteq> 0 \<longleftrightarrow> c = 0 \<or> c \<in> set ds"
    using string_at_nonnull [OF assms, of "length (takeWhile (\<lambda>b. b \<noteq> c) ds)"] by (simp add: length_takeWhile_le)
  ultimately show thesis by (rule that)
qed


text \<open>The order of strings that \<open>strcmp\<close> decides: bytewise, as unsigned numbers, a prefix first.\<close>

fun byte_order :: "8 word list \<Rightarrow> 8 word list \<Rightarrow> int" where
  "byte_order [] [] = 0"
| "byte_order [] (y # ys) = - 1"
| "byte_order (x # xs) [] = 1"
| "byte_order (x # xs) (y # ys) = (if x < y then - 1 else if x > y then 1 else byte_order xs ys)"

lemma strcmp_loop_value: "cstr m a xs \<Longrightarrow> cstr m b ys \<Longrightarrow> strcmp_loop m a b = Some (byte_order xs ys)"
proof (induction xs ys arbitrary: a b rule: byte_order.induct)
  case (4 x xs y ys)
  then show ?case by (subst strcmp_loop.simps) auto
qed (subst strcmp_loop.simps, auto simp: word_gt_0)+

lemma byte_order_zero: "byte_order xs ys = 0 \<longleftrightarrow> xs = ys"
  by (induction xs ys rule: byte_order.induct) auto

lemma byte_order_antisym: "byte_order ys xs = - byte_order xs ys"
  by (induction xs ys rule: byte_order.induct) auto

lemma memset_loop_value:
  assumes "n \<le> 2 ^ 32"
  shows "memset_loop m dst v n = (\<lambda>a. if unat (a - dst) < n then v else m a)"
  using assms
proof (induction n arbitrary: m dst)
  case (Suc n)
  have "(if unat (a - (dst + 1)) < n then v else (m(dst := v)) a) = (if unat (a - dst) < Suc n then v else m a)" for a
  proof (cases "a = dst")
    case False
    then show ?thesis using unat_minus_one_shift [OF False] by auto
  qed simp
  then show ?case using Suc by simp
qed simp

section \<open>Tokens\<close>

lemma strtok_skip_value:
  assumes "string_at m d ds"
  shows "cstr m s bs \<Longrightarrow> strtok_skip m d s =
     Some (Inr (dropWhile (\<lambda>b. b \<in> set ds) bs = [], s + of_nat (length (takeWhile (\<lambda>b. b \<in> set ds) bs))))"
proof (induction bs arbitrary: s)
  case Nil
  obtain p where "strchr m d (sint (m s)) = Some (Inr p)" "p \<noteq> 0 \<longleftrightarrow> m s = 0 \<or> m s \<in> set ds"
    using strchr_found [OF assms] .
  then show ?case using Nil by (subst strtok_skip.simps) simp
next
  case (Cons b bs)
  obtain p where "strchr m d (sint (m s)) = Some (Inr p)" "p \<noteq> 0 \<longleftrightarrow> m s = 0 \<or> m s \<in> set ds"
    using strchr_found [OF assms] .
  then show ?case using Cons by (subst strtok_skip.simps) (auto simp: add.assoc)
qed

lemma strtok_scan_value:
  assumes "string_at m d ds"
  shows "cstr m s bs \<Longrightarrow> strtok_scan m d s = Some (Inr (s + of_nat (length (takeWhile (\<lambda>b. b \<notin> set ds) bs))))"
proof (induction bs arbitrary: s)
  case Nil
  obtain p where "strchr m d (sint (m s)) = Some (Inr p)" "p \<noteq> 0 \<longleftrightarrow> m s = 0 \<or> m s \<in> set ds"
    using strchr_found [OF assms] .
  then show ?case using Nil by (subst strtok_scan.simps) simp
next
  case (Cons b bs)
  obtain p where "strchr m d (sint (m s)) = Some (Inr p)" "p \<noteq> 0 \<longleftrightarrow> m s = 0 \<or> m s \<in> set ds"
    using strchr_found [OF assms] .
  then show ?case using Cons by (subst strtok_scan.simps) (auto simp: add.assoc)
qed

text \<open>The tokens of a list of bytes.\<close>

function tokens :: "8 word set \<Rightarrow> 8 word list \<Rightarrow> 8 word list list" where
  "tokens D bs = (case dropWhile (\<lambda>b. b \<in> D) bs of [] \<Rightarrow> []
     | c # cs \<Rightarrow> takeWhile (\<lambda>b. b \<notin> D) (c # cs) # tokens D (tl (dropWhile (\<lambda>b. b \<notin> D) (c # cs))))"
  by pat_completeness auto
termination
proof (relation "measure (\<lambda>(D, bs). length bs)")
  fix D :: "8 word set" and bs c cs
  assume eq: "dropWhile (\<lambda>b. b \<in> D) bs = c # cs"
  then have "c \<notin> D" using hd_dropWhile [of "\<lambda>b. b \<in> D" bs] by auto
  then have "length (dropWhile (\<lambda>b. b \<notin> D) (c # cs)) \<le> length cs" by (simp add: length_dropWhile_le)
  moreover have "Suc (length cs) \<le> length bs" using length_dropWhile_le [of "\<lambda>b. b \<in> D" bs] eq by simp
  ultimately show "((D, tl (dropWhile (\<lambda>b. b \<notin> D) (c # cs))), D, bs) \<in> measure (\<lambda>(D, bs). length bs)" by simp
qed simp

declare tokens.simps [simp del]

text \<open>One call of \<open>strtok_r\<close> at the position \<open>q\<close>, where the rest \<open>bs\<close> of the string begins.\<close>

lemma strtok_r_at:
  assumes "q = (if s = 0 then sv else s)" "d \<noteq> 0" "q \<noteq> 0"
  shows "strtok_r m s d (Some sv) = bindo (strtok_skip m d q) (\<lambda>(at_end, s).
       if at_end then Some (Inr (0, s, m))
       else bindo (strtok_scan m d s) (\<lambda>s'.
           if m s' \<noteq> 0 then Some (Inr (s, s' + 1, m(s' := 0))) else Some (Inr (s, s', m))))"
  using assms unfolding strtok_r_def Let_def by auto

lemma strtok_r_end:
  assumes "string_at m d ds" "string_at m q bs" "q = (if s = 0 then sv else s)" "dropWhile (\<lambda>b. b \<in> set ds) bs = []"
  shows "strtok_r m s d (Some sv) = Some (Inr (0, q + of_nat (length bs), m))"
proof -
  have "length (takeWhile (\<lambda>b. b \<in> set ds) bs) = length bs" using assms(4) by (simp add: takeWhile_eq_all_conv [THEN iffD2])
  moreover have "cstr m q bs" "q \<noteq> 0" "d \<noteq> 0" using assms(1,2) by (auto simp: string_at_def)
  ultimately show ?thesis
    using strtok_skip_value [OF assms(1), of q bs]
    by (simp add: strtok_r_at [OF assms(3)] assms(4))
qed

lemma strtok_r_token:
  assumes d: "string_at m d ds" and q: "string_at m q bs" "q = (if s = 0 then sv else s)"
    and ne: "dropWhile (\<lambda>b. b \<in> set ds) bs \<noteq> []"
  defines "k \<equiv> length (takeWhile (\<lambda>b. b \<in> set ds) bs)" and "w \<equiv> takeWhile (\<lambda>b. b \<notin> set ds) (dropWhile (\<lambda>b. b \<in> set ds) bs)"
    and "rest \<equiv> dropWhile (\<lambda>b. b \<notin> set ds) (dropWhile (\<lambda>b. b \<in> set ds) bs)"
  shows "strtok_r m s d (Some sv) = Some (Inr (q + of_nat k,
      if rest = [] then (q + of_nat (k + length w), m)
      else (q + of_nat (k + length w + 1), m(q + of_nat (k + length w) := 0))))"
    and "length bs = k + length w + length rest" "w \<noteq> []"
proof -
  show len: "length bs = k + length w + length rest"
    unfolding k_def w_def rest_def by (simp add: length_append [symmetric] add.assoc del: length_append)
  have "hd (dropWhile (\<lambda>b. b \<in> set ds) bs) \<notin> set ds" using hd_dropWhile [OF ne] .
  then show "w \<noteq> []" using ne unfolding w_def by (cases "dropWhile (\<lambda>b. b \<in> set ds) bs") auto
  have c: "cstr m q bs" "q \<noteq> 0" "d \<noteq> 0" using d q by (auto simp: string_at_def)
  have "bs = takeWhile (\<lambda>b. b \<in> set ds) bs @ dropWhile (\<lambda>b. b \<in> set ds) bs" by simp
  then have c': "cstr m (q + of_nat k) (dropWhile (\<lambda>b. b \<in> set ds) bs)"
    using cstr_append [of m q "takeWhile (\<lambda>b. b \<in> set ds) bs" "dropWhile (\<lambda>b. b \<in> set ds) bs"] c(1) unfolding k_def by simp
  then have "cstr m (q + of_nat k + of_nat (length w)) rest"
    using cstr_append [of m "q + of_nat k" w rest] unfolding w_def rest_def by simp
  then have "m (q + of_nat (k + length w)) = 0 \<longleftrightarrow> rest = []" by (cases rest) (auto simp: add.assoc)
  then show "strtok_r m s d (Some sv) = Some (Inr (q + of_nat k,
      if rest = [] then (q + of_nat (k + length w), m)
      else (q + of_nat (k + length w + 1), m(q + of_nat (k + length w) := 0))))"
    using c ne strtok_skip_value [OF d c(1), folded k_def] strtok_scan_value [OF d c', folded w_def]
    by (auto simp: strtok_r_at [OF q(2)] ac_simps)
qed


lemma string_at_write:
  assumes "string_at m a bs" "\<And>i. i \<le> length bs \<Longrightarrow> a + of_nat i \<noteq> x"
  shows "string_at (m(x := v)) a bs"
  using assms by (intro string_at_cong [OF assms(1)]) auto

lemma cstr_prefix:
  assumes "cstr m a (w @ rest)"
  shows "cstr (m(a + of_nat (length w) := 0)) a w"
proof -
  have lt: "length (w @ rest) < 2 ^ 32" using cstr_length [OF assms] .
  have "a + of_nat i \<noteq> a + of_nat (length w)" if "i < length w" for i
  proof
    assume "a + of_nat i = a + of_nat (length w)"
    then have "i = length w" using that lt by (intro offset_eq [THEN iffD1]) auto
    then show False using that by simp
  qed
  then show ?thesis using assms cstr_append [of m a w rest] cstr_append [of "m(a + of_nat (length w) := 0)" a w "[]"] by simp
qed

lemma drop_after: "drop k bs = w @ rest \<Longrightarrow> drop (k + length w + 1) bs = tl rest"
proof -
  assume "drop k bs = w @ rest"
  moreover have "drop (k + length w + 1) bs = drop 1 (drop (length w) (drop k bs))" by (simp add: ac_simps)
  ultimately show ?thesis by (simp add: drop_Suc)
qed

lemma tokens_end: "dropWhile (\<lambda>b. b \<in> D) bs = [] \<Longrightarrow> tokens D bs = []"
  by (subst tokens.simps) (erule ssubst, simp)

lemma strtok_step:
  assumes d: "string_at m d ds" and q: "string_at m q bs" and qs: "q = (if s = 0 then sv else s)"
    and dis: "\<And>i j. i \<le> length bs \<Longrightarrow> j \<le> length ds \<Longrightarrow> q + of_nat i \<noteq> d + of_nat j"
    and ne: "dropWhile (\<lambda>b. b \<in> set ds) bs \<noteq> []"
  obtains k j w bs' m' where "strtok_r m s d (Some sv) = Some (Inr (q + of_nat k, q + of_nat j, m'))"
    "tokens (set ds) bs = w # tokens (set ds) bs'" "k + length w \<le> length bs" "k + length w \<le> j" "j + length bs' \<le> length bs"
    "length bs' < length bs" "bs' = [] \<or> k + length w < j"
    "string_at m' (q + of_nat k) w" "string_at m' (q + of_nat j) bs'" "string_at m' d ds"
    "\<And>a. (\<And>i. i < length bs \<Longrightarrow> a \<noteq> q + of_nat i) \<Longrightarrow> m' a = m a"
proof -
  define k where "k = length (takeWhile (\<lambda>b. b \<in> set ds) bs)"
  define w where "w = takeWhile (\<lambda>b. b \<notin> set ds) (dropWhile (\<lambda>b. b \<in> set ds) bs)"
  define rest where "rest = dropWhile (\<lambda>b. b \<notin> set ds) (dropWhile (\<lambda>b. b \<in> set ds) bs)"
  note tok = strtok_r_token [OF d q qs ne, folded k_def w_def rest_def]
  have toks: "tokens (set ds) bs = w # tokens (set ds) (tl rest)"
    unfolding w_def rest_def by (subst tokens.simps) (use ne in \<open>simp split: list.split\<close>)
  have bs: "drop k bs = w @ rest" unfolding k_def w_def rest_def dropWhile_eq_drop [symmetric] by simp
  let ?n = "k + length w"
  have range: "unat q + length bs < 2 ^ 32" using q by (simp add: string_at_def)
  define j where "j = (if rest = [] then ?n else ?n + 1)"
  define m1 where "m1 = (if rest = [] then m else m(q + of_nat ?n := 0))"
  have call: "strtok_r m s d (Some sv) = Some (Inr (q + of_nat k, q + of_nat j, m1))"
    unfolding tok(1) j_def m1_def by (cases "rest = []") (simp_all only: if_True if_False simp_thms)
  have d1: "string_at m1 d ds" using d dis [of ?n] tok(2) unfolding m1_def by (auto intro!: string_at_write dest: not_sym)
  have after: "drop (?n + 1) bs = tl rest" using bs by (rule drop_after)
  have len: "length (tl rest) + ?n + 1 \<le> length bs" if "rest \<noteq> []" using that tok(2) by (cases rest) auto
  have q1: "string_at m1 (q + of_nat j) (tl rest)"
  proof (cases "rest = []")
    case True
    then show ?thesis using string_at_drop [OF q, of ?n] tok(2) by (simp add: j_def m1_def)
  next
    case False
    have "string_at m (q + of_nat j) (tl rest)"
      using string_at_drop [OF q, of "?n + 1"] len [OF False] False after by (simp add: j_def)
    moreover have "q + of_nat j + of_nat i \<noteq> q + of_nat ?n" if "i \<le> length (tl rest)" for i
    proof
      assume "q + of_nat j + of_nat i = q + of_nat ?n"
      then have "q + of_nat (j + i) = q + of_nat ?n" by (simp add: add.assoc)
      then have "j + i = ?n" using that len [OF False] range False by (intro offset_inj [of q]) (auto simp: j_def)
      then show False using False by (simp add: j_def)
    qed
    ultimately show ?thesis using False by (simp only: m1_def if_False) (rule string_at_write)
  qed
  have t1: "string_at m1 (q + of_nat k) w"
  proof -
    have st: "string_at m (q + of_nat k) (w @ rest)" using string_at_drop [OF q, of k] tok(2) bs by simp
    then have "cstr m1 (q + of_nat k) w"
      using cstr_prefix [of m "q + of_nat k" w rest] by (cases "rest = []") (auto simp: m1_def string_at_def add.assoc)
    then show ?thesis using st by (auto simp: string_at_def)
  qed
  have keep: "m1 a = m a" if "\<And>i. i < length bs \<Longrightarrow> a \<noteq> q + of_nat i" for a
  proof (cases "rest = []")
    case False
    then have "?n < length bs" using tok(2) by simp
    then show ?thesis using that [of ?n] by (auto simp: m1_def)
  qed (simp add: m1_def)
  have b: "k + length w \<le> length bs" "k + length w \<le> j" "tl rest = [] \<or> k + length w < j" using tok(2) by (auto simp: j_def)
  have l: "j + length (tl rest) \<le> length bs" using tok(2) len by (cases "rest = []") (auto simp: j_def)
  have "length (tl rest) < length bs" using tok(2,3) by (cases rest) auto
  from that [OF call toks b(1,2) l this b(3) t1 q1 d1 keep] show thesis .
qed

lemma strtok_all_correct:
  assumes "string_at m d ds" "string_at m q bs" "q = (if s = 0 then sv else s)"
    and "\<And>i j. i \<le> length bs \<Longrightarrow> j \<le> length ds \<Longrightarrow> q + of_nat i \<noteq> d + of_nat j"
  shows "\<exists>ts m'. strtok_all m s d sv = Some (Inr (ts, m')) \<and> list_all2 (string_at m') ts (tokens (set ds) bs)
    \<and> (\<forall>a. (\<forall>i < length bs. a \<noteq> q + of_nat i) \<longrightarrow> m' a = m a)"
  using assms
proof (induction "length bs" arbitrary: m q bs s sv rule: less_induct)
  case less
  show ?case
  proof (cases "dropWhile (\<lambda>b. b \<in> set ds) bs = []")
    case True
    then have "strtok_all m s d sv = Some (Inr ([], m))"
      using strtok_r_end [OF less.prems(1-3) True] by (subst strtok_all.simps) simp
    then show ?thesis using tokens_end [OF True] by auto
  next
    case False
    obtain k j w bs' m1 where call: "strtok_r m s d (Some sv) = Some (Inr (q + of_nat k, q + of_nat j, m1))"
      and toks: "tokens (set ds) bs = w # tokens (set ds) bs'"
      and len: "k + length w \<le> length bs" "j + length bs' \<le> length bs" "length bs' < length bs" "bs' = [] \<or> k + length w < j"
      and str: "string_at m1 (q + of_nat k) w" "string_at m1 (q + of_nat j) bs'" "string_at m1 d ds"
      and keep: "\<And>a. (\<And>i. i < length bs \<Longrightarrow> a \<noteq> q + of_nat i) \<Longrightarrow> m1 a = m a"
      by (rule strtok_step [OF less.prems False]) auto
    have range: "unat q + length bs < 2 ^ 32" using less.prems(2) by (simp add: string_at_def)
    let ?t = "q + of_nat k" and ?q = "q + of_nat j"
    have ofs: "?q + of_nat i = q + of_nat (j + i)" "?t + of_nat i = q + of_nat (k + i)" for i by (simp_all add: add.assoc)
    have dis: "?q + of_nat i \<noteq> d + of_nat l" if "i \<le> length bs'" "l \<le> length ds" for i l
      unfolding ofs using that len(2) by (intro less.prems(4)) auto
    obtain ts m' where IH: "strtok_all m1 0 d ?q = Some (Inr (ts, m'))" "list_all2 (string_at m') ts (tokens (set ds) bs')"
        "\<forall>a. (\<forall>i < length bs'. a \<noteq> ?q + of_nat i) \<longrightarrow> m' a = m1 a"
      using less.hyps [OF len(3) str(3,2), of 0 ?q] dis by auto
    have "string_at m' ?t w"
    proof (rule string_at_cong [OF str(1)])
      fix i assume i: "i \<le> length w"
      have "?t + of_nat i \<noteq> ?q + of_nat l" if "l < length bs'" for l
      proof
        assume "?t + of_nat i = ?q + of_nat l"
        then have "k + i = j + l" unfolding ofs using i that len range by (intro offset_inj [of q]) auto
        then show False using i that len(4) by auto
      qed
      then show "m' (?t + of_nat i) = m1 (?t + of_nat i)" using IH(3) by blast
    qed
    moreover have "strtok_all m s d sv = Some (Inr (?t # ts, m'))"
      using call IH(1) string_at_nonnull [OF less.prems(2), of k] len(1) by (subst strtok_all.simps) simp
    moreover have "m' a = m a" if a: "\<forall>i < length bs. a \<noteq> q + of_nat i" for a
    proof -
      have "a \<noteq> ?q + of_nat i" if "i < length bs'" for i
      proof -
        have "j + i < length bs" using that len(2) by simp
        then show ?thesis unfolding ofs using a by blast
      qed
      then show ?thesis using IH(3) keep a by auto
    qed
    ultimately show ?thesis using IH(2) toks by auto
  qed
qed

lemma tokens_correct:
  "(\<forall>w \<in> set (tokens D bs). w \<noteq> [] \<and> set w \<inter> D = {}) \<and> concat (tokens D bs) = filter (\<lambda>b. b \<notin> D) bs"
proof (induction D bs rule: tokens.induct)
  case (1 D bs)
  have skip: "filter (\<lambda>b. b \<notin> D) bs = filter (\<lambda>b. b \<notin> D) (dropWhile (\<lambda>b. b \<in> D) bs)" by (induction bs) auto
  show ?case
  proof (cases "dropWhile (\<lambda>b. b \<in> D) bs")
    case Nil
    then have "tokens D bs = []" unfolding tokens.simps [of D bs] Nil by simp
    then show ?thesis using skip Nil by simp
  next
    case (Cons c cs)
    let ?w = "takeWhile (\<lambda>b. b \<notin> D) (c # cs)" and ?r = "dropWhile (\<lambda>b. b \<notin> D) (c # cs)"
    note IH = 1 [OF Cons]
    have c: "c \<notin> D" using hd_dropWhile [of "\<lambda>b. b \<in> D" bs] Cons by auto
    have eq: "tokens D bs = ?w # tokens D (tl ?r)" by (subst tokens.simps) (simp add: Cons)
    have "filter (\<lambda>b. b \<notin> D) (tl ?r) = filter (\<lambda>b. b \<notin> D) ?r"
      by (cases ?r) (use hd_dropWhile [of "\<lambda>b. b \<notin> D" "c # cs"] in auto)
    moreover have "filter (\<lambda>b. b \<notin> D) ?w = ?w" by (simp add: filter_id_conv) (use set_takeWhileD in fastforce)
    moreover have "filter (\<lambda>b. b \<notin> D) (c # cs) = filter (\<lambda>b. b \<notin> D) ?w @ filter (\<lambda>b. b \<notin> D) ?r"
      by (metis filter_append takeWhile_dropWhile_id)
    ultimately have "concat (tokens D bs) = filter (\<lambda>b. b \<notin> D) bs" using IH Cons skip eq by simp
    moreover have "?w \<noteq> []" "set ?w \<inter> D = {}" using c by (auto dest: set_takeWhileD)
    ultimately show ?thesis using IH eq by simp
  qed
qed

section \<open>Bounded copies of strings\<close>

lemma copied_string:
  assumes "cstr m src bs" and k: "k \<le> length bs"
  shows "cstr ((copied m dst src k)(dst + of_nat k := 0)) dst (take k bs)"
proof -
  have lt: "length bs < 2 ^ 32" using cstr_length [OF assms(1)] .
  have "((copied m dst src k)(dst + of_nat k := 0)) (dst + of_nat i) = bs ! i \<and> bs ! i \<noteq> 0" if i: "i < k" for i
  proof -
    have "unat (of_nat i :: addr) = i" using i k lt by (simp add: unsigned_of_nat take_bit_eq_mod)
    moreover have "dst + of_nat i \<noteq> dst + of_nat k" using i k lt offset_eq [of i k dst] by auto
    ultimately show ?thesis using cstr_nth(1) [OF assms(1), of i] i k by (simp add: copied_def)
  qed
  then show ?thesis using k cstr_append [of "(copied m dst src k)(dst + of_nat k := 0)" dst "take k bs" "[]"]
    by (simp add: min_absorb2)
qed

lemma strlcpy_value:
  assumes src: "string_at m src bs" and dst: "dst \<noteq> 0"
    and dis: "\<And>i j. i < n \<Longrightarrow> j \<le> length bs \<Longrightarrow> dst + of_nat i \<noteq> src + of_nat j"
  shows "n = 0 \<Longrightarrow> strlcpy m dst src n = Some (Inr (length bs, m))"
    and "0 < n \<Longrightarrow> strlcpy m dst src n = Some (Inr (length bs,
      (copied m dst src (min (length bs) (n - 1)))(dst + of_nat (min (length bs) (n - 1)) := 0)))"
proof -
  have s: "cstr m src bs" "src \<noteq> 0" using src by (auto simp: string_at_def)
  note len = strlen_value [OF s]
  then show "n = 0 \<Longrightarrow> strlcpy m dst src n = Some (Inr (length bs, m))" using s dst by (simp add: strlcpy_def)
  assume n: "0 < n"
  let ?k = "min (length bs) (n - 1)"
  have "?k \<le> unat (dst - src)"
  proof (rule ccontr)
    assume "\<not> ?thesis"
    then have "unat (dst - src) \<le> length bs" by simp
    then have "dst + of_nat 0 \<noteq> src + of_nat (unat (dst - src))" using n by (intro dis)
    then show False by simp
  qed
  then have "memcpy_loop m dst src ?k = copied m dst src ?k"
    using cstr_length [OF s(1)] by (intro memcpy_loop_copied) auto
  then show "strlcpy m dst src n = Some (Inr (length bs, (copied m dst src ?k)(dst + of_nat ?k := 0)))"
    using n s dst len
    by (cases "length bs < n - 1") (simp_all add: strlcpy_def memcpy_def Let_def min_absorb1 min_absorb2)
qed


section \<open>Properties\<close>

definition bytes_at :: "addr \<Rightarrow> 8 word list \<Rightarrow> memory \<Rightarrow> memory" where
  "bytes_at a bs m = (\<lambda>x. if unat (x - a) < length bs then bs ! unat (x - a) else m x)"

text \<open>C34: \<open>memmove\<close> moves a block of memory correctly also when source and destination overlap: afterwards
  the destination holds the bytes that the source held before the call, and nothing else has
  changed. Its return value, however, is the end of the destination when the destination is below the source, and not
  the destination.\<close>

theorem memmove_correct:
  assumes "dst \<noteq> 0" "src \<noteq> 0" "unat dst + n \<le> 2 ^ 32" "unat src + n \<le> 2 ^ 32"
  shows "\<exists>m'. memmove m dst src n = Inr (if dst < src then dst + of_nat n else dst, m')
    \<and> (\<forall>i < n. m' (dst + of_nat i) = m (src + of_nat i))
    \<and> (\<forall>a. a < dst \<or> unat dst + n \<le> unat a \<longrightarrow> m' a = m a)"
proof (intro exI conjI)
  show "memmove m dst src n = Inr (if dst < src then dst + of_nat n else dst, copied m dst src n)"
    by (rule memmove_value [OF assms])
  show "\<forall>i < n. copied m dst src n (dst + of_nat i) = m (src + of_nat i)"
    using assms(3) by (auto simp: copied_def unsigned_of_nat take_bit_eq_mod)
  show "\<forall>a. a < dst \<or> unat dst + n \<le> unat a \<longrightarrow> copied m dst src n a = m a"
    using assms(3) by (auto simp: copied_def unat_sub_if' word_less_nat_alt)
qed

theorem memmove_correct_witness:
  "\<exists>m'. memmove (\<lambda>a. ucast a) 0x1000 0x1002 4 = Inr (0x1004, m')
    \<and> (\<forall>i < 4. m' (0x1000 + of_nat i) = ucast (0x1002 + of_nat i :: addr))"
  using memmove_correct [of "0x1000" "0x1002" 4 "\<lambda>a. ucast a"] by auto

text \<open>C35: Tokenizing a string with repeated calls of \<open>strtok_r\<close> ends, and yields pointers to exactly the tokens of the
  string: the maximal runs of bytes that are not delimiters, in order, each of them a null-terminated string in the
  final memory. They are not empty, contain no delimiter, and together they are all the bytes of the string that
  are not delimiters. Only bytes of the string have been changed.\<close>

theorem strtok_r_tokens:
  assumes "string_at m d ds" "string_at m s bs"
    and "\<And>i j. i \<le> length bs \<Longrightarrow> j \<le> length ds \<Longrightarrow> s + of_nat i \<noteq> d + of_nat j"
  shows "\<exists>ts m' ws. strtok_all m s d sv = Some (Inr (ts, m')) \<and> list_all2 (string_at m') ts ws
    \<and> (\<forall>w \<in> set ws. w \<noteq> [] \<and> set w \<inter> set ds = {}) \<and> concat ws = filter (\<lambda>b. b \<notin> set ds) bs
    \<and> ws = tokens (set ds) bs \<and> (\<forall>a. (\<forall>i < length bs. a \<noteq> s + of_nat i) \<longrightarrow> m' a = m a)"
proof -
  have "s = (if s = 0 then sv else s)" using assms(2) by (simp add: string_at_def)
  from strtok_all_correct [OF assms(1,2) this assms(3)] tokens_correct [of "set ds" bs] show ?thesis by blast
qed

theorem strtok_r_tokens_witness:
  "\<exists>ts m'. strtok_all (bytes_at 0x1000 [32, 97, 98, 32, 32, 99, 0] (bytes_at 0x2000 [32, 0] (\<lambda>a. 0))) 0x1000 0x2000 0
      = Some (Inr (ts, m')) \<and> list_all2 (string_at m') ts [[97, 98], [99]]"
proof -
  let ?m = "bytes_at 0x1000 [32, 97, 98, 32, 32, 99, 0] (bytes_at 0x2000 [32, 0] (\<lambda>a. 0))"
  have tk: "tokens {32} [32, 97, 98, 32, 32, 99] = [[97, 98], [99]]"
    by (simp add: tokens.simps)
  have "\<exists>ts m' ws. strtok_all ?m 0x1000 0x2000 0 = Some (Inr (ts, m')) \<and> list_all2 (string_at m') ts ws
    \<and> (\<forall>w \<in> set ws. w \<noteq> [] \<and> set w \<inter> set [32] = {}) \<and> concat ws = filter (\<lambda>b. b \<notin> set [32]) [32, 97, 98, 32, 32, 99]
    \<and> ws = tokens (set [32]) [32, 97, 98, 32, 32, 99]
    \<and> (\<forall>a. (\<forall>i < length [32, 97, 98, 32, 32, 99 :: 8 word]. a \<noteq> 0x1000 + of_nat i) \<longrightarrow> m' a = ?m a)"
  proof (rule strtok_r_tokens)
    show "string_at ?m 0x2000 [32]" "string_at ?m 0x1000 [32, 97, 98, 32, 32, 99]"
      by (simp_all add: string_at_def bytes_at_def)
    fix i j assume ij: "i \<le> length [32, 97, 98, 32, 32, 99 :: 8 word]" "j \<le> length [32 :: 8 word]"
    then have "unat (0x1000 + of_nat i :: addr) = 0x1000 + i" "unat (0x2000 + of_nat j :: addr) = 0x2000 + j"
      by (simp_all add: unat_plus_small)
    moreover have "0x1000 + i \<noteq> 0x2000 + j" using ij by simp
    ultimately show "0x1000 + of_nat i \<noteq> (0x2000 + of_nat j :: addr)" by metis
  qed
  then show ?thesis using tk by auto
qed

text \<open>\<open>strlcpy\<close> never writes outside the destination buffer of \<open>n\<close> bytes. If the buffer has any room, it
  leaves a null-terminated string there, the longest prefix of the source that fits. It returns the length of the
  source.\<close>

theorem strlcpy_correct:
  assumes "string_at m src bs" "dst \<noteq> 0" "unat dst + n \<le> 2 ^ 32"
    and "\<And>i j. i < n \<Longrightarrow> j \<le> length bs \<Longrightarrow> dst + of_nat i \<noteq> src + of_nat j"
  shows "\<exists>m'. strlcpy m dst src n = Some (Inr (length bs, m'))
    \<and> (0 < n \<longrightarrow> string_at m' dst (take (n - 1) bs)) \<and> (\<forall>a. n \<le> unat (a - dst) \<longrightarrow> m' a = m a)"
proof (cases "n = 0")
  case True
  then show ?thesis using strlcpy_value(1) [OF assms(1,2,4)] by blast
next
  case False
  let ?k = "min (length bs) (n - 1)"
  let ?m = "(copied m dst src ?k)(dst + of_nat ?k := 0)"
  have c: "cstr m src bs" using assms(1) by (simp add: string_at_def)
  have "strlcpy m dst src n = Some (Inr (length bs, ?m))" using strlcpy_value(2) [OF assms(1,2,4)] False by blast
  moreover have "string_at ?m dst (take (n - 1) bs)"
    using copied_string [OF c, of ?k dst] assms(2,3) False by (auto simp: string_at_def min_def split: if_splits)
  moreover have "?m a = m a" if "n \<le> unat (a - dst)" for a
  proof -
    have "?k < 2 ^ 32" using cstr_length [OF c] by simp
    then have "unat (dst + of_nat ?k - dst) = ?k"
      unfolding add_diff_cancel_left' by (simp only: unsigned_of_nat) (simp add: take_bit_eq_mod)
    moreover have k: "?k < n" using False by simp
    ultimately have "a \<noteq> dst + of_nat ?k" using that by auto
    moreover have "\<not> unat (a - dst) < ?k" using that k by linarith
    ultimately show ?thesis by (simp only: copied_def fun_upd_apply if_False)
  qed
  ultimately show ?thesis by blast
qed

theorem strlcpy_correct_witness:
  "\<exists>m'. strlcpy (bytes_at 0x1000 [97, 98, 99, 0] (\<lambda>a. 7)) 0x2000 0x1000 3 = Some (Inr (3, m')) \<and> string_at m' 0x2000 [97, 98]"
proof -
  let ?m = "bytes_at 0x1000 [97, 98, 99, 0] (\<lambda>a. 7)"
  have "\<exists>m'. strlcpy ?m 0x2000 0x1000 3 = Some (Inr (length [97, 98, 99 :: 8 word], m'))
    \<and> (0 < (3 :: nat) \<longrightarrow> string_at m' 0x2000 (take (3 - 1) [97, 98, 99])) \<and> (\<forall>a. 3 \<le> unat (a - 0x2000) \<longrightarrow> m' a = ?m a)"
  proof (rule strlcpy_correct)
    show "string_at ?m 0x1000 [97, 98, 99]" by (simp add: string_at_def bytes_at_def)
    fix i j :: nat assume ij: "i < 3" "j \<le> length [97, 98, 99 :: 8 word]"
    then have "unat (0x2000 + of_nat i :: addr) = 0x2000 + i" "unat (0x1000 + of_nat j :: addr) = 0x1000 + j"
      by (simp_all add: unat_plus_small)
    moreover have "0x2000 + i \<noteq> 0x1000 + j" using ij by simp
    ultimately show "0x2000 + of_nat i \<noteq> (0x1000 + of_nat j :: addr)" by metis
  qed auto
  then show ?thesis by (auto simp: numeral_3_eq_3)
qed


text \<open>\<open>strcmp\<close> ends on null-terminated strings and decides their order: its result is
  zero exactly for equal strings, and exchanging the arguments changes only its sign.\<close>

theorem strcmp_order:
  assumes "cstr m a xs" "cstr m b ys" "a \<noteq> 0" "b \<noteq> 0"
  shows "\<exists>c. strcmp m a b = Some (Inr c) \<and> strcmp m b a = Some (Inr (- c)) \<and> (c = 0 \<longleftrightarrow> xs = ys) \<and> c = byte_order xs ys"
  using assms strcmp_loop_value [OF assms(1,2)] strcmp_loop_value [OF assms(2,1)] byte_order_zero [of xs ys]
    byte_order_antisym [of ys xs]
  by (simp add: strcmp_def)

theorem strcmp_order_witness:
  "\<exists>c. strcmp (bytes_at 0x1000 [97, 98, 0, 97, 0xe9, 0] (\<lambda>a. 7)) 0x1000 0x1003 = Some (Inr c) \<and> c = - 1"
  using strcmp_order [of "bytes_at 0x1000 [97, 98, 0, 97, 0xe9, 0] (\<lambda>a. 7)" "0x1000" "[97, 98]" "0x1003" "[97, 0xe9]"]
  by (simp add: bytes_at_def)

end
