(* ===== verification/Block.thy ===== *)
theory Block
  imports Strings
begin

unbundle bit_operations_syntax

text \<open>
  Block devices (devices/block.c). A device is a record; the driver behind its \<open>ops\<close> and \<open>aux\<close> is
  represented by the contents of the sectors that it serves, each a list of 512 bytes. The registry keeps the
  devices in probe order and the device of each role.
\<close>

abbreviation (input) BLOCK_SECTOR_SIZE :: nat where "BLOCK_SECTOR_SIZE \<equiv> 512"

type_synonym bytes = "8 word list"

datatype block_type =
  BLOCK_KERNEL | BLOCK_FILESYS | BLOCK_SCRATCH | BLOCK_SWAP | BLOCK_RAW | BLOCK_FOREIGN

text \<open>\<open>BLOCK_ROLE_CNT\<close>: the types before \<open>BLOCK_RAW\<close> are roles.\<close>

fun is_role :: "block_type \<Rightarrow> bool" where
  "is_role BLOCK_RAW = False"
| "is_role BLOCK_FOREIGN = False"
| "is_role _ = True"

record block =
  blk_name :: string
  blk_type :: block_type
  blk_size :: nat
  contents :: "nat \<Rightarrow> bytes"
  read_cnt :: nat
  write_cnt :: nat

record block_sys =
  block_at :: "ptr \<Rightarrow> block"
  all_blocks :: "ptr list"
  block_by_role :: "block_type \<Rightarrow> ptr"

section \<open>Operations\<close>

fun block_type_name :: "block_type \<Rightarrow> string" where
  "block_type_name BLOCK_KERNEL = ''kernel''"
| "block_type_name BLOCK_FILESYS = ''filesys''"
| "block_type_name BLOCK_SCRATCH = ''scratch''"
| "block_type_name BLOCK_SWAP = ''swap''"
| "block_type_name BLOCK_RAW = ''raw''"
| "block_type_name BLOCK_FOREIGN = ''foreign''"

definition block_get_role :: "block_type \<Rightarrow> block_sys \<Rightarrow> ptr res" where
  "block_get_role role s = require (is_role role) ''role < BLOCK_ROLE_CNT'' (Inr (block_by_role s role))"

definition block_set_role :: "block_type \<Rightarrow> ptr \<Rightarrow> block_sys \<Rightarrow> block_sys res" where
  "block_set_role role b s = require (is_role role) ''role < BLOCK_ROLE_CNT''
     (Inr (s\<lparr>block_by_role := (block_by_role s)(role := b)\<rparr>))"

definition block_first :: "block_sys \<Rightarrow> ptr" where
  "block_first s = (case all_blocks s of [] \<Rightarrow> 0 | b # _ \<Rightarrow> b)"

fun block_next_loop :: "ptr \<Rightarrow> ptr list \<Rightarrow> ptr" where
  "block_next_loop b (x # y # xs) = (if x = b then y else block_next_loop b (y # xs))"
| "block_next_loop b _ = 0"

definition block_next :: "ptr \<Rightarrow> block_sys \<Rightarrow> ptr" where
  "block_next b s = block_next_loop b (all_blocks s)"

definition block_get_by_name :: "string \<Rightarrow> block_sys \<Rightarrow> ptr" where
  "block_get_by_name name s = (case filter (\<lambda>b. name = blk_name (block_at s b)) (all_blocks s) of [] \<Rightarrow> 0 | b # _ \<Rightarrow> b)"

definition block_size :: "ptr \<Rightarrow> block_sys \<Rightarrow> nat" where
  "block_size b s = blk_size (block_at s b)"

definition block_name :: "ptr \<Rightarrow> block_sys \<Rightarrow> string" where
  "block_name b s = blk_name (block_at s b)"

definition block_type :: "ptr \<Rightarrow> block_sys \<Rightarrow> block_type" where
  "block_type b s = blk_type (block_at s b)"

definition check_sector :: "ptr \<Rightarrow> nat \<Rightarrow> block_sys \<Rightarrow> unit res" where
  "check_sector b sector s =
     (if sector \<ge> blk_size (block_at s b) then Inl (Panic (''Access past end of device '' @ block_name b s)) else Inr ())"

definition block_read :: "ptr \<Rightarrow> nat \<Rightarrow> block_sys \<Rightarrow> (bytes \<times> block_sys) res" where
  "block_read b sector s = bindr (check_sector b sector s) (\<lambda>_.
     let d = block_at s b
     in Inr (contents d sector, s\<lparr>block_at := (block_at s)(b := d\<lparr>read_cnt := read_cnt d + 1\<rparr>)\<rparr>))"

definition block_write :: "ptr \<Rightarrow> nat \<Rightarrow> bytes \<Rightarrow> block_sys \<Rightarrow> block_sys res" where
  "block_write b sector buffer s = bindr (check_sector b sector s) (\<lambda>_.
     require (blk_type (block_at s b) \<noteq> BLOCK_FOREIGN) ''block->type != BLOCK_FOREIGN''
     (let d = block_at s b
      in Inr (s\<lparr>block_at := (block_at s)(b := d\<lparr>contents := (contents d)(sector := buffer), write_cnt := write_cnt d + 1\<rparr>)\<rparr>)))"

text \<open>\<open>b\<close> is the address that \<open>malloc\<close> has returned, and \<open>c\<close> the contents of the medium.\<close>

definition block_register :: "ptr \<Rightarrow> string \<Rightarrow> block_type \<Rightarrow> nat \<Rightarrow> (nat \<Rightarrow> bytes) \<Rightarrow> block_sys \<Rightarrow> (ptr \<times> block_sys) res" where
  "block_register b name type sz c s =
     (if b = 0 then Inl (Panic ''Failed to allocate memory for block device descriptor'')
      else Inr (b, s\<lparr>all_blocks := all_blocks s @ [b],
        block_at := (block_at s)(b := \<lparr>blk_name = take 15 name, blk_type = type, blk_size = sz, contents = c,
          read_cnt = 0, write_cnt = 0\<rparr>)\<rparr>))"

section \<open>Words in little-endian order\<close>

definition le32 :: "32 word \<Rightarrow> bytes" where
  "le32 w = [ucast w, ucast (drop_bit 8 w), ucast (drop_bit 16 w), ucast (drop_bit 24 w)]"

definition word_at :: "bytes \<Rightarrow> nat \<Rightarrow> 32 word" where
  "word_at bs i = ucast (bs ! i) OR push_bit 8 (ucast (bs ! (i + 1)))
     OR push_bit 16 (ucast (bs ! (i + 2))) OR push_bit 24 (ucast (bs ! (i + 3)))"

lemma length_le32 [simp]: "length (le32 w) = 4"
  by (simp add: le32_def)

lemma word_at_le32: "word_at (xs @ le32 w @ ys) (length xs) = w"
proof (rule bit_word_eqI)
  fix n assume "n < LENGTH(32)"
  then consider "n < 8" | "8 \<le> n" "n < 16" | "16 \<le> n" "n < 24" | "24 \<le> n" "n < 32" by force
  then show "bit (word_at (xs @ le32 w @ ys) (length xs)) n = bit w n"
    by cases (auto simp: word_at_def le32_def nth_append bit_simps)
qed

section \<open>What devices promise\<close>

text \<open>The interface that file systems and swap use: sectors below the size can be read and written, and a
  sector holds what was last written to it.\<close>

locale sector_device =
  fixes rd :: "'s \<Rightarrow> nat \<Rightarrow> (bytes \<times> 's) res" and wr :: "'s \<Rightarrow> nat \<Rightarrow> bytes \<Rightarrow> 's res"
    and sec :: "'s \<Rightarrow> nat \<Rightarrow> bytes" and capacity :: "'s \<Rightarrow> nat" and writable :: "'s \<Rightarrow> bool"
  assumes rd_ok: "i < capacity s \<Longrightarrow> \<exists>s'. rd s i = Inr (sec s i, s') \<and> sec s' = sec s \<and> capacity s' = capacity s \<and> writable s' = writable s"
    and wr_ok: "i < capacity s \<Longrightarrow> writable s \<Longrightarrow>
      \<exists>s'. wr s i bs = Inr s' \<and> sec s' = (sec s)(i := bs) \<and> capacity s' = capacity s \<and> writable s'"
    and rd_past: "capacity s \<le> i \<Longrightarrow> \<exists>e. rd s i = Inl e"
    and wr_past: "capacity s \<le> i \<Longrightarrow> \<exists>e. wr s i bs = Inl e"
begin

lemma read_after_write:
  assumes "wr s i bs = Inr s'" "writable s" "j < capacity s"
  shows "\<exists>s''. rd s' j = Inr (if j = i then bs else sec s j, s'')"
proof -
  have "i < capacity s" using assms(1) wr_past [of s i bs] by (cases "i < capacity s") auto
  then have "sec s' = (sec s)(i := bs)" "capacity s' = capacity s" using wr_ok [of i s bs] assms(1,2) by auto
  then show ?thesis using rd_ok [of j s'] assms(3) by auto
qed

end

interpretation blk: sector_device "\<lambda>s i. block_read b i s" "\<lambda>s i bs. block_write b i bs s"
  "\<lambda>s. contents (block_at s b)" "\<lambda>s. blk_size (block_at s b)" "\<lambda>s. blk_type (block_at s b) \<noteq> BLOCK_FOREIGN" for b
  by unfold_locales (auto simp: block_read_def block_write_def check_sector_def Let_def)

text \<open>A sector of a block device holds what was last written to it: after a write, reading any
  sector of the device gives the new bytes for that sector and the old ones for all others.\<close>

theorem block_read_after_write:
  assumes "block_write b i bs s = Inr s'" "j < block_size b s"
  shows "\<exists>s''. block_read b j s' = Inr (if j = i then bs else contents (block_at s b) j, s'')"
proof (rule blk.read_after_write [OF assms(1)])
  show "blk_type (block_at s b) \<noteq> BLOCK_FOREIGN" using assms(1) by (auto simp: block_write_def)
  show "j < blk_size (block_at s b)" using assms(2) by (simp add: block_size_def)
qed

definition example_blocks :: block_sys where
  "example_blocks = \<lparr>block_at = (\<lambda>b. \<lparr>blk_name = ''hda1'', blk_type = BLOCK_FILESYS, blk_size = 64,
     contents = (\<lambda>i. replicate 512 0), read_cnt = 0, write_cnt = 0\<rparr>), all_blocks = [16],
     block_by_role = (\<lambda>r. if r = BLOCK_FILESYS then 16 else 0)\<rparr>"

theorem block_read_after_write_witness:
  "\<exists>s'. block_write 16 3 (replicate 512 7) example_blocks = Inr s'
    \<and> (\<exists>s''. block_read 16 3 s' = Inr (replicate 512 7, s''))"
proof -
  obtain s' where w: "block_write 16 3 (replicate 512 7) example_blocks = Inr s'"
    by (simp add: block_write_def check_sector_def example_blocks_def)
  have "3 < block_size 16 example_blocks" by (simp add: block_size_def example_blocks_def)
  from block_read_after_write [OF w this] w show ?thesis by simp
qed

end
