(* ===== verification/Inode.thy ===== *)
theory Inode
  imports Block Palloc "HOL-Library.Signed_Division"
begin

unbundle bit_operations_syntax

text \<open>
  Inodes, the free map and open files (filesys/inode.c, filesys/free-map.c, filesys/file.c, and the file
  operations of lib/kernel/bitmap.c).

  The structures that \<open>malloc\<close> provides are partial functions from pointers: a pointer without a
  structure has not been allocated or has been freed, and its use is undefined. The outcome of each allocation is
  given by the field \<open>alloc_ok\<close>, indexed by the number of the allocation, so that every theorem covers every pattern of
  failures. A buffer is a list of bytes; the number of bytes that a read transfers is the length of its result.
\<close>

section \<open>Data\<close>

definition INODE_MAGIC :: "32 word" where "INODE_MAGIC = 0x494e4f44"

record inode_disk =
  dstart :: nat
  dlength :: int
  dmagic :: "32 word"
  dunused :: bytes

record inode =
  sector :: nat
  open_cnt :: int
  removed :: bool
  deny_write_cnt :: int
  data :: inode_disk

record open_file =
  finode :: ptr
  pos :: int
  deny_write :: bool

record dir =
  dinode :: ptr
  dpos :: int

record fs =
  devs :: block_sys
  fs_device :: ptr
  inodes :: "ptr \<Rightarrow> inode option"
  open_inodes :: "ptr list"
  files :: "ptr \<Rightarrow> open_file option"
  dirs :: "ptr \<Rightarrow> dir option"
  free_map :: bitmap
  free_map_file :: ptr
  alloc_ok :: "nat \<Rightarrow> bool"
  alloc_cnt :: nat

text \<open>\<open>malloc\<close> and \<open>calloc\<close>: a fresh address or a null pointer.\<close>

definition malloc :: "fs \<Rightarrow> ptr \<times> fs" where
  "malloc s = (if alloc_ok s (alloc_cnt s) then alloc_cnt s + 1 else 0, s\<lparr>alloc_cnt := alloc_cnt s + 1\<rparr>)"

definition get_inode :: "ptr \<Rightarrow> fs \<Rightarrow> inode res" where
  "get_inode p s = (case inodes s p of None \<Rightarrow> Inl (Undefined ''inode'') | Some i \<Rightarrow> Inr i)"

definition put_inode :: "ptr \<Rightarrow> inode \<Rightarrow> fs \<Rightarrow> fs" where
  "put_inode p i s = s\<lparr>inodes := (inodes s)(p := Some i)\<rparr>"

definition get_file :: "ptr \<Rightarrow> fs \<Rightarrow> open_file res" where
  "get_file p s = (case files s p of None \<Rightarrow> Inl (Undefined ''file'') | Some f \<Rightarrow> Inr f)"

definition fs_read :: "nat \<Rightarrow> fs \<Rightarrow> (bytes \<times> fs) res" where
  "fs_read sec s = bindr (block_read (fs_device s) sec (devs s)) (\<lambda>(bs, d). Inr (bs, s\<lparr>devs := d\<rparr>))"

definition fs_write :: "nat \<Rightarrow> bytes \<Rightarrow> fs \<Rightarrow> fs res" where
  "fs_write sec bs s = bindr (block_write (fs_device s) sec bs (devs s)) (\<lambda>d. Inr (s\<lparr>devs := d\<rparr>))"

section \<open>On-disk inodes\<close>

text \<open>\<open>off_t\<close> is a signed 32-bit integer.\<close>

definition off_t :: "int \<Rightarrow> int" where "off_t x = sint (word_of_int x :: 32 word)"

definition encode_inode :: "inode_disk \<Rightarrow> bytes" where
  "encode_inode d = le32 (of_nat (dstart d)) @ le32 (word_of_int (dlength d)) @ le32 (dmagic d) @ dunused d"

definition decode_inode :: "bytes \<Rightarrow> inode_disk" where
  "decode_inode bs = \<lparr>dstart = unat (word_at bs 0), dlength = sint (word_at bs 4), dmagic = word_at bs 8, dunused = drop 12 bs\<rparr>"

definition bytes_to_sectors :: "int \<Rightarrow> nat" where
  "bytes_to_sectors sz = nat ((off_t (sz + 511) sdiv 512) mod 4294967296)"

definition byte_to_sector :: "inode \<Rightarrow> int \<Rightarrow> nat" where
  "byte_to_sector i p =
     (if p < dlength (data i) then nat ((int (dstart (data i)) + p sdiv 512) mod 4294967296) else SIZE_MAX)"

definition inode_length :: "inode \<Rightarrow> int" where
  "inode_length i = dlength (data i)"

section \<open>Reading and writing\<close>

text \<open>The number of bytes that one round of the loops of \<open>inode_read_at\<close> and \<open>inode_write_at\<close> moves. The subtractions cannot leave the range of
  \<open>off_t\<close> when the offset is not negative, as it is after \<open>file_seek\<close>, whose assertion ensures it, and for the offsets of directory entries and of the free map;
  the theorems about the contents of inodes are for such offsets.\<close>

definition chunk_size :: "inode \<Rightarrow> int \<Rightarrow> int \<Rightarrow> int" where
  "chunk_size i sz offset =
     (let sector_ofs = offset smod 512;
          inode_left = inode_length i - offset;
          sector_left = 512 - sector_ofs;
          min_left = (if inode_left < sector_left then inode_left else sector_left)
      in if sz < min_left then sz else min_left)"

text \<open>The argument \<open>bounce\<close> tells whether the bounce buffer has been allocated.\<close>

function inode_read_loop :: "inode \<Rightarrow> bool \<Rightarrow> int \<Rightarrow> int \<Rightarrow> fs \<Rightarrow> (bytes \<times> fs) res" where
  "inode_read_loop i bounce sz offset s =
     (if sz > 0 then
        let sector_idx = byte_to_sector i offset;
            sector_ofs = offset smod 512;
            chunk = chunk_size i sz offset
        in if chunk \<le> 0 then Inr ([], s)
           else if sector_ofs = 0 \<and> chunk = 512 then
             bindr (fs_read sector_idx s) (\<lambda>(bs, s).
             bindr (inode_read_loop i bounce (sz - chunk) (offset + chunk) s) (\<lambda>(rest, s). Inr (bs @ rest, s)))
           else
             let (bp, s) = (if bounce then (1, s) else malloc s) in
             if bp = 0 then Inr ([], s)
             else bindr (fs_read sector_idx s) (\<lambda>(bs, s).
               bindr (inode_read_loop i True (sz - chunk) (offset + chunk) s) (\<lambda>(rest, s).
                 Inr (take (nat chunk) (drop (nat sector_ofs) bs) @ rest, s)))
      else Inr ([], s))"
  by pat_completeness auto
termination
  by (relation "measure (\<lambda>(i, bounce, sz, offset, s). nat sz)") auto

definition inode_read_at :: "ptr \<Rightarrow> int \<Rightarrow> int \<Rightarrow> fs \<Rightarrow> (bytes \<times> fs) res" where
  "inode_read_at p sz offset s =
     (if sz > 0 then bindr (get_inode p s) (\<lambda>i. inode_read_loop i False sz offset s) else Inr ([], s))"

function inode_write_loop :: "inode \<Rightarrow> bool \<Rightarrow> bytes \<Rightarrow> int \<Rightarrow> fs \<Rightarrow> (int \<times> fs) res" where
  "inode_write_loop i bounce buffer offset s =
     (if int (length buffer) > 0 then
        let sector_idx = byte_to_sector i offset;
            sector_ofs = offset smod 512;
            sector_left = 512 - sector_ofs;
            chunk = chunk_size i (int (length buffer)) offset
        in if chunk \<le> 0 then Inr (0, s)
           else if sector_ofs = 0 \<and> chunk = 512 then
             bindr (fs_write sector_idx (take 512 buffer) s) (\<lambda>s.
             bindr (inode_write_loop i bounce (drop (nat chunk) buffer) (offset + chunk) s) (\<lambda>(n, s). Inr (chunk + n, s)))
           else
             let (bp, s) = (if bounce then (1, s) else malloc s) in
             if bp = 0 then Inr (0, s)
             else bindr (if sector_ofs > 0 \<or> chunk < sector_left then fs_read sector_idx s else Inr (replicate 512 0, s)) (\<lambda>(bs, s).
               bindr (fs_write sector_idx (take (nat sector_ofs) bs @ take (nat chunk) buffer @ drop (nat (sector_ofs + chunk)) bs) s) (\<lambda>s.
               bindr (inode_write_loop i True (drop (nat chunk) buffer) (offset + chunk) s) (\<lambda>(n, s). Inr (chunk + n, s))))
      else Inr (0, s))"
  by pat_completeness auto
termination
  by (relation "measure (\<lambda>(i, bounce, buffer, offset, s). length buffer)") auto

definition inode_write_at :: "ptr \<Rightarrow> bytes \<Rightarrow> int \<Rightarrow> fs \<Rightarrow> (int \<times> fs) res" where
  "inode_write_at p buffer offset s = bindr (get_inode p s) (\<lambda>i.
     if deny_write_cnt i \<noteq> 0 then Inr (0, s) else inode_write_loop i False buffer offset s)"

definition inode_deny_write :: "ptr \<Rightarrow> fs \<Rightarrow> fs res" where
  "inode_deny_write p s = bindr (get_inode p s) (\<lambda>i.
     let i = i\<lparr>deny_write_cnt := deny_write_cnt i + 1\<rparr>
     in require (deny_write_cnt i \<le> open_cnt i) ''inode->deny_write_cnt <= inode->open_cnt'' (Inr (put_inode p i s)))"

definition inode_allow_write :: "ptr \<Rightarrow> fs \<Rightarrow> fs res" where
  "inode_allow_write p s = bindr (get_inode p s) (\<lambda>i.
     require (deny_write_cnt i > 0) ''inode->deny_write_cnt > 0''
     (require (deny_write_cnt i \<le> open_cnt i) ''inode->deny_write_cnt <= inode->open_cnt''
     (Inr (put_inode p (i\<lparr>deny_write_cnt := deny_write_cnt i - 1\<rparr>) s))))"

section \<open>Files at an offset, and the bitmap in a file\<close>

definition file_read_at :: "ptr \<Rightarrow> int \<Rightarrow> int \<Rightarrow> fs \<Rightarrow> (bytes \<times> fs) res" where
  "file_read_at p sz ofs s = bindr (get_file p s) (\<lambda>f. inode_read_at (finode f) sz ofs s)"

definition file_write_at :: "ptr \<Rightarrow> bytes \<Rightarrow> int \<Rightarrow> fs \<Rightarrow> (int \<times> fs) res" where
  "file_write_at p buffer ofs s = bindr (get_file p s) (\<lambda>f. inode_write_at (finode f) buffer ofs s)"

definition bitmap_file_size :: "bitmap \<Rightarrow> nat" where
  "bitmap_file_size b = byte_cnt (bit_cnt b)"

text \<open>Bytes that the read does not reach keep their value.\<close>

definition bitmap_read :: "bitmap \<Rightarrow> ptr \<Rightarrow> fs \<Rightarrow> (bool \<times> bitmap \<times> fs) res" where
  "bitmap_read b f s =
     (if bit_cnt b > 0 then
        let sz = off_t (int (byte_cnt (bit_cnt b))) in
        bindr (file_read_at f sz 0 s) (\<lambda>(bs, s).
          let old = concat (map le32 (bits b));
              new = bs @ drop (length bs) old;
              ws = map (\<lambda>i. word_at new (4 * i)) [0..<length (bits b)];
              b = b\<lparr>bits := ws[elem_cnt (bit_cnt b) - 1 := (ws ! (elem_cnt (bit_cnt b) - 1)) AND last_mask b]\<rparr>
          in Inr (int (length bs) = sz, b, s))
      else Inr (True, b, s))"

definition bitmap_write :: "bitmap \<Rightarrow> ptr \<Rightarrow> fs \<Rightarrow> (bool \<times> fs) res" where
  "bitmap_write b f s =
     (let sz = off_t (int (byte_cnt (bit_cnt b))) in
      bindr (file_write_at f (take (nat sz) (concat (map le32 (bits b)))) 0 s) (\<lambda>(n, s). Inr (n = sz, s)))"

section \<open>The free map\<close>

abbreviation (input) FREE_MAP_SECTOR :: nat where "FREE_MAP_SECTOR \<equiv> 0"
abbreviation (input) ROOT_DIR_SECTOR :: nat where "ROOT_DIR_SECTOR \<equiv> 1"

text \<open>\<open>None\<close> is the result false; \<open>Some\<close> carries the sector stored into \<open>*sectorp\<close>.\<close>

definition free_map_allocate :: "nat \<Rightarrow> fs \<Rightarrow> (nat option \<times> fs) res" where
  "free_map_allocate cnt s =
     bindr (bitmap_scan_and_flip (free_map s) 0 cnt False) (\<lambda>(sec, bm).
     let s = s\<lparr>free_map := bm\<rparr> in
     if sec \<noteq> BITMAP_ERROR \<and> free_map_file s \<noteq> 0 then
       bindr (bitmap_write (free_map s) (free_map_file s) s) (\<lambda>(ok, s).
         if \<not> ok then bindr (bitmap_set_multiple (free_map s) sec cnt False) (\<lambda>bm. Inr (None, s\<lparr>free_map := bm\<rparr>))
         else Inr (Some sec, s))
     else Inr (if sec \<noteq> BITMAP_ERROR then Some sec else None, s))"

definition free_map_release :: "nat \<Rightarrow> nat \<Rightarrow> fs \<Rightarrow> fs res" where
  "free_map_release sec cnt s =
     bindr (bitmap_all (free_map s) sec cnt) (\<lambda>a.
     require a ''bitmap_all (free_map, sector, cnt)''
     (bindr (bitmap_set_multiple (free_map s) sec cnt False) (\<lambda>bm.
      bindr (bitmap_write bm (free_map_file s) (s\<lparr>free_map := bm\<rparr>)) (\<lambda>(_, s). Inr s))))"

section \<open>Inodes\<close>

definition inode_init :: "fs \<Rightarrow> fs" where
  "inode_init s = s\<lparr>open_inodes := []\<rparr>"

fun write_zeros :: "nat \<Rightarrow> nat \<Rightarrow> fs \<Rightarrow> fs res" where
  "write_zeros start 0 s = Inr s"
| "write_zeros start (Suc n) s = bindr (fs_write (start mod SIZE_MOD) (replicate 512 0) s) (write_zeros (start + 1) n)"

definition inode_create :: "nat \<Rightarrow> int \<Rightarrow> fs \<Rightarrow> (bool \<times> fs) res" where
  "inode_create sec len s =
     require (len \<ge> 0) ''length >= 0''
     (let (p, s) = malloc s in
      if p \<noteq> 0 then
        let sectors = bytes_to_sectors len;
            d = \<lparr>dstart = 0, dlength = len, dmagic = INODE_MAGIC, dunused = replicate 500 0\<rparr>
        in bindr (free_map_allocate sectors s) (\<lambda>(r, s).
             case r of None \<Rightarrow> Inr (False, s)
             | Some start \<Rightarrow>
                 bindr (fs_write sec (encode_inode (d\<lparr>dstart := start\<rparr>)) s) (\<lambda>s.
                 bindr (write_zeros start sectors s) (\<lambda>s. Inr (True, s))))
      else Inr (False, s))"

definition inode_reopen :: "ptr \<Rightarrow> fs \<Rightarrow> (ptr \<times> fs) res" where
  "inode_reopen p s =
     (if p \<noteq> 0 then bindr (get_inode p s) (\<lambda>i. Inr (p, put_inode p (i\<lparr>open_cnt := open_cnt i + 1\<rparr>) s)) else Inr (p, s))"

fun find_inode :: "nat \<Rightarrow> ptr list \<Rightarrow> fs \<Rightarrow> ptr option res" where
  "find_inode sec [] s = Inr None"
| "find_inode sec (e # es) s = bindr (get_inode e s) (\<lambda>i. if sector i = sec then Inr (Some e) else find_inode sec es s)"

definition inode_open :: "nat \<Rightarrow> fs \<Rightarrow> (ptr \<times> fs) res" where
  "inode_open sec s =
     bindr (find_inode sec (open_inodes s) s) (\<lambda>found.
     case found of Some p \<Rightarrow> inode_reopen p s
     | None \<Rightarrow>
         let (p, s) = malloc s in
         if p = 0 then Inr (0, s)
         else
           let s = s\<lparr>open_inodes := p # open_inodes s\<rparr> in
           bindr (fs_read sec s) (\<lambda>(bs, s).
             Inr (p, put_inode p \<lparr>sector = sec, open_cnt = 1, removed = False, deny_write_cnt = 0, data = decode_inode bs\<rparr> s)))"

definition inode_get_inumber :: "ptr \<Rightarrow> fs \<Rightarrow> nat res" where
  "inode_get_inumber p s = bindr (get_inode p s) (\<lambda>i. Inr (sector i))"

definition inode_close :: "ptr \<Rightarrow> fs \<Rightarrow> fs res" where
  "inode_close p s =
     (if p = 0 then Inr s
      else bindr (get_inode p s) (\<lambda>i.
        let i = i\<lparr>open_cnt := open_cnt i - 1\<rparr>; s = put_inode p i s in
        if open_cnt i = 0 then
          let s = s\<lparr>open_inodes := remove1 p (open_inodes s)\<rparr> in
          bindr (if removed i
                 then bindr (free_map_release (sector i) 1 s)
                        (free_map_release (dstart (data i)) (bytes_to_sectors (dlength (data i))))
                 else Inr s) (\<lambda>s. Inr (s\<lparr>inodes := (inodes s)(p := None)\<rparr>))
        else Inr s))"

definition inode_remove :: "ptr \<Rightarrow> fs \<Rightarrow> fs res" where
  "inode_remove p s = require (p \<noteq> 0) ''inode != NULL''
     (bindr (get_inode p s) (\<lambda>i. Inr (put_inode p (i\<lparr>removed := True\<rparr>) s)))"

section \<open>Files\<close>

definition file_open :: "ptr \<Rightarrow> fs \<Rightarrow> (ptr \<times> fs) res" where
  "file_open ip s =
     (let (p, s) = malloc s in
      if ip \<noteq> 0 \<and> p \<noteq> 0
      then Inr (p, s\<lparr>files := (files s)(p := Some \<lparr>finode = ip, pos = 0, deny_write = False\<rparr>)\<rparr>)
      else bindr (inode_close ip s) (\<lambda>s. Inr (0, s)))"

definition file_reopen :: "ptr \<Rightarrow> fs \<Rightarrow> (ptr \<times> fs) res" where
  "file_reopen p s = bindr (get_file p s) (\<lambda>f. bindr (inode_reopen (finode f) s) (\<lambda>(ip, s). file_open ip s))"

definition file_deny_write :: "ptr \<Rightarrow> fs \<Rightarrow> fs res" where
  "file_deny_write p s = require (p \<noteq> 0) ''file != NULL''
     (bindr (get_file p s) (\<lambda>f.
      if \<not> deny_write f then inode_deny_write (finode f) (s\<lparr>files := (files s)(p := Some (f\<lparr>deny_write := True\<rparr>))\<rparr>)
      else Inr s))"

definition file_allow_write :: "ptr \<Rightarrow> fs \<Rightarrow> fs res" where
  "file_allow_write p s = require (p \<noteq> 0) ''file != NULL''
     (bindr (get_file p s) (\<lambda>f.
      if deny_write f then inode_allow_write (finode f) (s\<lparr>files := (files s)(p := Some (f\<lparr>deny_write := False\<rparr>))\<rparr>)
      else Inr s))"

definition file_close :: "ptr \<Rightarrow> fs \<Rightarrow> fs res" where
  "file_close p s =
     (if p \<noteq> 0 then
        bindr (file_allow_write p s) (\<lambda>s.
        bindr (get_file p s) (\<lambda>f.
        bindr (inode_close (finode f) s) (\<lambda>s. Inr (s\<lparr>files := (files s)(p := None)\<rparr>))))
      else Inr s)"

definition file_get_inode :: "ptr \<Rightarrow> fs \<Rightarrow> ptr res" where
  "file_get_inode p s = bindr (get_file p s) (\<lambda>f. Inr (finode f))"

definition file_read :: "ptr \<Rightarrow> int \<Rightarrow> fs \<Rightarrow> (bytes \<times> fs) res" where
  "file_read p sz s = bindr (get_file p s) (\<lambda>f.
     bindr (inode_read_at (finode f) sz (pos f) s) (\<lambda>(bs, s).
       Inr (bs, s\<lparr>files := (files s)(p := Some (f\<lparr>pos := pos f + int (length bs)\<rparr>))\<rparr>)))"

definition file_write :: "ptr \<Rightarrow> bytes \<Rightarrow> fs \<Rightarrow> (int \<times> fs) res" where
  "file_write p buffer s = bindr (get_file p s) (\<lambda>f.
     bindr (inode_write_at (finode f) buffer (pos f) s) (\<lambda>(n, s).
       Inr (n, s\<lparr>files := (files s)(p := Some (f\<lparr>pos := pos f + n\<rparr>))\<rparr>)))"

definition file_length :: "ptr \<Rightarrow> fs \<Rightarrow> int res" where
  "file_length p s = require (p \<noteq> 0) ''file != NULL''
     (bindr (get_file p s) (\<lambda>f. bindr (get_inode (finode f) s) (\<lambda>i. Inr (inode_length i))))"

definition file_seek :: "ptr \<Rightarrow> int \<Rightarrow> fs \<Rightarrow> fs res" where
  "file_seek p new_pos s = require (p \<noteq> 0) ''file != NULL''
     (require (new_pos \<ge> 0) ''new_pos >= 0''
     (bindr (get_file p s) (\<lambda>f. Inr (s\<lparr>files := (files s)(p := Some (f\<lparr>pos := new_pos\<rparr>))\<rparr>))))"

definition file_tell :: "ptr \<Rightarrow> fs \<Rightarrow> int res" where
  "file_tell p s = require (p \<noteq> 0) ''file != NULL'' (bindr (get_file p s) (\<lambda>f. Inr (pos f)))"

section \<open>The free map as a file\<close>

text \<open>\<open>junk\<close> is what the array of the new bitmap holds before it is cleared.\<close>

definition free_map_init :: "elem_type list \<Rightarrow> fs \<Rightarrow> fs res" where
  "free_map_init junk s =
     (let n = block_size (fs_device s) (devs s);
          (p, s) = malloc s;
          (q, s) = (if p \<noteq> 0 then malloc s else (0, s))
      in bindr (bitmap_create (p \<noteq> 0) (if q \<noteq> 0 then Some junk else None) n) (\<lambda>bm.
         case bm of None \<Rightarrow> Inl (Panic ''bitmap creation failed--file system device is too large'')
         | Some bm \<Rightarrow> bindr (bitmap_mark bm FREE_MAP_SECTOR) (\<lambda>bm.
             bindr (bitmap_mark bm ROOT_DIR_SECTOR) (\<lambda>bm. Inr (s\<lparr>free_map := bm\<rparr>)))))"

definition free_map_open :: "fs \<Rightarrow> fs res" where
  "free_map_open s =
     bindr (inode_open FREE_MAP_SECTOR s) (\<lambda>(ip, s).
     bindr (file_open ip s) (\<lambda>(f, s).
     let s = s\<lparr>free_map_file := f\<rparr> in
     if f = 0 then Inl (Panic ''can't open free map'')
     else bindr (bitmap_read (free_map s) f s) (\<lambda>(ok, bm, s).
       if \<not> ok then Inl (Panic ''can't read free map'') else Inr (s\<lparr>free_map := bm\<rparr>))))"

definition free_map_close :: "fs \<Rightarrow> fs res" where
  "free_map_close s = file_close (free_map_file s) s"

definition free_map_create :: "fs \<Rightarrow> fs res" where
  "free_map_create s =
     bindr (inode_create FREE_MAP_SECTOR (off_t (int (bitmap_file_size (free_map s)))) s) (\<lambda>(ok, s).
     if \<not> ok then Inl (Panic ''free map creation failed'')
     else bindr (inode_open FREE_MAP_SECTOR s) (\<lambda>(ip, s).
       bindr (file_open ip s) (\<lambda>(f, s).
       let s = s\<lparr>free_map_file := f\<rparr> in
       if f = 0 then Inl (Panic ''can't open free map'')
       else bindr (bitmap_write (free_map s) f s) (\<lambda>(ok, s).
         if \<not> ok then Inl (Panic ''can't write free map'') else Inr s))))"

end
