(* ===== verification/Inode_Data.thy ===== *)
theory Inode_Data
  imports Inode
begin

text \<open>
  What \<open>inode_read_at\<close> and \<open>inode_write_at\<close> do to the bytes of the device. The data of an inode are contiguous, so
  a byte offset of the file is a byte address of the device, and the loops over sectors implement a read or
  write of an interval of bytes.
\<close>

section \<open>The bytes of the device\<close>

definition disk :: "fs \<Rightarrow> nat \<Rightarrow> bytes" where "disk s = contents (block_at (devs s) (fs_device s))"
definition cap :: "fs \<Rightarrow> nat" where "cap s = blk_size (block_at (devs s) (fs_device s))"
definition writable :: "fs \<Rightarrow> bool" where "writable s \<longleftrightarrow> blk_type (block_at (devs s) (fs_device s)) \<noteq> BLOCK_FOREIGN"

definition disk_ok :: "fs \<Rightarrow> bool" where
  "disk_ok s \<longleftrightarrow> writable s \<and> cap s < SIZE_MAX \<and> (\<forall>k. length (disk s k) = 512)"

definition dbyte :: "fs \<Rightarrow> nat \<Rightarrow> 8 word" where
  "dbyte s a = disk s (a div 512) ! (a mod 512)"

text \<open>Everything but the contents of the device, its statistics and the count of allocations.\<close>

definition same_mem :: "fs \<Rightarrow> fs \<Rightarrow> bool" where
  "same_mem s s' \<longleftrightarrow> inodes s' = inodes s \<and> open_inodes s' = open_inodes s \<and> files s' = files s \<and> dirs s' = dirs s
     \<and> free_map s' = free_map s \<and> free_map_file s' = free_map_file s \<and> fs_device s' = fs_device s \<and> alloc_ok s' = alloc_ok s
     \<and> alloc_cnt s \<le> alloc_cnt s' \<and> cap s' = cap s \<and> writable s' = writable s"

lemma same_mem_refl [simp]: "same_mem s s"
  by (simp add: same_mem_def)

lemma same_mem_trans: "same_mem s s' \<Longrightarrow> same_mem s' s'' \<Longrightarrow> same_mem s s''"
  by (simp add: same_mem_def)

lemma fs_read_ok:
  assumes "k < cap s"
  obtains s' where "fs_read k s = Inr (disk s k, s')" "same_mem s s'" "disk s' = disk s" "alloc_cnt s' = alloc_cnt s"
proof -
  obtain d where "block_read (fs_device s) k (devs s) = Inr (disk s k, d)"
      "contents (block_at d (fs_device s)) = disk s" "blk_size (block_at d (fs_device s)) = cap s"
      "(blk_type (block_at d (fs_device s)) \<noteq> BLOCK_FOREIGN) = writable s"
    using blk.rd_ok [of k "devs s" "fs_device s"] assms unfolding disk_def cap_def writable_def by auto
  then show thesis by (intro that [of "s\<lparr>devs := d\<rparr>"]) (auto simp: fs_read_def same_mem_def disk_def cap_def writable_def)
qed

lemma fs_write_ok:
  assumes "k < cap s" "writable s"
  obtains s' where "fs_write k bs s = Inr s'" "same_mem s s'" "disk s' = (disk s)(k := bs)" "alloc_cnt s' = alloc_cnt s"
proof -
  obtain d where "block_write (fs_device s) k bs (devs s) = Inr d"
      "contents (block_at d (fs_device s)) = (disk s)(k := bs)" "blk_size (block_at d (fs_device s)) = cap s"
      "blk_type (block_at d (fs_device s)) \<noteq> BLOCK_FOREIGN"
    using blk.wr_ok [of k "devs s" "fs_device s" bs] assms unfolding disk_def cap_def writable_def by auto
  then show thesis using assms(2)
    by (intro that [of "s\<lparr>devs := d\<rparr>"]) (auto simp: fs_write_def same_mem_def disk_def cap_def writable_def)
qed

lemma malloc_cases:
  obtains p s' where "malloc s = (p, s')" "same_mem s s'" "disk s' = disk s" "p = 0 \<longleftrightarrow> \<not> alloc_ok s (alloc_cnt s)"
    "alloc_cnt s' = alloc_cnt s + 1" "p \<noteq> 0 \<longrightarrow> p = alloc_cnt s + 1"
  by (rule that [of "fst (malloc s)" "snd (malloc s)"]) (auto simp: malloc_def same_mem_def disk_def cap_def writable_def)

section \<open>Inodes that fit on the device\<close>

definition inode_fits :: "fs \<Rightarrow> inode_disk \<Rightarrow> bool" where
  "inode_fits s d \<longleftrightarrow> 0 \<le> dlength d \<and> dlength d + 511 < 2 ^ 31 \<and> dstart d + bytes_to_sectors (dlength d) \<le> cap s"

text \<open>Length in bytes and address of the first byte.\<close>

abbreviation flen :: "inode_disk \<Rightarrow> nat" where "flen d \<equiv> nat (dlength d)"
abbreviation fbase :: "inode_disk \<Rightarrow> nat" where "fbase d \<equiv> dstart d * 512"

lemma sdiv_pos: "0 \<le> a \<Longrightarrow> a sdiv 512 = a div 512" "0 \<le> a \<Longrightarrow> a smod 512 = a mod (512 :: int)"
  by (auto simp: signed_divide_int_def signed_modulo_int_def sgn_if)

lemma off_t_id: "- (2 ^ 31) \<le> x \<Longrightarrow> x < 2 ^ 31 \<Longrightarrow> off_t x = x"
  by (simp add: off_t_def int_word_sint signed_take_bit_int_eq_self)

lemma bytes_to_sectors_value:
  assumes "0 \<le> len" "len + 511 < 2 ^ 31"
  shows "bytes_to_sectors len = (nat len + 511) div 512"
proof -
  have "off_t (len + 511) sdiv 512 = int ((nat len + 511) div 512)"
    using assms by (simp add: off_t_id sdiv_pos zdiv_int)
  moreover have "(nat len + 511) div 512 < 4294967296"
    by (rule le_less_trans [OF div_le_dividend]) (use assms in simp)
  ultimately show ?thesis by (simp add: bytes_to_sectors_def nat_mod_distrib)
qed

lemma byte_to_sector_value:
  assumes "inode_fits s (data i)" "off < flen (data i)" "cap s < SIZE_MAX"
  shows "byte_to_sector i (int off) = dstart (data i) + off div 512" and "dstart (data i) + off div 512 < cap s"
proof -
  have b: "bytes_to_sectors (dlength (data i)) = (flen (data i) + 511) div 512"
    using assms(1) by (intro bytes_to_sectors_value) (auto simp: inode_fits_def)
  have "off div 512 < (flen (data i) + 511) div 512" using assms(2) by linarith
  then show lt: "dstart (data i) + off div 512 < cap s" using assms(1) b by (simp add: inode_fits_def)
  have "int (dstart (data i)) + int off sdiv 512 = int (dstart (data i) + off div 512)" by (simp add: sdiv_pos zdiv_int)
  then show "byte_to_sector i (int off) = dstart (data i) + off div 512"
    using assms lt by (simp add: byte_to_sector_def nat_mod_distrib zless_nat_eq_int_zless)
qed

lemma int_min3: "(let m = (if int a < int b then int a else int b) in if int c < m then int c else m) = int (min c (min a b))"
  by (auto simp: Let_def min_def)

lemma chunk_size_value:
  assumes "0 \<le> dlength (data i)" "off \<le> flen (data i)"
  shows "chunk_size i (int sz) (int off) = int (min sz (min (flen (data i) - off) (512 - off mod 512)))"
proof -
  have "int off smod 512 = int (off mod 512)" by (simp add: sdiv_pos zmod_int)
  moreover have "dlength (data i) - int off = int (flen (data i) - off)" using assms by simp
  moreover have "512 - int (off mod 512) = int (512 - off mod 512)" by (simp add: of_nat_diff)
  ultimately have "chunk_size i (int sz) (int off) =
      (let m = (if int (flen (data i) - off) < int (512 - off mod 512) then int (flen (data i) - off) else int (512 - off mod 512))
       in if int sz < m then int sz else m)"
    by (simp only: chunk_size_def inode_length_def Let_def)
  then show ?thesis by (simp only: int_min3)
qed

lemma sector_interval:
  assumes "off mod 512 + c \<le> (512 :: nat)" "j < c"
  shows "(b * 512 + off + j) div 512 = b + off div 512" "(b * 512 + off + j) mod 512 = off mod 512 + j"
proof -
  have e: "b * 512 + off + j = (off mod 512 + j) + (b + off div 512) * 512" by simp
  have "off mod 512 + j < 512" using assms by simp
  then show "(b * 512 + off + j) div 512 = b + off div 512" "(b * 512 + off + j) mod 512 = off mod 512 + j"
    by (simp_all only: e div_mult_self1 mod_mult_self1 div_less mod_less add_0_right)
qed

lemma chunk_bytes:
  assumes "off mod 512 + c \<le> 512" "length (disk s (b + off div 512)) = 512"
  shows "take c (drop (off mod 512) (disk s (b + off div 512))) = map (dbyte s) [b * 512 + off..<b * 512 + off + c]"
proof (rule nth_equalityI)
  show "length (take c (drop (off mod 512) (disk s (b + off div 512)))) = length (map (dbyte s) [b * 512 + off..<b * 512 + off + c])"
    using assms by simp
  fix j assume "j < length (take c (drop (off mod 512) (disk s (b + off div 512))))"
  then have "j < c" by simp
  then show "take c (drop (off mod 512) (disk s (b + off div 512))) ! j = map (dbyte s) [b * 512 + off..<b * 512 + off + c] ! j"
    using assms sector_interval [OF assms(1)] by (simp add: dbyte_def)
qed


declare inode_read_loop.simps [simp del] inode_write_loop.simps [simp del]

section \<open>Reading\<close>

text \<open>One round of the loop: \<open>c\<close> bytes of one sector, by way of the bounce buffer or not.\<close>

lemma inode_read_step:
  fixes i :: inode and off sz :: nat
  defines "c \<equiv> min sz (min (flen (data i) - off) (512 - off mod 512))"
  assumes fits: "inode_fits s (data i)" and ok: "disk_ok s" and off: "off \<le> flen (data i)" and pos: "0 < c"
  obtains (full) s1 b where "same_mem s s1" "disk s1 = disk s" "b \<or> b = bounce \<and> alloc_cnt s1 = alloc_cnt s"
      "inode_read_loop i bounce (int sz) (int off) s =
        bindr (inode_read_loop i b (int (sz - c)) (int (off + c)) s1)
          (\<lambda>(rest, s'). Inr (map (dbyte s) [fbase (data i) + off..<fbase (data i) + off + c] @ rest, s'))"
    | (fail) s1 where "same_mem s s1" "disk s1 = disk s" "\<not> bounce" "\<not> alloc_ok s (alloc_cnt s)"
      "inode_read_loop i bounce (int sz) (int off) s = Inr ([], s1)"
proof -
  let ?k = "dstart (data i) + off div 512" and ?b = "map (dbyte s) [fbase (data i) + off..<fbase (data i) + off + c]"
  have lt: "off < flen (data i)" "0 < sz" "c \<le> sz" "off mod 512 + c \<le> 512" using pos by (auto simp: c_def)
  have cap: "cap s < SIZE_MAX" and len: "length (disk s ?k) = 512" using ok by (auto simp: disk_ok_def)
  note sec = byte_to_sector_value [OF fits lt(1) cap]
  have "0 \<le> dlength (data i)" using fits by (simp add: inode_fits_def)
  note ck = chunk_size_value [OF this off, of sz, folded c_def]
  have ofs: "int off smod 512 = int (off mod 512)" by (simp add: sdiv_pos zmod_int)
  have arith: "int sz - int c = int (sz - c)" "int off + int c = int (off + c)" using lt(3) by simp_all
  have conv: "(int (off mod 512) = 0) = (off mod 512 = 0)" "(int c = 512) = (c = 512)" "(int c \<le> 0) = False" "(0 < int sz) = True"
    using pos lt(2) by auto
  have bytes: "take c (drop (off mod 512) (disk s ?k)) = ?b" by (rule chunk_bytes [OF lt(4) len])
  have unf: "inode_read_loop i bounce (int sz) (int off) s =
     (if off mod 512 = 0 \<and> c = 512 then
        bindr (fs_read ?k s) (\<lambda>(bs, s). bindr (inode_read_loop i bounce (int (sz - c)) (int (off + c)) s) (\<lambda>(rest, s). Inr (bs @ rest, s)))
      else let (bp, s) = (if bounce then (1, s) else malloc s) in
        if bp = 0 then Inr ([], s)
        else bindr (fs_read ?k s) (\<lambda>(bs, s). bindr (inode_read_loop i True (int (sz - c)) (int (off + c)) s)
          (\<lambda>(rest, s). Inr (take c (drop (off mod 512) bs) @ rest, s))))"
    unfolding inode_read_loop.simps [of i bounce "int sz" "int off" s] Let_def ck sec(1) ofs arith conv if_True if_False nat_int ..
  show thesis
  proof (cases "off mod 512 = 0 \<and> c = 512")
    case True
    obtain s1 where "fs_read ?k s = Inr (disk s ?k, s1)" "same_mem s s1" "disk s1 = disk s" "alloc_cnt s1 = alloc_cnt s"
      by (rule fs_read_ok [OF sec(2)])
    moreover have "disk s ?k = ?b" using bytes True len by simp
    ultimately show thesis using True unf by (intro full [of s1 bounce]) auto
  next
    case False
    obtain p s0 where m: "malloc s = (p, s0)" "same_mem s s0" "disk s0 = disk s" "p = 0 \<longleftrightarrow> \<not> alloc_ok s (alloc_cnt s)"
      by (rule malloc_cases)
    define sm where "sm = (if bounce then s else s0)"
    have sm: "same_mem s sm" "disk sm = disk s" "cap sm = cap s" using m(2,3) by (auto simp: sm_def same_mem_def)
    show thesis
    proof (cases "bounce \<or> p \<noteq> 0")
      case True
      have "?k < cap sm" using sec(2) sm(3) by simp
      then obtain s1 where r: "fs_read ?k sm = Inr (disk sm ?k, s1)" "same_mem sm s1" "disk s1 = disk sm"
        by (rule fs_read_ok)
      have bp: "(if bounce then 1 else p) \<noteq> 0" using True by auto
      have "(if bounce then (1, s) else malloc s) = (if bounce then 1 else p, sm)" using m(1) by (simp add: sm_def)
      then have "inode_read_loop i bounce (int sz) (int off) s =
          bindr (inode_read_loop i True (int (sz - c)) (int (off + c)) s1) (\<lambda>(rest, s'). Inr (?b @ rest, s'))"
        using False unf bp by (simp only: Let_def case_prod_conv if_False r(1) sm(2) bytes bindr_simps)
      then show thesis using r sm by (intro full [of s1 True]) (auto intro: same_mem_trans)
    next
      case nofail: False
      then show thesis using False unf m by (intro fail [of s0]) (auto simp: Let_def)
    qed
  qed
qed

lemma upt_join: "[a..<a + c] @ [a + c..<a + c + n] = [a..<a + c + n]"
  using upt_add_eq_append [of a "a + c" n] by simp

lemma chunk_add:
  fixes c n sz off len :: nat
  shows "n \<le> min (sz - c) (len - (off + c)) \<Longrightarrow> c \<le> sz \<Longrightarrow> off + c \<le> len \<Longrightarrow> c + n \<le> min sz (len - off)"
    and "n = min (sz - c) (len - (off + c)) \<Longrightarrow> c \<le> sz \<Longrightarrow> off + c \<le> len \<Longrightarrow> c + n = min sz (len - off)"
  by auto

lemma inode_read_loop_value:
  assumes "inode_fits s (data i)" "disk_ok s" "off \<le> flen (data i)"
  shows "\<exists>n s'. inode_read_loop i bounce (int sz) (int off) s
      = Inr (map (dbyte s) [fbase (data i) + off..<fbase (data i) + off + n], s')
    \<and> same_mem s s' \<and> disk s' = disk s \<and> n \<le> min sz (flen (data i) - off)
    \<and> (bounce \<or> alloc_ok s (alloc_cnt s) \<longrightarrow> n = min sz (flen (data i) - off))"
  using assms
proof (induction sz arbitrary: bounce off s rule: less_induct)
  case (less sz)
  define c where "c = min sz (min (flen (data i) - off) (512 - off mod 512))"
  show ?case
  proof (cases "c = 0")
    case True
    have "0 \<le> dlength (data i)" using less.prems(1) by (simp add: inode_fits_def)
    from chunk_size_value [OF this less.prems(3), of sz]
    have "inode_read_loop i bounce (int sz) (int off) s = Inr ([], s)"
      using True by (subst inode_read_loop.simps) (simp add: Let_def c_def [symmetric])
    moreover have "min sz (flen (data i) - off) = 0" using True mod_less_divisor [of 512 off] by (auto simp: c_def min_def split: if_splits)
    ultimately show ?thesis by (intro exI [of _ 0] exI [of _ s]) simp
  next
    case False
    then have pos: "0 < c" by simp
    have c: "c \<le> sz" "off + c \<le> flen (data i)" using less.prems(3) by (auto simp: c_def)
    show ?thesis
    proof (cases rule: inode_read_step [OF less.prems pos [unfolded c_def], folded c_def, of bounce, case_names full fail])
      case (full s1 b)
      have "inode_fits s1 (data i)" "disk_ok s1" using less.prems full(1,2) by (auto simp: inode_fits_def disk_ok_def same_mem_def)
      moreover have "sz - c < sz" using pos c by simp
      ultimately obtain n s' where IH: "inode_read_loop i b (int (sz - c)) (int (off + c)) s1
          = Inr (map (dbyte s1) [fbase (data i) + (off + c)..<fbase (data i) + (off + c) + n], s')"
          "same_mem s1 s'" "disk s' = disk s1" "n \<le> min (sz - c) (flen (data i) - (off + c))"
          "b \<or> alloc_ok s1 (alloc_cnt s1) \<longrightarrow> n = min (sz - c) (flen (data i) - (off + c))"
        using less.IH [of "sz - c" s1 "off + c" b] c by blast
      have db: "dbyte s1 = dbyte s" using full(2) by (auto simp: dbyte_def)
      have "inode_read_loop i bounce (int sz) (int off) s =
          Inr (map (dbyte s) [fbase (data i) + off..<fbase (data i) + off + (c + n)], s')"
        unfolding full(4) IH(1) db
        by (simp only: bindr_simps case_prod_conv map_append [symmetric] add.assoc [symmetric] upt_join)
      moreover have "same_mem s s'" using full(1) IH(2) by (rule same_mem_trans)
      moreover have "disk s' = disk s" using IH(3) full(2) by simp
      moreover have "c + n \<le> min sz (flen (data i) - off)" using IH(4) c by (rule chunk_add(1))
      moreover have "c + n = min sz (flen (data i) - off)" if "bounce \<or> alloc_ok s (alloc_cnt s)"
      proof -
        have "b \<or> alloc_ok s1 (alloc_cnt s1)" using that full(1,3) by (auto simp: same_mem_def)
        then show ?thesis using IH(5) c by (intro chunk_add(2)) blast+
      qed
      ultimately show ?thesis by blast
    next
      case (fail s1)
      then show ?thesis by (intro exI [of _ 0] exI [of _ s1]) simp
    qed
  qed
qed

section \<open>Writing\<close>

text \<open>The bytes of the device after one sector has been changed.\<close>

lemma splice_sector:
  fixes off b :: nat
  defines "k \<equiv> b + off div 512" and "o' \<equiv> off mod 512"
  assumes "disk s1 = (disk s)(k := take o' (disk s k) @ take c buffer @ drop (o' + c) (disk s k))"
    and "length (disk s k) = 512" "o' + c \<le> 512" "c \<le> length buffer"
  shows "dbyte s1 a = (if b * 512 + off \<le> a \<and> a < b * 512 + off + c then buffer ! (a - (b * 512 + off)) else dbyte s a)"
    and "length (disk s1 k) = 512"
proof -
  define r where "r = a mod 512"
  have r: "r < 512" and a: "a = (a div 512) * 512 + r" by (simp_all add: r_def)
  have e: "b * 512 + off = k * 512 + o'" by (simp add: k_def o'_def)
  show "length (disk s1 k) = 512" using assms(3-6) by simp
  show "dbyte s1 a = (if b * 512 + off \<le> a \<and> a < b * 512 + off + c then buffer ! (a - (b * 512 + off)) else dbyte s a)"
  proof (cases "a div 512 = k")
    case True
    have "b * 512 + off \<le> a \<longleftrightarrow> o' \<le> r" "a < b * 512 + off + c \<longleftrightarrow> r < o' + c" "a - (b * 512 + off) = r - o'"
      unfolding e using a True by simp_all
    moreover have "dbyte s1 a = (take o' (disk s k) @ take c buffer @ drop (o' + c) (disk s k)) ! r"
      using assms(3) True by (simp add: dbyte_def r_def)
    moreover have "dbyte s a = disk s k ! r" using True by (simp add: dbyte_def r_def)
    ultimately show ?thesis using assms(4-6) r by (auto simp: nth_append)
  next
    case False
    have "\<not> (b * 512 + off \<le> a \<and> a < b * 512 + off + c)"
    proof
      assume "b * 512 + off \<le> a \<and> a < b * 512 + off + c"
      then obtain j where "a = b * 512 + off + j" "j < c" using nat_le_iff_add by (auto simp: le_iff_add)
      then show False using sector_interval(1) [of off c j b] assms(5) False by (simp add: k_def o'_def)
    qed
    then show ?thesis using False assms(3) by (auto simp: dbyte_def)
  qed
qed

lemma inode_write_step:
  fixes i :: inode and off :: nat and buffer :: bytes
  defines "c \<equiv> min (length buffer) (min (flen (data i) - off) (512 - off mod 512))"
  assumes fits: "inode_fits s (data i)" and ok: "disk_ok s" and off: "off \<le> flen (data i)" and pos: "0 < c"
  obtains (full) s1 b where "same_mem s s1" "disk_ok s1" "b \<or> b = bounce \<and> alloc_cnt s1 = alloc_cnt s"
      "\<forall>a. dbyte s1 a = (if fbase (data i) + off \<le> a \<and> a < fbase (data i) + off + c then buffer ! (a - (fbase (data i) + off)) else dbyte s a)"
      "inode_write_loop i bounce buffer (int off) s =
        bindr (inode_write_loop i b (drop c buffer) (int (off + c)) s1) (\<lambda>(n, s'). Inr (int c + n, s'))"
    | (fail) s1 where "same_mem s s1" "disk s1 = disk s" "\<not> bounce" "\<not> alloc_ok s (alloc_cnt s)"
      "inode_write_loop i bounce buffer (int off) s = Inr (0, s1)"
proof -
  let ?k = "dstart (data i) + off div 512" and ?o = "off mod 512"
  let ?bs = "take ?o (disk s ?k) @ take c buffer @ drop (?o + c) (disk s ?k)"
  have lt: "off < flen (data i)" "0 < length buffer" "c \<le> length buffer" "?o + c \<le> 512" using pos by (auto simp: c_def)
  have cap: "cap s < SIZE_MAX" and len: "length (disk s ?k) = 512" and wr: "writable s" using ok by (auto simp: disk_ok_def)
  note sec = byte_to_sector_value [OF fits lt(1) cap]
  have "0 \<le> dlength (data i)" using fits by (simp add: inode_fits_def)
  note ck = chunk_size_value [OF this off, of "length buffer", folded c_def]
  have ofs: "int off smod 512 = int ?o" by (simp add: sdiv_pos zmod_int)
  have arith: "int off + int c = int (off + c)" "int ?o + int c = int (?o + c)" by simp_all
  have conv: "(int ?o = 0) = (?o = 0)" "(int c = 512) = (c = 512)" "(int c \<le> 0) = False" "(0 < int (length buffer)) = True"
      "(0 < int ?o \<or> int c < 512 - int ?o) = (0 < ?o \<or> c < 512 - ?o)"
    using pos lt(2) by auto
  have unf: "inode_write_loop i bounce buffer (int off) s =
     (if ?o = 0 \<and> c = 512 then
        bindr (fs_write ?k (take 512 buffer) s) (\<lambda>s. bindr (inode_write_loop i bounce (drop c buffer) (int (off + c)) s) (\<lambda>(n, s). Inr (int c + n, s)))
      else let (bp, s) = (if bounce then (1, s) else malloc s) in
        if bp = 0 then Inr (0, s)
        else bindr (if 0 < ?o \<or> c < 512 - ?o then fs_read ?k s else Inr (replicate 512 0, s)) (\<lambda>(bs, s).
          bindr (fs_write ?k (take ?o bs @ take c buffer @ drop (?o + c) bs) s) (\<lambda>s.
          bindr (inode_write_loop i True (drop c buffer) (int (off + c)) s) (\<lambda>(n, s). Inr (int c + n, s)))))"
    unfolding inode_write_loop.simps [of i bounce buffer "int off" s] Let_def ck sec(1) ofs arith conv if_True if_False nat_int ..
  have eff: "same_mem s s1 \<Longrightarrow> disk s1 = (disk s)(?k := ?bs) \<Longrightarrow> disk_ok s1 \<and>
      (\<forall>a. dbyte s1 a = (if fbase (data i) + off \<le> a \<and> a < fbase (data i) + off + c then buffer ! (a - (fbase (data i) + off)) else dbyte s a))" for s1
    using splice_sector [of s1 s "dstart (data i)" off c buffer] len lt ok by (auto simp: disk_ok_def same_mem_def)
  show thesis
  proof (cases "?o = 0 \<and> c = 512")
    case True
    obtain s1 where w: "fs_write ?k (take 512 buffer) s = Inr s1" "same_mem s s1" "disk s1 = (disk s)(?k := take 512 buffer)"
        "alloc_cnt s1 = alloc_cnt s" by (rule fs_write_ok [OF sec(2) wr])
    moreover have "take 512 buffer = ?bs" using True len by simp
    ultimately have "disk_ok s1 \<and> (\<forall>a. dbyte s1 a = (if fbase (data i) + off \<le> a \<and> a < fbase (data i) + off + c
        then buffer ! (a - (fbase (data i) + off)) else dbyte s a))" by (intro eff) simp_all
    then show thesis using True unf w by (intro full [of s1 bounce]) auto
  next
    case False
    obtain p s0 where m: "malloc s = (p, s0)" "same_mem s s0" "disk s0 = disk s" "p = 0 \<longleftrightarrow> \<not> alloc_ok s (alloc_cnt s)"
      by (rule malloc_cases)
    define sm where "sm = (if bounce then s else s0)"
    have sm: "same_mem s sm" "disk sm = disk s" "cap sm = cap s" using m(2,3) by (auto simp: sm_def same_mem_def)
    show thesis
    proof (cases "bounce \<or> p \<noteq> 0")
      case True
      then have bp: "(if bounce then 1 else p) \<noteq> 0" by auto
      have rd: "0 < ?o \<or> c < 512 - ?o" using False lt(4) by auto
      have "?k < cap sm" using sec(2) sm(3) by simp
      then obtain sr where r: "fs_read ?k sm = Inr (disk sm ?k, sr)" "same_mem sm sr" "disk sr = disk sm"
        by (rule fs_read_ok)
      have "?k < cap sr" "writable sr" using sec(2) sm wr r(2) by (auto simp: same_mem_def)
      then obtain s1 where w: "fs_write ?k ?bs sr = Inr s1" "same_mem sr s1" "disk s1 = (disk sr)(?k := ?bs)"
        by (rule fs_write_ok)
      have "(if bounce then (1, s) else malloc s) = (if bounce then 1 else p, sm)" using m(1) by (simp add: sm_def)
      then have "inode_write_loop i bounce buffer (int off) s =
          bindr (inode_write_loop i True (drop c buffer) (int (off + c)) s1) (\<lambda>(n, s'). Inr (int c + n, s'))"
        using False unf bp rd by (simp only: Let_def case_prod_conv if_False if_True r(1) sm(2) w(1) bindr_simps)
      moreover have "same_mem s s1" using sm(1) r(2) w(2) by (meson same_mem_trans)
      moreover have "disk s1 = (disk s)(?k := ?bs)" using w(3) r(3) sm(2) by simp
      ultimately show thesis using eff by (intro full [of s1 True]) simp_all
    next
      case nofail: False
      then show thesis using False unf m by (intro fail [of s0]) (auto simp: Let_def)
    qed
  qed
qed

lemma splice_join:
  assumes "x1 = (if B \<le> a \<and> a < B + c then buffer ! (a - B) else x)"
    and "x2 = (if B + c \<le> a \<and> a < B + c + n then drop c buffer ! (a - (B + c)) else x1)" and "c \<le> length buffer"
  shows "x2 = (if B \<le> a \<and> a < B + (c + n) then buffer ! (a - B) else x)"
  using assms by auto

lemma inode_write_loop_value:
  assumes "inode_fits s (data i)" "disk_ok s" "off \<le> flen (data i)"
  shows "\<exists>n s'. inode_write_loop i bounce buffer (int off) s = Inr (int n, s')
    \<and> same_mem s s' \<and> disk_ok s' \<and> n \<le> min (length buffer) (flen (data i) - off)
    \<and> (\<forall>a. dbyte s' a = (if fbase (data i) + off \<le> a \<and> a < fbase (data i) + off + n then buffer ! (a - (fbase (data i) + off)) else dbyte s a))
    \<and> (bounce \<or> alloc_ok s (alloc_cnt s) \<longrightarrow> n = min (length buffer) (flen (data i) - off))"
  using assms
proof (induction "length buffer" arbitrary: bounce buffer off s rule: less_induct)
  case less
  let ?sz = "length buffer"
  define c where "c = min ?sz (min (flen (data i) - off) (512 - off mod 512))"
  show ?case
  proof (cases "c = 0")
    case True
    have "0 \<le> dlength (data i)" using less.prems(1) by (simp add: inode_fits_def)
    from chunk_size_value [OF this less.prems(3), of ?sz]
    have "inode_write_loop i bounce buffer (int off) s = Inr (0, s)"
      using True by (subst inode_write_loop.simps) (simp add: Let_def c_def [symmetric])
    moreover have "min ?sz (flen (data i) - off) = 0" using True mod_less_divisor [of 512 off] by (auto simp: c_def min_def split: if_splits)
    ultimately show ?thesis using less.prems(2) by (intro exI [of _ 0] exI [of _ s]) auto
  next
    case False
    then have pos: "0 < c" by simp
    have c: "c \<le> ?sz" "off + c \<le> flen (data i)" using less.prems(3) by (auto simp: c_def)
    show ?thesis
    proof (cases rule: inode_write_step [OF less.prems pos [unfolded c_def], folded c_def, of bounce, case_names full fail])
      case (full s1 b)
      let ?B = "fbase (data i) + off"
      have "inode_fits s1 (data i)" using less.prems full(1) by (auto simp: inode_fits_def same_mem_def)
      moreover have "length (drop c buffer) < ?sz" using pos c by simp
      ultimately obtain n s' where IH: "inode_write_loop i b (drop c buffer) (int (off + c)) s1 = Inr (int n, s')"
          "same_mem s1 s'" "disk_ok s'" "n \<le> min (length (drop c buffer)) (flen (data i) - (off + c))"
          "\<forall>a. dbyte s' a = (if fbase (data i) + (off + c) \<le> a \<and> a < fbase (data i) + (off + c) + n
             then drop c buffer ! (a - (fbase (data i) + (off + c))) else dbyte s1 a)"
          "b \<or> alloc_ok s1 (alloc_cnt s1) \<longrightarrow> n = min (length (drop c buffer)) (flen (data i) - (off + c))"
        using less.hyps [of "drop c buffer" s1 "off + c" b] full(2) c by blast
      have "inode_write_loop i bounce buffer (int off) s = Inr (int (c + n), s')" unfolding full(5) IH(1) by simp
      moreover have "same_mem s s'" using full(1) IH(2) by (rule same_mem_trans)
      moreover have "dbyte s' a = (if ?B \<le> a \<and> a < ?B + (c + n) then buffer ! (a - ?B) else dbyte s a)" for a
        by (rule splice_join [OF full(4) [rule_format, of a] IH(5) [rule_format, of a, folded add.assoc] c(1)])
      moreover have "c + n \<le> min ?sz (flen (data i) - off)" using IH(4) c unfolding length_drop by (rule chunk_add(1))
      moreover have "c + n = min ?sz (flen (data i) - off)" if "bounce \<or> alloc_ok s (alloc_cnt s)"
      proof -
        have "b \<or> alloc_ok s1 (alloc_cnt s1)" using that full(1,3) by (auto simp: same_mem_def)
        then show ?thesis using IH(6) c unfolding length_drop by (intro chunk_add(2)) blast+
      qed
      ultimately show ?thesis using IH(3) by blast
    next
      case (fail s1)
      then show ?thesis using less.prems(2)
        by (intro exI [of _ 0] exI [of _ s1]) (auto simp: dbyte_def disk_ok_def same_mem_def)
    qed
  qed
qed


section \<open>The contents of a file\<close>

definition content :: "fs \<Rightarrow> inode \<Rightarrow> bytes" where
  "content s i = map (dbyte s) [fbase (data i)..<fbase (data i) + flen (data i)]"

lemma content_slice: "off + n \<le> flen (data i) \<Longrightarrow>
    map (dbyte s) [fbase (data i) + off..<fbase (data i) + off + n] = take n (drop off (content s i))"
  by (rule nth_equalityI) (auto simp: content_def add.assoc)

lemma inode_read_loop_past: "flen (data i) \<le> off \<Longrightarrow> 0 \<le> dlength (data i) \<Longrightarrow>
    inode_read_loop i b (int sz) (int off) s = Inr ([], s)"
  by (subst inode_read_loop.simps) (auto simp: Let_def chunk_size_def inode_length_def)

lemma inode_write_loop_past: "flen (data i) \<le> off \<Longrightarrow> 0 \<le> dlength (data i) \<Longrightarrow>
    inode_write_loop i b buffer (int off) s = Inr (0, s)"
  by (subst inode_write_loop.simps) (auto simp: Let_def chunk_size_def inode_length_def)

text \<open>The specification of a write: a file does not grow.\<close>

definition overwrite :: "bytes \<Rightarrow> nat \<Rightarrow> bytes \<Rightarrow> bytes" where
  "overwrite xs off ys = take off xs @ take (length xs - off) ys @ drop (off + length ys) xs"

lemma content_write:
  assumes "\<forall>a. dbyte s' a = (if fbase (data i) + off \<le> a \<and> a < fbase (data i) + off + length ys
      then ys ! (a - (fbase (data i) + off)) else dbyte s a)" "off + length ys \<le> flen (data i)"
  shows "content s' i = overwrite (content s i) off ys"
proof (rule nth_equalityI)
  show "length (content s' i) = length (overwrite (content s i) off ys)"
    using assms(2) by (simp add: content_def overwrite_def)
  fix j assume "j < length (content s' i)"
  then have "j < flen (data i)" by (simp add: content_def)
  then show "content s' i ! j = overwrite (content s i) off ys ! j"
    using assms by (auto simp: content_def overwrite_def nth_append not_less)
qed

lemma inode_read_at_value:
  assumes "inodes s p = Some i" "inode_fits s (data i)" "disk_ok s" "alloc_ok s (alloc_cnt s)"
  obtains s' where "inode_read_at p (int sz) (int off) s = Inr (take sz (drop off (content s i)), s')"
    "same_mem s s'" "disk s' = disk s"
proof (cases "sz = 0 \<or> flen (data i) \<le> off")
  case True
  have "0 \<le> dlength (data i)" using assms(2) by (simp add: inode_fits_def)
  then have "inode_read_at p (int sz) (int off) s = Inr (take sz (drop off (content s i)), s)"
    using True assms(1) inode_read_loop_past [of i off False sz s]
    by (auto simp: inode_read_at_def get_inode_def content_def)
  then show thesis by (intro that [of s]) auto
next
  case False
  then have off: "off \<le> flen (data i)" and sz: "0 < int sz" by auto
  obtain n s' where r: "inode_read_loop i False (int sz) (int off) s = Inr (map (dbyte s) [fbase (data i) + off..<fbase (data i) + off + n], s')"
      "same_mem s s'" "disk s' = disk s" "n = min sz (flen (data i) - off)"
    using inode_read_loop_value [OF assms(2,3) off, of False sz] assms(4) by blast
  have "take n (drop off (content s i)) = take sz (drop off (content s i))" unfolding r(4) by (simp add: content_def min_def)
  then have "inode_read_at p (int sz) (int off) s = Inr (take sz (drop off (content s i)), s')"
    using assms(1) sz r(1) content_slice [of off n i s] r(4) off by (simp add: inode_read_at_def get_inode_def)
  then show thesis using r(2,3) by (rule that)
qed

lemma inode_write_at_value:
  assumes "inodes s p = Some i" "inode_fits s (data i)" "disk_ok s" "deny_write_cnt i = 0"
  obtains n s' where "inode_write_at p buffer (int off) s = Inr (int n, s')" "same_mem s s'" "disk_ok s'"
    "content s' i = overwrite (content s i) off (take n buffer)" "n \<le> length buffer"
    "n \<le> flen (data i) - off" "alloc_ok s (alloc_cnt s) \<longrightarrow> n = min (length buffer) (flen (data i) - off)"
    "\<forall>a. a < fbase (data i) + off \<or> fbase (data i) + off + n \<le> a \<longrightarrow> dbyte s' a = dbyte s a"
proof (cases "flen (data i) \<le> off")
  case True
  have "0 \<le> dlength (data i)" using assms(2) by (simp add: inode_fits_def)
  then have "inode_write_at p buffer (int off) s = Inr (int 0, s)"
    using True assms(1,4) inode_write_loop_past [of i off False buffer s] by (simp add: inode_write_at_def get_inode_def)
  moreover have "overwrite (content s i) off (take 0 buffer) = content s i" by (simp add: overwrite_def)
  ultimately show thesis using True assms(3) by (intro that [of 0 s]) auto
next
  case False
  then have off: "off \<le> flen (data i)" by auto
  obtain n s' where r: "inode_write_loop i False buffer (int off) s = Inr (int n, s')"
      "same_mem s s'" "disk_ok s'" "n \<le> min (length buffer) (flen (data i) - off)"
      "\<forall>a. dbyte s' a = (if fbase (data i) + off \<le> a \<and> a < fbase (data i) + off + n then buffer ! (a - (fbase (data i) + off)) else dbyte s a)"
      "alloc_ok s (alloc_cnt s) \<longrightarrow> n = min (length buffer) (flen (data i) - off)"
    using inode_write_loop_value [OF assms(2,3) off, of False buffer] by blast
  have "content s' i = overwrite (content s i) off (take n buffer)"
    using r(4,5) off by (intro content_write) (auto simp: min_absorb2)
  then show thesis using r assms(1,4) by (intro that [of n s']) (auto simp: inode_write_at_def get_inode_def)
qed

end
