(* ===== verification/Directory.thy ===== *)
theory Directory
  imports Inode_Data
begin

text \<open>
  Directories and the file system (filesys/directory.c, filesys/filesys.c). A directory is a file of
  20-byte entries: a sector number, 15 bytes for the name and a byte that tells whether the entry is in use.
  A name is the list of its bytes without the null byte. The loops over entries run until a short read, and return
  \<open>None\<close> if they never get one.
\<close>

section \<open>Directory entries\<close>

abbreviation (input) NAME_MAX :: nat where "NAME_MAX \<equiv> 14"

definition entry_sector :: "bytes \<Rightarrow> nat" where "entry_sector e = unat (word_at e 0)"
definition entry_name :: "bytes \<Rightarrow> bytes" where "entry_name e = take 15 (drop 4 e)"
definition entry_in_use :: "bytes \<Rightarrow> bool" where "entry_in_use e \<longleftrightarrow> e ! 19 \<noteq> 0"

text \<open>\<open>!strcmp (name, e.name)\<close>, where the second string stands in an array of 15 bytes.\<close>

fun name_matches :: "bytes \<Rightarrow> bytes \<Rightarrow> bool res" where
  "name_matches _ [] = Inl (Undefined ''e.name'')"
| "name_matches [] (b # bs) = Inr (b = 0)"
| "name_matches (c # cs) (b # bs) = (if c = b then name_matches cs bs else Inr False)"

text \<open>The local variable \<open>e\<close> after a read of \<open>bs\<close> into it.\<close>

definition refill :: "bytes \<Rightarrow> bytes \<Rightarrow> bytes" where
  "refill e bs = bs @ drop (length bs) e"

section \<open>Directories\<close>

definition dir_create :: "nat \<Rightarrow> nat \<Rightarrow> fs \<Rightarrow> (bool \<times> fs) res" where
  "dir_create sec entry_cnt s = inode_create sec (off_t (int (entry_cnt * 20))) s"

definition dir_open :: "ptr \<Rightarrow> fs \<Rightarrow> (ptr \<times> fs) res" where
  "dir_open ip s =
     (let (p, s) = malloc s in
      if ip \<noteq> 0 \<and> p \<noteq> 0 then Inr (p, s\<lparr>dirs := (dirs s)(p := Some \<lparr>dinode = ip, dpos = 0\<rparr>)\<rparr>)
      else bindr (inode_close ip s) (\<lambda>s. Inr (0, s)))"

definition dir_open_root :: "fs \<Rightarrow> (ptr \<times> fs) res" where
  "dir_open_root s = bindr (inode_open ROOT_DIR_SECTOR s) (\<lambda>(ip, s). dir_open ip s)"

definition get_dir :: "ptr \<Rightarrow> fs \<Rightarrow> dir res" where
  "get_dir p s = (case dirs s p of None \<Rightarrow> Inl (Undefined ''dir'') | Some d \<Rightarrow> Inr d)"

definition dir_reopen :: "ptr \<Rightarrow> fs \<Rightarrow> (ptr \<times> fs) res" where
  "dir_reopen p s = bindr (get_dir p s) (\<lambda>d. bindr (inode_reopen (dinode d) s) (\<lambda>(ip, s). dir_open ip s))"

definition dir_close :: "ptr \<Rightarrow> fs \<Rightarrow> fs res" where
  "dir_close p s =
     (if p \<noteq> 0 then bindr (get_dir p s) (\<lambda>d. bindr (inode_close (dinode d) s) (\<lambda>s. Inr (s\<lparr>dirs := (dirs s)(p := None)\<rparr>)))
      else Inr s)"

definition dir_get_inode :: "ptr \<Rightarrow> fs \<Rightarrow> ptr res" where
  "dir_get_inode p s = bindr (get_dir p s) (\<lambda>d. Inr (dinode d))"

text \<open>\<open>lookup\<close> returns the entry and its offset, or \<open>None\<close> if there is none.\<close>

partial_function (option) lookup_loop :: "ptr \<Rightarrow> bytes \<Rightarrow> int \<Rightarrow> fs \<Rightarrow> ((bytes \<times> int) option \<times> fs) res option" where
  "lookup_loop ip name ofs s =
     bindo (Some (inode_read_at ip 20 ofs s)) (\<lambda>(e, s).
       if length e = 20 then
         if entry_in_use e then
           bindo (Some (name_matches name (entry_name e))) (\<lambda>eq.
             if eq then Some (Inr (Some (e, ofs), s)) else lookup_loop ip name (ofs + 20) s)
         else lookup_loop ip name (ofs + 20) s
       else Some (Inr (None, s)))"

definition lookup :: "ptr \<Rightarrow> bytes \<Rightarrow> fs \<Rightarrow> ((bytes \<times> int) option \<times> fs) res option" where
  "lookup p name s = requireo (p \<noteq> 0) ''dir != NULL'' (bindo (Some (get_dir p s)) (\<lambda>d. lookup_loop (dinode d) name 0 s))"

text \<open>\<open>dir_lookup\<close> returns the inode that it stores into \<open>*inode\<close>; its truth value is whether this is not null.\<close>

definition dir_lookup :: "ptr \<Rightarrow> bytes \<Rightarrow> fs \<Rightarrow> (ptr \<times> fs) res option" where
  "dir_lookup p name s =
     requireo (p \<noteq> 0) ''dir != NULL''
     (bindo (lookup p name s) (\<lambda>(r, s).
       case r of Some (e, ofs) \<Rightarrow> Some (inode_open (entry_sector e) s) | None \<Rightarrow> Some (Inr (0, s))))"

text \<open>The search of \<open>dir_add\<close> for a free slot. It also returns what it leaves in \<open>e\<close>.\<close>

partial_function (option) free_slot :: "ptr \<Rightarrow> bytes \<Rightarrow> int \<Rightarrow> fs \<Rightarrow> (int \<times> bytes \<times> fs) res option" where
  "free_slot ip e ofs s =
     bindo (Some (inode_read_at ip 20 ofs s)) (\<lambda>(bs, s).
       let e = refill e bs in
       if length bs = 20 then (if \<not> entry_in_use e then Some (Inr (ofs, e, s)) else free_slot ip e (ofs + 20) s)
       else Some (Inr (ofs, e, s)))"

text \<open>The entry that \<open>dir_add\<close> writes: \<open>strlcpy\<close> leaves the bytes after the null byte as they are.\<close>

definition fill_entry :: "bytes \<Rightarrow> bytes \<Rightarrow> nat \<Rightarrow> bytes" where
  "fill_entry e name sec =
     le32 (of_nat sec) @ take 14 name @ [0] @ drop (4 + length (take 14 name) + 1) (take 19 e) @ [1]"

text \<open>\<open>junk\<close> is the initial value of the local variable \<open>e\<close>.\<close>

definition dir_add :: "bytes \<Rightarrow> ptr \<Rightarrow> bytes \<Rightarrow> nat \<Rightarrow> fs \<Rightarrow> (bool \<times> fs) res option" where
  "dir_add junk p name sec s =
     requireo (p \<noteq> 0) ''dir != NULL''
     (if name = [] \<or> length name > NAME_MAX then Some (Inr (False, s))
      else bindo (lookup p name s) (\<lambda>(r, s).
        if r \<noteq> None then Some (Inr (False, s))
        else bindo (Some (get_dir p s)) (\<lambda>d.
          bindo (free_slot (dinode d) junk 0 s) (\<lambda>(ofs, e, s).
          bindo (Some (inode_write_at (dinode d) (fill_entry e name sec) ofs s)) (\<lambda>(n, s). Some (Inr (n = 20, s)))))))"

definition dir_remove :: "ptr \<Rightarrow> bytes \<Rightarrow> fs \<Rightarrow> (bool \<times> fs) res option" where
  "dir_remove p name s =
     requireo (p \<noteq> 0) ''dir != NULL''
     (bindo (lookup p name s) (\<lambda>(r, s).
       case r of None \<Rightarrow> bindo (Some (inode_close 0 s)) (\<lambda>s. Some (Inr (False, s)))
       | Some (e, ofs) \<Rightarrow>
           bindo (Some (inode_open (entry_sector e) s)) (\<lambda>(ip, s).
           if ip = 0 then Some (Inr (False, s))
           else bindo (Some (get_dir p s)) (\<lambda>d.
             bindo (Some (inode_write_at (dinode d) (e[19 := 0]) ofs s)) (\<lambda>(n, s).
             if n \<noteq> 20 then bindo (Some (inode_close ip s)) (\<lambda>s. Some (Inr (False, s)))
             else bindo (Some (inode_remove ip s)) (\<lambda>s. bindo (Some (inode_close ip s)) (\<lambda>s. Some (Inr (True, s)))))))))"

text \<open>\<open>None\<close> is the result false. \<open>strlcpy\<close> copies at most 14 bytes of the name.\<close>

partial_function (option) dir_readdir :: "ptr \<Rightarrow> fs \<Rightarrow> (bytes option \<times> fs) res option" where
  "dir_readdir p s =
     bindo (Some (get_dir p s)) (\<lambda>d.
     bindo (Some (inode_read_at (dinode d) 20 (dpos d) s)) (\<lambda>(e, s).
       if length e = 20 then
         let s = s\<lparr>dirs := (dirs s)(p := Some (d\<lparr>dpos := dpos d + 20\<rparr>))\<rparr> in
         if entry_in_use e then
           (if 0 \<in> set (entry_name e) then Some (Inr (Some (take 14 (takeWhile (\<lambda>b. b \<noteq> 0) (entry_name e))), s))
            else Some (Inl (Undefined ''e.name'')))
         else dir_readdir p s
       else Some (Inr (None, s))))"

section \<open>The file system\<close>

text \<open>The short-circuit conjunction of \<open>filesys_create\<close>. Its result has the value of \<open>inode_sector\<close> as well.\<close>

definition filesys_create_steps :: "bytes \<Rightarrow> ptr \<Rightarrow> bytes \<Rightarrow> int \<Rightarrow> fs \<Rightarrow> (bool \<times> nat \<times> fs) res option" where
  "filesys_create_steps junk d name initial_size s =
     (if d = 0 then Some (Inr (False, 0, s))
      else bindo (Some (free_map_allocate 1 s)) (\<lambda>(r, s).
        case r of None \<Rightarrow> Some (Inr (False, 0, s))
        | Some sec \<Rightarrow> bindo (Some (inode_create sec initial_size s)) (\<lambda>(ok, s).
            if \<not> ok then Some (Inr (False, sec, s))
            else bindo (dir_add junk d name sec s) (\<lambda>(ok, s). Some (Inr (ok, sec, s))))))"

definition filesys_create :: "bytes \<Rightarrow> bytes \<Rightarrow> int \<Rightarrow> fs \<Rightarrow> (bool \<times> fs) res option" where
  "filesys_create junk name initial_size s =
     bindo (Some (dir_open_root s)) (\<lambda>(d, s).
     bindo (filesys_create_steps junk d name initial_size s) (\<lambda>(success, inode_sector, s).
     bindo (if \<not> success \<and> inode_sector \<noteq> 0 then Some (free_map_release inode_sector 1 s) else Some (Inr s)) (\<lambda>s.
     bindo (Some (dir_close d s)) (\<lambda>s. Some (Inr (success, s))))))"

definition filesys_open :: "bytes \<Rightarrow> fs \<Rightarrow> (ptr \<times> fs) res option" where
  "filesys_open name s =
     bindo (Some (dir_open_root s)) (\<lambda>(d, s).
     bindo (if d \<noteq> 0 then dir_lookup d name s else Some (Inr (0, s))) (\<lambda>(ip, s).
     bindo (Some (dir_close d s)) (\<lambda>s. Some (file_open ip s))))"

definition filesys_remove :: "bytes \<Rightarrow> fs \<Rightarrow> (bool \<times> fs) res option" where
  "filesys_remove name s =
     bindo (Some (dir_open_root s)) (\<lambda>(d, s).
     bindo (if d \<noteq> 0 then dir_remove d name s else Some (Inr (False, s))) (\<lambda>(success, s).
     bindo (Some (dir_close d s)) (\<lambda>s. Some (Inr (success, s)))))"

definition do_format :: "fs \<Rightarrow> fs res" where
  "do_format s =
     bindr (free_map_create s) (\<lambda>s.
     bindr (dir_create ROOT_DIR_SECTOR 16 s) (\<lambda>(ok, s).
     if \<not> ok then Inl (Panic ''root directory creation failed'') else free_map_close s))"

definition filesys_init :: "elem_type list \<Rightarrow> bool \<Rightarrow> fs \<Rightarrow> fs res" where
  "filesys_init junk format s =
     bindr (block_get_role BLOCK_FILESYS (devs s)) (\<lambda>d.
     let s = s\<lparr>fs_device := d\<rparr> in
     if d = 0 then Inl (Panic ''No file system device found, can't initialize file system.'')
     else bindr (free_map_init junk (inode_init s)) (\<lambda>s.
       bindr (if format then do_format s else Inr s) free_map_open))"

definition filesys_done :: "fs \<Rightarrow> fs res" where
  "filesys_done s = free_map_close s"

end
