(* ===== verification/Fs_References.thy ===== *)
theory Fs_References
  imports Directory
begin

text \<open>
  Reference counting in the file system: the open count of every inode in memory is the number of open files
  and directories on it, its count of denied writes is the number of open files that deny writes, and a sector has at most
  one inode in memory. Every operation keeps this, and in consequence no operation uses a structure
  that has been freed, and the assertions on the two counts never fail.

  The proofs use a small calculus of postconditions: \<open>okr r P\<close> says that \<open>r\<close> is not one of the errors in question, and that its
  value, if there is one, satisfies \<open>P\<close>.
\<close>

section \<open>Postconditions\<close>

definition ref_errors :: "panic set" where
  "ref_errors = {Undefined ''inode'', Undefined ''file'', Undefined ''dir'',
     Assert_fail ''inode->deny_write_cnt > 0'', Assert_fail ''inode->deny_write_cnt <= inode->open_cnt''}"

definition okr :: "'a res \<Rightarrow> ('a \<Rightarrow> bool) \<Rightarrow> bool" where
  "okr r P \<longleftrightarrow> (case r of Inl e \<Rightarrow> e \<notin> ref_errors | Inr x \<Rightarrow> P x)"

definition oko :: "'a res option \<Rightarrow> ('a \<Rightarrow> bool) \<Rightarrow> bool" where
  "oko r P \<longleftrightarrow> (case r of None \<Rightarrow> True | Some r \<Rightarrow> okr r P)"

lemma okr_simps [simp]: "okr (Inr x) P \<longleftrightarrow> P x" "okr (Inl e) P \<longleftrightarrow> e \<notin> ref_errors"
  by (simp_all add: okr_def)

lemma oko_simps [simp]: "oko None P" "oko (Some r) P \<longleftrightarrow> okr r P"
  by (simp_all add: oko_def)

lemma okr_bind: "okr m P \<Longrightarrow> (\<And>x. m = Inr x \<Longrightarrow> P x \<Longrightarrow> okr (f x) Q) \<Longrightarrow> okr (bindr m f) Q"
  by (cases m) auto

lemma oko_bind: "oko m P \<Longrightarrow> (\<And>x. P x \<Longrightarrow> oko (f x) Q) \<Longrightarrow> oko (bindo m f) Q"
  by (cases m) (auto simp: bindo_def okr_def split: sum.splits)

lemma okr_mono: "okr m P \<Longrightarrow> (\<And>x. P x \<Longrightarrow> Q x) \<Longrightarrow> okr m Q"
  by (cases m) auto

lemma okr_require: "(b \<Longrightarrow> okr k P) \<Longrightarrow> Assert_fail msg \<notin> ref_errors \<or> b \<Longrightarrow> okr (require b msg k) P"
  by (cases b) auto

lemma okr_if: "(c \<Longrightarrow> okr a P) \<Longrightarrow> (\<not> c \<Longrightarrow> okr b P) \<Longrightarrow> okr (if c then a else b) P"
  by simp

lemma oko_if: "(c \<Longrightarrow> oko a P) \<Longrightarrow> (\<not> c \<Longrightarrow> oko b P) \<Longrightarrow> oko (if c then a else b) P"
  by simp

lemma oko_require: "(b \<Longrightarrow> oko k P) \<Longrightarrow> Assert_fail msg \<notin> ref_errors \<or> b \<Longrightarrow> oko (requireo b msg k) P"
  by (cases b) auto

lemma not_ref_error [simp]: "Panic msg \<notin> ref_errors" "Not_reached \<notin> ref_errors"
  by (simp_all add: ref_errors_def)

section \<open>The bitmap raises no such error\<close>

lemma okr_bitmap_test: "okr (bitmap_test b i) (\<lambda>_. True)"
  by (auto simp: bitmap_test_def require_def okr_def ref_errors_def)

lemma okr_bitmap_set: "okr (bitmap_set b i v) (\<lambda>_. True)"
  by (auto simp: bitmap_set_def bitmap_mark_def bitmap_reset_def update_elem_def require_def okr_def ref_errors_def)

lemma okr_set_multiple_loop: "okr (set_multiple_loop b start cnt v i) (\<lambda>_. True)"
proof (induction b start cnt v i rule: set_multiple_loop.induct)
  case (1 b start cnt v i)
  then show ?case by (subst set_multiple_loop.simps) (auto intro!: okr_bind [OF okr_bitmap_set])
qed

lemma okr_contains_loop: "okr (contains_loop b start cnt v i) (\<lambda>_. True)"
proof (induction b start cnt v i rule: contains_loop.induct)
  case (1 b start cnt v i)
  then show ?case by (subst contains_loop.simps) (auto intro!: okr_bind [OF okr_bitmap_test])
qed

lemma okr_bitmap_contains: "okr (bitmap_contains b start cnt v) (\<lambda>_. True)"
  unfolding bitmap_contains_def by (intro okr_require okr_contains_loop) (auto simp: ref_errors_def)

lemma okr_scan_loop: "okr (scan_loop b l cnt v i) (\<lambda>_. True)"
proof (induction b l cnt v i rule: scan_loop.induct)
  case (1 b l cnt v i)
  then show ?case by (subst scan_loop.simps) (auto intro!: okr_bind [OF okr_bitmap_contains])
qed

lemma okr_bitmap_set_multiple: "okr (bitmap_set_multiple b start cnt v) (\<lambda>_. True)"
  unfolding bitmap_set_multiple_def by (intro okr_require okr_set_multiple_loop) (auto simp: ref_errors_def)

lemma okr_bitmap_all: "okr (bitmap_all b start cnt) (\<lambda>_. True)"
  unfolding bitmap_all_def by (rule okr_bind [OF okr_bitmap_contains]) simp

lemma okr_bitmap_scan_and_flip: "okr (bitmap_scan_and_flip b start cnt v) (\<lambda>_. True)"
proof -
  have "okr (bitmap_scan b start cnt v) (\<lambda>_. True)"
    unfolding bitmap_scan_def by (rule okr_require) (auto intro: okr_scan_loop simp: ref_errors_def)
  then show ?thesis unfolding bitmap_scan_and_flip_def
    by (rule okr_bind) (auto intro!: okr_bind [OF okr_bitmap_set_multiple])
qed

section \<open>Operations on the device\<close>

definition same_refs :: "fs \<Rightarrow> fs \<Rightarrow> bool" where
  "same_refs s s' \<longleftrightarrow> inodes s' = inodes s \<and> open_inodes s' = open_inodes s \<and> files s' = files s \<and> dirs s' = dirs s
     \<and> free_map_file s' = free_map_file s \<and> alloc_cnt s \<le> alloc_cnt s'"

lemma same_refs_refl [simp]: "same_refs s s"
  by (simp add: same_refs_def)

lemma same_refs_trans: "same_refs s s' \<Longrightarrow> same_refs s' s'' \<Longrightarrow> same_refs s s''"
  by (simp add: same_refs_def)

lemma okr_fs_read: "okr (fs_read k s) (\<lambda>(bs, s'). same_refs s s')"
  by (auto simp: fs_read_def block_read_def check_sector_def Let_def same_refs_def)

lemma okr_fs_write: "okr (fs_write k bs s) (\<lambda>s'. same_refs s s')"
  unfolding fs_write_def block_write_def check_sector_def Let_def
  by (auto simp: same_refs_def require_def okr_def ref_errors_def)

lemma same_refs_malloc: "malloc s = (p, s') \<Longrightarrow> same_refs s s'"
  by (auto simp: malloc_def same_refs_def)

lemma okr_inode_read_loop: "okr (inode_read_loop i b sz off s) (\<lambda>(bs, s'). same_refs s s')"
proof (induction "nat sz" arbitrary: b sz off s rule: less_induct)
  case less
  let ?c = "chunk_size i sz off"
  have more: "okr (bindr (fs_read k s1) (\<lambda>(bs, s). bindr (inode_read_loop i b' (sz - ?c) (off + ?c) s) (\<lambda>(rest, s). Inr (g bs rest, s))))
      (\<lambda>(bs, s'). same_refs s s')" if "0 < sz" "0 < ?c" "same_refs s s1" for k b' s1 and g :: "bytes \<Rightarrow> bytes \<Rightarrow> bytes"
  proof (rule okr_bind [OF okr_fs_read], clarify)
    fix bs s2 assume s2: "same_refs s1 s2"
    then have ss: "same_refs s s2" using that(3) same_refs_trans by blast
    have "okr (inode_read_loop i b' (sz - ?c) (off + ?c) s2) (\<lambda>(bs, s'). same_refs s2 s')" using that by (intro less) auto
    then show "okr (bindr (inode_read_loop i b' (sz - ?c) (off + ?c) s2) (\<lambda>(rest, s). Inr (g bs rest, s))) (\<lambda>(bs, s'). same_refs s s')"
      by (rule okr_bind) (use ss in \<open>auto intro: same_refs_trans\<close>)
  qed
  show ?case
  proof (cases "0 < sz \<and> 0 < ?c")
    case True
    obtain p s1 where m: "(if b then (1, s) else malloc s) = (p, s1)" by (metis prod.exhaust)
    then have s1: "same_refs s s1" by (auto split: if_splits intro: same_refs_malloc)
    show ?thesis unfolding inode_read_loop.simps [of i b sz off s] Let_def m prod.case
      using True s1 by (intro okr_if more) auto
  next
    case False
    then show ?thesis by (subst inode_read_loop.simps) (auto simp: Let_def)
  qed
qed

lemma okr_inode_write_loop: "okr (inode_write_loop i b buf off s) (\<lambda>(n, s'). same_refs s s')"
proof (induction "length buf" arbitrary: b buf off s rule: less_induct)
  case less
  let ?c = "chunk_size i (int (length buf)) off"
  have more: "okr (bindr (fs_write k bs s1) (\<lambda>s. bindr (inode_write_loop i b' (drop (nat ?c) buf) (off + ?c) s) (\<lambda>(n, s). Inr (?c + n, s))))
      (\<lambda>(n, s'). same_refs s s')" if "0 < length buf" "0 < ?c" "same_refs s s1" for k b' s1 bs
  proof (rule okr_bind [OF okr_fs_write])
    fix s2 assume s2: "same_refs s1 s2"
    then have ss: "same_refs s s2" using that(3) same_refs_trans by blast
    have "okr (inode_write_loop i b' (drop (nat ?c) buf) (off + ?c) s2) (\<lambda>(n, s'). same_refs s2 s')" using that by (intro less) auto
    then show "okr (bindr (inode_write_loop i b' (drop (nat ?c) buf) (off + ?c) s2) (\<lambda>(n, s). Inr (?c + n, s))) (\<lambda>(n, s'). same_refs s s')"
      by (rule okr_bind) (use ss in \<open>auto intro: same_refs_trans\<close>)
  qed
  have read_more: "okr (bindr (if r then fs_read k s1 else Inr (z, s1)) (\<lambda>(bs, s). bindr (fs_write k (g bs) s)
        (\<lambda>s. bindr (inode_write_loop i True (drop (nat ?c) buf) (off + ?c) s) (\<lambda>(n, s). Inr (?c + n, s)))))
      (\<lambda>(n, s'). same_refs s s')" if "0 < length buf" "0 < ?c" "same_refs s s1" for k r z g s1
  proof (rule okr_bind [where P = "\<lambda>(bs, s'). same_refs s1 s'"])
    show "okr (if r then fs_read k s1 else Inr (z, s1)) (\<lambda>(bs, s'). same_refs s1 s')" using okr_fs_read by auto
    fix x :: "bytes \<times> fs" assume "case x of (bs, s') \<Rightarrow> same_refs s1 s'"
    then have "same_refs s (snd x)" using that(3) same_refs_trans by (cases x) auto
    then show "okr (case x of (bs, s) \<Rightarrow> bindr (fs_write k (g bs) s)
        (\<lambda>s. bindr (inode_write_loop i True (drop (nat ?c) buf) (off + ?c) s) (\<lambda>(n, s). Inr (?c + n, s)))) (\<lambda>(n, s'). same_refs s s')"
      using more [OF that(1,2)] by (cases x) simp
  qed
  show ?case
  proof (cases "0 < length buf \<and> 0 < ?c")
    case True
    obtain p s1 where m: "(if b then (1, s) else malloc s) = (p, s1)" by (metis prod.exhaust)
    then have s1: "same_refs s s1" by (auto split: if_splits intro: same_refs_malloc)
    show ?thesis unfolding inode_write_loop.simps [of i b buf off s] Let_def m prod.case
      using True s1 by (intro okr_if more read_more) auto
  next
    case False
    then show ?thesis by (subst inode_write_loop.simps) (auto simp: Let_def)
  qed
qed

lemma okr_inode_read_at: "inodes s p \<noteq> None \<Longrightarrow> okr (inode_read_at p sz off s) (\<lambda>(bs, s'). same_refs s s')"
  by (auto simp: inode_read_at_def get_inode_def intro: okr_inode_read_loop [THEN okr_mono])

lemma okr_inode_write_at: "inodes s p \<noteq> None \<Longrightarrow> okr (inode_write_at p buf off s) (\<lambda>(n, s'). same_refs s s')"
  by (auto simp: inode_write_at_def get_inode_def intro: okr_inode_write_loop [THEN okr_mono])

text \<open>The free map file is open on an inode in memory.\<close>

definition fm_ready :: "fs \<Rightarrow> bool" where
  "fm_ready s \<longleftrightarrow> (\<exists>x. files s (free_map_file s) = Some x \<and> inodes s (finode x) \<noteq> None)"

lemma fm_ready_same: "fm_ready s \<Longrightarrow> same_refs s s' \<Longrightarrow> fm_ready s'"
  by (auto simp: fm_ready_def same_refs_def)

lemma okr_bitmap_write:
  assumes "fm_ready s"
  shows "okr (bitmap_write bm (free_map_file s) s) (\<lambda>(ok, s'). same_refs s s')"
proof -
  obtain x where x: "files s (free_map_file s) = Some x" "inodes s (finode x) \<noteq> None" using assms by (auto simp: fm_ready_def)
  then show ?thesis unfolding bitmap_write_def file_write_at_def get_file_def Let_def
    by simp (rule okr_bind [OF okr_inode_write_at], auto)
qed

lemma okr_free_map_allocate:
  assumes "fm_ready s"
  shows "okr (free_map_allocate cnt s) (\<lambda>(r, s'). same_refs s s')"
proof -
  have *: "okr (bindr (bitmap_write bm (free_map_file s) (s\<lparr>free_map := bm\<rparr>)) (\<lambda>(ok, s).
         if \<not> ok then bindr (bitmap_set_multiple (free_map s) sec cnt False) (\<lambda>bm. Inr (None, s\<lparr>free_map := bm\<rparr>))
         else Inr (Some sec, s))) (\<lambda>(r, s'). same_refs s s')" for bm sec
  proof (rule okr_bind)
    show "okr (bitmap_write bm (free_map_file s) (s\<lparr>free_map := bm\<rparr>)) (\<lambda>(ok, s'). same_refs s s')"
      using okr_bitmap_write [of "s\<lparr>free_map := bm\<rparr>" bm] assms by (simp add: fm_ready_def same_refs_def)
  qed (auto simp: same_refs_def intro!: okr_bind [OF okr_bitmap_set_multiple])
  show ?thesis unfolding free_map_allocate_def Let_def
    by (rule okr_bind [OF okr_bitmap_scan_and_flip]) (use * in \<open>auto simp: same_refs_def\<close>)
qed

lemma okr_free_map_release:
  assumes "fm_ready s"
  shows "okr (free_map_release sec cnt s) (\<lambda>s'. same_refs s s')"
  unfolding free_map_release_def
proof (rule okr_bind [OF okr_bitmap_all], rule okr_require, rule okr_bind [OF okr_bitmap_set_multiple])
  fix bm
  have "okr (bitmap_write bm (free_map_file s) (s\<lparr>free_map := bm\<rparr>)) (\<lambda>(ok, s'). same_refs s s')"
    using okr_bitmap_write [of "s\<lparr>free_map := bm\<rparr>" bm] assms by (simp add: fm_ready_def same_refs_def)
  then show "okr (bindr (bitmap_write bm (free_map_file s) (s\<lparr>free_map := bm\<rparr>)) (\<lambda>(_, s). Inr s)) (\<lambda>s'. same_refs s s')"
    by (rule okr_bind) auto
qed (simp add: ref_errors_def)

lemma okr_write_zeros: "okr (write_zeros start n s) (\<lambda>s'. same_refs s s')"
proof (induction n arbitrary: start s)
  case (Suc n)
  show ?case unfolding write_zeros.simps
    by (rule okr_bind [OF okr_fs_write], rule okr_mono [OF Suc]) (auto intro: same_refs_trans)
qed simp

lemma okr_inode_create:
  assumes "fm_ready s"
  shows "okr (inode_create sec len s) (\<lambda>(ok, s'). same_refs s s')"
proof -
  obtain p s1 where m: "malloc s = (p, s1)" by (metis prod.exhaust)
  then have s1: "same_refs s s1" by (rule same_refs_malloc)
  then have "fm_ready s1" using assms fm_ready_same by blast
  note fma = okr_free_map_allocate [OF this]
  have wz: "okr (bindr (fs_write sec bs s2) (\<lambda>s. bindr (write_zeros start n s) (\<lambda>s. Inr (True, s)))) (\<lambda>(ok, s'). same_refs s s')"
    if "same_refs s s2" for bs s2 start n
  proof (rule okr_bind [OF okr_fs_write])
    fix s3 assume "same_refs s2 s3"
    then have "same_refs s s3" using that same_refs_trans by blast
    then show "okr (bindr (write_zeros start n s3) (\<lambda>s. Inr (True, s))) (\<lambda>(ok, s'). same_refs s s')"
      by (intro okr_bind [OF okr_write_zeros]) (auto intro: same_refs_trans)
  qed
  show ?thesis unfolding inode_create_def m Let_def prod.case
  proof (rule okr_require)
    show "okr (if p \<noteq> 0 then bindr (free_map_allocate (bytes_to_sectors len) s1) (\<lambda>(r, s). case r of None \<Rightarrow> Inr (False, s)
        | Some start \<Rightarrow> bindr (fs_write sec (encode_inode (\<lparr>dstart = 0, dlength = len, dmagic = INODE_MAGIC, dunused = replicate 500 0\<rparr>\<lparr>dstart := start\<rparr>)) s)
            (\<lambda>s. bindr (write_zeros start (bytes_to_sectors len) s) (\<lambda>s. Inr (True, s))))
        else Inr (False, s1)) (\<lambda>(ok, s'). same_refs s s')"
      using s1 by (auto intro!: okr_bind [OF fma] wz split: option.split intro: same_refs_trans)
  qed (simp add: ref_errors_def)
qed


section \<open>The invariant\<close>

definition file_refs :: "(ptr \<rightharpoonup> open_file) \<Rightarrow> ptr \<Rightarrow> ptr set" where
  "file_refs F p = {f. \<exists>x. F f = Some x \<and> finode x = p}"

definition deny_refs :: "(ptr \<rightharpoonup> open_file) \<Rightarrow> ptr \<Rightarrow> ptr set" where
  "deny_refs F p = {f. \<exists>x. F f = Some x \<and> finode x = p \<and> deny_write x}"

definition dir_refs :: "(ptr \<rightharpoonup> dir) \<Rightarrow> ptr \<Rightarrow> ptr set" where
  "dir_refs D p = {d. \<exists>x. D d = Some x \<and> dinode x = p}"

text \<open>\<open>E p\<close> is the number of references to the inode \<open>p\<close> that running code holds in local variables. It is negative
  while \<open>file_close\<close> or \<open>dir_close\<close> has already given up the reference of a structure that it has not yet freed.\<close>

definition inode_counts :: "(ptr \<rightharpoonup> open_file) \<Rightarrow> (ptr \<rightharpoonup> dir) \<Rightarrow> int \<Rightarrow> ptr \<Rightarrow> inode \<Rightarrow> bool" where
  "inode_counts F D e p i \<longleftrightarrow> open_cnt i = int (card (file_refs F p) + card (dir_refs D p)) + e
     \<and> open_cnt i > 0 \<and> deny_write_cnt i = int (card (deny_refs F p))"

definition counts_ok :: "(ptr \<Rightarrow> int) \<Rightarrow> fs \<Rightarrow> bool" where
  "counts_ok E s \<longleftrightarrow>
     (\<forall>p i. inodes s p = Some i \<longrightarrow> inode_counts (files s) (dirs s) (E p) p i)
     \<and> (\<forall>p. inodes s p = None \<longrightarrow> int (card (file_refs (files s) p) + card (dir_refs (dirs s) p)) + E p = 0)"

definition table_ok :: "fs \<Rightarrow> bool" where
  "table_ok s \<longleftrightarrow> finite (dom (files s)) \<and> finite (dom (dirs s)) \<and> distinct (open_inodes s)
     \<and> (\<forall>p. p \<in> set (open_inodes s) \<longleftrightarrow> inodes s p \<noteq> None)
     \<and> (\<forall>p q i j. inodes s p = Some i \<longrightarrow> inodes s q = Some j \<longrightarrow> sector i = sector j \<longrightarrow> p = q)
     \<and> (\<forall>p. inodes s p \<noteq> None \<or> files s p \<noteq> None \<or> dirs s p \<noteq> None \<longrightarrow> 0 < p \<and> p \<le> alloc_cnt s)
     \<and> (\<forall>f x. files s f = Some x \<longrightarrow> finode x \<le> alloc_cnt s) \<and> (\<forall>d x. dirs s d = Some x \<longrightarrow> dinode x \<le> alloc_cnt s)"

definition refs_ok :: "(ptr \<Rightarrow> int) \<Rightarrow> fs \<Rightarrow> bool" where
  "refs_ok E s \<longleftrightarrow> counts_ok E s \<and> table_ok s \<and> fm_ready s"

lemma refs_ok_same: "refs_ok E s \<Longrightarrow> same_refs s s' \<Longrightarrow> refs_ok E s'"
  unfolding refs_ok_def counts_ok_def table_ok_def same_refs_def fm_ready_def by (simp, meson le_trans)

lemma finite_refs:
  assumes "table_ok s"
  shows "finite (file_refs (files s) p)" "finite (dir_refs (dirs s) p)" "finite (deny_refs (files s) p)"
  using assms unfolding table_ok_def
  by (auto intro: finite_subset [of _ "dom (files s)"] finite_subset [of _ "dom (dirs s)"] simp: file_refs_def dir_refs_def deny_refs_def)

lemma counts_none:
  "refs_ok E s \<Longrightarrow> inodes s p = None \<Longrightarrow> int (card (file_refs (files s) p) + card (dir_refs (dirs s) p)) + E p = 0"
  unfolding refs_ok_def counts_ok_def by blast

lemma refs_ok_file:
  assumes "refs_ok E s" "files s f = Some x" "0 \<le> E (finode x)"
  obtains i where "inodes s (finode x) = Some i"
proof -
  have "f \<in> file_refs (files s) (finode x)" using assms(2) by (auto simp: file_refs_def)
  then have "0 < card (file_refs (files s) (finode x))" using assms(1) finite_refs [of s] by (auto simp: refs_ok_def card_gt_0_iff)
  then have "inodes s (finode x) \<noteq> None" using assms(3) counts_none [OF assms(1), of "finode x"] by force
  then show thesis using that by auto
qed

lemma refs_ok_dir:
  assumes "refs_ok E s" "dirs s d = Some x" "0 \<le> E (dinode x)"
  obtains i where "inodes s (dinode x) = Some i"
proof -
  have "d \<in> dir_refs (dirs s) (dinode x)" using assms(2) by (auto simp: dir_refs_def)
  then have "0 < card (dir_refs (dirs s) (dinode x))" using assms(1) finite_refs [of s] by (auto simp: refs_ok_def card_gt_0_iff)
  then have "inodes s (dinode x) \<noteq> None" using assms(3) counts_none [OF assms(1), of "dinode x"] by force
  then show thesis using that by auto
qed

lemma refs_ok_fm: "refs_ok E s \<Longrightarrow> fm_ready s"
  by (simp add: refs_ok_def)

lemma refs_ok_held: "refs_ok E s \<Longrightarrow> 0 < E p \<Longrightarrow> inodes s p \<noteq> None \<and> p \<noteq> 0"
  unfolding refs_ok_def counts_ok_def table_ok_def by (smt (verit) of_nat_0_le_iff less_irrefl)

section \<open>Inodes\<close>

text \<open>The open files and directories are as before.\<close>

definition same_files :: "fs \<Rightarrow> fs \<Rightarrow> bool" where
  "same_files s s' \<longleftrightarrow> files s' = files s \<and> dirs s' = dirs s \<and> free_map_file s' = free_map_file s \<and> alloc_cnt s \<le> alloc_cnt s'"

lemma same_refs_files: "same_refs s s' \<Longrightarrow> same_files s s'"
  by (simp add: same_refs_def same_files_def)

lemma same_files_trans: "same_files s s' \<Longrightarrow> same_files s' s'' \<Longrightarrow> same_files s s''"
  by (simp add: same_files_def)

lemma find_inode_cases:
  "\<forall>e \<in> set es. inodes s e \<noteq> None \<Longrightarrow> \<exists>r. find_inode sec es s = Inr r \<and>
     (case r of None \<Rightarrow> \<forall>e i. e \<in> set es \<longrightarrow> inodes s e = Some i \<longrightarrow> sector i \<noteq> sec
      | Some p \<Rightarrow> \<exists>i. inodes s p = Some i \<and> sector i = sec)"
proof (induction es)
  case (Cons e es)
  then obtain i where "inodes s e = Some i" by auto
  moreover obtain r where "find_inode sec es s = Inr r" "case r of None \<Rightarrow> \<forall>e i. e \<in> set es \<longrightarrow> inodes s e = Some i \<longrightarrow> sector i \<noteq> sec
      | Some p \<Rightarrow> \<exists>i. inodes s p = Some i \<and> sector i = sec" using Cons by auto
  ultimately show ?case
    by (cases "sector i = sec"; intro exI [of _ "if sector i = sec then Some e else r"]) (auto simp: get_inode_def split: option.splits)
qed simp

lemma put_inode_table:
  assumes "inodes s p = Some i" "table_ok s" "sector j = sector i"
  shows "table_ok (put_inode p j s)"
  using assms unfolding table_ok_def put_inode_def by (auto split: if_splits; metis)

lemma add_ref:
  assumes "refs_ok E s" "inodes s p = Some i"
  shows "refs_ok (E(p := E p + 1)) (put_inode p (i\<lparr>open_cnt := open_cnt i + 1\<rparr>) s)"
proof -
  let ?s = "put_inode p (i\<lparr>open_cnt := open_cnt i + 1\<rparr>) s"
  have "inode_counts (files s) (dirs s) (E p) p i" using assms by (simp add: refs_ok_def counts_ok_def)
  then have "inode_counts (files s) (dirs s) (E p + 1) p (i\<lparr>open_cnt := open_cnt i + 1\<rparr>)" by (simp add: inode_counts_def)
  then have "counts_ok (E(p := E p + 1)) ?s" using assms unfolding refs_ok_def counts_ok_def put_inode_def by auto
  moreover have "table_ok ?s" using assms(1) put_inode_table [OF assms(2)] by (simp add: refs_ok_def)
  moreover have "fm_ready ?s" using assms(1) by (auto simp: refs_ok_def fm_ready_def put_inode_def)
  ultimately show ?thesis by (simp add: refs_ok_def)
qed

lemma okr_inode_reopen:
  assumes "refs_ok E s" "inodes s p \<noteq> None"
  shows "okr (inode_reopen p s) (\<lambda>(q, s'). q = p \<and> p \<noteq> 0 \<and> refs_ok (E(p := E p + 1)) s' \<and> same_files s s')"
proof -
  obtain i where i: "inodes s p = Some i" using assms(2) by auto
  have "p \<noteq> 0" using assms unfolding refs_ok_def table_ok_def by (metis less_irrefl)
  then show ?thesis using add_ref [OF assms(1) i] i by (simp add: inode_reopen_def get_inode_def put_inode_def same_files_def)
qed

lemma new_ref:
  assumes "refs_ok E s" "p = alloc_cnt s + 1" "\<forall>q j. inodes s q = Some j \<longrightarrow> sector j \<noteq> sector i"
    and "open_cnt i = 1" "deny_write_cnt i = 0"
  shows "refs_ok (E(p := E p + 1)) (put_inode p i (s\<lparr>alloc_cnt := alloc_cnt s + 1, open_inodes := p # open_inodes s\<rparr>))"
proof -
  let ?s = "put_inode p i (s\<lparr>alloc_cnt := alloc_cnt s + 1, open_inodes := p # open_inodes s\<rparr>)"
  have n: "inodes s p = None" using assms(1,2) unfolding refs_ok_def table_ok_def by (metis Suc_eq_plus1 not_less_eq_eq order_refl)
  have e: "file_refs (files s) p = {}" "dir_refs (dirs s) p = {}"
    using assms(1,2) unfolding refs_ok_def table_ok_def file_refs_def dir_refs_def by (auto, metis not_less_eq_eq order_refl)+
  moreover have "int (card (file_refs (files s) p) + card (dir_refs (dirs s) p)) + E p = 0"
    using assms(1) n unfolding refs_ok_def counts_ok_def by blast
  ultimately have E: "E p = 0" by simp
  have "deny_refs (files s) p = {}" using e(1) by (auto simp: deny_refs_def file_refs_def)
  then have "inode_counts (files s) (dirs s) (E p + 1) p i" using assms(4,5) e E by (simp add: inode_counts_def)
  then have "counts_ok (E(p := E p + 1)) ?s" using assms(1) unfolding refs_ok_def counts_ok_def put_inode_def by auto
  moreover have "table_ok ?s"
    using assms(1-3) n unfolding refs_ok_def table_ok_def put_inode_def by (auto intro: le_SucI; metis)
  moreover have "fm_ready ?s" using assms(1) by (auto simp: refs_ok_def fm_ready_def put_inode_def)
  ultimately show ?thesis by (simp add: refs_ok_def)
qed

lemma okr_inode_open:
  assumes "refs_ok E s"
  shows "okr (inode_open sec s) (\<lambda>(p, s'). refs_ok (if p = 0 then E else E(p := E p + 1)) s' \<and> same_files s s')"
proof -
  have all: "\<forall>e \<in> set (open_inodes s). inodes s e \<noteq> None" using assms by (simp add: refs_ok_def table_ok_def)
  obtain r where r: "find_inode sec (open_inodes s) s = Inr r"
     "case r of None \<Rightarrow> \<forall>e i. e \<in> set (open_inodes s) \<longrightarrow> inodes s e = Some i \<longrightarrow> sector i \<noteq> sec
      | Some p \<Rightarrow> \<exists>i. inodes s p = Some i \<and> sector i = sec" using find_inode_cases [OF all] by blast
  show ?thesis
  proof (cases r)
    case (Some p)
    then have "inodes s p \<noteq> None" using r(2) by auto
    then show ?thesis using r(1) Some okr_inode_reopen [OF assms, of p]
      by (auto simp: inode_open_def elim!: okr_mono)
  next
    case None
    have uniq: "\<forall>q j. inodes s q = Some j \<longrightarrow> sector j \<noteq> sec"
    proof (intro allI impI)
      fix q j assume j: "inodes s q = Some j"
      then have "q \<in> set (open_inodes s)" using assms by (simp add: refs_ok_def table_ok_def)
      then show "sector j \<noteq> sec" using r(2) None j by simp
    qed
    obtain p s1 where m: "malloc s = (p, s1)" by (metis prod.exhaust)
    let ?s = "s1\<lparr>open_inodes := p # open_inodes s1\<rparr>"
    have "okr (bindr (fs_read sec ?s) (\<lambda>(bs, s). Inr (p, put_inode p \<lparr>sector = sec, open_cnt = 1, removed = False, deny_write_cnt = 0, data = decode_inode bs\<rparr> s)))
        (\<lambda>(p, s'). refs_ok (if p = 0 then E else E(p := E p + 1)) s' \<and> same_files s s')" if p: "p \<noteq> 0"
    proof (rule okr_bind [OF okr_fs_read], clarify)
      fix bs s2 assume s2: "same_refs ?s s2"
      let ?i = "\<lparr>sector = sec, open_cnt = 1, removed = False, deny_write_cnt = 0, data = decode_inode bs\<rparr>"
      have eq: "p = alloc_cnt s + 1" "s1 = s\<lparr>alloc_cnt := alloc_cnt s + 1\<rparr>" using m p by (auto simp: malloc_def split: if_splits)
      have "refs_ok (E(p := E p + 1)) (put_inode p ?i (s\<lparr>alloc_cnt := alloc_cnt s + 1, open_inodes := p # open_inodes s\<rparr>))"
        using uniq by (intro new_ref [OF assms eq(1)]) auto
      moreover have "same_refs (put_inode p ?i (s\<lparr>alloc_cnt := alloc_cnt s + 1, open_inodes := p # open_inodes s\<rparr>)) (put_inode p ?i s2)"
        using s2 eq(2) by (simp add: same_refs_def put_inode_def)
      ultimately have "refs_ok (E(p := E p + 1)) (put_inode p ?i s2)" by (rule refs_ok_same)
      moreover have "same_files s (put_inode p ?i s2)" using s2 eq(2) by (simp add: same_refs_def same_files_def put_inode_def)
      ultimately show "okr (Inr (p, put_inode p ?i s2)) (\<lambda>(p, s'). refs_ok (if p = 0 then E else E(p := E p + 1)) s' \<and> same_files s s')"
        using p by simp
    qed
    moreover have "refs_ok E s1" "same_files s s1" using same_refs_malloc [OF m] refs_ok_same [OF assms] same_refs_files by auto
    ultimately show ?thesis using r(1) None m by (auto simp: inode_open_def Let_def)
  qed
qed


lemma drop_ref:
  assumes "refs_ok E s" "inodes s p = Some i" "open_cnt i \<noteq> 1"
  shows "refs_ok (E(p := E p - 1)) (put_inode p (i\<lparr>open_cnt := open_cnt i - 1\<rparr>) s)"
proof -
  let ?s = "put_inode p (i\<lparr>open_cnt := open_cnt i - 1\<rparr>) s"
  have "inode_counts (files s) (dirs s) (E p) p i" using assms by (simp add: refs_ok_def counts_ok_def)
  then have "inode_counts (files s) (dirs s) (E p - 1) p (i\<lparr>open_cnt := open_cnt i - 1\<rparr>)"
    using assms(3) by (auto simp: inode_counts_def)
  then have "counts_ok (E(p := E p - 1)) ?s" using assms unfolding refs_ok_def counts_ok_def put_inode_def by auto
  moreover have "table_ok ?s" using assms(1) put_inode_table [OF assms(2)] by (simp add: refs_ok_def)
  moreover have "fm_ready ?s" using assms(1) by (auto simp: refs_ok_def fm_ready_def put_inode_def)
  ultimately show ?thesis by (simp add: refs_ok_def)
qed

text \<open>The inode \<open>p\<close> is not about to lose its last reference while the free map file needs it.\<close>

definition fm_keeps :: "fs \<Rightarrow> ptr \<Rightarrow> bool" where
  "fm_keeps s p \<longleftrightarrow> (\<forall>x i. files s (free_map_file s) = Some x \<longrightarrow> finode x = p \<longrightarrow> inodes s p = Some i \<longrightarrow> open_cnt i \<noteq> 1)"

lemma delete_inode:
  assumes "refs_ok E s" "inodes s p = Some i" "open_cnt i = 1" "fm_keeps s p"
    and "inodes s' = (inodes s)(p := None)" "open_inodes s' = remove1 p (open_inodes s)" "same_files s s'"
  shows "refs_ok (E(p := E p - 1)) s'"
proof -
  have "inode_counts (files s) (dirs s) (E p) p i" using assms by (simp add: refs_ok_def counts_ok_def)
  then have "int (card (file_refs (files s) p) + card (dir_refs (dirs s) p)) + (E p - 1) = 0"
    using assms(3) by (simp add: inode_counts_def)
  then have "counts_ok (E(p := E p - 1)) s'"
    using assms(1,5,7) unfolding refs_ok_def counts_ok_def same_files_def by auto
  moreover have "table_ok s'"
    using assms(1,5-7) unfolding refs_ok_def table_ok_def same_files_def by (auto split: if_splits intro: le_trans) (meson le_trans)+
  moreover have "fm_ready s'" using assms(1-5,7) by (auto simp: refs_ok_def fm_ready_def fm_keeps_def same_files_def)
  ultimately show ?thesis by (simp add: refs_ok_def)
qed

lemma okr_inode_close:
  assumes "refs_ok E s" "p = 0 \<or> inodes s p \<noteq> None" "fm_keeps s p"
  shows "okr (inode_close p s) (\<lambda>s'. refs_ok (if p = 0 then E else E(p := E p - 1)) s' \<and> same_files s s')"
proof (cases "p = 0")
  case True
  then show ?thesis using assms(1) by (simp add: inode_close_def same_files_def)
next
  case False
  then obtain i where i: "inodes s p = Some i" using assms(2) by auto
  let ?s = "put_inode p (i\<lparr>open_cnt := open_cnt i - 1\<rparr>) s"
  show ?thesis
  proof (cases "open_cnt i = 1")
    case True
    let ?r = "?s\<lparr>open_inodes := remove1 p (open_inodes ?s)\<rparr>"
    let ?rel = "if removed i then bindr (free_map_release (sector i) 1 ?r)
        (free_map_release (dstart (data i)) (bytes_to_sectors (dlength (data i)))) else Inr ?r"
    have fm: "fm_ready ?r" using assms(1,3) i by (auto simp: refs_ok_def fm_ready_def put_inode_def)
    have "okr (bindr (free_map_release (sector i) 1 ?r) (free_map_release (dstart (data i)) (bytes_to_sectors (dlength (data i))))) (\<lambda>s'. same_refs ?r s')"
    proof (rule okr_bind [OF okr_free_map_release [OF fm]])
      fix s2 assume s2: "same_refs ?r s2"
      show "okr (free_map_release (dstart (data i)) (bytes_to_sectors (dlength (data i))) s2) (\<lambda>s'. same_refs ?r s')"
        by (rule okr_mono [OF okr_free_map_release [OF fm_ready_same [OF fm s2]]]) (use s2 same_refs_trans in blast)
    qed
    then have rel: "okr ?rel (\<lambda>s'. same_refs ?r s')" by simp
    have fin: "refs_ok (E(p := E p - 1)) (s2\<lparr>inodes := (inodes s2)(p := None)\<rparr>) \<and> same_files s (s2\<lparr>inodes := (inodes s2)(p := None)\<rparr>)"
      if s2: "same_refs ?r s2" for s2
    proof
      show sf: "same_files s (s2\<lparr>inodes := (inodes s2)(p := None)\<rparr>)" using s2 by (simp add: same_refs_def same_files_def put_inode_def)
      show "refs_ok (E(p := E p - 1)) (s2\<lparr>inodes := (inodes s2)(p := None)\<rparr>)"
        by (rule delete_inode [OF assms(1) i True assms(3) _ _ sf]) (use s2 in \<open>simp_all add: same_refs_def put_inode_def\<close>)
    qed
    have "inode_close p s = bindr ?rel (\<lambda>s. Inr (s\<lparr>inodes := (inodes s)(p := None)\<rparr>))"
      using False i True by (simp add: inode_close_def get_inode_def Let_def)
    moreover have "okr (bindr ?rel (\<lambda>s. Inr (s\<lparr>inodes := (inodes s)(p := None)\<rparr>)))
        (\<lambda>s'. refs_ok (E(p := E p - 1)) s' \<and> same_files s s')"
      by (rule okr_bind [OF rel]) (simp only: okr_simps, rule fin)
    ultimately show ?thesis using False by simp
  next
    case more: False
    then show ?thesis using False i drop_ref [OF assms(1) i] by (simp add: inode_close_def get_inode_def Let_def same_files_def put_inode_def)
  qed
qed

end
