(* ===== verification/Fs_Ops.thy ===== *)
theory Fs_Ops
  imports Fs_References
begin

text \<open>
  The operations on files, directories and the file system keep the reference counts of \<open>Fs_References\<close>.
\<close>

section \<open>Changing the tables\<close>

lemma file_refs_upd [simp]:
  "file_refs (F(f := Some x)) p = (if finode x = p then insert f (file_refs F p) else file_refs F p - {f})"
  "file_refs (F(f := None)) p = file_refs F p - {f}"
  by (auto simp: file_refs_def)

lemma deny_refs_upd [simp]:
  "deny_refs (F(f := Some x)) p = (if finode x = p \<and> deny_write x then insert f (deny_refs F p) else deny_refs F p - {f})"
  "deny_refs (F(f := None)) p = deny_refs F p - {f}"
  by (auto simp: deny_refs_def)

lemma dir_refs_upd [simp]:
  "dir_refs (D(d := Some x)) p = (if dinode x = p then insert d (dir_refs D p) else dir_refs D p - {d})"
  "dir_refs (D(d := None)) p = dir_refs D p - {d}"
  by (auto simp: dir_refs_def)

lemma refs_mem:
  "files s f = None \<Longrightarrow> f \<notin> file_refs (files s) p \<and> f \<notin> deny_refs (files s) p"
  "files s f = Some x \<Longrightarrow> f \<in> file_refs (files s) p \<longleftrightarrow> finode x = p"
  "files s f = Some x \<Longrightarrow> f \<in> deny_refs (files s) p \<longleftrightarrow> finode x = p \<and> deny_write x"
  "dirs s d = None \<Longrightarrow> d \<notin> dir_refs (dirs s) p"
  "dirs s d = Some y \<Longrightarrow> d \<in> dir_refs (dirs s) p \<longleftrightarrow> dinode y = p"
  by (auto simp: file_refs_def deny_refs_def dir_refs_def)

text \<open>A general change of the tables and of the references held: the sums must stay the same.\<close>

lemma counts_shift:
  assumes "refs_ok E s" "inodes s' = inodes s"
    and "\<And>p. int (card (file_refs (files s') p) + card (dir_refs (dirs s') p)) + E' p
           = int (card (file_refs (files s) p) + card (dir_refs (dirs s) p)) + E p"
    and "\<And>p. card (deny_refs (files s') p) = card (deny_refs (files s) p)"
  shows "counts_ok E' s'"
proof -
  have "inode_counts (files s') (dirs s') (E' p) p i" if "inode_counts (files s) (dirs s) (E p) p i" for p i
    using that assms(3,4) [of p] by (simp add: inode_counts_def)
  then show ?thesis using assms(1-3) unfolding refs_ok_def counts_ok_def by auto
qed

lemma member_card: "finite A \<Longrightarrow> a \<in> A \<Longrightarrow> 0 < card A"
  by (auto simp: card_gt_0_iff)

lemma add_file:
  assumes "refs_ok E s" "f = alloc_cnt s + 1" "inodes s ip \<noteq> None"
  shows "refs_ok (E(ip := E ip - 1)) (s\<lparr>alloc_cnt := alloc_cnt s + 1, files := (files s)(f := Some \<lparr>finode = ip, pos = 0, deny_write = False\<rparr>)\<rparr>)"
    (is "refs_ok ?E ?s")
proof -
  have t: "table_ok s" using assms(1) by (simp add: refs_ok_def)
  have n: "files s f = None" using t assms(2) unfolding table_ok_def by (metis Suc_eq_plus1 not_less_eq_eq order_refl)
  have "f \<noteq> free_map_file s" using assms(1) n by (auto simp: refs_ok_def fm_ready_def)
  then have "fm_ready ?s" using assms(1) by (auto simp: refs_ok_def fm_ready_def)
  moreover have "counts_ok ?E ?s"
    by (rule counts_shift [OF assms(1)]) (use refs_mem(1) [OF n] finite_refs [OF t] in auto)
  moreover have "ip \<le> alloc_cnt s" using t assms(3) by (simp add: table_ok_def)
  then have "table_ok ?s" using t assms(2) n unfolding table_ok_def by (auto intro: le_SucI)
  ultimately show ?thesis by (simp add: refs_ok_def)
qed

lemma remove_file:
  assumes "refs_ok E s" "files s f = Some x" "\<not> deny_write x" "f \<noteq> free_map_file s"
  shows "refs_ok (E(finode x := E (finode x) + 1)) (s\<lparr>files := (files s)(f := None)\<rparr>)" (is "refs_ok ?E ?s")
proof -
  have t: "table_ok s" using assms(1) by (simp add: refs_ok_def)
  have "fm_ready ?s" using assms(1,4) by (auto simp: refs_ok_def fm_ready_def)
  moreover have "counts_ok ?E ?s"
    by (rule counts_shift [OF assms(1)])
      (use refs_mem(2,3) [OF assms(2)] assms(3) finite_refs [OF t] member_card [of "file_refs (files s) (finode x)" f] in auto)
  moreover have "table_ok ?s" using t unfolding table_ok_def by auto
  ultimately show ?thesis by (simp add: refs_ok_def)
qed

lemma set_file:
  assumes "refs_ok E s" "files s f = Some x" "finode y = finode x" "deny_write y = deny_write x"
  shows "refs_ok E (s\<lparr>files := (files s)(f := Some y)\<rparr>)" (is "refs_ok E ?s")
proof -
  have t: "table_ok s" using assms(1) by (simp add: refs_ok_def)
  have "counts_ok E ?s"
    by (rule counts_shift [OF assms(1)]) (use refs_mem(2,3) [OF assms(2)] assms(3,4) in \<open>auto simp: insert_absorb\<close>)
  moreover have "fm_ready ?s" using assms by (auto simp: refs_ok_def fm_ready_def)
  moreover have "table_ok ?s" using t assms(2,3) unfolding table_ok_def by auto
  ultimately show ?thesis by (simp add: refs_ok_def)
qed

lemma add_dir:
  assumes "refs_ok E s" "d = alloc_cnt s + 1" "inodes s ip \<noteq> None"
  shows "refs_ok (E(ip := E ip - 1)) (s\<lparr>alloc_cnt := alloc_cnt s + 1, dirs := (dirs s)(d := Some \<lparr>dinode = ip, dpos = 0\<rparr>)\<rparr>)"
    (is "refs_ok ?E ?s")
proof -
  have t: "table_ok s" using assms(1) by (simp add: refs_ok_def)
  have n: "dirs s d = None" using t assms(2) unfolding table_ok_def by (metis Suc_eq_plus1 not_less_eq_eq order_refl)
  have "fm_ready ?s" using assms(1) by (auto simp: refs_ok_def fm_ready_def)
  moreover have "counts_ok ?E ?s"
    by (rule counts_shift [OF assms(1)]) (use refs_mem(4) [OF n] finite_refs [OF t] in auto)
  moreover have "ip \<le> alloc_cnt s" using t assms(3) by (simp add: table_ok_def)
  then have "table_ok ?s" using t assms(2) n unfolding table_ok_def by (auto intro: le_SucI)
  ultimately show ?thesis by (simp add: refs_ok_def)
qed

lemma remove_dir:
  assumes "refs_ok E s" "dirs s d = Some x"
  shows "refs_ok (E(dinode x := E (dinode x) + 1)) (s\<lparr>dirs := (dirs s)(d := None)\<rparr>)" (is "refs_ok ?E ?s")
proof -
  have t: "table_ok s" using assms(1) by (simp add: refs_ok_def)
  have "counts_ok ?E ?s"
    by (rule counts_shift [OF assms(1)])
      (use refs_mem(5) [OF assms(2)] finite_refs [OF t] member_card [of "dir_refs (dirs s) (dinode x)" d] in auto)
  moreover have "fm_ready ?s" using assms(1) by (auto simp: refs_ok_def fm_ready_def)
  moreover have "table_ok ?s" using t unfolding table_ok_def by auto
  ultimately show ?thesis by (simp add: refs_ok_def)
qed

lemma set_dir:
  assumes "refs_ok E s" "dirs s d = Some x" "dinode y = dinode x"
  shows "refs_ok E (s\<lparr>dirs := (dirs s)(d := Some y)\<rparr>)" (is "refs_ok E ?s")
proof -
  have t: "table_ok s" using assms(1) by (simp add: refs_ok_def)
  have "counts_ok E ?s"
    by (rule counts_shift [OF assms(1)]) (use refs_mem(5) [OF assms(2)] assms(3) in \<open>auto simp: insert_absorb\<close>)
  moreover have "fm_ready ?s" using assms by (auto simp: refs_ok_def fm_ready_def)
  moreover have "table_ok ?s" using t assms(2,3) unfolding table_ok_def by auto
  ultimately show ?thesis by (simp add: refs_ok_def)
qed


section \<open>Denying writes\<close>

lemma deny_le_open:
  assumes "refs_ok E s" "inodes s p = Some i" "0 \<le> E p"
  shows "deny_write_cnt i \<le> open_cnt i" and "files s f = Some x \<Longrightarrow> finode x = p \<Longrightarrow> \<not> deny_write x \<Longrightarrow> deny_write_cnt i + 1 \<le> open_cnt i"
proof -
  have t: "table_ok s" and c: "inode_counts (files s) (dirs s) (E p) p i" using assms by (auto simp: refs_ok_def counts_ok_def)
  have sub: "deny_refs (files s) p \<subseteq> file_refs (files s) p" by (auto simp: deny_refs_def file_refs_def)
  show "deny_write_cnt i \<le> open_cnt i"
    using card_mono [OF finite_refs(1) [OF t] sub] c assms(3) by (simp add: inode_counts_def)
  assume x: "files s f = Some x" "finode x = p" "\<not> deny_write x"
  then have "insert f (deny_refs (files s) p) \<subseteq> file_refs (files s) p" "f \<notin> deny_refs (files s) p"
    using sub by (auto simp: file_refs_def deny_refs_def)
  then have "card (deny_refs (files s) p) + 1 \<le> card (file_refs (files s) p)"
    using card_mono [OF finite_refs(1) [OF t], of "insert f (deny_refs (files s) p)" p] finite_refs(3) [OF t, of p] by simp
  then show "deny_write_cnt i + 1 \<le> open_cnt i" using c assms(3) by (simp add: inode_counts_def)
qed

lemma change_deny:
  assumes "refs_ok E s" "files s f = Some x" "inodes s (finode x) = Some i" "finode y = finode x"
    and "deny_write_cnt j = deny_write_cnt i + (if deny_write y then 1 else 0) - (if deny_write x then 1 else 0)"
    and "open_cnt j = open_cnt i" "sector j = sector i"
  shows "refs_ok E (put_inode (finode x) j (s\<lparr>files := (files s)(f := Some y)\<rparr>))" (is "refs_ok E ?s")
proof -
  have t: "table_ok s" and c: "counts_ok E s" using assms(1) by (auto simp: refs_ok_def)
  let ?F = "(files s)(f := Some y)"
  have fr: "file_refs ?F p = file_refs (files s) p" for p using refs_mem(2) [OF assms(2)] assms(4) by (auto simp: insert_absorb)
  have dr: "deny_refs ?F p = deny_refs (files s) p" if "p \<noteq> finode x" for p
    using refs_mem(3) [OF assms(2), of p] that assms(4) by auto
  have "int (card (deny_refs ?F (finode x))) = int (card (deny_refs (files s) (finode x))) + (if deny_write y then 1 else 0) - (if deny_write x then 1 else 0)"
    using refs_mem(3) [OF assms(2), of "finode x"] assms(4) finite_refs(3) [OF t, of "finode x"]
      member_card [of "deny_refs (files s) (finode x)" f] by (auto simp: insert_absorb)
  moreover have "inode_counts (files s) (dirs s) (E (finode x)) (finode x) i" using c assms(3) by (simp add: counts_ok_def)
  ultimately have "inode_counts ?F (dirs s) (E (finode x)) (finode x) j" using assms(5,6) fr by (simp add: inode_counts_def)
  moreover have "inode_counts ?F (dirs s) (E p) p k" if "p \<noteq> finode x" "inodes s p = Some k" for p k
  proof -
    have "inode_counts (files s) (dirs s) (E p) p k" using c that(2) by (simp add: counts_ok_def)
    then show ?thesis unfolding inode_counts_def fr dr [OF that(1)] .
  qed
  ultimately have "counts_ok E ?s" using c fr assms(3) unfolding counts_ok_def put_inode_def by auto
  moreover have "table_ok ?s"
  proof (rule put_inode_table)
    show "inodes (s\<lparr>files := ?F\<rparr>) (finode x) = Some i" using assms(3) by simp
    show "table_ok (s\<lparr>files := ?F\<rparr>)" using t assms(2,4) unfolding table_ok_def by auto
  qed (rule assms(7))
  moreover have "fm_ready ?s" using assms(1-4) by (auto simp: refs_ok_def fm_ready_def put_inode_def)
  ultimately show ?thesis by (simp add: refs_ok_def)
qed

lemma okr_file_deny_write:
  assumes "refs_ok E s" "files s f = Some x" "0 \<le> E (finode x)" "f \<noteq> 0"
  shows "okr (file_deny_write f s) (\<lambda>s'. refs_ok E s' \<and> free_map_file s' = free_map_file s)"
proof -
  obtain i where i: "inodes s (finode x) = Some i" using refs_ok_file [OF assms(1-3)] .
  show ?thesis
  proof (cases "deny_write x")
    case False
    then show ?thesis
      using assms i deny_le_open(2) [OF assms(1) i assms(3,2)] change_deny [OF assms(1,2) i, of "x\<lparr>deny_write := True\<rparr>" "i\<lparr>deny_write_cnt := deny_write_cnt i + 1\<rparr>"]
      by (simp add: file_deny_write_def get_file_def inode_deny_write_def get_inode_def Let_def put_inode_def)
  qed (use assms in \<open>simp add: file_deny_write_def get_file_def\<close>)
qed

lemma okr_file_allow_write:
  assumes "refs_ok E s" "files s f = Some x" "0 \<le> E (finode x)" "f \<noteq> 0"
  shows "okr (file_allow_write f s) (\<lambda>s'. refs_ok E s' \<and> free_map_file s' = free_map_file s \<and> files s' f = Some (x\<lparr>deny_write := False\<rparr>)
    \<and> (\<forall>g. g \<noteq> f \<longrightarrow> files s' g = files s g) \<and> dirs s' = dirs s)"
proof -
  obtain i where i: "inodes s (finode x) = Some i" using refs_ok_file [OF assms(1-3)] .
  show ?thesis
  proof (cases "deny_write x")
    case True
    have t: "table_ok s" and "inode_counts (files s) (dirs s) (E (finode x)) (finode x) i" using assms i by (auto simp: refs_ok_def counts_ok_def)
    moreover have "0 < card (deny_refs (files s) (finode x))"
      using refs_mem(3) [OF assms(2)] True finite_refs(3) [OF t] by (auto intro: member_card)
    ultimately have "0 < deny_write_cnt i" by (simp add: inode_counts_def)
    then show ?thesis
      using True assms i deny_le_open(1) [OF assms(1) i assms(3)] change_deny [OF assms(1,2) i, of "x\<lparr>deny_write := False\<rparr>" "i\<lparr>deny_write_cnt := deny_write_cnt i - 1\<rparr>"]
      by (simp add: file_allow_write_def get_file_def inode_allow_write_def get_inode_def put_inode_def)
  qed (use assms in \<open>auto simp: file_allow_write_def get_file_def\<close>)
qed


section \<open>Files\<close>

lemma fm_keeps_same: "same_refs s s' \<Longrightarrow> fm_keeps s' p = fm_keeps s p"
  by (simp add: fm_keeps_def same_refs_def)

text \<open>A reference held by running code is another one than that of the free map file.\<close>

lemma fm_keeps_held:
  assumes "refs_ok E s" "0 < E p"
  shows "fm_keeps s p"
  unfolding fm_keeps_def
proof (intro allI impI)
  fix x i assume x: "files s (free_map_file s) = Some x" "finode x = p" "inodes s p = Some i"
  have t: "table_ok s" and c: "inode_counts (files s) (dirs s) (E p) p i" using assms x by (auto simp: refs_ok_def counts_ok_def)
  have "0 < card (file_refs (files s) p)" using refs_mem(2) [OF x(1)] x(2) finite_refs(1) [OF t] by (auto intro: member_card)
  then show "open_cnt i \<noteq> 1" using c assms(2) by (simp add: inode_counts_def)
qed

lemma fm_keeps_file:
  assumes "refs_ok E s" "files s f = Some x" "f \<noteq> free_map_file s" "0 \<le> E (finode x)"
  shows "fm_keeps s (finode x)"
  unfolding fm_keeps_def
proof (intro allI impI)
  fix y i assume y: "files s (free_map_file s) = Some y" "finode y = finode x" "inodes s (finode x) = Some i"
  have t: "table_ok s" and c: "inode_counts (files s) (dirs s) (E (finode x)) (finode x) i" using assms y by (auto simp: refs_ok_def counts_ok_def)
  have "{f, free_map_file s} \<subseteq> file_refs (files s) (finode x)" using refs_mem(2) [OF y(1)] refs_mem(2) [OF assms(2)] y(2) by auto
  then have "card {f, free_map_file s} \<le> card (file_refs (files s) (finode x))" by (rule card_mono [OF finite_refs(1) [OF t]])
  then show "open_cnt i \<noteq> 1" using c assms(3,4) by (simp add: inode_counts_def)
qed

lemma fm_keeps_dir:
  assumes "refs_ok E s" "dirs s d = Some x" "0 \<le> E (dinode x)"
  shows "fm_keeps s (dinode x)"
  unfolding fm_keeps_def
proof (intro allI impI)
  fix y i assume y: "files s (free_map_file s) = Some y" "finode y = dinode x" "inodes s (dinode x) = Some i"
  have t: "table_ok s" and c: "inode_counts (files s) (dirs s) (E (dinode x)) (dinode x) i" using assms y by (auto simp: refs_ok_def counts_ok_def)
  have "0 < card (file_refs (files s) (dinode x))" using refs_mem(2) [OF y(1)] y(2) finite_refs(1) [OF t] by (auto intro: member_card)
  moreover have "0 < card (dir_refs (dirs s) (dinode x))"
    using refs_mem(5) [OF assms(2)] by (intro member_card [OF finite_refs(2) [OF t], of d]) simp
  ultimately show "open_cnt i \<noteq> 1" using c assms(3) by (simp add: inode_counts_def)
qed

text \<open>The open files after a call that returns \<open>f\<close>: one more, unless \<open>f\<close> is null.\<close>

definition opened :: "fs \<Rightarrow> ptr \<Rightarrow> fs \<Rightarrow> bool" where
  "opened s f s' \<longleftrightarrow> (if f = 0 then dom (files s') = dom (files s) else f \<notin> dom (files s) \<and> dom (files s') = insert f (dom (files s)))"

lemma opened_cong: "files s = files s1 \<Longrightarrow> opened s f s' = opened s1 f s'"
  by (simp add: opened_def)

lemma okr_file_open:
  assumes "refs_ok E s" "ip = 0 \<or> 0 < E ip"
  shows "okr (file_open ip s) (\<lambda>(f, s'). refs_ok (if ip = 0 then E else E(ip := E ip - 1)) s' \<and> free_map_file s' = free_map_file s \<and> opened s f s')"
proof -
  obtain f s1 where m: "malloc s = (f, s1)" by (metis prod.exhaust)
  note s1 = same_refs_malloc [OF m]
  have r1: "refs_ok E s1" by (rule refs_ok_same [OF assms(1) s1])
  show ?thesis
  proof (cases "ip \<noteq> 0 \<and> f \<noteq> 0")
    case True
    then have eq: "f = alloc_cnt s + 1" "s1 = s\<lparr>alloc_cnt := alloc_cnt s + 1\<rparr>" using m by (auto simp: malloc_def split: if_splits)
    have "inodes s ip \<noteq> None" using refs_ok_held [OF assms(1)] assms(2) True by auto
    moreover have "files s f = None" using assms(1) eq(1) unfolding refs_ok_def table_ok_def by (metis Suc_eq_plus1 not_less_eq_eq order_refl)
    ultimately show ?thesis using add_file [OF assms(1) eq(1)] True m eq by (auto simp: file_open_def opened_def)
  next
    case False
    have k: "fm_keeps s1 ip" if "ip \<noteq> 0" using fm_keeps_held [OF r1] assms(2) that by auto
    have "ip = 0 \<or> inodes s1 ip \<noteq> None" using refs_ok_held [OF r1] assms(2) by auto
    moreover have "fm_keeps s1 ip" if "ip = 0"
      using r1 that unfolding refs_ok_def table_ok_def fm_keeps_def by (metis less_irrefl option.distinct(1))
    ultimately have "okr (inode_close ip s1) (\<lambda>s'. refs_ok (if ip = 0 then E else E(ip := E ip - 1)) s' \<and> same_files s1 s')"
      using k by (intro okr_inode_close [OF r1]) auto
    then show ?thesis using False m s1
      by (auto simp: file_open_def same_files_def same_refs_def opened_def intro!: okr_bind)
  qed
qed

lemma okr_file_reopen:
  assumes "refs_ok E s" "files s f = Some x" "0 \<le> E (finode x)"
  shows "okr (file_reopen f s) (\<lambda>(f, s'). refs_ok E s' \<and> free_map_file s' = free_map_file s \<and> opened s f s')"
proof -
  obtain i where i: "inodes s (finode x) = Some i" using refs_ok_file [OF assms] .
  have "okr (bindr (inode_reopen (finode x) s) (\<lambda>(ip, s). file_open ip s)) (\<lambda>(f, s'). refs_ok E s' \<and> free_map_file s' = free_map_file s \<and> opened s f s')"
  proof (rule okr_bind [OF okr_inode_reopen [OF assms(1)]])
    show "inodes s (finode x) \<noteq> None" using i by simp
    fix r assume "case r of (q, s') \<Rightarrow> q = finode x \<and> finode x \<noteq> 0 \<and> refs_ok (E(finode x := E (finode x) + 1)) s' \<and> same_files s s'"
    then obtain s1 where s1: "finode x \<noteq> 0" "refs_ok (E(finode x := E (finode x) + 1)) s1" "same_files s s1" and r: "r = (finode x, s1)"
      by (cases r) auto
    have "okr (file_open (finode x) s1) (\<lambda>(f, s'). refs_ok E s' \<and> free_map_file s' = free_map_file s1 \<and> opened s1 f s')"
      using okr_file_open [OF s1(2), of "finode x"] s1(1) assms(3) by (auto elim!: okr_mono)
    then show "okr (case r of (ip, s) \<Rightarrow> file_open ip s) (\<lambda>(f, s'). refs_ok E s' \<and> free_map_file s' = free_map_file s \<and> opened s f s')"
      using s1(3) r opened_cong [of s s1] by (simp add: same_files_def)
  qed
  then show ?thesis using assms(2) by (simp add: file_reopen_def get_file_def)
qed

lemma okr_file_close:
  assumes "refs_ok E s" "files s f = Some x" "0 \<le> E (finode x)" "f \<noteq> free_map_file s"
  shows "okr (file_close f s) (\<lambda>s'. refs_ok E s' \<and> free_map_file s' = free_map_file s \<and> dom (files s') = dom (files s) - {f})"
proof -
  have f: "f \<noteq> 0" using assms(1,2) unfolding refs_ok_def table_ok_def by (metis less_irrefl option.distinct(1))
  have "okr (bindr (file_allow_write f s) (\<lambda>s. bindr (get_file f s) (\<lambda>x. bindr (inode_close (finode x) s) (\<lambda>s. Inr (s\<lparr>files := (files s)(f := None)\<rparr>)))))
      (\<lambda>s'. refs_ok E s' \<and> free_map_file s' = free_map_file s \<and> dom (files s') = dom (files s) - {f})"
  proof (rule okr_bind [OF okr_file_allow_write [OF assms(1-3) f]], elim conjE)
    fix s1 assume s1: "refs_ok E s1" "free_map_file s1 = free_map_file s" "files s1 f = Some (x\<lparr>deny_write := False\<rparr>)" and o1: "\<forall>g. g \<noteq> f \<longrightarrow> files s1 g = files s g"
    let ?x = "x\<lparr>deny_write := False\<rparr>"
    obtain i where i: "inodes s1 (finode x) = Some i" using refs_ok_file [OF s1(1,3)] assms(3) by auto
    then have ip: "finode x \<noteq> 0" using s1(1) unfolding refs_ok_def table_ok_def by (metis less_irrefl option.distinct(1))
    have "okr (inode_close (finode x) s1) (\<lambda>s'. refs_ok (E(finode x := E (finode x) - 1)) s' \<and> same_files s1 s')"
      using okr_inode_close [OF s1(1), of "finode x"] i ip fm_keeps_file [OF s1(1,3)] assms(3,4) s1(2) by simp
    then have "okr (bindr (inode_close (finode x) s1) (\<lambda>s. Inr (s\<lparr>files := (files s)(f := None)\<rparr>))) (\<lambda>s'. refs_ok E s' \<and> free_map_file s' = free_map_file s \<and> dom (files s') = dom (files s) - {f})"
    proof (rule okr_bind, elim conjE)
      fix s2 assume s2: "refs_ok (E(finode x := E (finode x) - 1)) s2" "same_files s1 s2"
      have "refs_ok E (s2\<lparr>files := (files s2)(f := None)\<rparr>)"
        using remove_file [OF s2(1), of f ?x] s1 s2(2) assms(4) by (simp add: same_files_def)
      then show "okr (Inr (s2\<lparr>files := (files s2)(f := None)\<rparr>)) (\<lambda>s'. refs_ok E s' \<and> free_map_file s' = free_map_file s \<and> dom (files s') = dom (files s) - {f})"
        using s1(2) s2(2) o1 by (auto simp: same_files_def dom_def split: if_splits)
    qed
    then show "okr (bindr (get_file f s1) (\<lambda>x. bindr (inode_close (finode x) s1) (\<lambda>s. Inr (s\<lparr>files := (files s)(f := None)\<rparr>)))) (\<lambda>s'. refs_ok E s' \<and> free_map_file s' = free_map_file s \<and> dom (files s') = dom (files s) - {f})"
      using s1(3) by (simp add: get_file_def)
  qed
  then show ?thesis using f by (simp add: file_close_def)
qed

lemma okr_file_read:
  assumes "refs_ok E s" "files s f = Some x" "0 \<le> E (finode x)"
  shows "okr (file_read f sz s) (\<lambda>(bs, s'). refs_ok E s' \<and> free_map_file s' = free_map_file s \<and> dom (files s') = dom (files s))"
proof -
  obtain i where i: "inodes s (finode x) = Some i" using refs_ok_file [OF assms] .
  have "okr (inode_read_at (finode x) sz (pos x) s) (\<lambda>(bs, s'). same_refs s s')" using i by (intro okr_inode_read_at) simp
  then have "okr (bindr (inode_read_at (finode x) sz (pos x) s) (\<lambda>(bs, s). Inr (bs, s\<lparr>files := (files s)(f := Some (x\<lparr>pos := pos x + int (length bs)\<rparr>))\<rparr>)))
      (\<lambda>(bs, s'). refs_ok E s' \<and> free_map_file s' = free_map_file s \<and> dom (files s') = dom (files s))"
  proof (rule okr_bind, clarify)
    fix bs s1 assume s1: "same_refs s s1"
    then have "refs_ok E (s1\<lparr>files := (files s1)(f := Some (x\<lparr>pos := pos x + int (length bs)\<rparr>))\<rparr>)"
      using set_file [OF refs_ok_same [OF assms(1) s1], of f x] assms(2) by (simp add: same_refs_def)
    then show "okr (Inr (bs, s1\<lparr>files := (files s1)(f := Some (x\<lparr>pos := pos x + int (length bs)\<rparr>))\<rparr>)) (\<lambda>(bs, s'). refs_ok E s' \<and> free_map_file s' = free_map_file s \<and> dom (files s') = dom (files s))"
      using s1 assms(2) by (auto simp: same_refs_def)
  qed
  then show ?thesis using assms(2) by (simp add: file_read_def get_file_def)
qed

lemma okr_file_write:
  assumes "refs_ok E s" "files s f = Some x" "0 \<le> E (finode x)"
  shows "okr (file_write f buf s) (\<lambda>(n, s'). refs_ok E s' \<and> free_map_file s' = free_map_file s \<and> dom (files s') = dom (files s))"
proof -
  obtain i where i: "inodes s (finode x) = Some i" using refs_ok_file [OF assms] .
  have "okr (inode_write_at (finode x) buf (pos x) s) (\<lambda>(n, s'). same_refs s s')" using i by (intro okr_inode_write_at) simp
  then have "okr (bindr (inode_write_at (finode x) buf (pos x) s) (\<lambda>(n, s). Inr (n, s\<lparr>files := (files s)(f := Some (x\<lparr>pos := pos x + n\<rparr>))\<rparr>)))
      (\<lambda>(n, s'). refs_ok E s' \<and> free_map_file s' = free_map_file s \<and> dom (files s') = dom (files s))"
  proof (rule okr_bind, clarify)
    fix n s1 assume s1: "same_refs s s1"
    then have "refs_ok E (s1\<lparr>files := (files s1)(f := Some (x\<lparr>pos := pos x + n\<rparr>))\<rparr>)"
      using set_file [OF refs_ok_same [OF assms(1) s1], of f x] assms(2) by (simp add: same_refs_def)
    then show "okr (Inr (n, s1\<lparr>files := (files s1)(f := Some (x\<lparr>pos := pos x + n\<rparr>))\<rparr>)) (\<lambda>(n, s'). refs_ok E s' \<and> free_map_file s' = free_map_file s \<and> dom (files s') = dom (files s))"
      using s1 assms(2) by (auto simp: same_refs_def)
  qed
  then show ?thesis using assms(2) by (simp add: file_write_def get_file_def)
qed

lemma okr_file_seek:
  assumes "refs_ok E s" "files s f = Some x"
  shows "okr (file_seek f n s) (\<lambda>s'. refs_ok E s' \<and> free_map_file s' = free_map_file s \<and> dom (files s') = dom (files s))"
  using set_file [OF assms, of "x\<lparr>pos := n\<rparr>"] assms(2)
  by (auto simp: file_seek_def get_file_def require_def okr_def ref_errors_def)


section \<open>Directories\<close>

lemma okr_dir_open:
  assumes "refs_ok E s" "ip = 0 \<or> 0 < E ip"
  shows "okr (dir_open ip s) (\<lambda>(d, s'). refs_ok (if ip = 0 then E else E(ip := E ip - 1)) s' \<and> free_map_file s' = free_map_file s \<and> files s' = files s
    \<and> (d \<noteq> 0 \<longrightarrow> dirs s' d \<noteq> None))"
proof -
  obtain d s1 where m: "malloc s = (d, s1)" by (metis prod.exhaust)
  note s1 = same_refs_malloc [OF m]
  have r1: "refs_ok E s1" by (rule refs_ok_same [OF assms(1) s1])
  show ?thesis
  proof (cases "ip \<noteq> 0 \<and> d \<noteq> 0")
    case True
    then have eq: "d = alloc_cnt s + 1" "s1 = s\<lparr>alloc_cnt := alloc_cnt s + 1\<rparr>" using m by (auto simp: malloc_def split: if_splits)
    have "inodes s ip \<noteq> None" using refs_ok_held [OF assms(1)] assms(2) True by auto
    from add_dir [OF assms(1) eq(1) this] show ?thesis using True m eq by (simp add: dir_open_def)
  next
    case False
    have "fm_keeps s1 ip"
    proof (cases "ip = 0")
      case True
      then show ?thesis using r1 unfolding refs_ok_def table_ok_def fm_keeps_def by (metis less_irrefl option.distinct(1))
    qed (use fm_keeps_held [OF r1] assms(2) in auto)
    moreover have "ip = 0 \<or> inodes s1 ip \<noteq> None" using refs_ok_held [OF r1] assms(2) by auto
    ultimately have "okr (inode_close ip s1) (\<lambda>s'. refs_ok (if ip = 0 then E else E(ip := E ip - 1)) s' \<and> same_files s1 s')"
      by (intro okr_inode_close [OF r1])
    then show ?thesis using False m s1
      by (auto simp: dir_open_def same_files_def same_refs_def intro!: okr_bind)
  qed
qed

lemma okr_dir_open_root:
  assumes "refs_ok E s" "\<forall>p. 0 \<le> E p"
  shows "okr (dir_open_root s) (\<lambda>(d, s'). refs_ok E s' \<and> free_map_file s' = free_map_file s \<and> files s' = files s \<and> (d \<noteq> 0 \<longrightarrow> dirs s' d \<noteq> None))"
  unfolding dir_open_root_def
proof (rule okr_bind [OF okr_inode_open [OF assms(1)]])
  fix r assume "case r of (p, s') \<Rightarrow> refs_ok (if p = 0 then E else E(p := E p + 1)) s' \<and> same_files s s'"
  then obtain p s1 where r: "r = (p, s1)" "refs_ok (if p = 0 then E else E(p := E p + 1)) s1" "same_files s s1" by (cases r) auto
  have "p = 0 \<or> 0 < (if p = 0 then E else E(p := E p + 1)) p" using assms(2) by (auto simp: add_nonneg_pos)
  moreover have restore: "(if p = 0 then if p = 0 then E else E(p := E p + 1) else (if p = 0 then E else E(p := E p + 1))(p := (if p = 0 then E else E(p := E p + 1)) p - 1)) = E"
    by auto
  ultimately show "okr (case r of (ip, s) \<Rightarrow> dir_open ip s)
      (\<lambda>(d, s'). refs_ok E s' \<and> free_map_file s' = free_map_file s \<and> files s' = files s \<and> (d \<noteq> 0 \<longrightarrow> dirs s' d \<noteq> None))"
    using okr_dir_open [OF r(2), of p, unfolded restore] r by (auto simp: same_files_def elim!: okr_mono)
qed

lemma okr_dir_close:
  assumes "refs_ok E s" "d = 0 \<or> dirs s d \<noteq> None" "\<forall>p. 0 \<le> E p"
  shows "okr (dir_close d s) (\<lambda>s'. refs_ok E s' \<and> free_map_file s' = free_map_file s \<and> files s' = files s)"
proof (cases "d = 0")
  case False
  then obtain x where x: "dirs s d = Some x" using assms(2) by auto
  obtain i where i: "inodes s (dinode x) = Some i" using refs_ok_dir [OF assms(1) x] assms(3) by auto
  then have ip: "dinode x \<noteq> 0" using assms(1) unfolding refs_ok_def table_ok_def by (metis less_irrefl option.distinct(1))
  have "okr (inode_close (dinode x) s) (\<lambda>s'. refs_ok (E(dinode x := E (dinode x) - 1)) s' \<and> same_files s s')"
    using okr_inode_close [OF assms(1), of "dinode x"] i ip fm_keeps_dir [OF assms(1) x] assms(3) by simp
  then have "okr (bindr (inode_close (dinode x) s) (\<lambda>s. Inr (s\<lparr>dirs := (dirs s)(d := None)\<rparr>)))
      (\<lambda>s'. refs_ok E s' \<and> free_map_file s' = free_map_file s \<and> files s' = files s)"
  proof (rule okr_bind, elim conjE)
    fix s2 assume s2: "refs_ok (E(dinode x := E (dinode x) - 1)) s2" "same_files s s2"
    have "refs_ok E (s2\<lparr>dirs := (dirs s2)(d := None)\<rparr>)" using remove_dir [OF s2(1), of d x] x s2(2) by (simp add: same_files_def)
    then show "okr (Inr (s2\<lparr>dirs := (dirs s2)(d := None)\<rparr>)) (\<lambda>s'. refs_ok E s' \<and> free_map_file s' = free_map_file s \<and> files s' = files s)"
      using s2(2) by (simp add: same_files_def)
  qed
  then show ?thesis using False x by (simp add: dir_close_def get_dir_def)
qed (use assms in \<open>simp add: dir_close_def\<close>)

lemma okr_name_matches: "okr (name_matches n bs) (\<lambda>_. True)"
  by (induction n bs rule: name_matches.induct) (auto simp: ref_errors_def)

lemma same_refs_inodes: "same_refs s s' \<Longrightarrow> inodes s' = inodes s"
  by (simp add: same_refs_def)

lemma oko_mono: "oko m P \<Longrightarrow> (\<And>x. P x \<Longrightarrow> Q x) \<Longrightarrow> oko m Q"
  by (cases m) (auto elim: okr_mono)

lemma oko_someI: "(\<And>r. x = Some r \<Longrightarrow> okr r P) \<Longrightarrow> oko x P"
  by (cases x) auto

lemma oko_read:
  "inodes s ip \<noteq> None \<Longrightarrow> (\<And>bs s'. same_refs s s' \<Longrightarrow> oko (f (bs, s')) Q) \<Longrightarrow> oko (bindo (Some (inode_read_at ip sz ofs s)) f) Q"
  using okr_inode_read_at [of s ip sz ofs] by (intro oko_bind [where P = "\<lambda>(bs, s'). same_refs s s'"]) auto

lemma oko_lookup_loop:
  assumes "inodes s ip \<noteq> None"
  shows "oko (lookup_loop ip name ofs s) (\<lambda>(x, s'). same_refs s s')"
proof (rule oko_someI)
  fix r assume "lookup_loop ip name ofs s = Some r"
  then have "inodes s ip \<noteq> None \<longrightarrow> okr r (\<lambda>(x, s'). same_refs s s')"
  proof (rule lookup_loop.raw_induct [rotated])
    fix f ip name ofs s r
    assume IH: "\<And>ip name ofs s r. f ip name ofs s = Some r \<Longrightarrow> inodes s ip \<noteq> None \<longrightarrow> okr r (\<lambda>(x, s'). same_refs s s')"
      and eq: "bindo (Some (inode_read_at ip 20 ofs s)) (\<lambda>(e, s). if length e = 20 then if entry_in_use e then
           bindo (Some (name_matches name (entry_name e))) (\<lambda>eq. if eq then Some (Inr (Some (e, ofs), s)) else f ip name (ofs + 20) s)
         else f ip name (ofs + 20) s else Some (Inr (None, s))) = Some r"
    show "inodes s ip \<noteq> None \<longrightarrow> okr r (\<lambda>(x, s'). same_refs s s')"
    proof
      assume i: "inodes s ip \<noteq> None"
      have more: "oko (f ip name (ofs + 20) s1) (\<lambda>(x, s'). same_refs s s')" if s1: "same_refs s s1" for s1
      proof (rule oko_someI)
        fix r' assume "f ip name (ofs + 20) s1 = Some r'"
        then have "okr r' (\<lambda>(x, s'). same_refs s1 s')" using IH i same_refs_inodes [OF s1] by metis
        then show "okr r' (\<lambda>(x, s'). same_refs s s')" by (rule okr_mono) (use s1 same_refs_trans in auto)
      qed
      have "oko (Some r) (\<lambda>(x, s'). same_refs s s')"
        unfolding eq [symmetric] by (rule oko_read [OF i]) (auto intro!: more oko_bind [where P = "\<lambda>_. True"] okr_name_matches)
      then show "okr r (\<lambda>(x, s'). same_refs s s')" by simp
    qed
  qed
  then show "okr r (\<lambda>(x, s'). same_refs s s')" using assms by simp
qed

lemma oko_free_slot:
  assumes "inodes s ip \<noteq> None"
  shows "oko (free_slot ip e ofs s) (\<lambda>(o', e, s'). same_refs s s')"
proof (rule oko_someI)
  fix r assume "free_slot ip e ofs s = Some r"
  then have "inodes s ip \<noteq> None \<longrightarrow> okr r (\<lambda>(o', e, s'). same_refs s s')"
  proof (rule free_slot.raw_induct [rotated])
    fix f ip e ofs s r
    assume IH: "\<And>ip e ofs s r. f ip e ofs s = Some r \<Longrightarrow> inodes s ip \<noteq> None \<longrightarrow> okr r (\<lambda>(o', e, s'). same_refs s s')"
      and eq: "bindo (Some (inode_read_at ip 20 ofs s)) (\<lambda>(bs, s). let e = refill e bs in
         if length bs = 20 then (if \<not> entry_in_use e then Some (Inr (ofs, e, s)) else f ip e (ofs + 20) s)
         else Some (Inr (ofs, e, s))) = Some r"
    show "inodes s ip \<noteq> None \<longrightarrow> okr r (\<lambda>(o', e, s'). same_refs s s')"
    proof
      assume i: "inodes s ip \<noteq> None"
      have more: "oko (f ip e (ofs + 20) s1) (\<lambda>(o', e, s'). same_refs s s')" if s1: "same_refs s s1" for s1 e
      proof (rule oko_someI)
        fix r' assume "f ip e (ofs + 20) s1 = Some r'"
        then have "okr r' (\<lambda>(o', e, s'). same_refs s1 s')" using IH i same_refs_inodes [OF s1] by metis
        then show "okr r' (\<lambda>(o', e, s'). same_refs s s')" by (rule okr_mono) (use s1 same_refs_trans in auto)
      qed
      have "oko (Some r) (\<lambda>(o', e, s'). same_refs s s')"
        unfolding eq [symmetric] Let_def by (rule oko_read [OF i]) (auto intro!: more)
      then show "okr r (\<lambda>(o', e, s'). same_refs s s')" by simp
    qed
  qed
  then show "okr r (\<lambda>(o', e, s'). same_refs s s')" using assms by simp
qed


lemma oko_lookup:
  assumes "refs_ok E s" "dirs s d \<noteq> None" "\<forall>p. 0 \<le> E p"
  shows "oko (lookup d name s) (\<lambda>(x, s'). same_refs s s')"
proof -
  obtain x where x: "dirs s d = Some x" using assms(2) by auto
  obtain i where i: "inodes s (dinode x) = Some i" using refs_ok_dir [OF assms(1) x] assms(3) by auto
  have "d \<noteq> 0" using assms(1) x unfolding refs_ok_def table_ok_def by (metis less_irrefl option.distinct(1))
  then show ?thesis using x i oko_lookup_loop [of s "dinode x" name 0] by (simp add: lookup_def get_dir_def)
qed

lemma oko_dir_lookup:
  assumes "refs_ok E s" "dirs s d \<noteq> None" "\<forall>p. 0 \<le> E p"
  shows "oko (dir_lookup d name s) (\<lambda>(ip, s'). refs_ok (if ip = 0 then E else E(ip := E ip + 1)) s' \<and> same_files s s')"
  unfolding dir_lookup_def
proof (rule oko_require, rule oko_bind [OF oko_lookup [OF assms]])
  fix r :: "(bytes \<times> int) option \<times> fs" assume "case r of (x, s') \<Rightarrow> same_refs s s'"
  then obtain x s1 where r: "r = (x, s1)" "same_refs s s1" by (cases r) auto
  have r1: "refs_ok E s1" by (rule refs_ok_same [OF assms(1) r(2)])
  have "okr (inode_open k s1) (\<lambda>(ip, s'). refs_ok (if ip = 0 then E else E(ip := E ip + 1)) s' \<and> same_files s s')" for k
    by (rule okr_mono [OF okr_inode_open [OF r1]]) (use r(2) in \<open>auto simp: same_files_def same_refs_def\<close>)
  then show "oko (case r of (r, s) \<Rightarrow> (case r of None \<Rightarrow> Some (Inr (0, s)) | Some (e, ofs) \<Rightarrow> Some (inode_open (entry_sector e) s)))
      (\<lambda>(ip, s'). refs_ok (if ip = 0 then E else E(ip := E ip + 1)) s' \<and> same_files s s')"
    using r r1 by (auto simp: same_refs_files split: option.split prod.split)
qed (simp add: ref_errors_def)

lemma oko_dir_add:
  assumes "refs_ok E s" "dirs s d \<noteq> None" "\<forall>p. 0 \<le> E p"
  shows "oko (dir_add junk d name sec s) (\<lambda>(ok, s'). same_refs s s')"
proof -
  obtain x where x: "dirs s d = Some x" using assms(2) by auto
  obtain i where i: "inodes s (dinode x) = Some i" using refs_ok_dir [OF assms(1) x] assms(3) by auto
  have wr: "oko (bindo (Some (inode_write_at (dinode x) bs ofs s1)) (\<lambda>(n, s). Some (Inr (n = 20, s)))) (\<lambda>(ok, s'). same_refs s s')"
    if s1: "same_refs s s1" for bs ofs s1
  proof (rule oko_bind [where P = "\<lambda>(n, s'). same_refs s1 s'"])
    show "oko (Some (inode_write_at (dinode x) bs ofs s1)) (\<lambda>(n, s'). same_refs s1 s')"
      using okr_inode_write_at [of s1 "dinode x" bs ofs] same_refs_inodes [OF s1] i by simp
  qed (use s1 in \<open>auto intro: same_refs_trans\<close>)
  have slot: "oko (bindo (free_slot (dinode x) junk 0 s1) (\<lambda>(ofs, e, s). bindo (Some (inode_write_at (dinode x) (fill_entry e name sec) ofs s)) (\<lambda>(n, s). Some (Inr (n = 20, s)))))
      (\<lambda>(ok, s'). same_refs s s')" if s1: "same_refs s s1" for s1
  proof (rule oko_bind [OF oko_free_slot])
    show "inodes s1 (dinode x) \<noteq> None" using same_refs_inodes [OF s1] i by simp
    fix r :: "int \<times> bytes \<times> fs" assume "case r of (o', e, s') \<Rightarrow> same_refs s1 s'"
    then show "oko (case r of (ofs, e, s) \<Rightarrow> bindo (Some (inode_write_at (dinode x) (fill_entry e name sec) ofs s)) (\<lambda>(n, s). Some (Inr (n = 20, s)))) (\<lambda>(ok, s'). same_refs s s')"
      using wr same_refs_trans [OF s1] by (cases r) auto
  qed
  show ?thesis unfolding dir_add_def
  proof (rule oko_require, rule oko_if)
    show "oko (bindo (lookup d name s) (\<lambda>(r, s). if r \<noteq> None then Some (Inr (False, s)) else bindo (Some (get_dir d s)) (\<lambda>d.
          bindo (free_slot (dinode d) junk 0 s) (\<lambda>(ofs, e, s).
          bindo (Some (inode_write_at (dinode d) (fill_entry e name sec) ofs s)) (\<lambda>(n, s). Some (Inr (n = 20, s))))))) (\<lambda>(ok, s'). same_refs s s')"
    proof (rule oko_bind [OF oko_lookup [OF assms]])
      fix r :: "(bytes \<times> int) option \<times> fs" assume "case r of (x, s') \<Rightarrow> same_refs s s'"
      then obtain y s1 where r: "r = (y, s1)" "same_refs s s1" by (cases r) auto
      then have "get_dir d s1 = Inr x" using x by (simp add: get_dir_def same_refs_def)
      then show "oko (case r of (r, s) \<Rightarrow> if r \<noteq> None then Some (Inr (False, s)) else bindo (Some (get_dir d s)) (\<lambda>d.
          bindo (free_slot (dinode d) junk 0 s) (\<lambda>(ofs, e, s).
          bindo (Some (inode_write_at (dinode d) (fill_entry e name sec) ofs s)) (\<lambda>(n, s). Some (Inr (n = 20, s)))))) (\<lambda>(ok, s'). same_refs s s')"
        using r slot [OF r(2)] by simp
    qed
  qed (auto simp: ref_errors_def)
qed

lemma okr_inode_remove:
  assumes "refs_ok E s" "inodes s p \<noteq> None"
  shows "okr (inode_remove p s) (\<lambda>s'. refs_ok E s' \<and> same_files s s' \<and> inodes s' p \<noteq> None)"
proof -
  obtain i where i: "inodes s p = Some i" using assms(2) by auto
  have "p \<noteq> 0" using assms(1) i unfolding refs_ok_def table_ok_def by (metis less_irrefl option.distinct(1))
  let ?s = "put_inode p (i\<lparr>removed := True\<rparr>) s"
  have "inode_counts (files s) (dirs s) (E p) p i" using assms(1) i by (simp add: refs_ok_def counts_ok_def)
  then have "inode_counts (files s) (dirs s) (E p) p (i\<lparr>removed := True\<rparr>)" by (simp add: inode_counts_def)
  then have "counts_ok E ?s" using assms(1) i unfolding refs_ok_def counts_ok_def put_inode_def by auto
  moreover have "table_ok ?s" using assms(1) put_inode_table [OF i] by (simp add: refs_ok_def)
  moreover have "fm_ready ?s" using assms(1) by (auto simp: refs_ok_def fm_ready_def put_inode_def)
  ultimately show ?thesis using \<open>p \<noteq> 0\<close> i by (simp add: inode_remove_def get_inode_def refs_ok_def same_files_def put_inode_def)
qed


text \<open>Closing a reference that running code holds.\<close>

lemma okr_close_held:
  assumes "refs_ok (E(p := E p + 1)) s" "p \<noteq> 0" "0 \<le> E p"
  shows "okr (inode_close p s) (\<lambda>s'. refs_ok E s' \<and> same_files s s')"
proof -
  have h: "0 < (E(p := E p + 1)) p" using assms(3) by simp
  have "(E(p := E p + 1))(p := (E(p := E p + 1)) p - 1) = E" by auto
  then show ?thesis
    using okr_inode_close [OF assms(1), of p] refs_ok_held [OF assms(1) h] fm_keeps_held [OF assms(1) h] assms(2) by simp
qed

lemma oko_dir_remove_entry:
  assumes "refs_ok (E(ip := E ip + 1)) s" "dirs s d = Some x" "ip \<noteq> 0" "\<forall>p. 0 \<le> E p"
  shows "oko (bindo (Some (inode_write_at (dinode x) bs ofs s)) (\<lambda>(n, s).
      if n \<noteq> 20 then bindo (Some (inode_close ip s)) (\<lambda>s. Some (Inr (False, s)))
      else bindo (Some (inode_remove ip s)) (\<lambda>s. bindo (Some (inode_close ip s)) (\<lambda>s. Some (Inr (True, s))))))
    (\<lambda>(ok, s'). refs_ok E s' \<and> same_files s s')"
proof (rule oko_bind [where P = "\<lambda>(n, s'). same_refs s s'"])
  have "0 \<le> (E(ip := E ip + 1)) (dinode x)" using assms(4) by (auto intro: add_nonneg_nonneg)
  then obtain j where j: "inodes s (dinode x) = Some j" using refs_ok_dir [OF assms(1,2)] by blast
  then show "oko (Some (inode_write_at (dinode x) bs ofs s)) (\<lambda>(n, s'). same_refs s s')" using okr_inode_write_at [of s] by simp
  have close: "oko (bindo (Some (inode_close ip s1)) (\<lambda>s. Some (Inr (b, s)))) (\<lambda>(ok, s'). refs_ok E s' \<and> same_files s s')"
    if "refs_ok (E(ip := E ip + 1)) s1" "same_files s s1" for s1 b
    by (rule oko_bind [where P = "\<lambda>s'. refs_ok E s' \<and> same_files s1 s'"])
      (use okr_close_held [OF that(1) assms(3)] assms(4) that(2) in \<open>auto intro: same_files_trans\<close>)
  fix r :: "int \<times> fs" assume "case r of (n, s') \<Rightarrow> same_refs s s'"
  then obtain n s1 where r: "r = (n, s1)" "same_refs s s1" by (cases r) auto
  have r1: "refs_ok (E(ip := E ip + 1)) s1" by (rule refs_ok_same [OF assms(1) r(2)])
  have "0 < (E(ip := E ip + 1)) ip" using assms(4) by (simp add: add_nonneg_pos)
  note rem = okr_inode_remove [OF r1 conjunct1 [OF refs_ok_held [OF r1 this]]]
  have "oko (bindo (Some (inode_remove ip s1)) (\<lambda>s. bindo (Some (inode_close ip s)) (\<lambda>s. Some (Inr (True, s))))) (\<lambda>(ok, s'). refs_ok E s' \<and> same_files s s')"
  proof (rule oko_bind [where P = "\<lambda>s'. refs_ok (E(ip := E ip + 1)) s' \<and> same_files s1 s' \<and> inodes s' ip \<noteq> None"])
    fix s2 assume "refs_ok (E(ip := E ip + 1)) s2 \<and> same_files s1 s2 \<and> inodes s2 ip \<noteq> None"
    then show "oko (bindo (Some (inode_close ip s2)) (\<lambda>s. Some (Inr (True, s)))) (\<lambda>(ok, s'). refs_ok E s' \<and> same_files s s')"
      using same_files_trans [OF same_refs_files [OF r(2)]] by (intro close) auto
  qed (use rem in simp)
  then show "oko (case r of (n, s) \<Rightarrow> if n \<noteq> 20 then bindo (Some (inode_close ip s)) (\<lambda>s. Some (Inr (False, s)))
      else bindo (Some (inode_remove ip s)) (\<lambda>s. bindo (Some (inode_close ip s)) (\<lambda>s. Some (Inr (True, s))))) (\<lambda>(ok, s'). refs_ok E s' \<and> same_files s s')"
    using r close [OF r1] same_refs_files by auto
qed

lemma oko_dir_remove:
  assumes "refs_ok E s" "dirs s d \<noteq> None" "\<forall>p. 0 \<le> E p"
  shows "oko (dir_remove d name s) (\<lambda>(ok, s'). refs_ok E s' \<and> same_files s s')"
  unfolding dir_remove_def
proof (rule oko_require, rule oko_bind [OF oko_lookup [OF assms]])
  obtain x where x: "dirs s d = Some x" using assms(2) by auto
  fix r :: "(bytes \<times> int) option \<times> fs" assume "case r of (x, s') \<Rightarrow> same_refs s s'"
  then obtain y s1 where r: "r = (y, s1)" "same_refs s s1" by (cases r) auto
  have r1: "refs_ok E s1" by (rule refs_ok_same [OF assms(1) r(2)])
  have sf: "same_files s s1" using r(2) by (rule same_refs_files)
  have rm: "oko (bindo (Some (inode_open (entry_sector e) s1)) (\<lambda>(ip, s). if ip = 0 then Some (Inr (False, s))
           else bindo (Some (get_dir d s)) (\<lambda>d. bindo (Some (inode_write_at (dinode d) (e[19 := 0]) ofs s)) (\<lambda>(n, s).
             if n \<noteq> 20 then bindo (Some (inode_close ip s)) (\<lambda>s. Some (Inr (False, s)))
             else bindo (Some (inode_remove ip s)) (\<lambda>s. bindo (Some (inode_close ip s)) (\<lambda>s. Some (Inr (True, s))))))))
      (\<lambda>(ok, s'). refs_ok E s' \<and> same_files s s')" for e ofs
  proof (rule oko_bind [where P = "\<lambda>(p, s'). refs_ok (if p = 0 then E else E(p := E p + 1)) s' \<and> same_files s1 s'"])
    show "oko (Some (inode_open (entry_sector e) s1)) (\<lambda>(p, s'). refs_ok (if p = 0 then E else E(p := E p + 1)) s' \<and> same_files s1 s')"
      using okr_inode_open [OF r1] by simp
    fix q :: "ptr \<times> fs" assume "case q of (p, s') \<Rightarrow> refs_ok (if p = 0 then E else E(p := E p + 1)) s' \<and> same_files s1 s'"
    then obtain ip s2 where q: "q = (ip, s2)" "refs_ok (if ip = 0 then E else E(ip := E ip + 1)) s2" "same_files s1 s2" by (cases q) auto
    have x2: "dirs s2 d = Some x" using x sf q(3) by (simp add: same_files_def)
    have "oko (bindo (Some (inode_write_at (dinode x) (e[19 := 0]) ofs s2)) (\<lambda>(n, s).
             if n \<noteq> 20 then bindo (Some (inode_close ip s)) (\<lambda>s. Some (Inr (False, s)))
             else bindo (Some (inode_remove ip s)) (\<lambda>s. bindo (Some (inode_close ip s)) (\<lambda>s. Some (Inr (True, s))))))
        (\<lambda>(ok, s'). refs_ok E s' \<and> same_files s2 s')" if "ip \<noteq> 0"
      using oko_dir_remove_entry [of E ip s2 d x] q(2) x2 that assms(3) by simp
    then have "oko (bindo (Some (inode_write_at (dinode x) (e[19 := 0]) ofs s2)) (\<lambda>(n, s).
             if n \<noteq> 20 then bindo (Some (inode_close ip s)) (\<lambda>s. Some (Inr (False, s)))
             else bindo (Some (inode_remove ip s)) (\<lambda>s. bindo (Some (inode_close ip s)) (\<lambda>s. Some (Inr (True, s))))))
        (\<lambda>(ok, s'). refs_ok E s' \<and> same_files s s')" if "ip \<noteq> 0"
      by (rule oko_mono [OF _ _]) (use that q(3) sf in \<open>auto simp: same_files_def\<close>)
    then show "oko (case q of (ip, s) \<Rightarrow> if ip = 0 then Some (Inr (False, s))
           else bindo (Some (get_dir d s)) (\<lambda>d. bindo (Some (inode_write_at (dinode d) (e[19 := 0]) ofs s)) (\<lambda>(n, s).
             if n \<noteq> 20 then bindo (Some (inode_close ip s)) (\<lambda>s. Some (Inr (False, s)))
             else bindo (Some (inode_remove ip s)) (\<lambda>s. bindo (Some (inode_close ip s)) (\<lambda>s. Some (Inr (True, s)))))))
        (\<lambda>(ok, s'). refs_ok E s' \<and> same_files s s')"
      using q sf x2 by (auto simp: get_dir_def intro: same_files_trans)
  qed
  show "oko (case r of (r, s) \<Rightarrow> (case r of None \<Rightarrow> bindo (Some (inode_close 0 s)) (\<lambda>s. Some (Inr (False, s)))
       | Some (e, ofs) \<Rightarrow>
           bindo (Some (inode_open (entry_sector e) s)) (\<lambda>(ip, s).
           if ip = 0 then Some (Inr (False, s))
           else bindo (Some (get_dir d s)) (\<lambda>d.
             bindo (Some (inode_write_at (dinode d) (e[19 := 0]) ofs s)) (\<lambda>(n, s).
             if n \<noteq> 20 then bindo (Some (inode_close ip s)) (\<lambda>s. Some (Inr (False, s)))
             else bindo (Some (inode_remove ip s)) (\<lambda>s. bindo (Some (inode_close ip s)) (\<lambda>s. Some (Inr (True, s)))))))))
      (\<lambda>(ok, s'). refs_ok E s' \<and> same_files s s')"
    unfolding r(1) prod.case using rm r1 sf by (cases y) (auto simp: inode_close_def)
qed (simp add: ref_errors_def)


lemma oko_dir_readdir:
  assumes "refs_ok E s" "dirs s d \<noteq> None" "\<forall>p. 0 \<le> E p"
  shows "oko (dir_readdir d s) (\<lambda>(x, s'). refs_ok E s' \<and> free_map_file s' = free_map_file s)"
proof (rule oko_someI)
  let ?P = "\<lambda>d s r. refs_ok E s \<longrightarrow> dirs s d \<noteq> None \<longrightarrow> okr r (\<lambda>(x, s'). refs_ok E s' \<and> free_map_file s' = free_map_file s)"
  fix r assume "dir_readdir d s = Some r"
  then have "?P d s r"
  proof (rule dir_readdir.raw_induct [rotated])
    fix f d s r
    assume IH: "\<And>d s r. f d s = Some r \<Longrightarrow> ?P d s r"
      and eq: "bindo (Some (get_dir d s)) (\<lambda>y. bindo (Some (inode_read_at (dinode y) 20 (dpos y) s)) (\<lambda>(e, s).
         if length e = 20 then
           let s = s\<lparr>dirs := (dirs s)(d := Some (y\<lparr>dpos := dpos y + 20\<rparr>))\<rparr> in
           if entry_in_use e then
             (if 0 \<in> set (entry_name e) then Some (Inr (Some (take 14 (takeWhile (\<lambda>b. b \<noteq> 0) (entry_name e))), s))
              else Some (Inl (Undefined ''e.name'')))
           else f d s
         else Some (Inr (None, s)))) = Some r"
    show "?P d s r"
    proof (intro impI)
      assume r0: "refs_ok E s" and "dirs s d \<noteq> None"
      then obtain x where x: "dirs s d = Some x" by auto
      obtain i where i: "inodes s (dinode x) = Some i" using refs_ok_dir [OF r0 x] assms(3) by auto
      let ?Q = "\<lambda>(x, s'). refs_ok E s' \<and> free_map_file s' = free_map_file s"
      have adv: "refs_ok E (s1\<lparr>dirs := (dirs s1)(d := Some (x\<lparr>dpos := dpos x + 20\<rparr>))\<rparr>)" if "same_refs s s1" for s1
        using set_dir [OF refs_ok_same [OF r0 that], of d x] x that by (simp add: same_refs_def)
      have more: "oko (f d (s1\<lparr>dirs := (dirs s1)(d := Some (x\<lparr>dpos := dpos x + 20\<rparr>))\<rparr>)) ?Q" if s1: "same_refs s s1" for s1
        by (rule oko_someI) (use IH adv [OF s1] s1 in \<open>fastforce simp: same_refs_def\<close>)
      have "oko (bindo (Some (inode_read_at (dinode x) 20 (dpos x) s)) (\<lambda>(e, s).
         if length e = 20 then
           let s = s\<lparr>dirs := (dirs s)(d := Some (x\<lparr>dpos := dpos x + 20\<rparr>))\<rparr> in
           if entry_in_use e then
             (if 0 \<in> set (entry_name e) then Some (Inr (Some (take 14 (takeWhile (\<lambda>b. b \<noteq> 0) (entry_name e))), s))
              else Some (Inl (Undefined ''e.name'')))
           else f d s
         else Some (Inr (None, s)))) ?Q"
        by (rule oko_read) (use i more adv refs_ok_same [OF r0] in \<open>auto simp: Let_def ref_errors_def same_refs_def\<close>)
      then have "oko (Some r) ?Q" unfolding eq [symmetric] using x by (simp add: get_dir_def)
      then show "okr r ?Q" by simp
    qed
  qed
  then show "okr r (\<lambda>(x, s'). refs_ok E s' \<and> free_map_file s' = free_map_file s)" using assms by simp
qed

section \<open>The file system\<close>

definition quiet :: "fs \<Rightarrow> bool" where
  "quiet s \<longleftrightarrow> refs_ok (\<lambda>_. 0) s"

lemma oko_dir_close_ret:
  assumes "refs_ok E s" "d = 0 \<or> dirs s d \<noteq> None" "\<forall>p. 0 \<le> E p"
  shows "oko (bindo (Some (dir_close d s)) (\<lambda>s. Some (Inr (b, s)))) (\<lambda>(x, s'). refs_ok E s' \<and> free_map_file s' = free_map_file s \<and> files s' = files s)"
  by (rule oko_bind [where P = "\<lambda>s'. refs_ok E s' \<and> free_map_file s' = free_map_file s \<and> files s' = files s"])
    (use okr_dir_close [OF assms] in auto)

lemma oko_filesys_create_steps:
  assumes "quiet s" "d = 0 \<or> dirs s d \<noteq> None"
  shows "oko (filesys_create_steps junk d name n s) (\<lambda>(ok, sec, s'). same_refs s s')"
proof (cases "d = 0")
  case False
  have r0: "refs_ok (\<lambda>_. 0) s" using assms(1) by (simp add: quiet_def)
  have add: "oko (bindo (dir_add junk d name sec s1) (\<lambda>(ok, s). Some (Inr (ok, sec, s)))) (\<lambda>(ok, sec, s'). same_refs s s')"
    if s1: "same_refs s s1" for sec s1
  proof (rule oko_bind [OF oko_dir_add])
    show "refs_ok (\<lambda>_. 0) s1" by (rule refs_ok_same [OF r0 s1])
    show "dirs s1 d \<noteq> None" using assms(2) False s1 by (simp add: same_refs_def)
  qed (use s1 in \<open>auto intro: same_refs_trans\<close>)
  have create: "oko (bindo (Some (inode_create sec n s1)) (\<lambda>(ok, s). if \<not> ok then Some (Inr (False, sec, s))
        else bindo (dir_add junk d name sec s) (\<lambda>(ok, s). Some (Inr (ok, sec, s))))) (\<lambda>(ok, sec, s'). same_refs s s')"
    if s1: "same_refs s s1" for sec s1
  proof (rule oko_bind [where P = "\<lambda>(ok, s'). same_refs s1 s'"])
    have "fm_ready s1" using refs_ok_fm [OF refs_ok_same [OF r0 s1]] .
    then show "oko (Some (inode_create sec n s1)) (\<lambda>(ok, s'). same_refs s1 s')" by (simp add: okr_inode_create)
  qed (use s1 add same_refs_trans in \<open>auto split: prod.split\<close>)
  have "oko (bindo (Some (free_map_allocate 1 s)) (\<lambda>(r, s). case r of None \<Rightarrow> Some (Inr (False, 0, s))
        | Some sec \<Rightarrow> bindo (Some (inode_create sec n s)) (\<lambda>(ok, s). if \<not> ok then Some (Inr (False, sec, s))
            else bindo (dir_add junk d name sec s) (\<lambda>(ok, s). Some (Inr (ok, sec, s)))))) (\<lambda>(ok, sec, s'). same_refs s s')"
    by (rule oko_bind [where P = "\<lambda>(r, s'). same_refs s s'"])
      (use okr_free_map_allocate [OF refs_ok_fm [OF r0]] create in \<open>auto split: option.split prod.split\<close>)
  then show ?thesis using False by (simp add: filesys_create_steps_def)
qed (simp add: filesys_create_steps_def)


abbreviation keeps :: "fs \<Rightarrow> fs \<Rightarrow> bool" where
  "keeps s s' \<equiv> quiet s' \<and> free_map_file s' = free_map_file s"

lemma oko_root:
  assumes "quiet s"
    and "\<And>d s1. quiet s1 \<Longrightarrow> free_map_file s1 = free_map_file s \<Longrightarrow> d = 0 \<or> dirs s1 d \<noteq> None \<Longrightarrow> files s1 = files s \<Longrightarrow> oko (f d s1) Q"
  shows "oko (bindo (Some (dir_open_root s)) (\<lambda>(d, s). f d s)) Q"
proof (rule oko_bind [where P = "\<lambda>(d, s'). keeps s s' \<and> files s' = files s \<and> (d = 0 \<or> dirs s' d \<noteq> None)"])
  show "oko (Some (dir_open_root s)) (\<lambda>(d, s'). keeps s s' \<and> files s' = files s \<and> (d = 0 \<or> dirs s' d \<noteq> None))"
    using okr_dir_open_root [of "\<lambda>_. 0" s] assms(1) by (auto simp: quiet_def elim!: okr_mono)
qed (use assms(2) in auto)

lemma oko_filesys_create:
  assumes "quiet s"
  shows "oko (filesys_create junk name n s) (\<lambda>(ok, s'). keeps s s' \<and> files s' = files s)"
  unfolding filesys_create_def
proof (rule oko_root [OF assms])
  fix d s1 assume s1: "quiet s1" "free_map_file s1 = free_map_file s" "d = 0 \<or> dirs s1 d \<noteq> None" "files s1 = files s"
  show "oko (bindo (filesys_create_steps junk d name n s1) (\<lambda>(success, inode_sector, s).
     bindo (if \<not> success \<and> inode_sector \<noteq> 0 then Some (free_map_release inode_sector 1 s) else Some (Inr s)) (\<lambda>s.
     bindo (Some (dir_close d s)) (\<lambda>s. Some (Inr (success, s)))))) (\<lambda>(ok, s'). keeps s s' \<and> files s' = files s)"
  proof (rule oko_bind [OF oko_filesys_create_steps [OF s1(1,3)]], clarify)
    fix ok sec s2 assume s2: "same_refs s1 s2"
    have r2: "refs_ok (\<lambda>_. 0) s2" using refs_ok_same [OF _ s2] s1(1) by (simp add: quiet_def)
    show "oko (bindo (if \<not> ok \<and> sec \<noteq> 0 then Some (free_map_release sec 1 s2) else Some (Inr s2)) (\<lambda>s.
        bindo (Some (dir_close d s)) (\<lambda>s. Some (Inr (ok, s))))) (\<lambda>(ok, s'). keeps s s' \<and> files s' = files s)"
    proof (rule oko_bind [where P = "\<lambda>s'. same_refs s2 s'"])
      show "oko (if \<not> ok \<and> sec \<noteq> 0 then Some (free_map_release sec 1 s2) else Some (Inr s2)) (\<lambda>s'. same_refs s2 s')"
        using okr_free_map_release [OF refs_ok_fm [OF r2]] by simp
      fix s3 assume s3: "same_refs s2 s3"
      have "d = 0 \<or> dirs s3 d \<noteq> None" "free_map_file s3 = free_map_file s" "files s3 = files s" using s1(2-4) s2 s3 by (auto simp: same_refs_def)
      then show "oko (bindo (Some (dir_close d s3)) (\<lambda>s. Some (Inr (ok, s)))) (\<lambda>(ok, s'). keeps s s' \<and> files s' = files s)"
        using oko_dir_close_ret [OF refs_ok_same [OF r2 s3], of d ok] by (auto simp: quiet_def elim!: oko_mono)
    qed
  qed
qed

lemma oko_filesys_remove:
  assumes "quiet s"
  shows "oko (filesys_remove name s) (\<lambda>(ok, s'). keeps s s' \<and> files s' = files s)"
  unfolding filesys_remove_def
proof (rule oko_root [OF assms])
  fix d s1 assume s1: "quiet s1" "free_map_file s1 = free_map_file s" "d = 0 \<or> dirs s1 d \<noteq> None" "files s1 = files s"
  show "oko (bindo (if d \<noteq> 0 then dir_remove d name s1 else Some (Inr (False, s1))) (\<lambda>(success, s).
     bindo (Some (dir_close d s)) (\<lambda>s. Some (Inr (success, s))))) (\<lambda>(ok, s'). keeps s s' \<and> files s' = files s)"
  proof (rule oko_bind [where P = "\<lambda>(ok, s'). quiet s' \<and> same_files s1 s'"], goal_cases)
    case 1
    show ?case using oko_dir_remove [of "\<lambda>_. 0" s1 d name] s1 by (auto simp: quiet_def same_files_def)
  next
    case (2 r)
    then obtain ok s2 where r: "r = (ok, s2)" "quiet s2" "same_files s1 s2" by (cases r) auto
    then show ?case using oko_dir_close_ret [of "\<lambda>_. 0" s2 d ok] s1 by (auto simp: quiet_def same_files_def)
  qed
qed

lemma oko_filesys_open:
  assumes "quiet s"
  shows "oko (filesys_open name s) (\<lambda>(f, s'). keeps s s' \<and> opened s f s')"
  unfolding filesys_open_def
proof (rule oko_root [OF assms])
  let ?H = "\<lambda>ip :: ptr. if ip = 0 then (\<lambda>_. 0 :: int) else (\<lambda>_. 0)(ip := 1)"
  fix d s1 assume s1: "quiet s1" "free_map_file s1 = free_map_file s" "d = 0 \<or> dirs s1 d \<noteq> None" "files s1 = files s"
  show "oko (bindo (if d \<noteq> 0 then dir_lookup d name s1 else Some (Inr (0, s1))) (\<lambda>(ip, s).
     bindo (Some (dir_close d s)) (\<lambda>s. Some (file_open ip s)))) (\<lambda>(f, s'). keeps s s' \<and> opened s f s')"
  proof (rule oko_bind [where P = "\<lambda>(ip, s'). refs_ok (?H ip) s' \<and> same_files s1 s'"], goal_cases)
    case 1
    show ?case using oko_dir_lookup [of "\<lambda>_. 0" s1 d name] s1 by (auto simp: quiet_def same_files_def cong: if_cong)
  next
    case (2 r)
    then obtain ip s2 where r: "r = (ip, s2)" "refs_ok (?H ip) s2" "same_files s1 s2" by (cases r) auto
    have nn: "\<forall>p. 0 \<le> ?H ip p" by simp
    have d2: "d = 0 \<or> dirs s2 d \<noteq> None" using s1(3) r(3) by (simp add: same_files_def)
    have "oko (bindo (Some (dir_close d s2)) (\<lambda>s. Some (file_open ip s))) (\<lambda>(f, s'). keeps s s' \<and> opened s f s')"
    proof (rule oko_bind [where P = "\<lambda>s'. refs_ok (?H ip) s' \<and> free_map_file s' = free_map_file s \<and> files s' = files s"], goal_cases)
      case 1
      show ?case unfolding oko_simps
      proof (rule okr_mono [OF okr_dir_close [OF r(2) d2 nn]])
        fix x assume "refs_ok (?H ip) x \<and> free_map_file x = free_map_file s2 \<and> files x = files s2"
        then show "refs_ok (?H ip) x \<and> free_map_file x = free_map_file s \<and> files x = files s" using r(3) s1(2,4) unfolding same_files_def by metis
      qed
    next
      case (2 s3)
      have h: "ip = 0 \<or> 0 < ?H ip ip" by simp
      have z: "(if ip = 0 then ?H ip else (?H ip)(ip := ?H ip ip - 1)) = (\<lambda>_. 0)" by auto
      show ?case using okr_file_open [OF conjunct1 [OF 2] h, unfolded z] 2 using opened_cong [of s s3] by (auto simp: quiet_def elim!: okr_mono)
    qed
    then show ?case using r(1) by simp
  qed
qed


text \<open>The calls that a client of the file system can make, with open files and directories as arguments. The free map file
  belongs to the file system itself.\<close>

definition discard :: "('a \<times> fs) res \<Rightarrow> fs res" where
  "discard r = bindr r (\<lambda>(_, s). Inr s)"

inductive fs_op :: "fs \<Rightarrow> fs res \<Rightarrow> bool" where
  op_create: "filesys_create junk name n s = Some r \<Longrightarrow> fs_op s (discard r)"
| op_open: "filesys_open name s = Some r \<Longrightarrow> fs_op s (discard r)"
| op_remove: "filesys_remove name s = Some r \<Longrightarrow> fs_op s (discard r)"
| op_close: "files s f \<noteq> None \<Longrightarrow> f \<noteq> free_map_file s \<Longrightarrow> fs_op s (file_close f s)"
| op_reopen: "files s f \<noteq> None \<Longrightarrow> fs_op s (discard (file_reopen f s))"
| op_read: "files s f \<noteq> None \<Longrightarrow> fs_op s (discard (file_read f sz s))"
| op_write: "files s f \<noteq> None \<Longrightarrow> fs_op s (discard (file_write f buf s))"
| op_seek: "files s f \<noteq> None \<Longrightarrow> fs_op s (file_seek f p s)"
| op_deny: "files s f \<noteq> None \<Longrightarrow> fs_op s (file_deny_write f s)"
| op_allow: "files s f \<noteq> None \<Longrightarrow> fs_op s (file_allow_write f s)"
| op_opendir: "fs_op s (discard (dir_open_root s))"
| op_readdir: "dirs s d \<noteq> None \<Longrightarrow> dir_readdir d s = Some r \<Longrightarrow> fs_op s (discard r)"
| op_closedir: "dirs s d \<noteq> None \<Longrightarrow> fs_op s (dir_close d s)"

lemma okr_discard: "okr r (\<lambda>(x, s). P s) \<Longrightarrow> okr (discard r) P"
  by (cases r) (auto simp: discard_def)

lemma oko_discard: "oko m (\<lambda>(x, s). P s) \<Longrightarrow> m = Some r \<Longrightarrow> okr (discard r) P"
  by (auto intro: okr_discard)

lemma okr_keeps: "okr m (\<lambda>(x, s). P s \<and> Q s \<and> R x s) \<Longrightarrow> okr m (\<lambda>(x, s). P s \<and> Q s)"
  by (erule okr_mono) auto

lemma oko_keeps: "oko m (\<lambda>(x, s). (P s \<and> Q s) \<and> R x s) \<Longrightarrow> oko m (\<lambda>(x, s). P s \<and> Q s)"
  by (erule oko_mono) auto

lemma fs_op_keeps:
  assumes "fs_op s r" "quiet s"
  shows "okr r (\<lambda>s'. keeps s s')"
proof -
  have r0: "refs_ok (\<lambda>_. 0) s" using assms(2) by (simp add: quiet_def)
  have opened: thesis if "files s f \<noteq> None" "\<And>x. files s f = Some x \<Longrightarrow> f \<noteq> 0 \<Longrightarrow> thesis" for f thesis
    using that r0 unfolding refs_ok_def table_ok_def by (metis less_irrefl not_Some_eq)
  from assms(1) show ?thesis
  proof cases
    case (op_create junk name n r')
    then show ?thesis using oko_discard [OF oko_filesys_create [OF assms(2), THEN oko_keeps] op_create(2)] by simp
  next
    case (op_open name r')
    then show ?thesis using oko_discard [OF oko_filesys_open [OF assms(2), THEN oko_keeps]] by simp
  next
    case (op_remove name r')
    then show ?thesis using oko_discard [OF oko_filesys_remove [OF assms(2), THEN oko_keeps]] by simp
  next
    case (op_close f)
    then obtain x where x: "files s f = Some x" by blast
    show ?thesis unfolding op_close(1) quiet_def by (rule okr_mono [OF okr_file_close [OF r0 x _ op_close(3)]]) simp_all
  next
    case (op_reopen f)
    then show ?thesis using okr_file_reopen [OF r0, THEN okr_keeps] by (auto simp: quiet_def intro!: okr_discard)
  next
    case (op_read f sz)
    then show ?thesis using okr_file_read [OF r0, THEN okr_keeps] by (auto simp: quiet_def intro!: okr_discard)
  next
    case (op_write f buf)
    then show ?thesis using okr_file_write [OF r0, THEN okr_keeps] by (auto simp: quiet_def intro!: okr_discard)
  next
    case (op_seek f p)
    then obtain x where x: "files s f = Some x" by blast
    show ?thesis unfolding op_seek(1) quiet_def by (rule okr_mono [OF okr_file_seek [OF r0 x]]) simp
  next
    case (op_deny f)
    then show ?thesis using opened [OF op_deny(2)] okr_file_deny_write [OF r0] by (auto simp: quiet_def)
  next
    case (op_allow f)
    then obtain x where x: "files s f = Some x" "f \<noteq> 0" using opened by blast
    show ?thesis using okr_file_allow_write [OF r0 x(1) _ x(2)] op_allow(1) by (auto simp: quiet_def elim!: okr_mono)
  next
    case op_opendir
    then show ?thesis using okr_dir_open_root [OF r0] by (auto simp: quiet_def elim!: okr_mono intro!: okr_discard)
  next
    case (op_readdir d r')
    then show ?thesis using oko_discard [OF oko_dir_readdir [OF r0 op_readdir(2)] op_readdir(3)] by (simp add: quiet_def)
  next
    case (op_closedir d)
    then show ?thesis using okr_dir_close [OF r0, of d] by (auto simp: quiet_def elim!: okr_mono)
  qed
qed


section \<open>Properties\<close>

definition example_fs :: fs where
  "example_fs = \<lparr>devs = example_blocks, fs_device = 16,
     inodes = [1 \<mapsto> \<lparr>sector = 0, open_cnt = 1, removed = False, deny_write_cnt = 0,
       data = \<lparr>dstart = 2, dlength = 8, dmagic = INODE_MAGIC, dunused = replicate 500 0\<rparr>\<rparr>],
     open_inodes = [1], files = [2 \<mapsto> \<lparr>finode = 1, pos = 0, deny_write = False\<rparr>], dirs = Map.empty,
     free_map = \<lparr>bit_cnt = 64, bits = [7, 0]\<rparr>, free_map_file = 2, alloc_ok = (\<lambda>_. True), alloc_cnt = 2\<rparr>"

lemma quiet_example: "quiet example_fs"
proof -
  have f: "file_refs (files example_fs) p = (if p = 1 then {2} else {})" "deny_refs (files example_fs) p = {}"
    "dir_refs (dirs example_fs) p = {}" for p
    by (auto simp: file_refs_def deny_refs_def dir_refs_def example_fs_def)
  have "counts_ok (\<lambda>_. 0) example_fs" unfolding counts_ok_def inode_counts_def f by (auto simp: example_fs_def)
  moreover have "table_ok example_fs" by (auto simp: table_ok_def example_fs_def)
  moreover have "fm_ready example_fs" by (auto simp: fm_ready_def example_fs_def)
  ultimately show ?thesis by (simp add: quiet_def refs_ok_def)
qed

text \<open>C15: Reference counting in the file system is right. In a state in which the open count of every inode in
  memory is the number of files and directories open on it, its count of denied writes the number of files that deny them,
  no two inodes share a sector, and the file of the free map is open (one of the files that the counts include), every operation of a client, on
  files and directories that it has open, either panics for another reason or ends in such a state again; this includes failing allocations.
  In particular no operation touches an inode, file or directory that has been freed, and the assertions on the
  two counts never fail.\<close>

theorem fs_references:
  assumes "fs_op s r" "quiet s"
  shows "case r of Inl e \<Rightarrow> e \<notin> ref_errors | Inr s' \<Rightarrow> quiet s' \<and> free_map_file s' = free_map_file s"
  using fs_op_keeps [OF assms] by (simp add: okr_def)

theorem fs_references_witness:
  "\<exists>s'. file_deny_write 2 example_fs = Inr s' \<and> quiet s'"
proof -
  have op: "fs_op example_fs (file_deny_write 2 example_fs)" by (rule fs_op.op_deny) (simp add: example_fs_def)
  obtain s' where s': "file_deny_write 2 example_fs = Inr s'"
    by (simp add: file_deny_write_def get_file_def inode_deny_write_def get_inode_def Let_def example_fs_def)
  then show ?thesis using fs_references [OF op quiet_example] by simp
qed

end
