(* ===== verification/Fs_Properties.thy ===== *)
theory Fs_Properties
  imports Fs_Ops
begin

text \<open>
  The contents of files and directories: an inode implements a fixed-length sequence of bytes, and
  a directory implements a map from names to sectors.
\<close>

section \<open>Files as sequences of bytes\<close>

lemma overwrite_read: "off + length ys \<le> length xs \<Longrightarrow> take (length ys) (drop off (overwrite xs off ys)) = ys"
  by (simp add: overwrite_def)

lemma length_overwrite: "off + length ys \<le> length xs \<Longrightarrow> length (overwrite xs off ys) = length xs"
  by (simp add: overwrite_def)

lemma length_content [simp]: "length (content s i) = flen (data i)"
  by (simp add: content_def)

lemma content_cong: "disk s' = disk s \<Longrightarrow> content s' i = content s i"
  by (simp add: content_def dbyte_def)

definition apart :: "inode_disk \<Rightarrow> inode_disk \<Rightarrow> bool" where
  "apart d e \<longleftrightarrow> fbase d + flen d \<le> fbase e \<or> fbase e + flen e \<le> fbase d"

lemma content_apart:
  assumes "\<forall>a. a < fbase (data i) + off \<or> fbase (data i) + off + n \<le> a \<longrightarrow> dbyte s' a = dbyte s a"
    and "off + n \<le> flen (data i) \<or> n = 0" "apart (data i) (data j)"
  shows "content s' j = content s j"
  using assms unfolding content_def apart_def by (auto intro!: map_cong)

text \<open>C16: An inode implements a sequence of bytes of fixed length. Writing at an offset replaces the bytes from there
  on, up to the end of the file, and returns their number; reading them back gives what was written; and the contents of
  every inode whose data lie elsewhere on the device are unchanged. This holds for all offsets from 0 on and all sizes, across sector
  boundaries, whole sectors and partial ones. The conditions are: the inode is open and lies within the device, writes to it are not denied, and
  allocations succeed.\<close>

theorem inode_refines_bytes:
  fixes buffer :: bytes and off :: nat
  assumes "inodes s p = Some i" "inode_fits s (data i)" "disk_ok s" "deny_write_cnt i = 0" "\<forall>k. alloc_ok s k"
  defines "n \<equiv> min (length buffer) (flen (data i) - off)"
  shows "\<exists>s'. inode_write_at p buffer (int off) s = Inr (int n, s')
    \<and> content s' i = overwrite (content s i) off (take n buffer)
    \<and> (\<exists>s''. inode_read_at p (int n) (int off) s' = Inr (take n buffer, s''))
    \<and> (\<forall>j. apart (data i) (data j) \<longrightarrow> content s' j = content s j)"
proof -
  obtain m s' where w: "inode_write_at p buffer (int off) s = Inr (int m, s')" "same_mem s s'" "disk_ok s'"
      "content s' i = overwrite (content s i) off (take m buffer)" "m = n"
      "\<forall>a. a < fbase (data i) + off \<or> fbase (data i) + off + m \<le> a \<longrightarrow> dbyte s' a = dbyte s a"
    by (rule inode_write_at_value [OF assms(1-4), of buffer off]) (use assms(5) n_def in blast)
  have le: "off + n \<le> flen (data i) \<or> n = 0" unfolding n_def by auto
  have "inodes s' p = Some i" "inode_fits s' (data i)" "alloc_ok s' (alloc_cnt s')"
    using w(2) assms(1,2,5) by (auto simp: same_mem_def inode_fits_def)
  then obtain s'' where r: "inode_read_at p (int n) (int off) s' = Inr (take n (drop off (content s' i)), s'')"
    using inode_read_at_value [OF _ _ w(3)] by metis
  moreover have "take n (drop off (content s' i)) = take n buffer"
  proof (cases "n = 0")
    case False
    have "length (take n buffer) = n" by (simp add: n_def)
    then show ?thesis using overwrite_read [of off "take n buffer" "content s i"] le False w(4,5) by simp
  qed simp
  moreover have "\<forall>j. apart (data i) (data j) \<longrightarrow> content s' j = content s j"
    using content_apart [OF w(6)] le w(5) by blast
  ultimately show ?thesis using w(1,4,5) by auto
qed

theorem inode_refines_bytes_witness:
  "\<exists>s'. inode_write_at 1 [1, 2, 3, 4, 5] (int 6) example_fs = Inr (int 2, s')
    \<and> (\<exists>s''. inode_read_at 1 (int 2) (int 6) s' = Inr ([1, 2], s''))"
proof -
  let ?i = "\<lparr>sector = 0, open_cnt = 1, removed = False, deny_write_cnt = 0,
       data = \<lparr>dstart = 2, dlength = 8, dmagic = INODE_MAGIC, dunused = replicate 500 0\<rparr>\<rparr>"
  have "inode_fits example_fs (data ?i)"
    by (simp add: inode_fits_def bytes_to_sectors_value cap_def example_fs_def example_blocks_def)
  moreover have "disk_ok example_fs"
    by (simp add: disk_ok_def writable_def cap_def disk_def example_fs_def example_blocks_def)
  ultimately show ?thesis
    using inode_refines_bytes [of example_fs 1 ?i "[1, 2, 3, 4, 5]" 6] by (auto simp: example_fs_def)
qed

section \<open>Directories as maps\<close>

definition entry :: "bytes \<Rightarrow> nat \<Rightarrow> bytes" where "entry C k = take 20 (drop (20 * k) C)"
definition entries :: "bytes \<Rightarrow> nat" where "entries C = length C div 20"
definition entry_str :: "bytes \<Rightarrow> bytes" where "entry_str e = takeWhile (\<lambda>b. b \<noteq> 0) (entry_name e)"

text \<open>Every name in use ends with a null byte.\<close>

definition dir_wf :: "bytes \<Rightarrow> bool" where
  "dir_wf C \<longleftrightarrow> (\<forall>k < entries C. entry_in_use (entry C k) \<longrightarrow> 0 \<in> set (entry_name (entry C k)))"

text \<open>The directory as a map: the slot of a name.\<close>

definition slot_of :: "bytes \<Rightarrow> nat \<Rightarrow> bytes \<Rightarrow> nat option" where
  "slot_of C k name = find (\<lambda>j. entry_in_use (entry C j) \<and> entry_str (entry C j) = name) [k..<entries C]"

definition dir_state :: "ptr \<Rightarrow> inode \<Rightarrow> bytes \<Rightarrow> fs \<Rightarrow> bool" where
  "dir_state ip i C s \<longleftrightarrow> inodes s ip = Some i \<and> inode_fits s (data i) \<and> disk_ok s \<and> (\<forall>k. alloc_ok s k) \<and> content s i = C"

lemma dir_state_same: "dir_state ip i C s \<Longrightarrow> same_mem s s' \<Longrightarrow> disk s' = disk s \<Longrightarrow> dir_state ip i C s'"
  unfolding dir_state_def using content_cong [of s' s i] by (simp add: same_mem_def inode_fits_def disk_ok_def) blast

lemma name_matches_value:
  "0 \<in> set bs \<Longrightarrow> 0 \<notin> set name \<Longrightarrow> name_matches name bs = Inr (takeWhile (\<lambda>b. b \<noteq> 0) bs = name)"
  by (induction name bs rule: name_matches.induct) auto

lemma read_entry:
  assumes "dir_state ip i C s"
  obtains s' where "inode_read_at ip 20 (int (20 * k)) s = Inr (entry C k, s')" "same_mem s s'" "disk s' = disk s"
    "dir_state ip i C s'"
  using inode_read_at_value [of s ip i 20 "20 * k"] assms dir_state_same [OF assms]
  unfolding dir_state_def entry_def by (metis of_nat_numeral)

lemma entry_length: "length (entry C k) = 20 \<longleftrightarrow> k < entries C"
  using less_eq_div_iff_mult_less_eq [of 20 "Suc k" "length C"] by (auto simp: entry_def entries_def min_def)

lemma lookup_loop_value:
  assumes "dir_state ip i C s" "dir_wf C" "0 \<notin> set name"
  shows "\<exists>s'. lookup_loop ip name (int (20 * k)) s = Some (Inr (map_option (\<lambda>j. (entry C j, int (20 * j))) (slot_of C k name), s'))
    \<and> same_mem s s' \<and> disk s' = disk s"
  using assms(1)
proof (induction "entries C - k" arbitrary: k s)
  case 0
  obtain s' where "inode_read_at ip 20 (int (20 * k)) s = Inr (entry C k, s')" "same_mem s s'" "disk s' = disk s"
    using read_entry [OF 0(2)] .
  moreover have "length (entry C k) \<noteq> 20" using 0(1) by (simp add: entry_length)
  ultimately show ?case using 0(1) by (subst lookup_loop.simps) (auto simp: slot_of_def)
next
  case (Suc n)
  then have k: "k < entries C" "n = entries C - Suc k" by auto
  obtain s1 where r: "inode_read_at ip 20 (int (20 * k)) s = Inr (entry C k, s1)" "same_mem s s1" "disk s1 = disk s"
      "dir_state ip i C s1" using read_entry [OF Suc(3)] .
  have len: "length (entry C k) = 20" using k by (simp add: entry_length)
  have up: "[k..<entries C] = k # [Suc k..<entries C]" using k(1) by (simp add: upt_conv_Cons)
  have "int (20 * k) + 20 = int (20 * Suc k)" by simp
  then have step: "lookup_loop ip name (int (20 * k)) s
      = (if entry_in_use (entry C k) \<and> entry_str (entry C k) = name then Some (Inr (Some (entry C k, int (20 * k)), s1))
         else lookup_loop ip name (int (20 * Suc k)) s1)"
    using r(1) len assms(2,3) k(1)
    by (subst lookup_loop.simps) (simp add: dir_wf_def name_matches_value entry_str_def add.commute)
  obtain s2 where IH: "lookup_loop ip name (int (20 * Suc k)) s1
      = Some (Inr (map_option (\<lambda>j. (entry C j, int (20 * j))) (slot_of C (Suc k) name), s2))" "same_mem s1 s2" "disk s2 = disk s1"
    using Suc(1) [OF k(2) r(4)] by blast
  have "slot_of C k name = (if entry_in_use (entry C k) \<and> entry_str (entry C k) = name then Some k else slot_of C (Suc k) name)"
    unfolding slot_of_def up by simp
  then show ?case using step r(2,3) IH same_mem_trans by (cases "entry_in_use (entry C k) \<and> entry_str (entry C k) = name") auto
qed


lemma slot_of_SomeD: "slot_of C k name = Some j \<Longrightarrow> k \<le> j \<and> j < entries C \<and> entry_in_use (entry C j) \<and> entry_str (entry C j) = name"
  unfolding slot_of_def by (auto simp: find_Some_iff)

text \<open>The first slot that is not in use, or the number of entries.\<close>

definition free_at :: "bytes \<Rightarrow> nat \<Rightarrow> nat" where
  "free_at C k = (case find (\<lambda>j. \<not> entry_in_use (entry C j)) [k..<entries C] of Some j \<Rightarrow> j | None \<Rightarrow> max k (entries C))"

lemma free_at_step: "k < entries C \<Longrightarrow> free_at C k = (if entry_in_use (entry C k) then free_at C (Suc k) else k)"
  by (auto simp: free_at_def upt_conv_Cons split: option.splits)

lemma length_refill: "length e = 20 \<Longrightarrow> length bs \<le> 20 \<Longrightarrow> length (refill e bs) = 20"
  by (simp add: refill_def)

lemma free_slot_value:
  assumes "dir_state ip i C s" "length e = 20" "k \<le> entries C"
  shows "\<exists>e' s'. free_slot ip e (int (20 * k)) s = Some (Inr (int (20 * free_at C k), e', s'))
    \<and> length e' = 20 \<and> same_mem s s' \<and> disk s' = disk s"
  using assms
proof (induction "entries C - k" arbitrary: k s e)
  case 0
  obtain s' where r: "inode_read_at ip 20 (int (20 * k)) s = Inr (entry C k, s')" "same_mem s s'" "disk s' = disk s"
    using read_entry [OF 0(2)] .
  have "length (entry C k) \<noteq> 20" "free_at C k = k" using 0(1,4) by (simp_all add: entry_length free_at_def)
  moreover have "length (entry C k) \<le> 20" by (simp add: entry_def)
  ultimately show ?case using r 0(3) by (subst free_slot.simps) (simp add: length_refill)
next
  case (Suc n)
  then have k: "k < entries C" "n = entries C - Suc k" by auto
  obtain s1 where r: "inode_read_at ip 20 (int (20 * k)) s = Inr (entry C k, s1)" "same_mem s s1" "disk s1 = disk s"
      "dir_state ip i C s1" using read_entry [OF Suc(3)] .
  have len: "length (entry C k) = 20" using k by (simp add: entry_length)
  then have e: "refill e (entry C k) = entry C k" using Suc(4) by (simp add: refill_def)
  have step: "free_slot ip e (int (20 * k)) s
      = (if entry_in_use (entry C k) then free_slot ip (entry C k) (int (20 * Suc k)) s1
         else Some (Inr (int (20 * k), entry C k, s1)))"
    using r(1) len e by (subst free_slot.simps) (simp add: add.commute)
  show ?case
  proof (cases "entry_in_use (entry C k)")
    case True
    then show ?thesis using Suc(1) [OF k(2) r(4) len] k(1) step r(2,3) same_mem_trans [OF r(2)]
      by (fastforce simp: free_at_step)
  next
    case False
    then show ?thesis using step r(2,3) len k(1) by (simp add: free_at_step)
  qed
qed

section \<open>Adding an entry\<close>

lemma entry_overwrite_other:
  assumes "j \<noteq> k" "j < entries C" "length ys \<le> 20" "20 * k + length ys \<le> length C"
  shows "entry (overwrite C (20 * k) ys) j = entry C j"
proof -
  have "20 * j + 20 \<le> length C" using assms(2) unfolding entries_def by linarith
  then show ?thesis
  proof (cases "j < k")
    case True
    then have "20 * j + 20 \<le> 20 * k" by simp
    then show ?thesis using \<open>20 * j + 20 \<le> length C\<close> assms unfolding entry_def overwrite_def
      by (simp add: take_drop min_def)
  next
    case False
    then have "20 * k + 20 \<le> 20 * j" using assms(1) by simp
    then show ?thesis using \<open>20 * j + 20 \<le> length C\<close> assms unfolding entry_def overwrite_def
      by (intro nth_equalityI) (auto simp: nth_append min_def)
  qed
qed

lemma entry_overwrite_same: "length ys = 20 \<Longrightarrow> 20 * k + 20 \<le> length C \<Longrightarrow> entry (overwrite C (20 * k) ys) k = ys"
  unfolding entry_def overwrite_def by simp

definition valid_name :: "bytes \<Rightarrow> bool" where
  "valid_name name \<longleftrightarrow> name \<noteq> [] \<and> length name \<le> 14 \<and> 0 \<notin> set name"

lemma fill_entry_value:
  assumes "length e = 20" "valid_name name" "sec < 2 ^ 32"
  shows "length (fill_entry e name sec) = 20" "entry_in_use (fill_entry e name sec)"
    "entry_str (fill_entry e name sec) = name" "0 \<in> set (entry_name (fill_entry e name sec))"
    "entry_sector (fill_entry e name sec) = sec"
proof -
  have n: "length name \<le> 14" "0 \<notin> set name" using assms(2) by (auto simp: valid_name_def)
  define r where "r = drop (5 + length name) (take 19 e)"
  have f: "fill_entry e name sec = le32 (of_nat sec) @ name @ 0 # r @ [1]" and r: "length r = 14 - length name"
    using n assms(1) by (simp_all add: fill_entry_def r_def)
  show "length (fill_entry e name sec) = 20" using n r by (simp add: f)
  show "entry_in_use (fill_entry e name sec)" using n r by (simp add: f entry_in_use_def nth_append nth_Cons')
  have "entry_name (fill_entry e name sec) = name @ 0 # r"
    using n r Suc_diff_le [OF n(1)] by (simp add: f entry_name_def)
  then show "entry_str (fill_entry e name sec) = name" "0 \<in> set (entry_name (fill_entry e name sec))"
    using n(2) by (auto simp: entry_str_def takeWhile_append takeWhile_eq_all_conv)
  show "entry_sector (fill_entry e name sec) = sec"
    using word_at_le32 [of "[]"] assms(3) by (simp add: f entry_sector_def unat_of_nat take_bit_eq_mod)
qed

text \<open>The map from names to sectors that the contents of a directory stand for.\<close>

definition dir_map :: "bytes \<Rightarrow> bytes \<Rightarrow> nat option" where
  "dir_map C name = map_option (\<lambda>j. entry_sector (entry C j)) (slot_of C 0 name)"

lemma find_cong': "(\<And>x. x \<in> set xs \<Longrightarrow> P x = Q x) \<Longrightarrow> find P xs = find Q xs"
  by (induction xs) auto

lemma find_other: "(\<And>x. x \<in> set xs \<Longrightarrow> x \<noteq> a \<Longrightarrow> P x = Q x) \<Longrightarrow> \<not> P a \<Longrightarrow> \<not> Q a \<Longrightarrow> find P xs = find Q xs"
  by (rule find_cong') metis

lemma find_only: "distinct xs \<Longrightarrow> a \<in> set xs \<Longrightarrow> P a \<Longrightarrow> (\<And>x. x \<in> set xs \<Longrightarrow> x \<noteq> a \<Longrightarrow> \<not> P x) \<Longrightarrow> find P xs = Some a"
  by (induction xs) auto

text \<open>Writing a new entry over a free slot adds its name to the map.\<close>

lemma dir_map_add:
  assumes "k < entries C" "\<not> entry_in_use (entry C k)" "dir_map C name = None"
    "length e = 20" "entry_in_use e" "entry_str e = name" "entry_sector e = sec"
  shows "dir_map (overwrite C (20 * k) e) = (dir_map C)(name \<mapsto> sec)"
proof
  fix x
  have len: "20 * k + 20 \<le> length C" using assms(1) unfolding entries_def by linarith
  then have E: "entries (overwrite C (20 * k) e) = entries C" using assms(4) by (simp add: entries_def length_overwrite)
  have same: "entry (overwrite C (20 * k) e) k = e" using entry_overwrite_same [OF assms(4) len] .
  have other: "entry (overwrite C (20 * k) e) j = entry C j" if "j < entries C" "j \<noteq> k" for j
    using entry_overwrite_other [OF that(2,1)] assms(4) len by simp
  have none: "\<not> (entry_in_use (entry C j) \<and> entry_str (entry C j) = name)" if "j < entries C" for j
    using assms(3) that by (auto simp: dir_map_def slot_of_def find_None_iff)
  show "dir_map (overwrite C (20 * k) e) x = ((dir_map C)(name \<mapsto> sec)) x"
  proof (cases "x = name")
    case True
    have "slot_of (overwrite C (20 * k) e) 0 name = Some k"
      unfolding slot_of_def E by (rule find_only) (use assms(1,5,6) same other none in auto)
    then show ?thesis using True same assms(7) by (simp add: dir_map_def)
  next
    case False
    have sl: "slot_of (overwrite C (20 * k) e) 0 x = slot_of C 0 x"
      unfolding slot_of_def E by (rule find_other [where a = k]) (use assms(2,6) same other False in auto)
    have "j \<noteq> k \<and> j < entries C" if "slot_of C 0 x = Some j" for j
      using slot_of_SomeD [OF that] assms(2) by auto
    then show ?thesis using False sl other by (auto simp: dir_map_def intro!: map_option_cong)
  qed
qed

lemma dir_wf_overwrite:
  assumes "dir_wf C" "length ys \<le> 20" "20 * k + length ys \<le> length C"
    and "k < entries C \<Longrightarrow> length ys = 20 \<and> 0 \<in> set (entry_name ys)"
  shows "dir_wf (overwrite C (20 * k) ys)"
  unfolding dir_wf_def
proof (intro allI impI)
  fix j assume j: "j < entries (overwrite C (20 * k) ys)" "entry_in_use (entry (overwrite C (20 * k) ys) j)"
  then have jE: "j < entries C" using assms(3) by (simp add: entries_def length_overwrite)
  show "0 \<in> set (entry_name (entry (overwrite C (20 * k) ys) j))"
  proof (cases "j = k")
    case True
    then have "length ys = 20" "0 \<in> set (entry_name ys)" using assms(4) jE by auto
    then show ?thesis using True entry_overwrite_same [of ys k C] assms(3) by simp
  next
    case False
    then show ?thesis using entry_overwrite_other [OF False jE assms(2,3)] assms(1) j(2) jE by (auto simp: dir_wf_def)
  qed
qed


lemma lookup_value:
  assumes "dir_state (dinode d) i C s" "dir_wf C" "0 \<notin> set name" "dirs s p = Some d" "p \<noteq> 0"
  obtains s' where "lookup p name s = Some (Inr (map_option (\<lambda>j. (entry C j, int (20 * j))) (slot_of C 0 name), s'))"
    "same_mem s s'" "disk s' = disk s"
  using lookup_loop_value [OF assms(1-3), of 0] assms(4,5) unfolding lookup_def get_dir_def by auto

lemma free_at_bounds: "free_at C 0 \<le> entries C" "free_at C 0 < entries C \<Longrightarrow> \<not> entry_in_use (entry C (free_at C 0))"
  unfolding free_at_def by (auto simp: find_Some_iff dest!: find_None_iff [THEN iffD1] split: option.splits)

lemma dir_add_outcome:
  assumes "dir_wf C" "valid_name name" "dir_map C name = None" "sec < 2 ^ 32" "length e = 20" "length C < 2 ^ 31"
  defines "k \<equiv> free_at C 0"
  defines "n \<equiv> min 20 (length C - 20 * k)"
  defines "C' \<equiv> overwrite C (20 * k) (take n (fill_entry e name sec))"
  shows "(n = 20) = (k < entries C)" "dir_wf C'"
    "dir_map C' = (if k < entries C then (dir_map C)(name \<mapsto> sec) else dir_map C)"
proof -
  note f = fill_entry_value [OF assms(5,2,4)]
  have k: "k \<le> entries C" "k < entries C \<Longrightarrow> \<not> entry_in_use (entry C k)" using free_at_bounds [of C] k_def by auto
  have le: "20 * entries C \<le> length C" by (simp add: entries_def)
  show n: "(n = 20) = (k < entries C)" using k(1) unfolding n_def entries_def by linarith
  have b: "length (take n (fill_entry e name sec)) = n" "n \<le> 20" "20 * k + n \<le> length C"
    using f(1) le k(1) by (auto simp: n_def)
  show "dir_wf C'" unfolding C'_def by (rule dir_wf_overwrite) (use assms(1) b n f in auto)
  show "dir_map C' = (if k < entries C then (dir_map C)(name \<mapsto> sec) else dir_map C)"
  proof (cases "k < entries C")
    case True
    then show ?thesis using n f dir_map_add [OF True k(2) assms(3) f(1,2,3,5)] by (simp add: C'_def)
  next
    case False
    have "entries C' = entries C" unfolding C'_def using b by (simp add: entries_def length_overwrite)
    moreover have "entry C' j = entry C j" if "j < entries C" for j
      unfolding C'_def using that False b by (intro entry_overwrite_other) auto
    ultimately have "slot_of C' 0 x = slot_of C 0 x" for x unfolding slot_of_def by (auto intro!: find_cong')
    then have "dir_map C' x = dir_map C x" for x
      using \<open>\<And>j. j < entries C \<Longrightarrow> entry C' j = entry C j\<close> slot_of_SomeD [of C 0 x]
      by (auto simp: dir_map_def intro!: map_option_cong)
    then show ?thesis using False by auto
  qed
qed

text \<open>C17: A directory implements a map from names to sectors. \<open>dir_add\<close> succeeds exactly if the name is valid and new and
  some entry is free; then the map is extended by the name and nothing else, and otherwise it is unchanged. The directory
  stays well formed, and a lookup of any name afterwards finds exactly what the map says. The uninitialised local
  variable in \<open>dir_add\<close> may hold any bytes. The conditions are: the directory is open and well formed, its inode lies within the device, writes to
  it are not denied, and allocations succeed.\<close>

theorem dir_add_refines_map:
  assumes "dir_state (dinode d) i C s" "dir_wf C" "dirs s p = Some d" "p \<noteq> 0" "deny_write_cnt i = 0"
    "0 \<notin> set name" "sec < 2 ^ 32" "length junk = 20"
  defines "ok \<equiv> valid_name name \<and> dir_map C name = None \<and> free_at C 0 < entries C"
  shows "\<exists>C' s'. dir_add junk p name sec s = Some (Inr (ok, s')) \<and> dir_state (dinode d) i C' s' \<and> dir_wf C'
    \<and> dir_map C' = (if ok then (dir_map C)(name \<mapsto> sec) else dir_map C)
    \<and> (\<forall>x. 0 \<notin> set x \<longrightarrow> (\<exists>r s''. lookup p x s' = Some (Inr (r, s'')) \<and> map_option (\<lambda>(e, ofs). entry_sector e) r = dir_map C' x))"
proof -
  have look: "\<exists>r s''. lookup p x s' = Some (Inr (r, s'')) \<and> map_option (\<lambda>(e, ofs). entry_sector e) r = dir_map C' x"
    if "dir_state (dinode d) i C' s'" "dir_wf C'" "0 \<notin> set x" "dirs s' p = Some d" for x s' C'
    by (rule lookup_value [OF that assms(4)]) (simp add: dir_map_def option.map_comp comp_def)
  obtain s1 where l: "lookup p name s = Some (Inr (map_option (\<lambda>j. (entry C j, int (20 * j))) (slot_of C 0 name), s1))"
      "same_mem s s1" "disk s1 = disk s"
    using lookup_value [OF assms(1,2,6,3,4)] .
  have s1: "dir_state (dinode d) i C s1" "dirs s1 p = Some d"
    using dir_state_same [OF assms(1) l(2,3)] l(2) assms(3) by (auto simp: same_mem_def)
  show ?thesis
  proof (cases "valid_name name \<and> dir_map C name = None")
    case False
    then have "(valid_name name \<longrightarrow> slot_of C 0 name \<noteq> None) \<and> \<not> ok" by (auto simp: dir_map_def ok_def)
    then have "dir_add junk p name sec s = Some (Inr (ok, if name = [] \<or> length name > 14 then s else s1))"
      using l(1) assms(4,6) by (auto simp: dir_add_def valid_name_def)
    moreover have "\<not> ok" using False by (auto simp: ok_def)
    ultimately show ?thesis
      using look [OF assms(1,2) _ assms(3)] look [OF s1(1) assms(2) _ s1(2)] assms(1,2) s1(1)
      by (cases "name = [] \<or> length name > 14") (simp, blast)+
  next
    case True
    obtain e s2 where fr: "free_slot (dinode d) junk 0 s1 = Some (Inr (int (20 * free_at C 0), e, s2))" "length e = 20"
        "same_mem s1 s2" "disk s2 = disk s1"
      using free_slot_value [OF s1(1) assms(8), of 0] by auto
    have s2: "dir_state (dinode d) i C s2" using dir_state_same [OF s1(1) fr(3,4)] .
    have C: "content s2 i = C" "length C = flen (data i)" "alloc_ok s2 (alloc_cnt s2)" using s2 unfolding dir_state_def by auto
    note f = fill_entry_value [OF fr(2) _ assms(7), of name]
    obtain n s3 where w: "inode_write_at (dinode d) (fill_entry e name sec) (int (20 * free_at C 0)) s2 = Inr (int n, s3)"
        "same_mem s2 s3" "disk_ok s3" "content s3 i = overwrite C (20 * free_at C 0) (take n (fill_entry e name sec))"
        "n = min 20 (length C - 20 * free_at C 0)"
      by (rule inode_write_at_value [of s2 "dinode d" i "fill_entry e name sec" "20 * free_at C 0"])
         (use s2 f True C assms(5) dir_state_def in auto)
    define C' where "C' = overwrite C (20 * free_at C 0) (take n (fill_entry e name sec))"
    have small: "length C < 2 ^ 31" using s2 C(2) unfolding dir_state_def inode_fits_def by auto
    have out: "(n = 20) = ok" "dir_wf C'" "dir_map C' = (if ok then (dir_map C)(name \<mapsto> sec) else dir_map C)"
      using dir_add_outcome [OF assms(2) _ _ assms(7) fr(2) small, of name] True unfolding C'_def w(5) ok_def by auto
    have "slot_of C 0 name = None" using True by (auto simp: dir_map_def)
    then have add: "dir_add junk p name sec s = Some (Inr (ok, s3))"
      using True l(1) fr(1) w(1) assms(4) s1(2) out(1) by (auto simp: dir_add_def valid_name_def get_dir_def)
    have s3: "dir_state (dinode d) i C' s3" "dirs s3 p = Some d"
      using s2 w(2,3,4) fr(3) s1(2) unfolding C'_def dir_state_def by (auto simp: same_mem_def inode_fits_def)
    then show ?thesis using add out(2,3) look [OF s3(1) out(2) _ s3(2)] by blast
  qed
qed


text \<open>A directory of two entries, both free.\<close>

definition example_dir :: inode where
  "example_dir = \<lparr>sector = 1, open_cnt = 1, removed = False, deny_write_cnt = 0,
     data = \<lparr>dstart = 2, dlength = 40, dmagic = INODE_MAGIC, dunused = replicate 500 0\<rparr>\<rparr>"

definition example_dir_fs :: fs where
  "example_dir_fs = example_fs\<lparr>inodes := (inodes example_fs)(1 := Some example_dir), dirs := [2 \<mapsto> \<lparr>dinode = 1, dpos = 0\<rparr>]\<rparr>"

theorem dir_add_refines_map_witness:
  "\<exists>s'. dir_add (replicate 20 7) 2 [97, 98] 3 example_dir_fs = Some (Inr (True, s'))
    \<and> (\<exists>r s''. lookup 2 [97, 98] s' = Some (Inr (r, s'')) \<and> map_option (\<lambda>(e, ofs). entry_sector e) r = Some 3)"
proof -
  let ?d = "\<lparr>dinode = 1, dpos = 0\<rparr>" and ?C = "replicate 40 (0 :: 8 word)"
  have dk: "disk example_dir_fs = (\<lambda>_. replicate 512 0)" 
    by (simp add: disk_def example_dir_fs_def example_fs_def example_blocks_def)
  have "dbyte example_dir_fs a = 0" for a by (simp add: dbyte_def dk)
  then have "content example_dir_fs example_dir = ?C"
    unfolding content_def by (simp add: map_replicate_const example_dir_def numeral_eq_Suc)
  then have st: "dir_state (dinode ?d) example_dir ?C example_dir_fs"
    by (auto simp: dir_state_def inode_fits_def bytes_to_sectors_value disk_ok_def writable_def cap_def dk example_dir_def)
       (auto simp: example_dir_fs_def example_fs_def example_blocks_def example_dir_def)
  have free: "\<not> entry_in_use (entry ?C k)" if "k < 2" for k
    using that by (simp add: entry_in_use_def entry_def)
  have E: "entries ?C = 2" by (simp add: entries_def)
  have "dir_wf ?C" "dir_map ?C [97, 98] = None" "free_at ?C 0 = 0"
    using free E by (auto simp: dir_wf_def dir_map_def slot_of_def free_at_def find_None_iff upt_rec numeral_2_eq_2)
  moreover have "dirs example_dir_fs 2 = Some ?d" "deny_write_cnt example_dir = 0"
    by (simp_all add: example_dir_fs_def example_dir_def)
  ultimately obtain C' s' where add: "dir_add (replicate 20 7) 2 [97, 98] 3 example_dir_fs = Some (Inr (True, s'))"
      "dir_map C' = (dir_map ?C)([97, 98] \<mapsto> 3)"
      and look: "\<forall>x. 0 \<notin> set x \<longrightarrow>
        (\<exists>r s''. lookup 2 x s' = Some (Inr (r, s'')) \<and> map_option (\<lambda>(e, ofs). entry_sector e) r = dir_map C' x)"
    using dir_add_refines_map [OF st, of 2 "[97, 98]" 3 "replicate 20 7"] E by (auto simp: valid_name_def)
  then show ?thesis using look [rule_format, of "[97, 98]"] by (simp add: add)
qed

end
