(* ===== verification/Stdlib.thy ===== *)
theory Stdlib
  imports Block
begin

text \<open>
  The functions of lib/stdlib.c: the conversion of decimal numbers, heap sort and binary search. An array of
  elements of a given size is the list of its bytes; an access outside it is undefined. A comparison function is
  applied to the bytes of two elements, and its auxiliary argument is part of the function. Indices have 32 bits, so
  that the computation of the children of a node of the heap may wrap around, and \<open>heapify\<close> is a partial function.
\<close>

section \<open>Numbers\<close>

definition isspace :: "8 word \<Rightarrow> bool" where
  "isspace c \<longleftrightarrow> c = 32 \<or> c = 12 \<or> c = 10 \<or> c = 13 \<or> c = 9 \<or> c = 11"

definition isdigit :: "8 word \<Rightarrow> bool" where
  "isdigit c \<longleftrightarrow> 48 \<le> c \<and> c \<le> 57"

text \<open>Arithmetic on \<open>int\<close>: overflow is undefined.\<close>

definition int32 :: "int \<Rightarrow> int res" where
  "int32 x = (if - (2 ^ 31) \<le> x \<and> x < 2 ^ 31 then Inr x else Inl (Undefined ''signed overflow''))"

partial_function (option) atoi_skip :: "memory \<Rightarrow> addr \<Rightarrow> addr option" where
  "atoi_skip m s = (if isspace (m s) then atoi_skip m (s + 1) else Some s)"

partial_function (option) atoi_digits :: "memory \<Rightarrow> addr \<Rightarrow> int \<Rightarrow> int res option" where
  "atoi_digits m s v =
     (if isdigit (m s) then
        bindo (Some (int32 (v * 10))) (\<lambda>v10. bindo (Some (int32 (v10 - (uint (m s) - 48)))) (\<lambda>v. atoi_digits m (s + 1) v))
      else Some (Inr v))"

definition atoi :: "memory \<Rightarrow> addr \<Rightarrow> int res option" where
  "atoi m s =
     requireo (s \<noteq> 0) ''s != NULL''
     (Option.bind (atoi_skip m s) (\<lambda>s.
        let (negative, s) = (if m s = 43 then (False, s + 1) else if m s = 45 then (True, s + 1) else (False, s)) in
        bindo (atoi_digits m s 0) (\<lambda>value. Some (if \<not> negative then int32 (- value) else Inr value))))"

section \<open>Sorting\<close>

type_synonym compare = "bytes \<Rightarrow> bytes \<Rightarrow> int"

text \<open>The bytes of the element with 1-based index \<open>k\<close>.\<close>

definition el :: "nat \<Rightarrow> bytes \<Rightarrow> nat \<Rightarrow> bytes" where
  "el sz array k = take sz (drop ((k - 1) * sz) array)"

definition in_array :: "nat \<Rightarrow> bytes \<Rightarrow> nat \<Rightarrow> bool" where
  "in_array sz array k \<longleftrightarrow> 1 \<le> k \<and> k * sz \<le> length array"

function do_swap_loop :: "bytes \<Rightarrow> nat \<Rightarrow> nat \<Rightarrow> nat \<Rightarrow> nat \<Rightarrow> bytes" where
  "do_swap_loop array a b i sz =
     (if i < sz then
        let t = array ! (a + i); array = array[a + i := array ! (b + i)]; array = array[b + i := t] in
        do_swap_loop array a b (i + 1) sz
      else array)"
  by pat_completeness auto
termination by (relation "measure (\<lambda>(array, a, b, i, sz). sz - i)") auto

definition do_swap :: "bytes \<Rightarrow> nat \<Rightarrow> nat \<Rightarrow> nat \<Rightarrow> bytes res" where
  "do_swap array a_idx b_idx sz =
     (if in_array sz array a_idx \<and> in_array sz array b_idx
      then Inr (do_swap_loop array ((a_idx - 1) * sz) ((b_idx - 1) * sz) 0 sz)
      else Inl (Undefined ''array''))"

definition do_compare :: "bytes \<Rightarrow> nat \<Rightarrow> nat \<Rightarrow> nat \<Rightarrow> compare \<Rightarrow> int res" where
  "do_compare array a_idx b_idx sz compare =
     (if in_array sz array a_idx \<and> in_array sz array b_idx
      then Inr (compare (el sz array a_idx) (el sz array b_idx))
      else Inl (Undefined ''array''))"

text \<open>The choice of \<open>max\<close> in one round of \<open>heapify\<close>.\<close>

definition larger :: "bytes \<Rightarrow> nat \<Rightarrow> nat \<Rightarrow> nat \<Rightarrow> nat \<Rightarrow> compare \<Rightarrow> nat res" where
  "larger array child mx cnt sz compare =
     (if child \<le> cnt then bindr (do_compare array child mx sz compare) (\<lambda>c. Inr (if c > 0 then child else mx))
      else Inr mx)"

partial_function (option) heapify :: "bytes \<Rightarrow> nat \<Rightarrow> nat \<Rightarrow> nat \<Rightarrow> compare \<Rightarrow> bytes res option" where
  "heapify array i cnt sz compare =
     (let left = 2 * i mod SIZE_MOD; right = (2 * i + 1) mod SIZE_MOD in
      bindo (Some (larger array left i cnt sz compare)) (\<lambda>max.
      bindo (Some (larger array right max cnt sz compare)) (\<lambda>max.
      if max = i then Some (Inr array)
      else bindo (Some (do_swap array i max sz)) (\<lambda>array. heapify array max cnt sz compare))))"

fun build_heap :: "bytes \<Rightarrow> nat \<Rightarrow> nat \<Rightarrow> nat \<Rightarrow> compare \<Rightarrow> bytes res option" where
  "build_heap array 0 cnt sz compare = Some (Inr array)"
| "build_heap array (Suc i) cnt sz compare =
     bindo (heapify array (Suc i) cnt sz compare) (\<lambda>array. build_heap array i cnt sz compare)"

fun sort_heap :: "bytes \<Rightarrow> nat \<Rightarrow> nat \<Rightarrow> compare \<Rightarrow> bytes res option" where
  "sort_heap array i sz compare =
     (if i > 1 then
        bindo (Some (do_swap array 1 i sz)) (\<lambda>array.
        bindo (heapify array 1 (i - 1) sz compare) (\<lambda>array. sort_heap array (i - 1) sz compare))
      else Some (Inr array))"

definition sort :: "bytes \<Rightarrow> nat \<Rightarrow> nat \<Rightarrow> compare \<Rightarrow> bytes res option" where
  "sort array cnt sz compare =
     requireo (sz > 0) ''size > 0''
     (bindo (build_heap array (cnt div 2) cnt sz compare) (\<lambda>array. sort_heap array cnt sz compare))"

definition qsort :: "bytes \<Rightarrow> nat \<Rightarrow> nat \<Rightarrow> compare \<Rightarrow> bytes res option" where
  "qsort array cnt sz compare = sort array cnt sz compare"

section \<open>Searching\<close>

text \<open>The pointers \<open>first\<close>, \<open>last\<close> and the result are offsets into the array; \<open>None\<close> is the null pointer.\<close>

function search_loop :: "bytes \<Rightarrow> bytes \<Rightarrow> nat \<Rightarrow> nat \<Rightarrow> nat \<Rightarrow> compare \<Rightarrow> nat option res" where
  "search_loop key array first last' sz compare =
     (if first < last' then
        if sz = 0 then Inl (Undefined ''division by zero'')
        else
        let rng = (last' - first) div sz; middle = first + (rng div 2) * sz in
        if middle + sz > length array then Inl (Undefined ''array'')
        else
          let c = compare key (take sz (drop middle array)) in
          if c < 0 then search_loop key array first middle sz compare
          else if c > 0 then search_loop key array (middle + sz) last' sz compare
          else Inr (Some middle)
      else Inr None)"
  by pat_completeness auto
termination
proof (relation "measure (\<lambda>(key, array, first, last', sz, compare). last' - first)", goal_cases)
  case (2 key array first last' sz compare rng middle c)
  have "(last' - first) div sz div 2 * sz \<le> (last' - first) div 2"
    by (metis div_mult2_eq div_times_less_eq_dividend mult.commute)
  also have "\<dots> < last' - first" using 2 by simp
  finally show ?case using 2 by auto
qed auto

definition binary_search :: "bytes \<Rightarrow> bytes \<Rightarrow> nat \<Rightarrow> nat \<Rightarrow> compare \<Rightarrow> nat option res" where
  "binary_search key array cnt sz compare = search_loop key array 0 (sz * cnt) sz compare"

definition bsearch :: "bytes \<Rightarrow> bytes \<Rightarrow> nat \<Rightarrow> nat \<Rightarrow> compare \<Rightarrow> nat option res" where
  "bsearch key array cnt sz compare = binary_search key array cnt sz compare"

section \<open>The comparison of the tests of the library\<close>

definition compare_ints :: compare where
  "compare_ints a b = (let x = sint (word_at a 0); y = sint (word_at b 0) in if x < y then - 1 else if x > y then 1 else 0)"

section \<open>Swapping elements\<close>

declare do_swap_loop.simps [simp del] search_loop.simps [simp del] sort_heap.simps [simp del]

lemma length_do_swap_loop [simp]: "length (do_swap_loop array a b i sz) = length array"
  by (induction array a b i sz rule: do_swap_loop.induct) (subst do_swap_loop.simps, simp add: Let_def)

lemma do_swap_loop_nth:
  assumes "a + sz \<le> length array" "b + sz \<le> length array" "a = b \<or> a + sz \<le> b \<or> b + sz \<le> a" "j < length array"
  shows "do_swap_loop array a b i sz ! j =
       (if a + i \<le> j \<and> j < a + sz then array ! (b + (j - a)) else if b + i \<le> j \<and> j < b + sz then array ! (a + (j - b)) else array ! j)"
  using assms
proof (induction array a b i sz rule: do_swap_loop.induct)
  case (1 array a b i sz)
  let ?bs = "array[a + i := array ! (b + i), b + i := array ! (a + i)]"
  show ?case
  proof (cases "i < sz")
    case True
    have IH: "do_swap_loop array a b i sz ! j = (if a + (i + 1) \<le> j \<and> j < a + sz then ?bs ! (b + (j - a))
        else if b + (i + 1) \<le> j \<and> j < b + sz then ?bs ! (a + (j - b)) else ?bs ! j)"
      using 1 True by (subst do_swap_loop.simps) (simp add: Let_def)
    have other: "?bs ! x = array ! x" if "x \<noteq> a + i" "x \<noteq> b + i" for x using that by simp
    consider (a) "j = a + i" | (b) "j = b + i" "j \<noteq> a + i" | (c) "j \<noteq> a + i" "j \<noteq> b + i" by blast
    then show ?thesis
    proof cases
      case a
      then have "?bs ! j = array ! (b + i)" using 1 True by (simp add: nth_list_update)
      moreover have "\<not> (b + (i + 1) \<le> j \<and> j < b + sz)" using a 1(4) by auto
      ultimately show ?thesis unfolding IH using a True by auto
    next
      case b
      then have "?bs ! j = array ! (a + i)" "\<not> (a + i \<le> j \<and> j < a + sz)" using 1 True by auto
      then show ?thesis unfolding IH using b True by auto
    next
      case c
      have "b + (j - a) \<noteq> a + i \<and> b + (j - a) \<noteq> b + i" if "a + (i + 1) \<le> j" "j < a + sz"
        using that 1(4) c True by auto
      moreover have "a + (j - b) \<noteq> a + i \<and> a + (j - b) \<noteq> b + i" if "b + (i + 1) \<le> j" "j < b + sz"
        using that 1(4) c True by auto
      moreover have "a + (i + 1) \<le> j \<longleftrightarrow> a + i \<le> j" "b + (i + 1) \<le> j \<longleftrightarrow> b + i \<le> j" using c by auto
      ultimately show ?thesis unfolding IH using other c by presburger
    qed
  next
    case False
    then show ?thesis by (subst do_swap_loop.simps) auto
  qed
qed

lemma in_array_bound: "in_array sz array k \<Longrightarrow> (k - 1) * sz + sz \<le> length array"
  by (cases k) (auto simp: in_array_def)

lemma el_nth: "in_array sz array k \<Longrightarrow> j < sz \<Longrightarrow> el sz array k ! j = array ! ((k - 1) * sz + j)"
  using in_array_bound [of sz array k] by (simp add: el_def)

lemma length_el: "in_array sz array k \<Longrightarrow> length (el sz array k) = sz"
  using in_array_bound [of sz array k] by (simp add: el_def)

lemma blocks_disjoint: "a = b \<or> (a - 1) * sz + sz \<le> (b - 1) * sz \<or> (b - 1) * sz + sz \<le> (a - 1) * sz" if "1 \<le> a" "1 \<le> b" for a b sz :: nat
proof (cases a b rule: linorder_cases)
  case less
  then have "(a - 1 + 1) * sz \<le> (b - 1) * sz" using that by (intro mult_right_mono) auto
  then show ?thesis by simp
next
  case greater
  then have "(b - 1 + 1) * sz \<le> (a - 1) * sz" using that by (intro mult_right_mono) auto
  then show ?thesis by simp
qed simp

text \<open>\<open>do_swap\<close> exchanges two elements and leaves the others.\<close>

lemma do_swap_value:
  assumes "in_array sz array a" "in_array sz array b"
  obtains bs where "do_swap array a b sz = Inr bs" "length bs = length array"
    "\<forall>k. in_array sz array k \<longrightarrow> el sz bs k = el sz array (if k = a then b else if k = b then a else k)"
proof -
  define bs where "bs = do_swap_loop array ((a - 1) * sz) ((b - 1) * sz) 0 sz"
  note A = in_array_bound [OF assms(1)] and B = in_array_bound [OF assms(2)]
  have ge: "1 \<le> a" "1 \<le> b" using assms by (auto simp: in_array_def)
  have D: "(a - 1) * sz = (b - 1) * sz \<or> (a - 1) * sz + sz \<le> (b - 1) * sz \<or> (b - 1) * sz + sz \<le> (a - 1) * sz"
    using blocks_disjoint [OF ge, of sz] by blast
  have len: "length bs = length array" by (simp add: bs_def)
  have "el sz bs k = el sz array (if k = a then b else if k = b then a else k)" if k: "in_array sz array k" for k
  proof (rule nth_equalityI)
    have kb: "in_array sz bs k" using k len by (simp add: in_array_def)
    show "length (el sz bs k) = length (el sz array (if k = a then b else if k = b then a else k))"
      using length_el [OF kb] length_el k assms by auto
    fix j assume "j < length (el sz bs k)"
    then have j: "j < sz" using length_el [OF kb] by simp
    note K = in_array_bound [OF k]
    have kge: "1 \<le> k" using k by (simp add: in_array_def)
    have *: "bs ! ((k - 1) * sz + j) = (if (a - 1) * sz \<le> (k - 1) * sz + j \<and> (k - 1) * sz + j < (a - 1) * sz + sz
        then array ! ((b - 1) * sz + ((k - 1) * sz + j - (a - 1) * sz))
        else if (b - 1) * sz \<le> (k - 1) * sz + j \<and> (k - 1) * sz + j < (b - 1) * sz + sz
        then array ! ((a - 1) * sz + ((k - 1) * sz + j - (b - 1) * sz)) else array ! ((k - 1) * sz + j))"
      unfolding bs_def using do_swap_loop_nth [OF A B D, of "(k - 1) * sz + j" 0] K j by simp
    have in_blk: "(c - 1) * sz \<le> (k - 1) * sz + j \<and> (k - 1) * sz + j < (c - 1) * sz + sz \<longleftrightarrow> k = c" if "1 \<le> c" for c
      using blocks_disjoint [OF kge that, of sz] j by auto
    show "el sz bs k ! j = el sz array (if k = a then b else if k = b then a else k) ! j"
      using * in_blk [OF ge(1)] in_blk [OF ge(2)] el_nth [OF kb j] el_nth [OF _ j] assms k by auto
  qed
  then show thesis using len assms by (intro that [of bs]) (auto simp: do_swap_def bs_def)
qed

section \<open>Heaps\<close>

text \<open>The contract of a comparison function: a total preorder.\<close>

locale comparison =
  fixes cmp :: "'a \<Rightarrow> 'a \<Rightarrow> int"
  assumes cmp_sym: "cmp x y > 0 \<longleftrightarrow> cmp y x < 0"
    and cmp_trans: "cmp x y \<le> 0 \<Longrightarrow> cmp y z \<le> 0 \<Longrightarrow> cmp x z \<le> 0"
begin

lemma cmp_total: "cmp x y > 0 \<Longrightarrow> cmp y x \<le> 0"
  using cmp_sym [of x y] by simp

lemma cmp_refl: "cmp x x \<le> 0"
  using cmp_sym [of x x] by linarith

text \<open>Every node \<open>c div 2\<close> from \<open>l\<close> on is at least its child \<open>c\<close>; \<open>hole\<close> is the same except at the node \<open>i\<close>, whose children
  are at most its parent.\<close>

definition heap :: "(nat \<Rightarrow> 'a) \<Rightarrow> nat \<Rightarrow> nat \<Rightarrow> bool" where
  "heap A l cnt \<longleftrightarrow> (\<forall>c \<le> cnt. l \<le> c div 2 \<longrightarrow> cmp (A c) (A (c div 2)) \<le> 0)"

definition hole :: "(nat \<Rightarrow> 'a) \<Rightarrow> nat \<Rightarrow> nat \<Rightarrow> nat \<Rightarrow> bool" where
  "hole A l i cnt \<longleftrightarrow> (\<forall>c \<le> cnt. l \<le> c div 2 \<longrightarrow> c div 2 \<noteq> i \<longrightarrow> cmp (A c) (A (c div 2)) \<le> 0)
     \<and> (\<forall>c \<le> cnt. c div 2 = i \<longrightarrow> l \<le> i div 2 \<longrightarrow> cmp (A c) (A (i div 2)) \<le> 0)"

lemma hole_step:
  assumes "hole A l i cnt" "1 \<le> l" "l \<le> i" "m \<le> cnt" "m div 2 = i" "cmp (A m) (A i) > 0"
    and max: "\<And>c. c \<le> cnt \<Longrightarrow> c div 2 = i \<Longrightarrow> cmp (A c) (A m) \<le> 0"
    and B: "\<And>k. 1 \<le> k \<Longrightarrow> k \<le> cnt \<Longrightarrow> B k = A (if k = i then m else if k = m then i else k)"
  shows "hole B l m cnt"
proof -
  have im: "i < m" "1 \<le> i" using assms(2,3,5) by auto
  have half: "c div 2 \<noteq> i" if "c = i" for c using that im by simp
  have par: "1 \<le> c div 2 \<and> c div 2 < c \<and> 1 \<le> c" if "l \<le> c div 2" for c using that assms(2) by auto
  have "cmp (B c) (B (c div 2)) \<le> 0" if c: "c \<le> cnt" "l \<le> c div 2" "c div 2 \<noteq> m" for c
  proof -
    have Bc: "B c = A (if c = i then m else if c = m then i else c)"
        "B (c div 2) = A (if c div 2 = i then m else if c div 2 = m then i else c div 2)"
      using B par [OF c(2)] c(1) by auto
    consider "c div 2 = i" "c = m" | "c div 2 = i" "c \<noteq> m" | "c = i" | "c div 2 \<noteq> i" "c \<noteq> i" by blast
    then show ?thesis
    proof cases
      case 1
      then show ?thesis using Bc im cmp_total [OF assms(6)] by simp
    next
      case 2
      then show ?thesis using Bc im max [OF c(1)] half by auto
    next
      case 3
      then show ?thesis using Bc im assms(1,4,5) c par [OF c(2)] unfolding hole_def by auto
    next
      case 4
      then show ?thesis using Bc assms(1,5) c unfolding hole_def by auto
    qed
  qed
  moreover have "cmp (B c) (B (m div 2)) \<le> 0" if "c \<le> cnt" "c div 2 = m" "l \<le> m div 2" for c
  proof -
    have "m < c" "m \<noteq> i" using that im by auto
    then have "B c = A c" "B (m div 2) = A m" using B that im assms(4,5) by auto
    moreover have "cmp (A c) (A (c div 2)) \<le> 0" using assms(1,3) that im unfolding hole_def by auto
    ultimately show ?thesis using that by simp
  qed
  ultimately show ?thesis unfolding hole_def by blast
qed

lemma max_child:
  fixes A :: "nat \<Rightarrow> 'a" and i cnt :: nat
  defines "m1 \<equiv> if 2 * i \<le> cnt \<and> cmp (A (2 * i)) (A i) > 0 then 2 * i else i"
  defines "m \<equiv> if 2 * i + 1 \<le> cnt \<and> cmp (A (2 * i + 1)) (A m1) > 0 then 2 * i + 1 else m1"
  assumes "1 \<le> i" "i \<le> cnt"
  shows "m = i \<or> m \<le> cnt \<and> m div 2 = i \<and> cmp (A m) (A i) > 0"
    "c \<le> cnt \<Longrightarrow> c div 2 = i \<Longrightarrow> cmp (A c) (A m) \<le> 0"
proof -
  have up: "cmp (A i) (A m1) \<le> 0" "m1 \<noteq> i \<Longrightarrow> m1 = 2 * i \<and> m1 \<le> cnt \<and> cmp (A m1) (A i) > 0"
    using cmp_refl cmp_total by (auto simp: m1_def)
  have up2: "cmp (A m1) (A m) \<le> 0" using cmp_refl cmp_total by (auto simp: m_def)
  show "m = i \<or> m \<le> cnt \<and> m div 2 = i \<and> cmp (A m) (A i) > 0"
  proof (cases "m = m1")
    case True
    then show ?thesis using up(2) by auto
  next
    case False
    then have m: "m = 2 * i + 1" "m \<le> cnt" "cmp (A m) (A m1) > 0" by (auto simp: m_def split: if_splits)
    then have "cmp (A m) (A i) > 0" using cmp_trans [OF _ up(1)] by (meson not_le)
    then show ?thesis using m by simp
  qed
  assume c: "c \<le> cnt" "c div 2 = i"
  then consider "c = 2 * i" | "c = 2 * i + 1" by linarith
  then show "cmp (A c) (A m) \<le> 0"
  proof cases
    case 1
    then have "cmp (A c) (A m1) \<le> 0" using c cmp_refl by (auto simp: m1_def)
    then show ?thesis using up2 cmp_trans by blast
  next
    case 2
    then show ?thesis using c cmp_refl by (auto simp: m_def)
  qed
qed

lemma heap_root:
  assumes "heap A 1 cnt" "1 \<le> k" "k \<le> cnt"
  shows "cmp (A k) (A 1) \<le> 0"
  using assms(2,3)
proof (induction k rule: less_induct)
  case (less k)
  show ?case
  proof (cases "k = 1")
    case True
    then show ?thesis by (simp add: cmp_refl)
  next
    case False
    then have "cmp (A (k div 2)) (A 1) \<le> 0" using less by (intro less.IH) auto
    moreover have "cmp (A k) (A (k div 2)) \<le> 0" using assms(1) False less unfolding heap_def by auto
    ultimately show ?thesis using cmp_trans by blast
  qed
qed

end

text \<open>The choice of the larger child.\<close>

lemma larger_value:
  assumes "child \<le> cnt \<Longrightarrow> in_array sz array child" "in_array sz array mx"
  shows "larger array child mx cnt sz compare =
    Inr (if child \<le> cnt \<and> compare (el sz array child) (el sz array mx) > 0 then child else mx)"
  using assms by (simp add: larger_def do_compare_def)

lemma in_array_le: "in_array sz array n \<Longrightarrow> 1 \<le> k \<Longrightarrow> k \<le> n \<Longrightarrow> in_array sz array k"
  unfolding in_array_def by (meson le_trans mult_le_mono1)

definition permuted :: "nat \<Rightarrow> nat \<Rightarrow> nat \<Rightarrow> bytes \<Rightarrow> bytes \<Rightarrow> bool" where
  "permuted sz l n array bs \<longleftrightarrow> length bs = length array
     \<and> (\<exists>f. bij_betw f {l..n} {l..n} \<and> (\<forall>k. in_array sz array k \<longrightarrow> el sz bs k = el sz array (if k \<in> {l..n} then f k else k)))"

lemma permuted_refl: "permuted sz l n array array"
  unfolding permuted_def by (intro conjI exI [of _ id]) auto

lemma permuted_trans:
  assumes "permuted sz l n a b" "permuted sz l n b c" "in_array sz a n" "1 \<le> l"
  shows "permuted sz l n a c"
proof -
  obtain f g where f: "bij_betw f {l..n} {l..n}" "\<forall>k. in_array sz a k \<longrightarrow> el sz b k = el sz a (if k \<in> {l..n} then f k else k)"
    and g: "bij_betw g {l..n} {l..n}" "\<forall>k. in_array sz b k \<longrightarrow> el sz c k = el sz b (if k \<in> {l..n} then g k else k)"
    and len: "length b = length a" "length c = length b"
    using assms(1,2) unfolding permuted_def by blast
  have ia: "in_array sz b k = in_array sz a k" for k by (simp add: in_array_def len)
  have "el sz c k = el sz a (if k \<in> {l..n} then (f \<circ> g) k else k)" if "in_array sz a k" for k
  proof (cases "k \<in> {l..n}")
    case True
    then have gk: "g k \<in> {l..n}" using g(1) by (auto simp: bij_betw_def)
    then have "in_array sz a (g k)" using in_array_le [OF assms(3)] assms(4) by auto
    then show ?thesis using f(2) g(2) that ia True gk by simp
  next
    case False
    then show ?thesis using f(2) [rule_format, OF that] g(2) [rule_format, of k] that ia by auto
  qed
  moreover have "bij_betw (f \<circ> g) {l..n} {l..n}" using f(1) g(1) by (rule bij_betw_trans [rotated])
  ultimately show ?thesis unfolding permuted_def using len by auto
qed

lemma permuted_mono:
  assumes "permuted sz l n a b" "l' \<le> l" "n \<le> n'"
  shows "permuted sz l' n' a b"
proof -
  obtain f where f: "bij_betw f {l..n} {l..n}" "\<forall>k. in_array sz a k \<longrightarrow> el sz b k = el sz a (if k \<in> {l..n} then f k else k)"
    "length b = length a" using assms(1) unfolding permuted_def by blast
  let ?g = "\<lambda>k. if k \<in> {l..n} then f k else k"
  have "bij_betw ?g ({l..n} \<union> ({l'..n'} - {l..n})) ({l..n} \<union> ({l'..n'} - {l..n}))"
  proof (rule bij_betw_combine)
    show "bij_betw ?g {l..n} {l..n}" using f(1) by (rule bij_betw_cong [THEN iffD1, rotated]) simp
    show "bij_betw ?g ({l'..n'} - {l..n}) ({l'..n'} - {l..n})" by (rule bij_betw_cong [THEN iffD1, OF _ bij_betw_id]) auto
  qed auto
  moreover have "{l..n} \<union> ({l'..n'} - {l..n}) = {l'..n'}" if "l \<le> n" using assms that by auto
  ultimately show ?thesis
  proof (cases "l \<le> n")
    case True
    then show ?thesis using f \<open>bij_betw ?g _ _\<close> \<open>l \<le> n \<Longrightarrow> _\<close> unfolding permuted_def by (intro conjI exI [of _ ?g]) auto
  next
    case False
    then show ?thesis using f unfolding permuted_def by (intro conjI exI [of _ id]) auto
  qed
qed

lemma permuted_swap:
  assumes "in_array sz array n" "1 \<le> l" "a \<in> {l..n}" "b \<in> {l..n}" "do_swap array a b sz = Inr bs"
  shows "permuted sz l n array bs" "\<forall>k. in_array sz array k \<longrightarrow> el sz bs k = el sz array (if k = a then b else if k = b then a else k)"
proof -
  have ab: "in_array sz array a" "in_array sz array b" using in_array_le [OF assms(1)] assms(2-4) by auto
  obtain bs' where b: "do_swap array a b sz = Inr bs'" "length bs' = length array"
    "\<forall>k. in_array sz array k \<longrightarrow> el sz bs' k = el sz array (if k = a then b else if k = b then a else k)"
    using do_swap_value [OF ab] .
  then show "\<forall>k. in_array sz array k \<longrightarrow> el sz bs k = el sz array (if k = a then b else if k = b then a else k)"
    using assms(5) by simp
  let ?f = "\<lambda>k. if k = a then b else if k = b then a else k"
  have "bij_betw ?f {l..n} {l..n}"
    by (rule bij_betw_byWitness [where f' = ?f]) (use assms(3,4) in auto)
  then show "permuted sz l n array bs" unfolding permuted_def using b assms(3,4,5) by (intro conjI exI [of _ ?f]) auto
qed

lemma permuted_keeps: "permuted sz l n a b \<Longrightarrow> in_array sz a k \<Longrightarrow> k \<notin> {l..n} \<Longrightarrow> el sz b k = el sz a k"
  unfolding permuted_def by auto

lemma permuted_in:
  assumes "permuted sz l n a b" "in_array sz a k" "k \<in> {l..n}"
  obtains j where "j \<in> {l..n}" "el sz b k = el sz a j"
  using assms unfolding permuted_def bij_betw_def by (metis imageI)

section \<open>Heap sort\<close>

locale array_order = comparison cmp for cmp :: "bytes \<Rightarrow> bytes \<Rightarrow> int"
begin

lemma hole_heap: "hole A l i cnt \<Longrightarrow> (\<And>c. c \<le> cnt \<Longrightarrow> c div 2 = i \<Longrightarrow> cmp (A c) (A i) \<le> 0) \<Longrightarrow> heap A l cnt"
  unfolding hole_def heap_def by metis

lemma heapify_value:
  assumes "hole (el sz bs) l i cnt" "1 \<le> l" "l \<le> i" "i \<le> cnt" "in_array sz bs cnt" "cnt < 2 ^ 31"
  shows "\<exists>bs'. heapify bs i cnt sz cmp = Some (Inr bs') \<and> permuted sz i cnt bs bs' \<and> heap (el sz bs') l cnt"
  using assms
proof (induction "cnt - i" arbitrary: bs i rule: less_induct)
  case less
  let ?A = "el sz bs"
  define m1 where "m1 = (if 2 * i \<le> cnt \<and> cmp (?A (2 * i)) (?A i) > 0 then 2 * i else i)"
  define m where "m = (if 2 * i + 1 \<le> cnt \<and> cmp (?A (2 * i + 1)) (?A m1) > 0 then 2 * i + 1 else m1)"
  have i: "1 \<le> i" using less.prems by simp
  note in_cnt = in_array_le [OF less.prems(5)]
  have ia: "in_array sz bs i" "in_array sz bs m1" using in_cnt i less.prems(4) by (auto simp: m1_def)
  have "larger bs (2 * i) i cnt sz cmp = Inr m1" "larger bs (2 * i + 1) m1 cnt sz cmp = Inr m"
    unfolding m1_def m_def using i in_cnt ia by (auto simp: larger_value m1_def [symmetric])
  moreover have "2 * i mod SIZE_MOD = 2 * i" "(2 * i + 1) mod SIZE_MOD = 2 * i + 1" using less.prems by auto
  ultimately have unf: "heapify bs i cnt sz cmp =
      (if m = i then Some (Inr bs) else bindo (Some (do_swap bs i m sz)) (\<lambda>bs. heapify bs m cnt sz cmp))"
    by (subst heapify.simps) (simp add: Let_def)
  note mc = max_child [where A = ?A, OF i less.prems(4), folded m1_def, folded m_def]
  show ?case
  proof (cases "m = i")
    case True
    then have "heap ?A l cnt" using hole_heap [OF less.prems(1)] mc(2) by auto
    then show ?thesis using True unf permuted_refl by auto
  next
    case False
    then have m: "m \<le> cnt" "m div 2 = i" "cmp (?A m) (?A i) > 0" "i < m" using mc(1) i by auto
    then have im: "i \<in> {i..cnt}" "m \<in> {i..cnt}" "in_array sz bs m" using in_cnt i by auto
    obtain bs1 where s: "do_swap bs i m sz = Inr bs1" "length bs1 = length bs" using do_swap_value [OF ia(1) im(3)] by metis
    note sw = permuted_swap [OF less.prems(5) i im(1,2) s(1)]
    have ia1: "in_array sz bs1 k = in_array sz bs k" for k by (simp add: in_array_def s(2))
    have "hole (el sz bs1) l m cnt"
      by (rule hole_step [OF less.prems(1-3) m(1-3) mc(2)]) (use sw(2) in_cnt in auto)
    moreover have "cnt - m < cnt - i" using m by linarith
    ultimately obtain bs2 where h: "heapify bs1 m cnt sz cmp = Some (Inr bs2)" "permuted sz m cnt bs1 bs2" "heap (el sz bs2) l cnt"
      using less.hyps [of m bs1] m less.prems ia1 by auto
    have "permuted sz i cnt bs bs2"
      using permuted_trans [OF sw(1) permuted_mono [OF h(2)] less.prems(5) i] m(4) by simp
    then show ?thesis using unf False s(1) h by simp
  qed
qed

lemma hole_new: "heap A (Suc i) cnt \<Longrightarrow> 1 \<le> i \<Longrightarrow> hole A i i cnt"
  unfolding heap_def hole_def by (auto simp: Suc_le_eq le_less)

lemma build_heap_value:
  assumes "heap (el sz bs) (Suc i) cnt" "i \<le> cnt" "1 \<le> cnt" "in_array sz bs cnt" "cnt < 2 ^ 31"
  shows "\<exists>bs'. build_heap bs i cnt sz cmp = Some (Inr bs') \<and> permuted sz 1 cnt bs bs' \<and> heap (el sz bs') 1 cnt"
  using assms
proof (induction i arbitrary: bs)
  case 0
  then show ?case using permuted_refl by auto
next
  case (Suc i)
  obtain bs1 where h: "heapify bs (Suc i) cnt sz cmp = Some (Inr bs1)" "permuted sz (Suc i) cnt bs bs1" "heap (el sz bs1) (Suc i) cnt"
    using heapify_value [OF hole_new [OF Suc.prems(1)]] Suc.prems by auto
  have ia: "in_array sz bs1 cnt" using h(2) Suc.prems(4) by (auto simp: permuted_def in_array_def)
  obtain bs2 where b: "build_heap bs1 i cnt sz cmp = Some (Inr bs2)" "permuted sz 1 cnt bs1 bs2" "heap (el sz bs2) 1 cnt"
    using Suc.IH [OF h(3) _ Suc.prems(3) ia Suc.prems(5)] Suc.prems(2) by auto
  have "permuted sz 1 cnt bs bs2"
    using permuted_trans [OF permuted_mono [OF h(2)] b(2) Suc.prems(4)] by simp
  then show ?case using h b by simp
qed

text \<open>During the second phase the first \<open>i\<close> elements are a heap, the others are sorted and at least as large.\<close>

definition split_at :: "nat \<Rightarrow> nat \<Rightarrow> nat \<Rightarrow> bytes \<Rightarrow> bool" where
  "split_at sz i n bs \<longleftrightarrow> (\<forall>j k. 1 \<le> j \<longrightarrow> j \<le> k \<longrightarrow> i < k \<longrightarrow> k \<le> n \<longrightarrow> cmp (el sz bs j) (el sz bs k) \<le> 0)"

lemma hole_root: "heap A 1 cnt \<Longrightarrow> (\<And>k. 2 \<le> k \<Longrightarrow> k \<le> cnt' \<Longrightarrow> B k = A k) \<Longrightarrow> cnt' \<le> cnt \<Longrightarrow> hole B 1 1 cnt'"
  unfolding heap_def hole_def
proof (intro conjI allI impI)
  fix c
  assume *: "\<forall>c\<le>cnt. 1 \<le> c div 2 \<longrightarrow> cmp (A c) (A (c div 2)) \<le> 0" "\<And>k. 2 \<le> k \<Longrightarrow> k \<le> cnt' \<Longrightarrow> B k = A k" "cnt' \<le> cnt"
    and c: "c \<le> cnt'" "1 \<le> c div 2" "c div 2 \<noteq> 1"
  then have "2 \<le> c div 2" "2 \<le> c" "c div 2 \<le> cnt'" by linarith+
  then show "cmp (B c) (B (c div 2)) \<le> 0" using * c by auto
qed simp

lemma split_at_step:
  assumes "split_at sz i n bs" "heap (el sz bs) 1 i" "1 < i" "i \<le> n" "in_array sz bs n" "do_swap bs 1 i sz = Inr bs1"
    "permuted sz 1 (i - 1) bs1 bs2"
  shows "split_at sz (i - 1) n bs2"
  unfolding split_at_def
proof (intro allI impI)
  fix j k assume jk: "1 \<le> j" "j \<le> k" "i - 1 < k" "k \<le> n"
  note inn = in_array_le [OF assms(5)]
  have sw: "el sz bs1 x = el sz bs (if x = 1 then i else if x = i then 1 else x)" if "1 \<le> x" "x \<le> n" for x
    using permuted_swap(2) [OF assms(5), of 1 1 i bs1] assms(3,4,6) inn that by auto
  have len: "length bs1 = length bs" using permuted_swap(1) [OF assms(5), of 1 1 i bs1] assms(3,4,6) by (auto simp: permuted_def)
  then have ia: "in_array sz bs1 x = in_array sz bs x" for x by (simp add: in_array_def)
  have origin: "\<exists>y. 1 \<le> y \<and> y \<le> i \<and> el sz bs2 x = el sz bs y" if x: "1 \<le> x" "x < i" for x
  proof -
    obtain z where z: "z \<in> {1..i - 1}" "el sz bs2 x = el sz bs1 z"
      by (rule permuted_in [OF assms(7), of x]) (use x ia inn assms(4) in auto)
    then show ?thesis using sw [of z] assms(3,4) by (intro exI [of _ "if z = 1 then i else z"]) auto
  qed
  have high: "el sz bs2 x = (if x = i then el sz bs 1 else el sz bs x)" if "i \<le> x" "x \<le> n" for x
    using permuted_keeps [OF assms(7), of x] that ia inn sw [of x] assms(3) by auto
  show "cmp (el sz bs2 j) (el sz bs2 k) \<le> 0"
  proof (cases "j < i")
    case True
    obtain y where y: "1 \<le> y" "y \<le> i" "el sz bs2 j = el sz bs y" using origin [OF jk(1) True] by auto
    show ?thesis
    proof (cases "k = i")
      case True
      then show ?thesis using heap_root [OF assms(2) y(1,2)] y(3) high [of k] assms(4) by simp
    next
      case False
      then show ?thesis using y high [of k] jk assms(1) unfolding split_at_def by auto
    qed
  next
    case False
    consider "k = i" | "j = i" "k \<noteq> i" | "j \<noteq> i" "k \<noteq> i" by blast
    then show ?thesis
    proof cases
      case 1
      then show ?thesis using False jk cmp_refl by simp
    next
      case 2
      then show ?thesis using high [of j] high [of k] jk assms(1) unfolding split_at_def by auto
    next
      case 3
      then show ?thesis using high [of j] high [of k] False jk assms(1) unfolding split_at_def by auto
    qed
  qed
qed

lemma sort_heap_value:
  assumes "heap (el sz bs) 1 i" "split_at sz i n bs" "i \<le> n" "in_array sz bs n" "n < 2 ^ 31"
  shows "\<exists>bs'. sort_heap bs i sz cmp = Some (Inr bs') \<and> permuted sz 1 n bs bs' \<and> split_at sz 0 n bs'"
  using assms
proof (induction i arbitrary: bs rule: less_induct)
  case (less i)
  show ?case
  proof (cases "1 < i")
    case False
    have "split_at sz 0 n bs"
      unfolding split_at_def
    proof (intro allI impI)
      fix j k assume jk: "1 \<le> j" "j \<le> k" "0 < k" "k \<le> n"
      show "cmp (el sz bs j) (el sz bs k) \<le> 0"
      proof (cases "i < k")
        case True
        then show ?thesis using jk less.prems(2) unfolding split_at_def by blast
      next
        case nk: False
        then have "j = k" using jk False by simp
        then show ?thesis by (simp add: cmp_refl)
      qed
    qed
    then show ?thesis using False permuted_refl by (subst sort_heap.simps) auto
  next
    case True
    note inn = in_array_le [OF less.prems(4)]
    obtain bs1 where s: "do_swap bs 1 i sz = Inr bs1" "length bs1 = length bs"
      "\<forall>k. in_array sz bs k \<longrightarrow> el sz bs1 k = el sz bs (if k = 1 then i else if k = i then 1 else k)"
      using do_swap_value [of sz bs 1 i] inn True less.prems(3) by auto
    have ia: "in_array sz bs1 x = in_array sz bs x" for x by (simp add: in_array_def s(2))
    have "hole (el sz bs1) 1 1 (i - 1)"
      by (rule hole_root [OF less.prems(1)]) (use s(3) inn less.prems(3) in auto)
    moreover have "1 \<le> i - 1" "i - 1 < 2 ^ 31" "in_array sz bs1 (i - 1)" using True less.prems(3,5) inn [of "i - 1"] ia by auto
    ultimately obtain bs2 where h: "heapify bs1 1 (i - 1) sz cmp = Some (Inr bs2)" "permuted sz 1 (i - 1) bs1 bs2" "heap (el sz bs2) 1 (i - 1)"
      using heapify_value [of sz bs1 1 1 "i - 1"] by auto
    have ia2: "in_array sz bs2 n" using h(2) less.prems(4) s(2) by (simp add: permuted_def in_array_def)
    have sp: "split_at sz (i - 1) n bs2"
      by (rule split_at_step [OF less.prems(2,1) True less.prems(3,4) s(1) h(2)])
    obtain bs3 where r: "sort_heap bs2 (i - 1) sz cmp = Some (Inr bs3)" "permuted sz 1 n bs2 bs3" "split_at sz 0 n bs3"
      using less.IH [OF _ h(3) sp _ ia2 less.prems(5)] True less.prems(3) diff_le_self [of i 1] by (metis diff_less less_le_trans order_refl le_trans zero_less_one less_trans)
    have "permuted sz 1 n bs bs1" using permuted_swap(1) [OF less.prems(4) _ _ _ s(1)] True less.prems(3) by simp
    then have "permuted sz 1 n bs bs2"
      using permuted_trans [OF _ permuted_mono [OF h(2)] less.prems(4)] less.prems(3) by simp
    then have "permuted sz 1 n bs bs3" using permuted_trans [OF _ r(2) less.prems(4)] by simp
    then show ?thesis using True s(1) h(1) r by (subst sort_heap.simps) auto
  qed
qed

lemma sort_value:
  assumes "length bs = cnt * sz" "sz > 0" "cnt < 2 ^ 31"
  shows "\<exists>bs'. sort bs cnt sz cmp = Some (Inr bs') \<and> permuted sz 1 cnt bs bs' \<and> split_at sz 0 cnt bs'"
proof (cases "cnt = 0")
  case True
  then show ?thesis using assms(2) permuted_refl by (simp add: sort_def sort_heap.simps split_at_def)
next
  case False
  have ia: "in_array sz bs cnt" using assms False by (simp add: in_array_def)
  have "heap (el sz bs) (Suc (cnt div 2)) cnt" unfolding heap_def by auto
  then obtain bs1 where b: "build_heap bs (cnt div 2) cnt sz cmp = Some (Inr bs1)" "permuted sz 1 cnt bs bs1" "heap (el sz bs1) 1 cnt"
    using build_heap_value [of sz bs "cnt div 2" cnt] False ia assms(3) by auto
  have ia1: "in_array sz bs1 cnt" using b(2) ia by (simp add: permuted_def in_array_def)
  have "split_at sz cnt cnt bs1" by (simp add: split_at_def)
  then obtain bs2 where "sort_heap bs1 cnt sz cmp = Some (Inr bs2)" "permuted sz 1 cnt bs1 bs2" "split_at sz 0 cnt bs2"
    using sort_heap_value [OF b(3) _ _ ia1 assms(3)] by auto
  then show ?thesis using b(1,2) assms(2) permuted_trans [OF b(2) _ ia] by (auto simp: sort_def)
qed

lemma key_below: "cmp key x < 0 \<Longrightarrow> cmp x y \<le> 0 \<Longrightarrow> cmp key y < 0"
  using cmp_trans cmp_sym by (metis not_le not_less)

lemma key_above: "cmp key y > 0 \<Longrightarrow> cmp x y \<le> 0 \<Longrightarrow> cmp key x > 0"
  using cmp_trans by (metis not_le)

lemma search_loop_value:
  assumes "split_at sz 0 cnt bs" "length bs = cnt * sz" "sz > 0" "a \<le> b" "b \<le> cnt"
    "\<forall>k. 1 \<le> k \<longrightarrow> k \<le> a \<longrightarrow> cmp key (el sz bs k) > 0" "\<forall>k. b < k \<longrightarrow> k \<le> cnt \<longrightarrow> cmp key (el sz bs k) < 0"
  shows "\<exists>r. search_loop key bs (a * sz) (b * sz) sz cmp = Inr r \<and>
    (case r of Some off \<Rightarrow> \<exists>k. 1 \<le> k \<and> k \<le> cnt \<and> off = (k - 1) * sz \<and> cmp key (el sz bs k) = 0
     | None \<Rightarrow> \<forall>k. 1 \<le> k \<longrightarrow> k \<le> cnt \<longrightarrow> cmp key (el sz bs k) \<noteq> 0)"
  using assms(4-7)
proof (induction "b - a" arbitrary: a b rule: less_induct)
  case less
  show ?case
  proof (cases "a < b")
    case False
    then have "search_loop key bs (a * sz) (b * sz) sz cmp = Inr None" by (subst search_loop.simps) simp
    moreover have "cmp key (el sz bs k) \<noteq> 0" if "1 \<le> k" "k \<le> cnt" for k
      using less.prems(3) [rule_format, OF that(1)] less.prems(4) [rule_format, OF _ that(2)] False by (cases "k \<le> a") auto
    ultimately show ?thesis by auto
  next
    case True
    define k where "k = a + (b - a) div 2"
    have k: "a \<le> k" "k < b" using True by (auto simp: k_def)
    have "(b * sz - a * sz) div sz = b - a" using assms(3) by (simp add: diff_mult_distrib [symmetric])
    then have mid: "a * sz + (b * sz - a * sz) div sz div 2 * sz = k * sz" by (simp add: k_def add_mult_distrib)
    have lim: "a * sz < b * sz" "k * sz + sz \<le> length bs"
      using True assms(2,3) k(2) less.prems(2) mult_le_mono1 [of "Suc k" cnt sz] by auto
    have e: "take sz (drop (k * sz) bs) = el sz bs (Suc k)" by (simp add: el_def)
    have unf: "search_loop key bs (a * sz) (b * sz) sz cmp =
        (if cmp key (el sz bs (Suc k)) < 0 then search_loop key bs (a * sz) (k * sz) sz cmp
         else if cmp key (el sz bs (Suc k)) > 0 then search_loop key bs (Suc k * sz) (b * sz) sz cmp
         else Inr (Some (k * sz)))"
      using lim assms(3) by (subst search_loop.simps) (simp add: Let_def mid e add.commute)
    have ord: "cmp (el sz bs i) (el sz bs j) \<le> 0" if "1 \<le> i" "i \<le> j" "j \<le> cnt" for i j
      using assms(1) that unfolding split_at_def by auto
    consider (lt) "cmp key (el sz bs (Suc k)) < 0" | (gt) "cmp key (el sz bs (Suc k)) > 0" | (eq) "cmp key (el sz bs (Suc k)) = 0" by linarith
    then show ?thesis
    proof cases
      case lt
      then have "\<forall>j. k < j \<longrightarrow> j \<le> cnt \<longrightarrow> cmp key (el sz bs j) < 0" using key_below ord by auto
      then show ?thesis using less.hyps [of k a] lt k True less.prems unf by auto
    next
      case gt
      then have "\<forall>j. 1 \<le> j \<longrightarrow> j \<le> Suc k \<longrightarrow> cmp key (el sz bs j) > 0"
        using key_above ord k(2) less.prems(2) by (metis Suc_leI le_trans)
      then show ?thesis using less.hyps [of b "Suc k"] gt k less.prems unf by auto
    next
      case eq
      then show ?thesis using unf k(2) less.prems(2) by (auto intro!: exI [of _ "Suc k"])
    qed
  qed
qed

end

text \<open>The elements of an array.\<close>

definition elements :: "nat \<Rightarrow> nat \<Rightarrow> bytes \<Rightarrow> bytes list" where
  "elements sz cnt bs = map (el sz bs) [1..<Suc cnt]"

lemma elements_mset: "permuted sz 1 cnt bs bs' \<Longrightarrow> in_array sz bs cnt \<Longrightarrow> mset (elements sz cnt bs') = mset (elements sz cnt bs)"
proof -
  assume p: "permuted sz 1 cnt bs bs'" and ia: "in_array sz bs cnt"
  have M: "mset (elements sz cnt b) = image_mset (el sz b) (mset_set {1..cnt})" for b
    unfolding elements_def mset_map by (simp add: mset_upt atLeastLessThanSuc_atLeastAtMost del: upt_Suc)
  obtain f where f: "bij_betw f {1..cnt} {1..cnt}" "\<forall>k. in_array sz bs k \<longrightarrow> el sz bs' k = el sz bs (if k \<in> {1..cnt} then f k else k)"
    using p unfolding permuted_def by blast
  have "image_mset (el sz bs') (mset_set {1..cnt}) = image_mset (el sz bs \<circ> f) (mset_set {1..cnt})"
    using f(2) in_array_le [OF ia] by (intro image_mset_cong) auto
  also have "\<dots> = image_mset (el sz bs) (mset_set (f ` {1..cnt}))"
    using f(1) by (simp add: image_mset.compositionality [symmetric] image_mset_mset_set bij_betw_imp_inj_on)
  finally show ?thesis using f(1) by (simp add: M bij_betw_imp_surj_on)
qed

lemma elements_nth: "i < cnt \<Longrightarrow> elements sz cnt bs ! i = el sz bs (Suc i)"
  by (simp add: elements_def del: upt_Suc)

lemma length_elements [simp]: "length (elements sz cnt bs) = cnt"
  by (simp add: elements_def)

lemma sorted_elements:
  "sorted_wrt P (elements sz cnt bs) \<longleftrightarrow> (\<forall>j k. 1 \<le> j \<longrightarrow> j < k \<longrightarrow> k \<le> cnt \<longrightarrow> P (el sz bs j) (el sz bs k))" (is "?L \<longleftrightarrow> ?R")
proof
  assume L: ?L
  show ?R
  proof (intro allI impI)
    fix j k :: nat assume jk: "1 \<le> j" "j < k" "k \<le> cnt"
    then have "P (elements sz cnt bs ! (j - 1)) (elements sz cnt bs ! (k - 1))"
      using L unfolding sorted_wrt_iff_nth_less by auto
    then show "P (el sz bs j) (el sz bs k)" using jk by (simp add: elements_nth)
  qed
next
  assume ?R
  then show ?L unfolding sorted_wrt_iff_nth_less by (auto simp: elements_nth)
qed

context array_order
begin

lemma split_at_sorted: "split_at sz 0 cnt bs \<longleftrightarrow> sorted_wrt (\<lambda>x y. cmp x y \<le> 0) (elements sz cnt bs)"
  unfolding sorted_elements split_at_def using cmp_refl by (auto simp: le_less)

end

interpretation ci: array_order compare_ints
  by unfold_locales (auto simp: compare_ints_def Let_def split: if_splits)

section \<open>Decimal numbers\<close>

definition digits_value :: "8 word list \<Rightarrow> int" where
  "digits_value ds = foldl (\<lambda>v d. v * 10 + (uint d - 48)) 0 ds"

lemma foldl_digits_mono: "\<forall>d \<in> set ds. isdigit d \<Longrightarrow> 0 \<le> v \<Longrightarrow> v \<le> foldl (\<lambda>v d. v * 10 + (uint d - 48)) v ds"
proof (induction ds arbitrary: v)
  case (Cons d ds)
  then have d: "48 \<le> uint d" by (simp add: isdigit_def word_le_def)
  then show ?case using Cons.IH [of "v * 10 + (uint d - 48)"] Cons.prems by (simp add: isdigit_def)
qed simp

lemma atoi_skip_value: "(\<forall>i < n. isspace (m (s + of_nat i))) \<Longrightarrow> \<not> isspace (m (s + of_nat n)) \<Longrightarrow> atoi_skip m s = Some (s + of_nat n)"
proof (induction n arbitrary: s)
  case 0
  then show ?case by (subst atoi_skip.simps) simp
next
  case (Suc n)
  have "isspace (m s)" using Suc.prems(1) by force
  moreover have "atoi_skip m (s + 1) = Some (s + 1 + of_nat n)"
    by (rule Suc.IH) (use Suc.prems in \<open>auto simp: add.assoc dest: spec [of _ "Suc i" for i]\<close>)
  ultimately show ?case by (subst atoi_skip.simps) (simp add: add.assoc)
qed

lemma atoi_digits_value:
  assumes "\<forall>d \<in> set ds. isdigit d" "0 \<le> v" "foldl (\<lambda>v d. v * 10 + (uint d - 48)) v ds \<le> 2 ^ 31"
    and "\<forall>i < length ds. m (s + of_nat i) = ds ! i" "\<not> isdigit (m (s + of_nat (length ds)))"
  shows "atoi_digits m s (- v) = Some (Inr (- foldl (\<lambda>v d. v * 10 + (uint d - 48)) v ds))"
  using assms
proof (induction ds arbitrary: v s)
  case Nil
  then show ?case by (subst atoi_digits.simps) simp
next
  case (Cons d ds)
  let ?v = "v * 10 + (uint d - 48)"
  have d: "isdigit d" "48 \<le> uint d" using Cons.prems(1) by (auto simp: isdigit_def word_le_def)
  have md: "m s = d" using Cons.prems(4) by force
  have le: "?v \<le> 2 ^ 31" using foldl_digits_mono [of ds ?v] Cons.prems(1-3) d(2) by simp
  then have "int32 (- v * 10) = Inr (- v * 10)" "int32 (- v * 10 - (uint d - 48)) = Inr (- ?v)"
    using d(2) Cons.prems(2) by (auto simp: int32_def)
  then have "atoi_digits m s (- v) = atoi_digits m (s + 1) (- ?v)"
    using md d(1) by (subst atoi_digits.simps) simp
  also have "\<dots> = Some (Inr (- foldl (\<lambda>v d. v * 10 + (uint d - 48)) ?v ds))"
  proof (rule Cons.IH)
    show "\<forall>i < length ds. m (s + 1 + of_nat i) = ds ! i"
    proof (intro allI impI)
      fix i assume "i < length ds"
      then show "m (s + 1 + of_nat i) = ds ! i" using Cons.prems(4) [rule_format, of "Suc i"] by (simp add: add.assoc)
    qed
  qed (use Cons.prems d in \<open>auto simp: add.assoc\<close>)
  finally show ?case by simp
qed

section \<open>Properties\<close>

text \<open>C18: \<open>sort\<close> and \<open>qsort\<close> always return, for every comparison function that is a total preorder and every array of fewer than
  \<open>2 ^ 31\<close> elements of any size, and they leave the same elements in ascending order, byte for byte.\<close>

theorem sort_correct:
  assumes "array_order compare" "length array = cnt * sz" "sz > 0" "cnt < 2 ^ 31"
  shows "\<exists>array'. qsort array cnt sz compare = Some (Inr array') \<and> length array' = length array
    \<and> sorted_wrt (\<lambda>x y. compare x y \<le> 0) (elements sz cnt array')
    \<and> mset (elements sz cnt array') = mset (elements sz cnt array)"
proof -
  obtain bs where b: "sort array cnt sz compare = Some (Inr bs)" "permuted sz 1 cnt array bs" "array_order.split_at compare sz 0 cnt bs"
    using array_order.sort_value [OF assms] by blast
  have "mset (elements sz cnt bs) = mset (elements sz cnt array)"
  proof (cases "cnt = 0")
    case False
    then show ?thesis using elements_mset [OF b(2)] assms(2) by (simp add: in_array_def)
  qed (simp add: elements_def)
  then show ?thesis
    using b array_order.split_at_sorted [OF assms(1)] by (auto simp: qsort_def permuted_def)
qed

theorem sort_correct_witness:
  "\<exists>array'. qsort (le32 3 @ le32 (- 1) @ le32 2) 3 4 compare_ints = Some (Inr array') \<and> length array' = 12
    \<and> sorted_wrt (\<lambda>x y. compare_ints x y \<le> 0) (elements 4 3 array')"
  using sort_correct [OF ci.array_order_axioms, of "le32 3 @ le32 (- 1) @ le32 2" 3 4] by auto

text \<open>C36: On a sorted array \<open>bsearch\<close> returns an element equal to the key if there is one, and otherwise a null pointer.\<close>

theorem bsearch_correct:
  assumes "array_order compare" "length array = cnt * sz" "sz > 0"
    and "sorted_wrt (\<lambda>x y. compare x y \<le> 0) (elements sz cnt array)"
  shows "\<exists>r. bsearch key array cnt sz compare = Inr r \<and>
    (case r of Some off \<Rightarrow> \<exists>k. 1 \<le> k \<and> k \<le> cnt \<and> off = (k - 1) * sz \<and> compare key (el sz array k) = 0
     | None \<Rightarrow> \<forall>x \<in> set (elements sz cnt array). compare key x \<noteq> 0)"
proof -
  have "array_order.split_at compare sz 0 cnt array" using array_order.split_at_sorted [OF assms(1)] assms(4) by blast
  from array_order.search_loop_value [OF assms(1) this assms(2,3), of 0 cnt key]
  obtain r where r: "search_loop key array (0 * sz) (cnt * sz) sz compare = Inr r"
    "case r of Some off \<Rightarrow> \<exists>k. 1 \<le> k \<and> k \<le> cnt \<and> off = (k - 1) * sz \<and> compare key (el sz array k) = 0
     | None \<Rightarrow> \<forall>k. 1 \<le> k \<longrightarrow> k \<le> cnt \<longrightarrow> compare key (el sz array k) \<noteq> 0" by auto
  moreover have "set (elements sz cnt array) = el sz array ` {1..cnt}" by (auto simp: elements_def)
  ultimately show ?thesis
    by (intro exI [of _ r]) (auto simp: bsearch_def binary_search_def mult.commute split: option.splits)
qed

theorem bsearch_correct_witness:
  "\<exists>k. bsearch (le32 5) (le32 3 @ le32 5) 2 4 compare_ints = Inr (Some ((k - 1) * 4))
    \<and> compare_ints (le32 5) (el 4 (le32 3 @ le32 5) k) = 0"
proof -
  have w: "word_at (le32 x) 0 = x" for x using word_at_le32 [of "[]" x "[]"] by simp
  have E: "elements 4 2 (le32 3 @ le32 5) = [le32 3, le32 5]" by (simp add: elements_def el_def upt_rec)
  have "sorted_wrt (\<lambda>x y. compare_ints x y \<le> 0) (elements 4 2 (le32 3 @ le32 5))"
    by (simp add: E compare_ints_def w)
  from bsearch_correct [OF ci.array_order_axioms _ _ this, of "le32 5"]
  obtain r where r: "bsearch (le32 5) (le32 3 @ le32 5) 2 4 compare_ints = Inr r"
    "case r of Some off \<Rightarrow> \<exists>k. 1 \<le> k \<and> k \<le> 2 \<and> off = (k - 1) * 4 \<and> compare_ints (le32 5) (el 4 (le32 3 @ le32 5) k) = 0
     | None \<Rightarrow> \<forall>x \<in> set (elements 4 2 (le32 3 @ le32 5)). compare_ints (le32 5) x \<noteq> 0" by auto
  show ?thesis using r by (cases r) (auto simp: E compare_ints_def w)
qed


text \<open>\<open>atoi\<close> reads white space, an optional sign and digits, and returns the number that the digits stand for, for
  every value of type \<open>int\<close>, including the least one; what follows the digits is ignored.\<close>

theorem atoi_correct:
  assumes "string_at m a (ws @ sign @ ds @ rest)" "\<forall>w \<in> set ws. isspace w" "sign \<in> {[], [43], [45]}"
    "ds \<noteq> []" "\<forall>d \<in> set ds. isdigit d" "rest = [] \<or> \<not> isdigit (hd rest)"
    and "digits_value ds < 2 ^ 31 \<or> sign = [45] \<and> digits_value ds = 2 ^ 31"
  shows "atoi m a = Some (Inr (if sign = [45] then - digits_value ds else digits_value ds))"
proof -
  let ?bs = "ws @ sign @ ds @ rest"
  have at: "m (a + of_nat i) = (?bs @ [0]) ! i" if "i \<le> length ?bs" for i
    using assms(1) that cstr_append [of m a ?bs "[]"] by (cases "i = length ?bs") (auto simp: string_at_def nth_append)
  define s0 where "s0 = a + of_nat (length ws)"
  define s1 where "s1 = s0 + of_nat (length sign)"
  have s1: "s1 = a + of_nat (length ws + length sign)" by (simp add: s1_def s0_def)
  obtain d ds' where ds: "ds = d # ds'" using assms(4) by (cases ds) auto
  have "m s0 = (sign @ ds) ! 0" using at [of "length ws"] ds unfolding s0_def by (simp add: nth_append)
  then have c0: "\<not> isspace (m s0)" "sign = [] \<Longrightarrow> m s0 \<noteq> 43 \<and> m s0 \<noteq> 45" "sign \<noteq> [] \<Longrightarrow> m s0 = hd sign"
    using assms(3,5) ds by (auto simp: isspace_def isdigit_def)
  have "\<forall>i < length ws. isspace (m (a + of_nat i))" using at assms(2) by (auto simp: nth_append)
  then have skip: "atoi_skip m a = Some s0" using atoi_skip_value c0(1) unfolding s0_def by blast
  have "\<forall>i < length ds. m (s1 + of_nat i) = ds ! i"
    using at [of "length ws + length sign + i" for i] by (auto simp: s1 nth_append add.assoc)
  moreover have "\<not> isdigit (m (s1 + of_nat (length ds)))"
    using at [of "length ws + length sign + length ds"] assms(6)
    by (cases rest) (auto simp: s1 nth_append add.assoc isdigit_def)
  moreover have "digits_value ds \<le> 2 ^ 31" using assms(7) by auto
  ultimately have dg: "atoi_digits m s1 0 = Some (Inr (- digits_value ds))"
    using atoi_digits_value [OF assms(5), of 0 m s1] by (simp add: digits_value_def)
  have nn: "0 \<le> digits_value ds" using foldl_digits_mono [OF assms(5), of 0] by (simp add: digits_value_def)
  have "int32 (digits_value ds) = Inr (digits_value ds)" if "sign \<noteq> [45]"
    using assms(7) that nn by (simp add: int32_def)
  then show ?thesis
    using skip dg c0 assms(1,3) unfolding atoi_def string_at_def by (auto simp: s1_def)
qed

theorem atoi_correct_witness:
  "atoi (\<lambda>p. if p = 1 then 32 else if p = 2 then 45 else if p = 3 then 55 else 0) 1 = Some (Inr (- 7))"
  using atoi_correct [of "\<lambda>p. if p = 1 then 32 else if p = 2 then 45 else if p = 3 then 55 else 0" 1 "[32]" "[45]" "[55]" "[]"]
  by (simp add: string_at_def isspace_def isdigit_def digits_value_def nth_Cons' less_Suc_eq numeral_3_eq_3)

end
