(* ===== verification/Hash_Table.thy ===== *)
theory Hash_Table
  imports Strings List_Sorting
begin

text \<open>
  The hash table of lib/kernel/hash.c. A bucket is the sequence of the elements on its list, which is what the lists of
  \<open>Linked_List\<close> are proved to be. An element is a pointer; the functions \<open>hash\<close> and \<open>less\<close> of the client, with their auxiliary
  data, are fields of the table. The outcome of the one call of \<open>malloc\<close> in an operation is an argument.
  The array of buckets is a list of \<open>bucket_count\<close> entries: \<open>hash_init\<close> and \<open>rehash\<close> allocate it with that length and nothing else changes
  either of them, which is part of the invariant \<open>shape\<close>. The loops from 0 to \<open>bucket_cnt\<close> run over this list.
\<close>

section \<open>Data\<close>

record hash =
  elem_count :: "32 word"
  bucket_count :: "32 word"
  buckets :: "ptr list list"
  hash_fn :: "ptr \<Rightarrow> 32 word"
  less_fn :: "ptr \<Rightarrow> ptr \<Rightarrow> bool"

section \<open>Buckets\<close>

definition bucket_idx :: "hash \<Rightarrow> ptr \<Rightarrow> nat" where
  "bucket_idx h e = unat (hash_fn h e AND (bucket_count h - 1))"

definition find_bucket :: "hash \<Rightarrow> ptr \<Rightarrow> nat res" where
  "find_bucket h e = (if bucket_idx h e < length (buckets h) then Inr (bucket_idx h e) else Inl (Undefined ''h->buckets''))"

fun find_elem :: "hash \<Rightarrow> ptr list \<Rightarrow> ptr \<Rightarrow> ptr option" where
  "find_elem h [] e = None"
| "find_elem h (hi # es) e = (if \<not> less_fn h hi e \<and> \<not> less_fn h e hi then Some hi else find_elem h es e)"

definition insert_elem :: "hash \<Rightarrow> nat \<Rightarrow> ptr \<Rightarrow> hash" where
  "insert_elem h b e = h\<lparr>elem_count := elem_count h + 1, buckets := (buckets h)[b := e # buckets h ! b]\<rparr>"

text \<open>\<open>list_remove\<close> takes the element off the list it is on.\<close>

definition remove_elem :: "hash \<Rightarrow> ptr \<Rightarrow> hash" where
  "remove_elem h e = h\<lparr>elem_count := elem_count h - 1, buckets := map (remove1 e) (buckets h)\<rparr>"

section \<open>The number of buckets\<close>

definition turn_off_least_1bit :: "32 word \<Rightarrow> 32 word" where
  "turn_off_least_1bit x = x AND (x - 1)"

definition is_power_of_2 :: "32 word \<Rightarrow> bool" where
  "is_power_of_2 x \<longleftrightarrow> x \<noteq> 0 \<and> turn_off_least_1bit x = 0"

partial_function (option) round_loop :: "32 word \<Rightarrow> 32 word option" where
  "round_loop x = (if \<not> is_power_of_2 x then round_loop (turn_off_least_1bit x) else Some x)"

fun move_all :: "hash \<Rightarrow> ptr list \<Rightarrow> hash res" where
  "move_all h [] = Inr h"
| "move_all h (e # es) = bindr (find_bucket h e) (\<lambda>b. move_all (h\<lparr>buckets := (buckets h)[b := e # buckets h ! b]\<rparr>) es)"

definition rehash :: "bool \<Rightarrow> hash \<Rightarrow> hash res option" where
  "rehash malloc_ok h =
     (let old_buckets = buckets h;
          new_bucket_cnt = elem_count h div 2;
          new_bucket_cnt = (if new_bucket_cnt < 4 then 4 else new_bucket_cnt) in
      Option.bind (round_loop new_bucket_cnt) (\<lambda>new_bucket_cnt.
      if new_bucket_cnt = bucket_count h then Some (Inr h)
      else if \<not> malloc_ok then Some (Inr h)
      else Some (move_all (h\<lparr>buckets := replicate (unat new_bucket_cnt) [], bucket_count := new_bucket_cnt\<rparr>) (concat old_buckets))))"

section \<open>Operations\<close>

text \<open>A destructor or an action is a function on the state of the client.\<close>

definition hash_clear :: "(ptr \<Rightarrow> 's \<Rightarrow> 's) option \<Rightarrow> hash \<Rightarrow> 's \<Rightarrow> 's \<times> hash" where
  "hash_clear destructor h s =
     (let s = (case destructor of None \<Rightarrow> s | Some f \<Rightarrow> foldl (\<lambda>s bucket. foldl (\<lambda>s e. f e s) s bucket) s (buckets h))
      in (s, h\<lparr>buckets := map (\<lambda>_. []) (buckets h), elem_count := 0\<rparr>))"

definition hash_init :: "bool \<Rightarrow> (ptr \<Rightarrow> 32 word) \<Rightarrow> (ptr \<Rightarrow> ptr \<Rightarrow> bool) \<Rightarrow> hash option" where
  "hash_init malloc_ok hf lf =
     (if malloc_ok then Some (snd (hash_clear None
        \<lparr>elem_count = 0, bucket_count = 4, buckets = replicate 4 [], hash_fn = hf, less_fn = lf\<rparr> ()))
      else None)"

definition hash_destroy :: "(ptr \<Rightarrow> 's \<Rightarrow> 's) option \<Rightarrow> hash \<Rightarrow> 's \<Rightarrow> 's" where
  "hash_destroy destructor h s = (if destructor \<noteq> None then fst (hash_clear destructor h s) else s)"

definition hash_insert :: "bool \<Rightarrow> hash \<Rightarrow> ptr \<Rightarrow> (ptr option \<times> hash) res option" where
  "hash_insert malloc_ok h new =
     bindo (Some (find_bucket h new)) (\<lambda>b.
     let old = find_elem h (buckets h ! b) new;
         h = (if old = None then insert_elem h b new else h) in
     bindo (rehash malloc_ok h) (\<lambda>h. Some (Inr (old, h))))"

definition hash_replace :: "bool \<Rightarrow> hash \<Rightarrow> ptr \<Rightarrow> (ptr option \<times> hash) res option" where
  "hash_replace malloc_ok h new =
     bindo (Some (find_bucket h new)) (\<lambda>b.
     let old = find_elem h (buckets h ! b) new;
         h = (case old of None \<Rightarrow> h | Some e \<Rightarrow> remove_elem h e);
         h = insert_elem h b new in
     bindo (rehash malloc_ok h) (\<lambda>h. Some (Inr (old, h))))"

definition hash_find :: "hash \<Rightarrow> ptr \<Rightarrow> ptr option res" where
  "hash_find h e = bindr (find_bucket h e) (\<lambda>b. Inr (find_elem h (buckets h ! b) e))"

definition hash_delete :: "bool \<Rightarrow> hash \<Rightarrow> ptr \<Rightarrow> (ptr option \<times> hash) res option" where
  "hash_delete malloc_ok h e =
     bindo (Some (find_bucket h e)) (\<lambda>b.
     case find_elem h (buckets h ! b) e of None \<Rightarrow> Some (Inr (None, h))
     | Some found \<Rightarrow> bindo (rehash malloc_ok (remove_elem h found)) (\<lambda>h. Some (Inr (Some found, h))))"

definition hash_apply :: "(ptr \<Rightarrow> 's \<Rightarrow> 's) \<Rightarrow> hash \<Rightarrow> 's \<Rightarrow> 's" where
  "hash_apply action h s = foldl (\<lambda>s bucket. foldl (\<lambda>s e. action e s) s bucket) s (buckets h)"

definition hash_size :: "hash \<Rightarrow> 32 word" where "hash_size h = elem_count h"
definition hash_empty :: "hash \<Rightarrow> bool" where "hash_empty h \<longleftrightarrow> elem_count h = 0"

section \<open>Iteration\<close>

text \<open>The pointer \<open>elem\<close> of an iterator: before the first element of a bucket, at an element, or null.\<close>

datatype cursor = At_head | At ptr | At_null

record hash_iterator =
  it_bucket :: nat
  it_elem :: cursor

definition hash_first :: hash_iterator where
  "hash_first = \<lparr>it_bucket = 0, it_elem = At_head\<rparr>"

text \<open>The element after a position; \<open>None\<close> is the end of the list.\<close>

definition next_in :: "ptr list \<Rightarrow> cursor \<Rightarrow> ptr option res" where
  "next_in es c = (case c of
       At_head \<Rightarrow> Inr (case es of [] \<Rightarrow> None | e # _ \<Rightarrow> Some e)
     | At e \<Rightarrow> if e \<in> set es then Inr (case dropWhile (\<lambda>x. x \<noteq> e) es of _ # y # _ \<Rightarrow> Some y | _ \<Rightarrow> None)
               else Inl (Undefined ''i->elem'')
     | At_null \<Rightarrow> Inl (Undefined ''i->elem''))"

function next_loop :: "hash \<Rightarrow> nat \<Rightarrow> ptr option \<Rightarrow> hash_iterator" where
  "next_loop h b (Some e) = \<lparr>it_bucket = b, it_elem = At e\<rparr>"
| "next_loop h b None =
     (if b + 1 \<ge> length (buckets h) then \<lparr>it_bucket = b + 1, it_elem = At_null\<rparr>
      else next_loop h (b + 1) (case buckets h ! (b + 1) of [] \<Rightarrow> None | e # _ \<Rightarrow> Some e))"
  by pat_completeness auto
termination by (relation "measure (\<lambda>(h, b, c). length (buckets h) - b)") auto

definition hash_next :: "hash \<Rightarrow> hash_iterator \<Rightarrow> hash_iterator res" where
  "hash_next h i =
     (if it_bucket i < length (buckets h)
      then bindr (next_in (buckets h ! it_bucket i) (it_elem i)) (\<lambda>e. Inr (next_loop h (it_bucket i) e))
      else Inl (Undefined ''i->bucket''))"

definition hash_cur :: "hash_iterator \<Rightarrow> ptr option" where
  "hash_cur i = (case it_elem i of At e \<Rightarrow> Some e | _ \<Rightarrow> None)"

section \<open>Hash functions\<close>

definition FNV_32_PRIME :: "32 word" where "FNV_32_PRIME = 16777619"
definition FNV_32_BASIS :: "32 word" where "FNV_32_BASIS = 2166136261"

primrec hash_bytes_loop :: "memory \<Rightarrow> addr \<Rightarrow> nat \<Rightarrow> 32 word \<Rightarrow> 32 word" where
  "hash_bytes_loop m buf 0 hv = hv"
| "hash_bytes_loop m buf (Suc n) hv = hash_bytes_loop m (buf + 1) n (hv * FNV_32_PRIME XOR ucast (m buf))"

definition hash_bytes :: "memory \<Rightarrow> addr \<Rightarrow> nat \<Rightarrow> 32 word res" where
  "hash_bytes m buf n = require (buf \<noteq> 0) ''buf != NULL'' (Inr (hash_bytes_loop m buf n FNV_32_BASIS))"

partial_function (option) hash_string_loop :: "memory \<Rightarrow> addr \<Rightarrow> 32 word \<Rightarrow> 32 word option" where
  "hash_string_loop m s hv = (if m s \<noteq> 0 then hash_string_loop m (s + 1) (hv * FNV_32_PRIME XOR ucast (m s)) else Some hv)"

definition hash_string :: "memory \<Rightarrow> addr \<Rightarrow> 32 word res option" where
  "hash_string m s = requireo (s \<noteq> 0) ''s != NULL'' (map_option Inr (hash_string_loop m s FNV_32_BASIS))"

text \<open>\<open>hash_int\<close> hashes the four bytes of its argument, in their order in memory.\<close>

definition hash_int :: "32 word \<Rightarrow> 32 word" where
  "hash_int i = foldl (\<lambda>hv k. hv * FNV_32_PRIME XOR ucast (ucast (drop_bit (8 * k) i) :: 8 word)) FNV_32_BASIS [0..<4]"

section \<open>The number of buckets\<close>

lemma and_pred_less:
  assumes "(y :: 32 word) \<noteq> 0"
  shows "x AND (y - 1) < y"
proof -
  have "unat (x AND (y - 1)) \<le> unat y - 1" using word_and_le1 [of x "y - 1"] assms by (simp add: word_le_nat_alt unat_minus_one)
  moreover have "0 < unat y" using assms by (simp add: unat_gt_0)
  ultimately show ?thesis by (simp add: word_less_nat_alt)
qed

lemma round_loop_value:
  assumes "x \<noteq> 0"
  obtains y where "round_loop x = Some y" "is_power_of_2 y"
proof -
  have "\<exists>y. round_loop x = Some y \<and> is_power_of_2 y"
    using assms
  proof (induction "unat x" arbitrary: x rule: less_induct)
    case less
    show ?case
    proof (cases "is_power_of_2 x")
      case True
      then show ?thesis by (subst round_loop.simps) simp
    next
      case False
      then have "turn_off_least_1bit x \<noteq> 0" using less.prems by (simp add: is_power_of_2_def)
      moreover have "unat (turn_off_least_1bit x) < unat x"
        using and_pred_less [OF less.prems] by (simp add: turn_off_least_1bit_def word_less_nat_alt)
      ultimately show ?thesis using less.hyps False by (subst round_loop.simps) simp
    qed
  qed
  then show thesis using that by blast
qed

section \<open>Elements in their buckets\<close>

definition shape :: "hash \<Rightarrow> bool" where
  "shape h \<longleftrightarrow> is_power_of_2 (bucket_count h) \<and> length (buckets h) = unat (bucket_count h)
     \<and> (\<forall>i < length (buckets h). \<forall>e \<in> set (buckets h ! i). bucket_idx h e = i)"

lemma bucket_idx_bound: "shape h \<Longrightarrow> bucket_idx h e < length (buckets h)"
  using and_pred_less by (simp add: shape_def is_power_of_2_def bucket_idx_def word_less_nat_alt [symmetric])

lemma find_bucket_value: "shape h \<Longrightarrow> find_bucket h e = Inr (bucket_idx h e)"
  by (simp add: find_bucket_def bucket_idx_bound)

lemma mset_concat_update: "i < length bs \<Longrightarrow> mset (concat (bs[i := e # bs ! i])) = add_mset e (mset (concat bs))"
proof (induction bs arbitrary: i)
  case (Cons b bs)
  then show ?case by (cases i) auto
qed simp

lemma shape_push:
  assumes "shape h" "hash_fn h' = hash_fn h" "bucket_count h' = bucket_count h"
    "buckets h' = (buckets h)[bucket_idx h e := e # buckets h ! bucket_idx h e]"
  shows "shape h'"
  using assms bucket_idx_bound [OF assms(1), of e]
  by (auto simp: shape_def bucket_idx_def nth_list_update)

lemma move_all_value:
  assumes "shape h"
  obtains h' where "move_all h es = Inr h'" "shape h'" "mset (concat (buckets h')) = mset (concat (buckets h)) + mset es"
    "elem_count h' = elem_count h" "hash_fn h' = hash_fn h" "less_fn h' = less_fn h"
proof -
  have "\<exists>h'. move_all h es = Inr h' \<and> shape h' \<and> mset (concat (buckets h')) = mset (concat (buckets h)) + mset es
      \<and> elem_count h' = elem_count h \<and> hash_fn h' = hash_fn h \<and> less_fn h' = less_fn h"
    using assms
  proof (induction es arbitrary: h)
    case (Cons e es)
    let ?h = "h\<lparr>buckets := (buckets h)[bucket_idx h e := e # buckets h ! bucket_idx h e]\<rparr>"
    have "shape ?h" by (rule shape_push [OF Cons.prems]) simp_all
    then show ?case
      using Cons.IH [of ?h] find_bucket_value [OF Cons.prems] bucket_idx_bound [OF Cons.prems] by (auto simp: mset_concat_update)
  qed simp
  then show thesis using that by blast
qed

lemma rehash_value:
  assumes "shape h"
  obtains h' where "rehash ok h = Some (Inr h')" "shape h'" "mset (concat (buckets h')) = mset (concat (buckets h))"
    "elem_count h' = elem_count h" "hash_fn h' = hash_fn h" "less_fn h' = less_fn h"
proof -
  define n where "n = (if elem_count h div 2 < 4 then 4 else elem_count h div 2)"
  have "n \<noteq> 0" by (auto simp: n_def)
  then obtain c where c: "round_loop n = Some c" "is_power_of_2 c" by (rule round_loop_value)
  have unf: "rehash ok h = (if c = bucket_count h \<or> \<not> ok then Some (Inr h)
      else Some (move_all (h\<lparr>buckets := replicate (unat c) [], bucket_count := c\<rparr>) (concat (buckets h))))"
    using c(1) by (simp add: rehash_def Let_def n_def)
  let ?h = "h\<lparr>buckets := replicate (unat c) [], bucket_count := c\<rparr>"
  have "shape ?h" using c(2) by (simp add: shape_def)
  then obtain h' where "move_all ?h (concat (buckets h)) = Inr h'" "shape h'" "mset (concat (buckets h')) = mset (concat (buckets h))"
    "elem_count h' = elem_count h" "hash_fn h' = hash_fn h" "less_fn h' = less_fn h"
    by (rule move_all_value [of ?h "concat (buckets h)"]) simp
  then show thesis using that unf assms by (cases "c = bucket_count h \<or> \<not> ok") auto
qed

lemma remove_elem_concat:
  assumes "distinct (concat bs)"
  shows "concat (map (remove1 e) bs) = filter (\<lambda>x. x \<noteq> e) (concat bs)"
proof -
  have "map (remove1 e) bs = map (filter (\<lambda>x. x \<noteq> e)) bs"
    using assms by (auto simp: distinct_concat_iff distinct_remove1_removeAll removeAll_filter_not_eq intro!: map_cong filter_cong)
  then show ?thesis by (simp only: filter_concat)
qed

section \<open>Tables as sets\<close>

text \<open>The contract of the functions that a client gives: the comparison is a strict weak order, and elements that compare equal
  have the same hash value.\<close>

locale hash_client = strict_weak_order lt for lt :: "ptr \<Rightarrow> ptr \<Rightarrow> bool" +
  fixes hf :: "ptr \<Rightarrow> 32 word"
  assumes equal_hash: "\<not> lt x y \<Longrightarrow> \<not> lt y x \<Longrightarrow> hf x = hf y"
begin

definition equal :: "ptr \<Rightarrow> ptr \<Rightarrow> bool" where "equal x y \<longleftrightarrow> \<not> lt x y \<and> \<not> lt y x"

lemma equal_refl: "equal x x" using lt_asym by (auto simp: equal_def)
lemma equal_sym: "equal x y \<Longrightarrow> equal y x" by (simp add: equal_def)
lemma equal_trans: "equal x y \<Longrightarrow> equal y z \<Longrightarrow> equal x z" using nlt_trans unfolding equal_def by blast

text \<open>The table \<open>h\<close> holds the set \<open>A\<close>, in which no two elements are equal.\<close>

definition holds :: "hash \<Rightarrow> ptr set \<Rightarrow> bool" where
  "holds h A \<longleftrightarrow> shape h \<and> hash_fn h = hf \<and> less_fn h = lt \<and> finite A \<and> mset (concat (buckets h)) = mset_set A
     \<and> elem_count h = of_nat (card A) \<and> (\<forall>x \<in> A. \<forall>y \<in> A. equal x y \<longrightarrow> x = y)"

text \<open>What a search for \<open>e\<close> returns.\<close>

definition matches :: "ptr set \<Rightarrow> ptr \<Rightarrow> ptr option \<Rightarrow> bool" where
  "matches A e r \<longleftrightarrow> (case r of None \<Rightarrow> \<forall>x \<in> A. \<not> equal x e | Some x \<Rightarrow> x \<in> A \<and> equal x e)"

lemma find_elem_spec: "less_fn h = lt \<Longrightarrow> matches (set es) e (find_elem h es e)"
  by (induction es) (auto simp: matches_def equal_def split: option.splits)

lemma find_value:
  assumes "holds h A"
  shows "matches A e (find_elem h (buckets h ! bucket_idx h e) e)"
proof -
  have sh: "shape h" "less_fn h = lt" "hash_fn h = hf" using assms by (auto simp: holds_def)
  have A: "A = set (concat (buckets h))" using assms by (metis finite_set_mset_mset_set holds_def set_mset_mset)
  have sub: "set (buckets h ! bucket_idx h e) \<subseteq> A" using bucket_idx_bound [OF sh(1), of e] A by auto
  have "x \<in> set (buckets h ! bucket_idx h e)" if x: "x \<in> A" "equal x e" for x
  proof -
    obtain b where "b \<in> set (buckets h)" "x \<in> set b" using x(1) A by auto
    then obtain i where i: "i < length (buckets h)" "x \<in> set (buckets h ! i)" by (auto simp: in_set_conv_nth [of b])
    have "bucket_idx h e = bucket_idx h x" using x(2) equal_hash [of x e] sh(3) by (simp add: equal_def bucket_idx_def)
    then show ?thesis using i sh(1) by (auto simp: shape_def)
  qed
  then show ?thesis using find_elem_spec [OF sh(2), of "buckets h ! bucket_idx h e" e] sub
    by (cases "find_elem h (buckets h ! bucket_idx h e) e") (auto simp: matches_def)
qed

lemma holds_rehash:
  assumes "holds h A"
  obtains h' where "rehash ok h = Some (Inr h')" "holds h' A"
proof -
  have "shape h" using assms by (simp add: holds_def)
  then obtain h' where r: "rehash ok h = Some (Inr h')" "shape h'" "mset (concat (buckets h')) = mset (concat (buckets h))"
    "elem_count h' = elem_count h" "hash_fn h' = hash_fn h" "less_fn h' = less_fn h"
    by (rule rehash_value)
  then have "holds h' A" using assms by (simp add: holds_def)
  then show thesis using that r(1) by blast
qed

lemma holds_insert:
  assumes "holds h A" "\<forall>x \<in> A. \<not> equal x e"
  shows "holds (insert_elem h (bucket_idx h e) e) (insert e A)"
proof -
  have sh: "shape h" using assms by (simp add: holds_def)
  have "e \<notin> A" using assms(2) equal_refl by blast
  moreover have "shape (insert_elem h (bucket_idx h e) e)" by (rule shape_push [OF sh]) (simp_all add: insert_elem_def)
  ultimately show ?thesis
    using assms bucket_idx_bound [OF sh] equal_sym by (auto simp: holds_def insert_elem_def mset_concat_update add.commute)
qed

lemma holds_remove:
  assumes "holds h A" "e \<in> A"
  shows "holds (remove_elem h e) (A - {e})"
proof -
  have m: "mset (concat (buckets h)) = mset_set A" "finite A" using assms by (auto simp: holds_def)
  then have "distinct (concat (buckets h))" by (metis distinct_count_atmost_1 count_mset_set finite_set_mset_mset_set set_mset_mset)
  then have "mset (concat (map (remove1 e) (buckets h))) = mset_set (A - {e})"
    using m by (simp only: remove_elem_concat mset_filter) (simp add: filter_mset_mset_set set_diff_eq)
  moreover have "card A = Suc (card (A - {e}))" by (rule card_Suc_Diff1 [OF m(2) assms(2), symmetric])
  then have "(of_nat (card (A - {e})) :: 32 word) = of_nat (card A) - 1" by simp
  moreover have "shape (remove_elem h e)"
    using assms(1) by (auto simp: holds_def shape_def remove_elem_def bucket_idx_def dest: set_remove1_subset [THEN subsetD])
  ultimately show ?thesis using assms by (auto simp: holds_def remove_elem_def)
qed

lemma hash_insert_value:
  assumes "holds h A"
  shows "\<exists>old h'. hash_insert ok h new = Some (Inr (old, h')) \<and> matches A new old \<and> holds h' (if old = None then insert new A else A)"
proof -
  have sh: "shape h" using assms by (simp add: holds_def)
  define old where "old = find_elem h (buckets h ! bucket_idx h new) new"
  have m: "matches A new old" unfolding old_def by (rule find_value [OF assms])
  define h1 where "h1 = (if old = None then insert_elem h (bucket_idx h new) new else h)"
  have "holds h1 (if old = None then insert new A else A)"
    using holds_insert [OF assms] m assms by (auto simp: h1_def matches_def)
  then obtain h' where "rehash ok h1 = Some (Inr h')" "holds h' (if old = None then insert new A else A)"
    by (rule holds_rehash)
  then show ?thesis using m find_bucket_value [OF sh] by (auto simp: hash_insert_def h1_def old_def Let_def)
qed

lemma hash_delete_value:
  assumes "holds h A"
  shows "\<exists>old h'. hash_delete ok h e = Some (Inr (old, h')) \<and> matches A e old \<and> holds h' (A - set_option old)"
proof -
  have sh: "shape h" using assms by (simp add: holds_def)
  define old where "old = find_elem h (buckets h ! bucket_idx h e) e"
  have m: "matches A e old" unfolding old_def by (rule find_value [OF assms])
  show ?thesis
  proof (cases old)
    case None
    then show ?thesis using m assms find_bucket_value [OF sh] by (auto simp: hash_delete_def old_def)
  next
    case (Some x)
    then have "x \<in> A" using m by (simp add: matches_def)
    then obtain h' where "rehash ok (remove_elem h x) = Some (Inr h')" "holds h' (A - {x})"
      using holds_rehash holds_remove [OF assms] by metis
    then show ?thesis using m Some find_bucket_value [OF sh] by (auto simp: hash_delete_def old_def)
  qed
qed

lemma hash_replace_value:
  assumes "holds h A"
  shows "\<exists>old h'. hash_replace ok h new = Some (Inr (old, h')) \<and> matches A new old \<and> holds h' (insert new (A - set_option old))"
proof -
  have sh: "shape h" using assms by (simp add: holds_def)
  define old where "old = find_elem h (buckets h ! bucket_idx h new) new"
  have m: "matches A new old" unfolding old_def by (rule find_value [OF assms])
  define h1 where "h1 = (case old of None \<Rightarrow> h | Some e \<Rightarrow> remove_elem h e)"
  have h1: "holds h1 (A - set_option old)"
    using holds_remove [OF assms] m assms by (auto simp: h1_def matches_def split: option.splits)
  have b: "bucket_idx h1 new = bucket_idx h new" by (auto simp: h1_def bucket_idx_def remove_elem_def split: option.splits)
  have "\<forall>x \<in> A - set_option old. \<not> equal x new"
  proof (cases old)
    case (Some y)
    then have "y \<in> A" "equal y new" using m by (auto simp: matches_def)
    then show ?thesis using assms equal_sym equal_trans Some unfolding holds_def by (metis DiffE option.set_intros)
  qed (use m in \<open>simp add: matches_def\<close>)
  then have "holds (insert_elem h1 (bucket_idx h new) new) (insert new (A - set_option old))"
    using holds_insert [OF h1, of new] b by simp
  then obtain h' where "rehash ok (insert_elem h1 (bucket_idx h new) new) = Some (Inr h')" "holds h' (insert new (A - set_option old))"
    by (rule holds_rehash)
  then show ?thesis using m find_bucket_value [OF sh] by (auto simp: hash_replace_def h1_def old_def Let_def)
qed

lemma hash_find_value: "holds h A \<Longrightarrow> \<exists>r. hash_find h e = Inr r \<and> matches A e r"
  using find_value find_bucket_value by (auto simp: hash_find_def holds_def)

lemma hash_init_value: "hash_init True hf lt = Some h \<Longrightarrow> holds h {}"
  by (auto simp: hash_init_def hash_clear_def holds_def shape_def is_power_of_2_def turn_off_least_1bit_def Let_def
      map_replicate)

end


section \<open>The functions of a client\<close>

text \<open>A table of integers, hashed by \<open>hash_int\<close>: \<open>val\<close> is the integer in an element.\<close>

definition int_hash :: "(ptr \<Rightarrow> 32 word) \<Rightarrow> ptr \<Rightarrow> 32 word" where "int_hash val e = hash_int (val e)"
definition int_less :: "(ptr \<Rightarrow> 32 word) \<Rightarrow> ptr \<Rightarrow> ptr \<Rightarrow> bool" where "int_less val a b \<longleftrightarrow> val a <s val b"

interpretation ih: hash_client "int_less val" "int_hash val" for val
proof unfold_locales
  fix x y assume "\<not> int_less val x y" "\<not> int_less val y x"
  then have "sint (val x) = sint (val y)" by (simp add: int_less_def word_sless_alt)
  then show "int_hash val x = int_hash val y" by (metis int_hash_def signed_word_eqI)
qed (auto simp: int_less_def word_sless_alt)

section \<open>Iteration\<close>

text \<open>The loop of the comment of \<open>hash_first\<close>, which collects the elements.\<close>

partial_function (option) hash_collect :: "hash \<Rightarrow> hash_iterator \<Rightarrow> ptr list res option" where
  "hash_collect h i =
     bindo (Some (hash_next h i)) (\<lambda>i. case hash_cur i of None \<Rightarrow> Some (Inr [])
       | Some e \<Rightarrow> bindo (hash_collect h i) (\<lambda>es. Some (Inr (e # es))))"

lemma next_loop_None:
  assumes "b < length (buckets h)"
  shows "case concat (drop (b + 1) (buckets h)) of [] \<Rightarrow> hash_cur (next_loop h b None) = None
    | e # es \<Rightarrow> \<exists>b' ys. b' < length (buckets h) \<and> next_loop h b None = \<lparr>it_bucket = b', it_elem = At e\<rparr>
        \<and> buckets h ! b' = e # ys \<and> es = ys @ concat (drop (b' + 1) (buckets h))"
  using assms
proof (induction "length (buckets h) - b" arbitrary: b rule: less_induct)
  case less
  show ?case
  proof (cases "b + 1 < length (buckets h)")
    case False
    then show ?thesis by (simp add: hash_cur_def)
  next
    case True
    then have d: "drop (b + 1) (buckets h) = buckets h ! (b + 1) # drop (b + 1 + 1) (buckets h)"
      using Cons_nth_drop_Suc [of "b + 1" "buckets h"] by simp
    show ?thesis
    proof (cases "buckets h ! (b + 1)")
      case Nil
      have step: "next_loop h b None = next_loop h (b + 1) None" using True Nil by simp
      have c: "concat (drop (b + 1) (buckets h)) = concat (drop (b + 1 + 1) (buckets h))" using d Nil by simp
      show ?thesis unfolding step c using True by (intro less.hyps) auto
    next
      case (Cons e ys)
      then show ?thesis using True d by (auto intro!: exI [of _ "b + 1"])
    qed
  qed
qed

lemma dropWhile_last: "distinct (xs @ zs) \<Longrightarrow> xs \<noteq> [] \<Longrightarrow> dropWhile (\<lambda>x. x \<noteq> last xs) (xs @ zs) = last xs # zs"
  by (induction xs) auto

lemma next_in_value:
  assumes "distinct (xs @ ys)" "c = (if xs = [] then At_head else At (last xs))"
  shows "next_in (xs @ ys) c = Inr (case ys of [] \<Rightarrow> None | y # _ \<Rightarrow> Some y)"
  using assms dropWhile_last [of xs ys] by (auto simp: next_in_def split: list.splits)

lemma hash_collect_loop:
  assumes "distinct (concat (buckets h))" "b < length (buckets h)" "buckets h ! b = xs @ ys"
    "c = (if xs = [] then At_head else At (last xs))"
  shows "hash_collect h \<lparr>it_bucket = b, it_elem = c\<rparr> = Some (Inr (ys @ concat (drop (b + 1) (buckets h))))"
  using assms(2-4)
proof (induction "length (ys @ concat (drop (b + 1) (buckets h)))" arbitrary: b xs ys c)
  case 0
  have "distinct (xs @ ys)" using assms(1) 0(2,3) by (metis distinct_concat_iff nth_mem)
  then have "hash_next h \<lparr>it_bucket = b, it_elem = c\<rparr> = Inr (next_loop h b None)"
    using next_in_value [OF _ 0(4), of ys] 0(1-3) by (simp add: hash_next_def del: next_loop.simps)
  moreover have "concat (drop (b + 1) (buckets h)) = []" using 0(1) by simp
  then have "hash_cur (next_loop h b None) = None" using next_loop_None [OF 0(2)] by (simp only: list.case)
  ultimately show ?case using 0(1) by (subst hash_collect.simps) simp
next
  case (Suc n)
  have dx: "distinct (xs @ ys)" using assms(1) Suc(3,4) by (metis distinct_concat_iff nth_mem)
  have nx: "hash_next h \<lparr>it_bucket = b, it_elem = c\<rparr> = Inr (next_loop h b (case ys of [] \<Rightarrow> None | y # _ \<Rightarrow> Some y))"
    using next_in_value [OF dx Suc(5)] Suc(3,4) by (simp add: hash_next_def)
  show ?case
  proof (cases ys)
    case (Cons y zs)
    have "hash_collect h \<lparr>it_bucket = b, it_elem = At y\<rparr> = Some (Inr (zs @ concat (drop (b + 1) (buckets h))))"
      by (rule Suc(1) [of zs b "xs @ [y]"]) (use Suc Cons in auto)
    then show ?thesis using nx Cons by (subst hash_collect.simps) (simp add: hash_cur_def)
  next
    case Nil
    then have "length (concat (drop (b + 1) (buckets h))) = Suc n" using Suc(2) by simp
    then obtain e es where e: "concat (drop (b + 1) (buckets h)) = e # es" unfolding length_Suc_conv by blast
    then obtain b' zs where n: "b' < length (buckets h)" "next_loop h b None = \<lparr>it_bucket = b', it_elem = At e\<rparr>"
        "buckets h ! b' = e # zs" "es = zs @ concat (drop (b' + 1) (buckets h))"
      using next_loop_None [OF Suc(3)] by auto
    have "hash_collect h \<lparr>it_bucket = b', it_elem = At e\<rparr> = Some (Inr (zs @ concat (drop (b' + 1) (buckets h))))"
      by (rule Suc(1) [of zs b' "[e]"]) (use Suc(2) Nil e n in auto)
    then show ?thesis using nx Nil n e by (subst hash_collect.simps) (simp add: hash_cur_def)
  qed
qed

section \<open>Properties\<close>

text \<open>C31: A hash table implements a finite set of elements, no two of them equal for the client. For every comparison that is a
  strict weak order and every hash function that agrees on equal elements, a new table is empty; \<open>hash_find\<close> returns
  the member equal to its argument if there is one; \<open>hash_insert\<close> adds an element unless an equal one is there, \<open>hash_replace\<close>
  puts it in the place of the equal one, and \<open>hash_delete\<close> removes the equal one. All of them return, keep every element in
  the bucket of its hash value, and do so whether or not the allocation of new buckets in \<open>rehash\<close> succeeds.\<close>

theorem hash_refines_set:
  assumes "hash_client lt hf"
  shows "(hash_init True hf lt = Some h0 \<longrightarrow> hash_client.holds lt hf h0 {})
    \<and> (hash_client.holds lt hf h A \<longrightarrow>
        (\<exists>r. hash_find h e = Inr r \<and> hash_client.matches lt A e r)
      \<and> (\<exists>old h'. hash_insert ok h e = Some (Inr (old, h'))
          \<and> hash_client.matches lt A e old \<and> hash_client.holds lt hf h' (if old = None then insert e A else A))
      \<and> (\<exists>old h'. hash_replace ok h e = Some (Inr (old, h'))
          \<and> hash_client.matches lt A e old \<and> hash_client.holds lt hf h' (insert e (A - set_option old)))
      \<and> (\<exists>old h'. hash_delete ok h e = Some (Inr (old, h'))
          \<and> hash_client.matches lt A e old \<and> hash_client.holds lt hf h' (A - set_option old)))"
  using hash_client.hash_init_value [OF assms] hash_client.hash_find_value [OF assms] hash_client.hash_insert_value [OF assms]
    hash_client.hash_replace_value [OF assms] hash_client.hash_delete_value [OF assms] by blast

theorem hash_refines_set_witness:
  "\<exists>h0 old h'. hash_init True (int_hash of_nat) (int_less of_nat) = Some h0
    \<and> hash_insert True h0 8 = Some (Inr (old, h')) \<and> old = None \<and> ih.holds of_nat h' {8}"
proof -
  obtain h0 where h0: "hash_init True (int_hash of_nat) (int_less of_nat) = Some h0" by (auto simp: hash_init_def)
  note R = hash_refines_set [OF ih.hash_client_axioms [of of_nat], of h0]
  have "ih.holds of_nat h0 {}" using R h0 by blast
  then obtain old h' where "hash_insert True h0 8 = Some (Inr (old, h'))" "ih.matches of_nat {} 8 old"
      "ih.holds of_nat h' (if old = None then {8} else {})" using R by blast
  then show ?thesis using h0 by (cases old) (auto simp: ih.matches_def)
qed

text \<open>C37: Iterating over a table with \<open>hash_first\<close> and \<open>hash_next\<close> ends and visits every member exactly once, in the order of
  \<open>hash_apply\<close>.\<close>

theorem hash_iteration:
  assumes "distinct (concat (buckets h))" "buckets h \<noteq> []"
  shows "\<exists>es. hash_collect h hash_first = Some (Inr es) \<and> distinct es \<and> set es = \<Union> (set ` set (buckets h))
    \<and> hash_apply (\<lambda>e l. l @ [e]) h [] = es"
proof -
  have "foldl (\<lambda>s bucket. foldl (\<lambda>s e. s @ [e]) s bucket) xs bs = xs @ concat bs" for xs :: "ptr list" and bs
  proof (induction bs arbitrary: xs)
    case (Cons b bs)
    have "foldl (\<lambda>s e. s @ [e]) ys b = ys @ b" for ys by (induction b arbitrary: ys) auto
    then show ?case using Cons by simp
  qed simp
  moreover have "hash_collect h hash_first = Some (Inr (concat (buckets h)))"
    using hash_collect_loop [OF assms(1), of 0 "[]" "buckets h ! 0" At_head] assms(2)
    by (cases "buckets h") (auto simp: hash_first_def)
  ultimately show ?thesis using assms(1) by (simp add: hash_apply_def)
qed

theorem hash_iteration_witness:
  "\<exists>es. hash_collect \<lparr>elem_count = 3, bucket_count = 4, buckets = [[], [8, 4], [], [6]], hash_fn = (\<lambda>_. 0), less_fn = (<)\<rparr> hash_first
    = Some (Inr es) \<and> distinct es \<and> set es = {4, 6, 8}"
  using hash_iteration [of "\<lparr>elem_count = 3, bucket_count = 4, buckets = [[], [8, 4], [], [6]], hash_fn = (\<lambda>_. 0), less_fn = (<)\<rparr>"]
  by auto

end
