(* ===== verification/Pagedir.thy ===== *)
theory Pagedir
  imports Palloc Strings
begin

text \<open>
  Page directories (userprog/pagedir.c) as 32-bit words in the memory of the page allocator: a page of directory
  entries, each of them zero or the address of a page of page table entries. The register CR3 is a field;
  reloading it, which empties the TLB, does not change the state otherwise. The main result is that a well-formed page directory is
  a partial map from user pages to page table entries.
\<close>

section \<open>Words in memory\<close>

definition load32 :: "memory \<Rightarrow> addr \<Rightarrow> addr" where
  "load32 m a = load_elem m a"

definition store32 :: "memory \<Rightarrow> addr \<Rightarrow> addr \<Rightarrow> memory" where
  "store32 m a w = m(a := ucast w, a + 1 := ucast (drop_bit 8 w), a + 2 := ucast (drop_bit 16 w), a + 3 := ucast (drop_bit 24 w))"

record mmu =
  pal :: palloc
  init_page_dir :: addr
  init_ram_pages :: addr
  cr3 :: addr

abbreviation mem :: "mmu \<Rightarrow> memory" where "mem s \<equiv> pmem (pal s)"

definition put_word :: "addr \<Rightarrow> addr \<Rightarrow> mmu \<Rightarrow> mmu" where
  "put_word a w s = s\<lparr>pal := (pal s)\<lparr>pmem := store32 (mem s) a w\<rparr>\<rparr>"

definition get_page :: "palloc_flags \<Rightarrow> mmu \<Rightarrow> (addr \<times> mmu) res" where
  "get_page flags s = bindr (palloc_get_page (pal s) flags) (\<lambda>(p, pl). Inr (p, s\<lparr>pal := pl\<rparr>))"

definition free_page :: "addr \<Rightarrow> mmu \<Rightarrow> mmu res" where
  "free_page p s = bindr (palloc_free_page (pal s) p) (\<lambda>pl. Inr (s\<lparr>pal := pl\<rparr>))"

section \<open>Operations\<close>

definition pagedir_create :: "mmu \<Rightarrow> (addr \<times> mmu) res" where
  "pagedir_create s =
     bindr (get_page 0 s) (\<lambda>(pd, s).
     if pd \<noteq> 0 then bindr (memcpy (mem s) pd (init_page_dir s) PGSIZE) (\<lambda>(_, m). Inr (pd, s\<lparr>pal := (pal s)\<lparr>pmem := m\<rparr>\<rparr>))
     else Inr (pd, s))"

primrec destroy_ptes :: "addr \<Rightarrow> nat list \<Rightarrow> mmu \<Rightarrow> mmu res" where
  "destroy_ptes pt [] s = Inr s"
| "destroy_ptes pt (k # ks) s =
     (let pte = load32 (mem s) (pt + of_nat (4 * k)) in
      bindr (if pte AND PTE_P \<noteq> 0 then bindr (pte_get_page pte) (\<lambda>p. free_page p s) else Inr s) (destroy_ptes pt ks))"

primrec destroy_pdes :: "addr \<Rightarrow> nat list \<Rightarrow> mmu \<Rightarrow> mmu res" where
  "destroy_pdes pd [] s = Inr s"
| "destroy_pdes pd (k # ks) s =
     (let pde = load32 (mem s) (pd + of_nat (4 * k)) in
      bindr (if pde AND PTE_P \<noteq> 0
             then bindr (pde_get_pt pde) (\<lambda>pt. bindr (destroy_ptes pt [0..<1024] s) (free_page pt))
             else Inr s) (destroy_pdes pd ks))"

definition pagedir_destroy :: "addr \<Rightarrow> mmu \<Rightarrow> mmu res" where
  "pagedir_destroy pd s =
     (if pd = 0 then Inr s
      else require (pd \<noteq> init_page_dir s) ''pd != init_page_dir''
        (bindr (destroy_pdes pd [0..<unat (pd_no PHYS_BASE)] s) (free_page pd)))"

definition lookup_page :: "addr \<Rightarrow> addr \<Rightarrow> bool \<Rightarrow> mmu \<Rightarrow> (addr \<times> mmu) res" where
  "lookup_page pd vaddr create s =
     require (pd \<noteq> 0) ''pd != NULL''
     (require (\<not> create \<or> is_user_vaddr vaddr) ''!create || is_user_vaddr (vaddr)''
     (let pde = pd + 4 * pd_no vaddr;
          entry = (\<lambda>s. bindr (pde_get_pt (load32 (mem s) pde)) (\<lambda>pt. Inr (pt + 4 * pt_no vaddr, s))) in
      if load32 (mem s) pde = 0 then
        if create then
          bindr (get_page PAL_ZERO s) (\<lambda>(pt, s).
            if pt = 0 then Inr (0, s)
            else bindr (pde_create pt) (\<lambda>e. entry (put_word pde e s)))
        else Inr (0, s)
      else entry s))"

definition pagedir_set_page :: "addr \<Rightarrow> addr \<Rightarrow> addr \<Rightarrow> bool \<Rightarrow> mmu \<Rightarrow> (bool \<times> mmu) res" where
  "pagedir_set_page pd upage kpage writable s =
     require (pg_ofs upage = 0) ''pg_ofs (upage) == 0''
     (require (pg_ofs kpage = 0) ''pg_ofs (kpage) == 0''
     (require (is_user_vaddr upage) ''is_user_vaddr (upage)''
     (bindr (vtop kpage) (\<lambda>pa.
      require (drop_bit PTSHIFT pa < init_ram_pages s) ''vtop (kpage) >> PTSHIFT < init_ram_pages''
     (require (pd \<noteq> init_page_dir s) ''pd != init_page_dir''
     (bindr (lookup_page pd upage True s) (\<lambda>(pte, s).
      if pte \<noteq> 0 then
        require (load32 (mem s) pte AND PTE_P = 0) ''(*pte & PTE_P) == 0''
        (bindr (pte_create_user kpage writable) (\<lambda>e. Inr (True, put_word pte e s)))
      else Inr (False, s))))))))"

definition pagedir_get_page :: "addr \<Rightarrow> addr \<Rightarrow> mmu \<Rightarrow> addr res" where
  "pagedir_get_page pd uaddr s =
     require (is_user_vaddr uaddr) ''is_user_vaddr (uaddr)''
     (bindr (lookup_page pd uaddr False s) (\<lambda>(pte, s).
      if pte \<noteq> 0 \<and> load32 (mem s) pte AND PTE_P \<noteq> 0
      then bindr (pte_get_page (load32 (mem s) pte)) (\<lambda>p. Inr (p + pg_ofs uaddr))
      else Inr 0))"

definition pagedir_activate :: "addr \<Rightarrow> mmu \<Rightarrow> mmu res" where
  "pagedir_activate pd s = bindr (vtop (if pd = 0 then init_page_dir s else pd)) (\<lambda>pa. Inr (s\<lparr>cr3 := pa\<rparr>))"

definition active_pd :: "mmu \<Rightarrow> addr res" where
  "active_pd s = ptov (cr3 s)"

definition invalidate_pagedir :: "addr \<Rightarrow> mmu \<Rightarrow> mmu res" where
  "invalidate_pagedir pd s = bindr (active_pd s) (\<lambda>a. if a = pd then pagedir_activate pd s else Inr s)"

definition pagedir_clear_page :: "addr \<Rightarrow> addr \<Rightarrow> mmu \<Rightarrow> mmu res" where
  "pagedir_clear_page pd upage s =
     require (pg_ofs upage = 0) ''pg_ofs (upage) == 0''
     (require (is_user_vaddr upage) ''is_user_vaddr (upage)''
     (bindr (lookup_page pd upage False s) (\<lambda>(pte, s).
      if pte \<noteq> 0 \<and> load32 (mem s) pte AND PTE_P \<noteq> 0
      then invalidate_pagedir pd (put_word pte (load32 (mem s) pte AND NOT PTE_P) s)
      else Inr s)))"

text \<open>The dirty and the accessed bit have the same operations.\<close>

definition get_flag :: "addr \<Rightarrow> addr \<Rightarrow> addr \<Rightarrow> mmu \<Rightarrow> bool res" where
  "get_flag flag pd vpage s =
     bindr (lookup_page pd vpage False s) (\<lambda>(pte, s). Inr (pte \<noteq> 0 \<and> load32 (mem s) pte AND flag \<noteq> 0))"

definition set_flag :: "addr \<Rightarrow> addr \<Rightarrow> addr \<Rightarrow> bool \<Rightarrow> mmu \<Rightarrow> mmu res" where
  "set_flag flag pd vpage b s =
     bindr (lookup_page pd vpage False s) (\<lambda>(pte, s).
      if pte \<noteq> 0 then
        if b then Inr (put_word pte (load32 (mem s) pte OR flag) s)
        else invalidate_pagedir pd (put_word pte (load32 (mem s) pte AND NOT flag) s)
      else Inr s)"

definition pagedir_is_dirty :: "addr \<Rightarrow> addr \<Rightarrow> mmu \<Rightarrow> bool res" where
  "pagedir_is_dirty pd vpage s = get_flag PTE_D pd vpage s"

definition pagedir_set_dirty :: "addr \<Rightarrow> addr \<Rightarrow> bool \<Rightarrow> mmu \<Rightarrow> mmu res" where
  "pagedir_set_dirty pd vpage dirty s = set_flag PTE_D pd vpage dirty s"

definition pagedir_is_accessed :: "addr \<Rightarrow> addr \<Rightarrow> mmu \<Rightarrow> bool res" where
  "pagedir_is_accessed pd vpage s = get_flag PTE_A pd vpage s"

definition pagedir_set_accessed :: "addr \<Rightarrow> addr \<Rightarrow> bool \<Rightarrow> mmu \<Rightarrow> mmu res" where
  "pagedir_set_accessed pd vpage accessed s = set_flag PTE_A pd vpage accessed s"

section \<open>Loads and stores\<close>

lemma word_bytes: "ucast (ucast w :: 8 word) OR push_bit 8 (ucast (ucast (drop_bit 8 w) :: 8 word))
    OR push_bit 16 (ucast (ucast (drop_bit 16 w) :: 8 word)) OR push_bit 24 (ucast (ucast (drop_bit 24 w) :: 8 word)) = (w :: 32 word)"
  (is "?L = w")
proof (rule bit_word_eqI)
  fix n assume "n < LENGTH(32)"
  then consider "n < 8" | "8 \<le> n" "n < 16" | "16 \<le> n" "n < 24" | "24 \<le> n" "n < 32" by force
  then show "bit ?L n = bit w n" by cases (auto simp: bit_simps)
qed

lemma load_store_same: "load32 (store32 m a w) a = w"
  using word_bytes [of w] by (simp add: load32_def load_elem_def store32_def)

text \<open>Addresses of words: multiples of 4. The bytes of two different words do not overlap, and a word lies in one page.\<close>

definition aligned :: "addr \<Rightarrow> bool" where "aligned a \<longleftrightarrow> unat a mod 4 = 0"

lemma aligned_byte: "aligned a \<Longrightarrow> i < 4 \<Longrightarrow> unat (a + of_nat i) = unat a + i"
  using unat_size [of a] by (intro unat_plus_small) (auto simp: aligned_def)

lemma aligned_bytes: "aligned a \<Longrightarrow> unat (a + 1) = unat a + 1 \<and> unat (a + 2) = unat a + 2 \<and> unat (a + 3) = unat a + 3"
  using aligned_byte [of a 1] aligned_byte [of a 2] aligned_byte [of a 3] by simp

lemma load_store_other:
  assumes "aligned a" "aligned b" "a \<noteq> b"
  shows "load32 (store32 m a w) b = load32 m b"
proof -
  note A = aligned_bytes [OF assms(1)] and B = aligned_bytes [OF assms(2)]
  have ne: "unat a \<noteq> unat b" using assms(3) by (simp add: word_unat_eq_iff)
  have "unat a mod 4 = 0" "unat b mod 4 = 0" using assms by (auto simp: aligned_def)
  then have "unat a + 4 \<le> unat b \<or> unat b + 4 \<le> unat a" using ne by presburger
  moreover have "unat b \<le> unat x \<and> unat x \<le> unat b + 3" if "x \<in> {b, b + 1, b + 2, b + 3}" for x using that B by auto
  ultimately have "unat x < unat a \<or> unat a + 3 < unat x" if "x \<in> {b, b + 1, b + 2, b + 3}" for x using that by force
  then have "x \<notin> {a, a + 1, a + 2, a + 3}" if "x \<in> {b, b + 1, b + 2, b + 3}" for x using that A by force
  then have "store32 m a w x = m x" if "x \<in> {b, b + 1, b + 2, b + 3}" for x using that unfolding store32_def by simp
  then show ?thesis by (simp add: load32_def load_elem_def)
qed

lemma page_num_alt: "page_num a = unat a div 4096"
  by (simp add: page_num_def pg_no_unat)

lemma aligned_page: "aligned a \<Longrightarrow> x \<in> {a, a + 1, a + 2, a + 3} \<Longrightarrow> page_num x = page_num a"
proof -
  assume a: "aligned a" and x: "x \<in> {a, a + 1, a + 2, a + 3}"
  then obtain i where i: "i < 4" "unat x = unat a + i" using aligned_bytes [OF a] by auto
  obtain q where q: "unat a = 4 * q" using a unfolding aligned_def by (metis mod_0_imp_dvd dvdE)
  have "(4 * q + i) div 4096 = 4 * q div 4096" using i(1) div_mult2_eq [of "4 * q + i" 4 1024] div_mult2_eq [of "4 * q" 4 1024] by simp
  then have "(unat a + i) div 4096 = unat a div 4096" by (simp add: q)
  then show ?thesis using i(2) by (simp add: page_num_alt)
qed

lemma load32_cong:
  assumes "aligned a" "\<And>x. page_num x = page_num a \<Longrightarrow> m' x = m x"
  shows "load32 m' a = load32 m a"
proof -
  have "m' x = m x" if "x \<in> {a, a + 1, a + 2, a + 3}" for x using assms(2) aligned_page [OF assms(1) that] by blast
  then show ?thesis by (simp add: load32_def load_elem_def)
qed

section \<open>Entries of a page\<close>

text \<open>The word with index \<open>k\<close> of the page at \<open>p\<close>.\<close>

lemma page_word:
  assumes "pg_ofs p = 0" "k < 1024"
  shows "unat (p + of_nat (4 * k)) = unat p + 4 * k" "aligned (p + of_nat (4 * k))" "page_num (p + of_nat (4 * k)) = page_num p"
proof -
  have p: "unat p mod 4096 = 0" using assms(1) pg_ofs_unat [of p] by simp
  then obtain q where q: "unat p = 4096 * q" by (metis mod_0_imp_dvd dvdE)
  have "unat p + 4 * k < 2 ^ 32" using unat_size [of p] assms(2) q by simp
  then show u: "unat (p + of_nat (4 * k)) = unat p + 4 * k" by (rule unat_plus_small)
  have "4 dvd 4096 * q + 4 * k" by (intro dvd_add) simp_all
  then show "aligned (p + of_nat (4 * k))" unfolding aligned_def u q by (simp only: mod_eq_0_iff_dvd)
  show "page_num (p + of_nat (4 * k)) = page_num p" unfolding page_num_alt u q using assms(2) by simp
qed

lemma index_bounds: "unat (pt_no va) < 1024" "is_user_vaddr va \<Longrightarrow> unat (pd_no va) < 768"
  by (auto simp: index_values is_user_vaddr_def PHYS_BASE_def word_less_nat_alt less_mult_imp_div_less)

lemma page_word_inj:
  assumes "pg_ofs p = 0" "pg_ofs q = 0" "j < 1024" "k < 1024" "p + of_nat (4 * j) = q + of_nat (4 * k)"
  shows "p = q \<and> j = k"
proof -
  have "page_num p = page_num q" using page_word(3) [OF assms(1,3)] page_word(3) [OF assms(2,4)] assms(5) by simp
  moreover have "unat p mod 4096 = 0" "unat q mod 4096 = 0" using assms(1,2) pg_ofs_unat [of p] pg_ofs_unat [of q] by simp_all
  ultimately have "unat p = unat q" unfolding page_num_alt by (metis mod_mult_div_eq add_0)
  moreover have "unat p + 4 * j = unat q + 4 * k"
    using page_word(1) [OF assms(1,3)] page_word(1) [OF assms(2,4)] unfolding assms(5) by (rule trans [OF sym])
  ultimately show ?thesis by (simp add: word_unat_eq_iff)
qed

section \<open>Well-formed page directories\<close>

definition pde_of :: "mmu \<Rightarrow> addr \<Rightarrow> nat \<Rightarrow> addr" where
  "pde_of s pd k = load32 (mem s) (pd + of_nat (4 * k))"

text \<open>The page table of a directory entry.\<close>

definition table :: "mmu \<Rightarrow> addr \<Rightarrow> nat \<Rightarrow> addr option" where
  "table s pd k = (if pde_of s pd k = 0 then None else case pde_get_pt (pde_of s pd k) of Inl _ \<Rightarrow> None | Inr pt \<Rightarrow> Some pt)"

text \<open>The directory and its page tables for user addresses are different allocated pages.\<close>

definition pd_ok :: "mmu \<Rightarrow> addr \<Rightarrow> bool" where
  "pd_ok s pd \<longleftrightarrow> palloc_ok (pal s) \<and> pd \<noteq> 0 \<and> pg_ofs pd = 0 \<and> page_num pd \<in> allocated (pal s)
     \<and> (\<forall>k < 768. pde_of s pd k \<noteq> 0 \<longrightarrow> (\<exists>pt. table s pd k = Some pt \<and> pt \<noteq> 0 \<and> pg_ofs pt = 0
          \<and> page_num pt \<in> allocated (pal s) \<and> pt \<noteq> pd))
     \<and> (\<forall>j < 768. \<forall>k < 768. j \<noteq> k \<longrightarrow> table s pd j \<noteq> None \<longrightarrow> table s pd j \<noteq> table s pd k)"

text \<open>The address of the page table entry for an address, and its value.\<close>

definition slot :: "mmu \<Rightarrow> addr \<Rightarrow> addr \<Rightarrow> addr option" where
  "slot s pd va = map_option (\<lambda>pt. pt + of_nat (4 * unat (pt_no va))) (table s pd (unat (pd_no va)))"

definition pte_of :: "mmu \<Rightarrow> addr \<Rightarrow> addr \<Rightarrow> addr option" where
  "pte_of s pd va = map_option (load32 (mem s)) (slot s pd va)"

definition same_slot :: "addr \<Rightarrow> addr \<Rightarrow> bool" where
  "same_slot va vb \<longleftrightarrow> pd_no va = pd_no vb \<and> pt_no va = pt_no vb"

lemma same_page: "same_slot va vb \<longleftrightarrow> pg_no va = pg_no vb"
proof -
  have "q div 1024 = r div 1024 \<and> q mod 1024 = r mod 1024 \<longleftrightarrow> q = (r :: nat)" for q r by (metis div_mult_mod_eq)
  moreover have "unat va div 4194304 = unat va div 4096 div 1024" for va :: addr by (simp add: div_mult2_eq [symmetric])
  ultimately show ?thesis by (auto simp: same_slot_def word_unat_eq_iff index_values pg_no_unat)
qed

lemma tableD:
  assumes "pd_ok s pd" "k < 768" "table s pd k = Some pt"
  shows "pt \<noteq> 0" "pg_ofs pt = 0" "page_num pt \<in> allocated (pal s)" "pt \<noteq> pd" "pde_get_pt (pde_of s pd k) = Inr pt" "pde_of s pd k \<noteq> 0"
proof -
  show "pde_of s pd k \<noteq> 0" "pde_get_pt (pde_of s pd k) = Inr pt"
    using assms(3) by (auto simp: table_def split: if_splits sum.splits)
  then show "pt \<noteq> 0" "pg_ofs pt = 0" "page_num pt \<in> allocated (pal s)" "pt \<noteq> pd"
    using assms unfolding pd_ok_def by auto
qed

lemma pd_entry: "pd_no va = of_nat (unat (pd_no va))" "pt_no va = of_nat (unat (pt_no va))"
  by simp_all

lemma entry_addr: "(p :: addr) + 4 * i = p + of_nat (4 * unat i)"
  by simp

lemma lookup_page_find:
  assumes "pd_ok s pd" "is_user_vaddr va" "slot s pd va = Some a"
  shows "lookup_page pd va c s = Inr (a, s)" "a \<noteq> 0" "aligned a"
proof -
  let ?k = "unat (pd_no va)"
  obtain pt where pt: "table s pd ?k = Some pt" "a = pt + of_nat (4 * unat (pt_no va))" using assms(3) by (auto simp: slot_def)
  note t = tableD [OF assms(1) index_bounds(2) [OF assms(2)] pt(1)]
  have u: "unat a = unat pt + 4 * unat (pt_no va)" "aligned a"
    using page_word(1,2) [OF t(2) index_bounds(1), of va] by (simp_all add: pt(2))
  have "unat pt \<noteq> 0" using t(1) by (simp add: unat_eq_0)
  then have "unat a \<noteq> 0" using u(1) by simp
  then show "a \<noteq> 0" "aligned a" using u(2) by auto
  have "load32 (mem s) (pd + 4 * pd_no va) = pde_of s pd ?k" by (simp add: pde_of_def)
  then show "lookup_page pd va c s = Inr (a, s)"
    using t assms(1,2) pt(2) unfolding lookup_page_def by (auto simp: pd_ok_def Let_def)
qed

lemma lookup_page_none:
  assumes "pd_ok s pd" "is_user_vaddr va" "slot s pd va = None"
  shows "lookup_page pd va False s = Inr (0, s)" "pde_of s pd (unat (pd_no va)) = 0"
proof -
  show z: "pde_of s pd (unat (pd_no va)) = 0"
    using assms index_bounds(2) [OF assms(2)] unfolding pd_ok_def slot_def by auto
  then show "lookup_page pd va False s = Inr (0, s)"
    using assms(1) by (simp add: lookup_page_def pd_ok_def Let_def pde_of_def)
qed

lemma pagedir_get_page_value:
  assumes "pd_ok s pd" "is_user_vaddr va"
  shows "pagedir_get_page pd va s = (case pte_of s pd va of
      Some e \<Rightarrow> if e AND PTE_P \<noteq> 0 then bindr (pte_get_page e) (\<lambda>p. Inr (p + pg_ofs va)) else Inr 0 | None \<Rightarrow> Inr 0)"
proof (cases "slot s pd va")
  case None
  then show ?thesis using lookup_page_none(1) [OF assms] assms(2) by (simp add: pagedir_get_page_def pte_of_def)
next
  case (Some a)
  then show ?thesis using lookup_page_find [OF assms Some] assms(2) by (simp add: pagedir_get_page_def pte_of_def)
qed

section \<open>Changing an entry\<close>

lemma put_word_simps [simp]: "palloc_ok (pal (put_word a e s)) = palloc_ok (pal s)" "allocated (pal (put_word a e s)) = allocated (pal s)"
  "mem (put_word a e s) = store32 (mem s) a e" "init_page_dir (put_word a e s) = init_page_dir s"
  "init_ram_pages (put_word a e s) = init_ram_pages s" "cr3 (put_word a e s) = cr3 s"
  by (simp_all add: put_word_def)

lemma table_cong: "pde_of s' pd k = pde_of s pd k \<Longrightarrow> table s' pd k = table s pd k"
  by (simp add: table_def)

lemma pd_ok_cong:
  assumes "pd_ok s pd" "\<And>k. k < 768 \<Longrightarrow> pde_of s' pd k = pde_of s pd k" "palloc_ok (pal s')" "allocated (pal s) \<subseteq> allocated (pal s')"
  shows "pd_ok s' pd"
proof -
  have "table s' pd k = table s pd k" if "k < 768" for k using table_cong assms(2) that by blast
  then show ?thesis using assms unfolding pd_ok_def by (auto; blast)
qed

lemma slotD:
  assumes "pd_ok s pd" "is_user_vaddr va" "slot s pd va = Some a"
  obtains pt where "table s pd (unat (pd_no va)) = Some pt" "a = pt + of_nat (4 * unat (pt_no va))" "pg_ofs pt = 0" "pt \<noteq> pd"
    "page_num pt \<in> allocated (pal s)" "page_num a = page_num pt"
proof -
  obtain pt where pt: "table s pd (unat (pd_no va)) = Some pt" "a = pt + of_nat (4 * unat (pt_no va))"
    using assms(3) by (auto simp: slot_def)
  note t = tableD [OF assms(1) index_bounds(2) [OF assms(2)] pt(1)]
  show thesis by (rule that [OF pt t(2,4,3)]) (simp only: pt(2) page_word(3) [OF t(2) index_bounds(1)])
qed

lemma slot_inj:
  assumes "pd_ok s pd" "is_user_vaddr va" "is_user_vaddr vb" "slot s pd va = Some a" "slot s pd vb = Some a"
  shows "same_slot va vb"
proof -
  obtain pt where p: "table s pd (unat (pd_no va)) = Some pt" "a = pt + of_nat (4 * unat (pt_no va))" "pg_ofs pt = 0"
    by (rule slotD [OF assms(1,2,4)])
  obtain qt where q: "table s pd (unat (pd_no vb)) = Some qt" "a = qt + of_nat (4 * unat (pt_no vb))" "pg_ofs qt = 0"
    by (rule slotD [OF assms(1,3,5)])
  have "pt = qt \<and> unat (pt_no va) = unat (pt_no vb)"
    using page_word_inj [OF p(3) q(3) index_bounds(1) index_bounds(1)] p(2) q(2) by blast
  moreover from this have "unat (pd_no va) = unat (pd_no vb)"
    using assms(1) p(1) q(1) index_bounds(2) [OF assms(2)] index_bounds(2) [OF assms(3)] unfolding pd_ok_def by (metis option.distinct(1))
  ultimately show ?thesis by (simp add: same_slot_def word_unat_eq_iff)
qed

lemma put_entry:
  assumes "pd_ok s pd" "is_user_vaddr va" "slot s pd va = Some a"
  shows "pd_ok (put_word a e s) pd"
    and "is_user_vaddr vb \<Longrightarrow> pte_of (put_word a e s) pd vb = (if same_slot va vb then Some e else pte_of s pd vb)"
proof -
  obtain pt where pt: "table s pd (unat (pd_no va)) = Some pt" "a = pt + of_nat (4 * unat (pt_no va))" "pg_ofs pt = 0" "pt \<noteq> pd"
    by (rule slotD [OF assms])
  have pd: "pg_ofs pd = 0" using assms(1) by (simp add: pd_ok_def)
  have al: "aligned a" by (rule lookup_page_find(3) [OF assms])
  have pde: "pde_of (put_word a e s) pd k = pde_of s pd k" if "k < 768" for k
  proof -
    have k: "k < 1024" using that by simp
    have "a \<noteq> pd + of_nat (4 * k)" unfolding pt(2) using page_word_inj [OF pt(3) pd index_bounds(1) k] pt(4) by blast
    then show ?thesis unfolding pde_of_def put_word_simps by (rule load_store_other [OF al page_word(2) [OF pd k]])
  qed
  show "pd_ok (put_word a e s) pd" by (rule pd_ok_cong [OF assms(1) pde]) (use assms(1) in \<open>auto simp: pd_ok_def\<close>)
  assume vb: "is_user_vaddr vb"
  have sl: "slot (put_word a e s) pd vb = slot s pd vb"
    unfolding slot_def using table_cong [OF pde [OF index_bounds(2) [OF vb]]] by simp
  show "pte_of (put_word a e s) pd vb = (if same_slot va vb then Some e else pte_of s pd vb)"
  proof (cases "slot s pd vb")
    case None
    then have "\<not> same_slot va vb" using assms(3) by (auto simp: same_slot_def slot_def)
    then show ?thesis using None sl by (simp add: pte_of_def)
  next
    case (Some b)
    show ?thesis
    proof (cases "same_slot va vb")
      case True
      then have "b = a" using Some assms(3) by (auto simp: same_slot_def slot_def)
      then show ?thesis using True Some sl by (simp add: pte_of_def load_store_same)
    next
      case False
      then have "a \<noteq> b" using slot_inj [OF assms(1,2) vb assms(3)] Some by blast
      then show ?thesis using False Some sl load_store_other [OF al lookup_page_find(3) [OF assms(1) vb Some]] by (simp add: pte_of_def)
    qed
  qed
qed

section \<open>A new page table\<close>

lemma kernel_page:
  assumes "pool_ok p" "page_num a \<in> pool_pages p"
  shows "is_kernel_vaddr a"
proof -
  have "0xc0000000 \<le> unat (base p)" using assms(1) by (simp add: pool_ok_def is_kernel_vaddr_def PHYS_BASE_def word_le_nat_alt)
  then have "0xc0000000 div 4096 \<le> page_num (base p)" unfolding page_num_alt by (rule div_le_mono)
  then have "0xc0000 \<le> unat a div 4096" using assms(2) by (simp add: pool_pages_def page_num_alt)
  then have "0xc0000 * 4096 \<le> unat a" by (simp add: less_eq_div_iff_mult_less_eq)
  then show ?thesis by (simp add: is_kernel_vaddr_def PHYS_BASE_def word_le_nat_alt)
qed

lemma kernel_page_num: "is_kernel_vaddr a \<longleftrightarrow> 0xc0000 \<le> page_num a"
  by (simp add: is_kernel_vaddr_def PHYS_BASE_def word_le_nat_alt page_num_alt less_eq_div_iff_mult_less_eq)

lemma get_page_cases:
  assumes "palloc_ok (pal s)" "flags AND PAL_ASSERT = 0"
  obtains (page) p s' where "get_page flags s = Inr (p, s')" "p \<noteq> 0" "pg_ofs p = 0" "is_kernel_vaddr p" "palloc_ok (pal s')"
      "page_num p \<notin> allocated (pal s)" "page_num p \<in> pool_pages (get_pool (pal s) (flags AND PAL_USER \<noteq> 0))"
      "allocated (pal s') = insert (page_num p) (allocated (pal s))" "\<And>v. pool_pages (get_pool (pal s') v) = pool_pages (get_pool (pal s) v)"
      "\<And>a. mem s' a = (if flags AND PAL_ZERO \<noteq> 0 \<and> page_num a = page_num p then 0 else mem s a)" "s' = s\<lparr>pal := pal s'\<rparr>"
  | (full) "get_page flags s = Inr (0, s)" "pool_pages (get_pool (pal s) (flags AND PAL_USER \<noteq> 0)) \<subseteq> allocated (pal s)"
proof -
  let ?u = "flags AND PAL_USER \<noteq> 0"
  have r: "page_range p 1 = {page_num p}" for p by (auto simp: page_range_def)
  have kp: "pool_ok (get_pool (pal s) ?u)" using assms(1) by (simp add: palloc_ok_def get_pool_def)
  show thesis
    using palloc_get_multiple_cases [OF assms(1) zero_less_one, of flags]
  proof (elim disjE exE conjE, goal_cases)
    case (1 p pl)
    have "page_num p \<in> pool_pages (get_pool (pal s) ?u)" "page_num p \<notin> allocated (pal s)" using 1 r by auto
    then show thesis using 1 r kernel_page [OF kp]
      by (intro page [of p "s\<lparr>pal := pl\<rparr>"]) (auto simp: get_page_def palloc_get_page_def)
  next
    case 2
    have "k \<in> allocated (pal s)" if "k \<in> pool_pages (get_pool (pal s) ?u)" for k
    proof -
      have "\<not> {k ..< k + 1} \<subseteq> pool_pages (get_pool (pal s) ?u) - allocated (pal s)" using 2 by blast
      then show ?thesis using that by simp
    qed
    then show thesis using 2 assms(2) by (intro full) (auto simp: get_page_def palloc_get_page_def)
  qed
qed

lemma get_page_zero:
  assumes "palloc_ok (pal s)"
  obtains (page) p s' where "get_page PAL_ZERO s = Inr (p, s')" "p \<noteq> 0" "pg_ofs p = 0" "is_kernel_vaddr p" "palloc_ok (pal s')"
      "page_num p \<notin> allocated (pal s)" "allocated (pal s') = insert (page_num p) (allocated (pal s))"
      "\<And>a. mem s' a = (if page_num a = page_num p then 0 else mem s a)"
      "s' = s\<lparr>pal := pal s'\<rparr>"
  | (full) "get_page PAL_ZERO s = Inr (0, s)" "pool_pages (kernel_pool (pal s)) \<subseteq> allocated (pal s)"
proof -
  have fl: "PAL_ZERO AND PAL_USER = 0" "PAL_ZERO AND PAL_ZERO \<noteq> 0" "PAL_ZERO AND PAL_ASSERT = 0"
    by (simp_all add: PAL_ZERO_def PAL_USER_def PAL_ASSERT_def)
  show thesis
    using assms fl(3)
  proof (cases rule: get_page_cases)
    case (page p s')
    then show thesis using fl(2) by (intro that(1) [of p s']) simp_all
  next
    case full
    then show thesis using fl(1) by (intro that(2)) (simp_all add: get_pool_def)
  qed
qed

lemma new_table:
  assumes "pd_ok s pd" "is_user_vaddr va" "slot s pd va = None" "get_page PAL_ZERO s = Inr (pt, s1)" "pt \<noteq> 0" "pg_ofs pt = 0"
    "is_kernel_vaddr pt" "palloc_ok (pal s1)" "page_num pt \<notin> allocated (pal s)"
    "allocated (pal s1) = insert (page_num pt) (allocated (pal s))"
    "\<And>a. mem s1 a = (if page_num a = page_num pt then 0 else mem s a)" "pde_create pt = Inr d" "pde_get_pt d = Inr pt"
  defines "s2 \<equiv> put_word (pd + of_nat (4 * unat (pd_no va))) d s1"
  shows "pd_ok s2 pd" "slot s2 pd va = Some (pt + of_nat (4 * unat (pt_no va)))"
    "is_user_vaddr vb \<Longrightarrow> pte_of s2 pd vb = (if pd_no vb = pd_no va then Some 0 else pte_of s pd vb)"
proof -
  let ?k = "unat (pd_no va)"
  have pd: "pg_ofs pd = 0" "page_num pd \<in> allocated (pal s)" using assms(1) by (auto simp: pd_ok_def)
  have k: "?k < 768" by (rule index_bounds(2) [OF assms(2)])
  have keep: "load32 (mem s1) a = load32 (mem s) a" if "aligned a" "page_num a \<in> allocated (pal s)" for a
    by (rule load32_cong [OF that(1)]) (use assms(9,11) that(2) in auto)
  have pde: "pde_of s2 pd j = (if j = ?k then d else pde_of s pd j)" if j: "j < 768" for j
  proof -
    have j': "j < 1024" "?k < 1024" using j k by auto
    note w = page_word [OF pd(1) j'(1)] and wk = page_word [OF pd(1) j'(2)]
    show ?thesis
    proof (cases "j = ?k")
      case True
      then show ?thesis by (simp add: pde_of_def s2_def load_store_same)
    next
      case False
      then have "pd + of_nat (4 * ?k) \<noteq> pd + of_nat (4 * j)" using page_word_inj [OF pd(1) pd(1) j'(2,1)] by blast
      then have "load32 (mem s2) (pd + of_nat (4 * j)) = load32 (mem s1) (pd + of_nat (4 * j))"
        unfolding s2_def put_word_simps by (rule load_store_other [OF wk(2) w(2)])
      also have "\<dots> = load32 (mem s) (pd + of_nat (4 * j))" by (rule keep [OF w(2)]) (simp only: w(3) pd(2))
      finally show ?thesis using False unfolding pde_of_def by simp
    qed
  qed
  have "d \<noteq> 0"
  proof
    assume "d = 0"
    then show False using assms(13) by (simp add: pde_get_pt_def require_def)
  qed
  then have tab: "table s2 pd j = (if j = ?k then Some pt else table s pd j)" if "j < 768" for j
    using pde [OF that] assms(13) by (cases "j = ?k") (simp_all add: table_def)
  have new: "pt \<noteq> pd" using pd(2) assms(9) by blast
  have old: "table s pd j \<noteq> Some pt" if "j < 768" for j using tableD(3) [OF assms(1) that, of pt] assms(9) by blast
  show ok: "pd_ok s2 pd"
    unfolding pd_ok_def
  proof (intro conjI allI impI)
    show "palloc_ok (pal s2)" "pd \<noteq> 0" "pg_ofs pd = 0" "page_num pd \<in> allocated (pal s2)"
      using assms(1,8,10) by (auto simp: s2_def pd_ok_def)
    fix j :: nat assume j: "j < 768"
    show "\<exists>pt. table s2 pd j = Some pt \<and> pt \<noteq> 0 \<and> pg_ofs pt = 0 \<and> page_num pt \<in> allocated (pal s2) \<and> pt \<noteq> pd" if "pde_of s2 pd j \<noteq> 0"
      using that tab [OF j] pde [OF j] assms(1,5,6,10) new j by (auto simp: s2_def pd_ok_def)
    fix i :: nat assume i: "i < 768" "j \<noteq> i" "table s2 pd j \<noteq> None"
    have "table s pd j \<noteq> None \<longrightarrow> table s pd j \<noteq> table s pd i" using assms(1) i j unfolding pd_ok_def by blast
    then show "table s2 pd j \<noteq> table s2 pd i"
      using tab [OF j] tab [OF i(1)] old [OF j] old [OF i(1)] i(2,3) by (simp split: if_splits)
  qed
  show "slot s2 pd va = Some (pt + of_nat (4 * unat (pt_no va)))" using tab [OF k] by (simp add: slot_def)
  assume vb: "is_user_vaddr vb"
  have kb: "unat (pd_no vb) < 768" by (rule index_bounds(2) [OF vb])
  have store: "load32 (mem s2) a = load32 (mem s1) a" if "aligned a" "page_num a \<noteq> page_num pd" for a
  proof -
    have "?k < 1024" using k by simp
    note wk = page_word [OF pd(1) this]
    have "pd + of_nat (4 * ?k) \<noteq> a" using wk(3) that(2) by blast
    then show ?thesis unfolding s2_def put_word_simps by (rule load_store_other [OF wk(2) that(1)])
  qed
  show "pte_of s2 pd vb = (if pd_no vb = pd_no va then Some 0 else pte_of s pd vb)"
  proof (cases "pd_no vb = pd_no va")
    case True
    let ?a = "pt + of_nat (4 * unat (pt_no vb))"
    note w = page_word [OF assms(6) index_bounds(1) [of vb]]
    have "load32 (mem s2) ?a = load32 (mem s1) ?a" by (rule store [OF w(2)]) (use w(3) pd(2) assms(9) in metis)
    also have "\<dots> = load32 (\<lambda>_. 0) ?a" by (rule load32_cong [OF w(2)]) (simp only: assms(11) w(3) if_True simp_thms)
    also have "\<dots> = 0" by (simp add: load32_def load_elem_def)
    finally have "load32 (mem s2) ?a = 0" .
    moreover have "slot s2 pd vb = Some ?a" using tab [OF kb] True by (simp add: slot_def)
    ultimately show ?thesis using True by (simp only: pte_of_def option.map if_True simp_thms)
  next
    case False
    then have sl: "slot s2 pd vb = slot s pd vb" using tab [OF kb] by (simp add: slot_def word_unat_eq_iff)
    show ?thesis
    proof (cases "slot s pd vb")
      case (Some b)
      obtain qt where q: "qt \<noteq> pd" "pg_ofs qt = 0" "page_num qt \<in> allocated (pal s)" "page_num b = page_num qt"
        by (rule slotD [OF assms(1) vb Some])
      have al: "aligned b" by (rule lookup_page_find(3) [OF assms(1) vb Some])
      have "load32 (mem s2) b = load32 (mem s1) b" by (rule store [OF al]) (use q page_num_inj pd(1) in metis)
      also have "\<dots> = load32 (mem s) b" by (rule keep [OF al]) (simp only: q)
      finally show ?thesis using False sl Some by (simp add: pte_of_def)
    qed (use False sl in \<open>simp add: pte_of_def\<close>)
  qed
qed

section \<open>The page directory as a map\<close>

lemma lookup_page_create:
  assumes "pd_ok s pd" "is_user_vaddr va"
  obtains (found) a s' where "lookup_page pd va True s = Inr (a, s')" "a \<noteq> 0" "pd_ok s' pd" "slot s' pd va = Some a"
      "\<And>vb. is_user_vaddr vb \<Longrightarrow> pte_of s' pd vb = (if slot s pd va = None \<and> pd_no vb = pd_no va then Some 0 else pte_of s pd vb)"
      "s' = s\<lparr>pal := pal s'\<rparr>"
  | (full) "lookup_page pd va True s = Inr (0, s)" "pool_pages (kernel_pool (pal s)) \<subseteq> allocated (pal s)"
proof (cases "slot s pd va")
  case (Some a)
  then show thesis using lookup_page_find [OF assms Some] assms(1) by (intro found) auto
next
  case None
  have pok: "palloc_ok (pal s)" "pd \<noteq> 0" using assms(1) by (auto simp: pd_ok_def)
  have z: "load32 (mem s) (pd + 4 * pd_no va) = 0" using lookup_page_none(2) [OF assms None] by (simp add: pde_of_def)
  show thesis
    using pok(1)
  proof (cases rule: get_page_zero)
    case full
    then have "lookup_page pd va True s = Inr (0, s)" using z pok(2) assms(2) by (simp add: lookup_page_def Let_def)
    then show thesis using full(2) by (rule that(2))
  next
    case (page pt s1)
    obtain d where d: "pde_create pt = Inr d" "pde_get_pt d = Inr pt" using pte_values [OF page(4,3), of True] by blast
    define s2 where "s2 = put_word (pd + of_nat (4 * unat (pd_no va))) d s1"
    note nt = new_table [OF assms None page(1-8) d, folded s2_def]
    have "load32 (mem s2) (pd + 4 * pd_no va) = d" by (simp add: s2_def load_store_same)
    moreover have "put_word (pd + 4 * pd_no va) d s1 = s2" by (simp add: s2_def)
    ultimately have "lookup_page pd va True s = Inr (pt + 4 * pt_no va, s2)"
      using z pok(2) assms(2) page(1,2) d by (simp add: lookup_page_def Let_def load_store_same)
    then have l: "lookup_page pd va True s = Inr (pt + of_nat (4 * unat (pt_no va)), s2)" by simp
    have "s2 = s\<lparr>pal := pal s2\<rparr>" unfolding s2_def put_word_def by (subst page(9)) simp
    then show thesis using l nt None lookup_page_find(2) [OF nt(1) assms(2) nt(2)] by (intro found) auto
  qed
qed

definition present :: "mmu \<Rightarrow> addr \<Rightarrow> addr \<Rightarrow> bool" where
  "present s pd va \<longleftrightarrow> (case pte_of s pd va of None \<Rightarrow> False | Some e \<Rightarrow> e AND PTE_P \<noteq> 0)"

lemma pagedir_set_page_entry:
  assumes "pd_ok s pd" "is_user_vaddr upage" "pg_ofs upage = 0" "is_kernel_vaddr kpage" "pg_ofs kpage = 0"
    "drop_bit 12 (kpage - PHYS_BASE) < init_ram_pages s" "pd \<noteq> init_page_dir s" "\<not> present s pd upage"
  obtains (set) a s' u where "pagedir_set_page pd upage kpage w s = Inr (True, put_word a u s')" "lookup_page pd upage True s = Inr (a, s')"
      "a \<noteq> 0" "pd_ok s' pd" "slot s' pd upage = Some a" "pte_get_page u = Inr kpage" "u AND PTE_P \<noteq> 0" "u AND PTE_W \<noteq> 0 \<longleftrightarrow> w"
      "\<And>vb. is_user_vaddr vb \<Longrightarrow> pte_of s' pd vb = (if slot s pd upage = None \<and> pd_no vb = pd_no upage then Some 0 else pte_of s pd vb)"
      "s' = s\<lparr>pal := pal s'\<rparr>"
  | (full) "pagedir_set_page pd upage kpage w s = Inr (False, s)" "pool_pages (kernel_pool (pal s)) \<subseteq> allocated (pal s)"
proof -
  obtain u where u: "pte_create_user kpage w = Inr u" "pte_get_page u = Inr kpage" "u AND PTE_P \<noteq> 0" "u AND PTE_W \<noteq> 0 \<longleftrightarrow> w"
    using pte_values [OF assms(4,5), of w] by blast
  have guards: "pagedir_set_page pd upage kpage w s = bindr (lookup_page pd upage True s) (\<lambda>(pte, s).
      if pte \<noteq> 0 then require (load32 (mem s) pte AND PTE_P = 0) ''(*pte & PTE_P) == 0'' (Inr (True, put_word pte u s)) else Inr (False, s))"
    using assms(2-7) unfolding pagedir_set_page_def vtop_def u(1) bindr_simps by simp
  show thesis
    using assms(1,2)
  proof (cases rule: lookup_page_create)
    case full
    then show thesis using guards by (intro that(2)) auto
  next
    case (found a s')
    have P: "pte_of s' pd upage = Some (load32 (mem s') a)" using found(4) by (simp add: pte_of_def)
    have "load32 (mem s') a AND PTE_P = 0"
      using found(5) [OF assms(2)] P assms(8) by (cases "slot s pd upage") (auto simp: present_def split: option.splits)
    then have "pagedir_set_page pd upage kpage w s = Inr (True, put_word a u s')" using guards found(1,2) by simp
    then show thesis using found(1-4) u(2-4) found(5,6) by (rule that(1))
  qed
qed

text \<open>The entries of a new page table translate nothing, as before.\<close>

lemma other_pages:
  assumes "pd_ok s pd" "pd_ok s' pd" "is_user_vaddr va"
    "pte_of s' pd va = (if slot s pd u = None \<and> pd_no va = pd_no u then Some 0 else pte_of s pd va)"
  shows "pagedir_get_page pd va s' = pagedir_get_page pd va s"
proof -
  have "pte_of s pd va = None" if "slot s pd u = None" "pd_no va = pd_no u" using that by (simp add: pte_of_def slot_def)
  then show ?thesis using assms(4) pagedir_get_page_value [OF assms(1,3)] pagedir_get_page_value [OF assms(2,3)] by (simp split: if_splits)
qed

text \<open>C26: A page directory implements a map from user pages to frames. \<open>pagedir_set_page\<close> on a page that is not mapped returns
  false only if the kernel pool has no page left for a page table, and then nothing is mapped; otherwise \<open>pagedir_get_page\<close>
  afterwards translates every address of the page to the same offset in the frame, and every other user address as before. The
  directory stays well formed: directory and page tables are different allocated pages.\<close>

theorem pagedir_set_get:
  assumes "pd_ok s pd" "is_user_vaddr upage" "pg_ofs upage = 0" "is_kernel_vaddr kpage" "pg_ofs kpage = 0"
    "drop_bit 12 (kpage - PHYS_BASE) < init_ram_pages s" "pd \<noteq> init_page_dir s" "\<not> present s pd upage"
  shows "\<exists>b s'. pagedir_set_page pd upage kpage w s = Inr (b, s') \<and> pd_ok s' pd
    \<and> (b \<or> pool_pages (kernel_pool (pal s)) \<subseteq> allocated (pal s))
    \<and> (\<forall>va. is_user_vaddr va \<longrightarrow> pagedir_get_page pd va s'
        = (if b \<and> pg_no va = pg_no upage then Inr (kpage + pg_ofs va) else pagedir_get_page pd va s))"
proof -
  show ?thesis
    using assms
  proof (cases rule: pagedir_set_page_entry [where w = w])
    case full
    then show ?thesis using assms(1) by (intro exI [of _ False] exI [of _ s]) auto
  next
    case (set a s' u)
    define s2 where "s2 = put_word a u s'"
    note pe = put_entry [OF set(4) assms(2) set(5), where e = u, folded s2_def]
    have "pagedir_get_page pd va s2 = (if pg_no va = pg_no upage then Inr (kpage + pg_ofs va) else pagedir_get_page pd va s)"
      if va: "is_user_vaddr va" for va
    proof (cases "pg_no va = pg_no upage")
      case True
      then have "same_slot upage va" by (simp add: same_page)
      then show ?thesis using True pagedir_get_page_value [OF pe(1) va] pe(2) [OF va] set(6,7) by simp
    next
      case False
      then have "\<not> same_slot upage va" by (auto simp: same_page)
      then have "pte_of s2 pd va = (if slot s pd upage = None \<and> pd_no va = pd_no upage then Some 0 else pte_of s pd va)"
        using pe(2) [OF va] set(9) [OF va] by simp
      then show ?thesis using False other_pages [OF assms(1) pe(1) va] by simp
    qed
    then show ?thesis using set(1) pe(1) by (intro exI [of _ True] exI [of _ s2]) (auto simp: s2_def)
  qed
qed

text \<open>A directory in the first page of the kernel pool, with no page table.\<close>

definition example_mmu :: mmu where
  "example_mmu = \<lparr>pal = example_palloc\<lparr>pmem := (\<lambda>_. 0)\<rparr>, init_page_dir = 0xc0100000, init_ram_pages = 0x1000, cr3 = 0x100000\<rparr>"

lemma example_pd_ok: "pd_ok example_mmu 0xc0101000"
proof -
  have "pde_of example_mmu 0xc0101000 k = 0" for k by (simp add: pde_of_def load32_def load_elem_def example_mmu_def)
  moreover have "pg_ofs 0xc0101000 = 0" "page_num 0xc0101000 = 0xc0101"
    by (simp_all add: pg_ofs_def PGMASK_def BITMASK_def page_num_def pg_no_unat)
  ultimately show ?thesis using example_palloc_ok example_palloc_pages by (simp add: pd_ok_def table_def example_mmu_def)
qed

theorem pagedir_set_get_witness:
  "\<exists>s'. pagedir_set_page 0xc0101000 0x8048000 0xc0102000 True example_mmu = Inr (True, s')
    \<and> pagedir_get_page 0xc0101000 0x8048123 s' = Inr 0xc0102123"
proof -
  have "\<not> present example_mmu 0xc0101000 0x8048000"
    by (simp add: present_def pte_of_def slot_def table_def pde_of_def load32_def load_elem_def example_mmu_def)
  moreover have "is_user_vaddr 0x8048000" "pg_ofs 0x8048000 = 0" "is_kernel_vaddr 0xc0102000" "pg_ofs 0xc0102000 = 0"
    "is_user_vaddr 0x8048123" "pg_no 0x8048123 = pg_no 0x8048000" "pg_ofs 0x8048123 = 0x123"
    by (simp_all add: is_user_vaddr_def is_kernel_vaddr_def PHYS_BASE_def pg_ofs_def PGMASK_def BITMASK_def pg_no_def)
  moreover have "\<not> pool_pages (kernel_pool (pal example_mmu)) \<subseteq> allocated (pal example_mmu)"
  proof -
    have "0xc0102 \<in> pool_pages (kernel_pool (pal example_mmu)) - allocated (pal example_mmu)"
      using example_palloc_pages by (simp add: example_mmu_def)
    then show ?thesis by blast
  qed
  ultimately show ?thesis
    using pagedir_set_get [OF example_pd_ok, of "0x8048000" "0xc0102000" True]
    by (auto simp: example_mmu_def PHYS_BASE_def)
qed

end
