(* ===== verification/Vm.thy ===== *)
theory Vm
  imports Pagedir Directory
begin

text \<open>
  Virtual memory (vm/frame.c, vm/page.c, vm/swap.c, install_page of userprog/process.c and page_fault of
  userprog/exception.c). The state has the page allocator with the memory and the page directories, the devices and the
  file system, the frame table, and for each thread its page directory and its supplemental page table. An operation runs
  without interruption; \<open>None\<close> means that it waits for a lock or semaphore that nobody releases meanwhile.
\<close>

section \<open>Data\<close>

record sup_page_table_entry =
  uservaddr :: addr
  access_time :: "64 word"
  block_index :: int
  sp_dirty :: bool
  sp_accessed :: bool

record frame_table_entry =
  frame :: addr
  owner :: ptr
  aux :: ptr

record vm =
  mm :: mmu
  fsys :: fs
  curthread :: ptr
  pagedir :: "ptr \<Rightarrow> addr"
  page_table :: "ptr \<Rightarrow> ptr list"
  sups :: "ptr \<Rightarrow> sup_page_table_entry"
  frame_table :: "frame_table_entry list"
  global_swap_block :: ptr
  curr_index :: int
  swap_IO_lock :: ptr
  exception_lock :: nat
  page_fault_cnt :: nat
  ticks :: "64 word"

abbreviation vmem :: "vm \<Rightarrow> memory" where "vmem s \<equiv> mem (mm s)"
abbreviation vdevs :: "vm \<Rightarrow> block_sys" where "vdevs s \<equiv> devs (fsys s)"

definition set_vmem :: "memory \<Rightarrow> vm \<Rightarrow> vm" where
  "set_vmem m s = s\<lparr>mm := (mm s)\<lparr>pal := (pal (mm s))\<lparr>pmem := m\<rparr>\<rparr>\<rparr>"

definition set_vdevs :: "block_sys \<Rightarrow> vm \<Rightarrow> vm" where
  "set_vdevs d s = s\<lparr>fsys := (fsys s)\<lparr>devs := d\<rparr>\<rparr>"

text \<open>\<open>n\<close> bytes at an address, and a copy of bytes to an address.\<close>

definition read_mem :: "memory \<Rightarrow> addr \<Rightarrow> nat \<Rightarrow> bytes" where
  "read_mem m a n = map (\<lambda>i. m (a + of_nat i)) [0..<n]"

definition write_mem :: "memory \<Rightarrow> addr \<Rightarrow> bytes \<Rightarrow> memory" where
  "write_mem m a bs = (\<lambda>x. if unat (x - a) < length bs then bs ! unat (x - a) else m x)"

definition vm_malloc :: "vm \<Rightarrow> ptr \<times> vm" where
  "vm_malloc s = (let (p, f) = malloc (fsys s) in (p, s\<lparr>fsys := f\<rparr>))"

definition vm_get_page :: "palloc_flags \<Rightarrow> vm \<Rightarrow> (addr \<times> vm) res" where
  "vm_get_page flags s = bindr (get_page flags (mm s)) (\<lambda>(p, m). Inr (p, s\<lparr>mm := m\<rparr>))"

definition vm_free_page :: "addr \<Rightarrow> vm \<Rightarrow> vm res" where
  "vm_free_page p s = bindr (free_page p (mm s)) (\<lambda>m. Inr (s\<lparr>mm := m\<rparr>))"

section \<open>The tables\<close>

text \<open>The entries are written without a check of the result of \<open>malloc\<close>.\<close>

definition frame_table_insert :: "addr \<Rightarrow> ptr \<Rightarrow> ptr \<Rightarrow> vm \<Rightarrow> vm res" where
  "frame_table_insert fr ow ax s =
     (let (p, s) = vm_malloc s in
      if p = 0 then Inl (Undefined ''newFrameElem'')
      else Inr (s\<lparr>frame_table := frame_table s @ [\<lparr>frame = fr, owner = ow, aux = ax\<rparr>]\<rparr>))"

definition sup_page_table_insert :: "addr \<Rightarrow> 64 word \<Rightarrow> int \<Rightarrow> bool \<Rightarrow> bool \<Rightarrow> vm \<Rightarrow> (ptr \<times> vm) res" where
  "sup_page_table_insert ua time idx dirty accessed s =
     (let (p, s) = vm_malloc s in
      if p = 0 then Inl (Undefined ''newElem'')
      else Inr (p, s\<lparr>sups := (sups s)(p := \<lparr>uservaddr = ua, access_time = ticks s, block_index = idx, sp_dirty = False, sp_accessed = True\<rparr>),
        page_table := (page_table s)(curthread s := page_table s (curthread s) @ [p])\<rparr>))"

section \<open>Swapping\<close>

definition swap_lock_acquire :: "vm \<Rightarrow> vm res option" where
  "swap_lock_acquire s =
     requireo (swap_IO_lock s \<noteq> curthread s) ''!lock_held_by_current_thread (lock)''
     (if swap_IO_lock s = 0 then Some (Inr (s\<lparr>swap_IO_lock := curthread s\<rparr>)) else None)"

definition swap_lock_release :: "vm \<Rightarrow> vm res" where
  "swap_lock_release s =
     require (swap_IO_lock s = curthread s) ''lock_held_by_current_thread (lock)'' (Inr (s\<lparr>swap_IO_lock := 0\<rparr>))"

definition swap_init :: "vm \<Rightarrow> vm res" where
  "swap_init s = bindr (block_get_role BLOCK_SWAP (vdevs s)) (\<lambda>b. Inr (s\<lparr>global_swap_block := b, curr_index := 0, swap_IO_lock := 0\<rparr>))"

text \<open>The sector number is converted to an unsigned 32-bit number.\<close>

definition sector_no :: "int \<Rightarrow> nat" where "sector_no i = unat (word_of_int i :: 32 word)"

primrec write_frame_loop :: "addr \<Rightarrow> int \<Rightarrow> nat list \<Rightarrow> vm \<Rightarrow> vm res" where
  "write_frame_loop fr index [] s = Inr s"
| "write_frame_loop fr index (i # is) s =
     bindr (block_write (global_swap_block s) (sector_no (index + int i)) (read_mem (vmem s) (fr + of_nat (i * 512)) 512) (vdevs s))
       (\<lambda>d. write_frame_loop fr index is (set_vdevs d s))"

definition write_frame_to_block :: "addr \<Rightarrow> int \<Rightarrow> vm \<Rightarrow> vm res" where
  "write_frame_to_block fr index s =
     (if global_swap_block s = 0 then Inl (Undefined ''global_swap_block'')
      else bindr (write_frame_loop fr index [0..<8] s) (\<lambda>s.
        if curr_index s + 8 < 2 ^ 31 then Inr (s\<lparr>curr_index := curr_index s + 8\<rparr>) else Inl (Undefined ''signed overflow'')))"

primrec load_frame_loop :: "addr \<Rightarrow> int \<Rightarrow> nat list \<Rightarrow> vm \<Rightarrow> vm res" where
  "load_frame_loop fr index [] s = Inr s"
| "load_frame_loop fr index (i # is) s =
     bindr (block_read (global_swap_block s) (sector_no (index + int i)) (vdevs s))
       (\<lambda>(bs, d). load_frame_loop fr index is (set_vmem (write_mem (vmem s) (fr + of_nat (i * 512)) bs) (set_vdevs d s)))"

definition load_frame_from_block :: "addr \<Rightarrow> int \<Rightarrow> vm \<Rightarrow> vm res option" where
  "load_frame_from_block fr index s =
     bindo (swap_lock_acquire s) (\<lambda>s.
     if global_swap_block s = 0 then Some (Inl (Undefined ''global_swap_block''))
     else bindo (Some (load_frame_loop fr index [0..<8] s)) (\<lambda>s. Some (swap_lock_release s)))"

fun oldest_loop :: "(ptr \<Rightarrow> sup_page_table_entry) \<Rightarrow> frame_table_entry list \<Rightarrow> 64 word \<Rightarrow> frame_table_entry option \<Rightarrow> frame_table_entry option" where
  "oldest_loop sp [] maxTime maxFrame = maxFrame"
| "oldest_loop sp (e # es) maxTime maxFrame =
     (if access_time (sp (aux e)) < maxTime then oldest_loop sp es (access_time (sp (aux e))) (Some e)
      else oldest_loop sp es maxTime maxFrame)"

text \<open>Note that the code returns without releasing the lock when it finds no frame.\<close>

definition evict_frame :: "vm \<Rightarrow> (bool \<times> vm) res option" where
  "evict_frame s =
     bindo (swap_lock_acquire s) (\<lambda>s.
     case oldest_loop (sups s) (frame_table s) (- 1) None of
       None \<Rightarrow> Some (Inr (False, s))
     | Some e \<Rightarrow>
         bindo (Some (pagedir_clear_page (pagedir s (curthread s)) (uservaddr (sups s (aux e))) (mm s))) (\<lambda>m.
         let s = s\<lparr>mm := m\<rparr>;
             r = sups s (aux e);
             r = r\<lparr>block_index := (if block_index r = - 1 then curr_index s else block_index r)\<rparr>;
             s = s\<lparr>sups := (sups s)(aux e := r)\<rparr> in
         bindo (Some (write_frame_to_block (frame e) (block_index r) s)) (\<lambda>s.
         bindo (Some (vm_free_page (frame e) s)) (\<lambda>s.
         bindo (Some (swap_lock_release (s\<lparr>frame_table := remove1 e (frame_table s)\<rparr>))) (\<lambda>s. Some (Inr (True, s)))))))"

section \<open>Mapping pages\<close>

definition install_page :: "addr \<Rightarrow> addr \<Rightarrow> bool \<Rightarrow> vm \<Rightarrow> (bool \<times> vm) res" where
  "install_page upage kpage w s =
     (let pd = pagedir s (curthread s) in
      bindr (pagedir_get_page pd upage (mm s)) (\<lambda>p.
      if p = 0 then bindr (pagedir_set_page pd upage kpage w (mm s)) (\<lambda>(b, m). Inr (b, s\<lparr>mm := m\<rparr>))
      else Inr (False, s)))"

section \<open>Page faults\<close>

definition PF_P :: "32 word" where "PF_P = 1"
definition PF_W :: "32 word" where "PF_W = 2"
definition PF_U :: "32 word" where "PF_U = 4"

datatype fault_outcome = Resumed | Exited

definition SEL_UCSEG :: "16 word" where "SEL_UCSEG = 0x1B"
definition SEL_KCSEG :: "16 word" where "SEL_KCSEG = 0x08"

text \<open>\<open>kill\<close>: a thread that runs in the code segment of user programs exits, and so does one in an unknown segment; a fault in the
  kernel is a panic.\<close>

definition kill :: "16 word \<Rightarrow> vm \<Rightarrow> (fault_outcome \<times> vm) res" where
  "kill cs s =
     (if cs = SEL_UCSEG then Inr (Exited, s)
      else if cs = SEL_KCSEG then Inl (Panic ''Kernel bug - unexpected interrupt in kernel'')
      else Inr (Exited, s))"

fun find_page :: "(ptr \<Rightarrow> sup_page_table_entry) \<Rightarrow> addr \<Rightarrow> ptr list \<Rightarrow> ptr option \<Rightarrow> ptr option" where
  "find_page sp upage [] found = found"
| "find_page sp upage (p # ps) found = find_page sp upage ps (if uservaddr (sp p) = upage then Some p else found)"

text \<open>A page with the flags, after an eviction if there is none at first.\<close>

definition grow :: "vm \<Rightarrow> (addr \<times> vm) res option" where
  "grow s =
     bindo (Some (vm_get_page (PAL_USER OR PAL_ZERO) s)) (\<lambda>(kpage, s).
     if kpage \<noteq> 0 then Some (Inr (kpage, s))
     else bindo (evict_frame s) (\<lambda>(_, s).
       bindo (Some (vm_get_page (PAL_USER OR PAL_ZERO) s)) (\<lambda>(kpage, s).
       if kpage = 0 then Some (Inl (Panic ''Ran out of memory - fix this by implementing swaps'')) else Some (Inr (kpage, s)))))"

definition bring_in :: "addr \<Rightarrow> vm \<Rightarrow> vm res option" where
  "bring_in upage s =
     (let found = find_page (sups s) upage (page_table s (curthread s)) None in
      bindo (grow s) (\<lambda>(kpage, s).
      bindo (Some (install_page upage kpage True s)) (\<lambda>(success, s).
      if \<not> success then Some (Inl (Panic ''There's already a page at this virtual address''))
      else
        bindo (case found of
            None \<Rightarrow> Some (sup_page_table_insert upage (ticks s) (- 1) False True s)
          | Some p \<Rightarrow>
              bindo (load_frame_from_block kpage (block_index (sups s p)) (s\<lparr>sups := (sups s)(p := (sups s p)\<lparr>access_time := ticks s\<rparr>)\<rparr>))
                (\<lambda>s. Some (Inr (p, s))))
          (\<lambda>(e, s). Some (frame_table_insert kpage (curthread s) e s)))))"

definition page_fault :: "addr \<Rightarrow> 32 word \<Rightarrow> 16 word \<Rightarrow> vm \<Rightarrow> (fault_outcome \<times> vm) res option" where
  "page_fault fault_addr error_code cs s =
     (if exception_lock s = 0 then None
      else
        let s = s\<lparr>exception_lock := exception_lock s - 1, page_fault_cnt := page_fault_cnt s + 1\<rparr>;
            not_present = (error_code AND PF_P = 0);
            user = (error_code AND PF_U \<noteq> 0) in
        if fault_addr = 0 then Some (kill cs s)
        else if is_kernel_vaddr fault_addr \<and> user then Some (kill cs s)
        else if fault_addr < 0x08048000 then Some (kill cs s)
        else if \<not> not_present \<and> \<not> user then Some (Inr (Exited, s))
        else if \<not> not_present then Some (kill cs s)
        else bindo (bring_in (pg_round_down fault_addr) s) (\<lambda>s.
          Some (Inr (Resumed, s\<lparr>exception_lock := exception_lock s + 1\<rparr>))))"

section \<open>What goes to the swap device comes back\<close>

lemma set_vdevs_simps [simp]: "vdevs (set_vdevs d s) = d" "mm (set_vdevs d s) = mm s" "set_vdevs d (set_vdevs e s) = set_vdevs d s"
  "global_swap_block (set_vdevs d s) = global_swap_block s" "set_vdevs (vdevs s) s = s" "curthread (set_vdevs d s) = curthread s"
  "swap_IO_lock (set_vdevs d s) = swap_IO_lock s" "exception_lock (set_vdevs d s) = exception_lock s"
  "frame_table (set_vdevs d s) = frame_table s" "sups (set_vdevs d s) = sups s" "pagedir (set_vdevs d s) = pagedir s"
  by (simp_all add: set_vdevs_def)

lemma set_vmem_simps [simp]: "vmem (set_vmem m s) = m" "fsys (set_vmem m s) = fsys s" "set_vmem m (set_vmem n s) = set_vmem m s"
  "global_swap_block (set_vmem m s) = global_swap_block s" "curthread (set_vmem m s) = curthread s" "set_vmem (vmem s) s = s"
  "swap_IO_lock (set_vmem m s) = swap_IO_lock s" "exception_lock (set_vmem m s) = exception_lock s"
  by (simp_all add: set_vmem_def)

abbreviation swap_dev :: "ptr \<Rightarrow> block_sys \<Rightarrow> nat \<Rightarrow> bytes" where "swap_dev b d \<equiv> contents (block_at d b)"

lemma block_writeD:
  assumes "block_write b i bs d = Inr d'"
  shows "swap_dev b d' = (swap_dev b d)(i := bs)" "i < blk_size (block_at d b)" "blk_size (block_at d' b) = blk_size (block_at d b)"
  using assms by (auto simp: block_write_def check_sector_def Let_def split: if_splits)

lemma sector_no_value: "0 \<le> i \<Longrightarrow> i < 2 ^ 32 \<Longrightarrow> sector_no i = nat i"
  by (simp add: sector_no_def unat_eq_nat_uint uint_word_of_int)

lemma write_frame_loop_value:
  assumes "write_frame_loop fr index is s = Inr s'" "0 \<le> index" "index + 8 \<le> 2 ^ 32" "set is \<subseteq> {..<8}" "distinct is"
  shows "\<exists>d. s' = set_vdevs d s \<and> blk_size (block_at d (global_swap_block s)) = blk_size (block_at (vdevs s) (global_swap_block s))
    \<and> (\<forall>i \<in> set is. nat index + i < blk_size (block_at (vdevs s) (global_swap_block s))
        \<and> swap_dev (global_swap_block s) d (nat index + i) = read_mem (vmem s) (fr + of_nat (i * 512)) 512)
    \<and> (\<forall>k. k \<notin> (\<lambda>i. nat index + i) ` set is \<longrightarrow> swap_dev (global_swap_block s) d k = swap_dev (global_swap_block s) (vdevs s) k)"
  using assms(1,4,5)
proof (induction "is" arbitrary: s)
  case Nil
  then show ?case by (intro exI [of _ "vdevs s"]) auto
next
  case (Cons i "is")
  have sec: "sector_no (index + int i) = nat index + i" using Cons.prems(2) assms(2,3) by (subst sector_no_value) auto
  obtain d where d: "block_write (global_swap_block s) (nat index + i) (read_mem (vmem s) (fr + of_nat (i * 512)) 512) (vdevs s) = Inr d"
    and rest: "write_frame_loop fr index is (set_vdevs d s) = Inr s'"
    using Cons.prems(1) by (auto simp: sec)
  note w = block_writeD [OF d]
  obtain d' where d': "s' = set_vdevs d' (set_vdevs d s)"
      "blk_size (block_at d' (global_swap_block s)) = blk_size (block_at d (global_swap_block s))"
      "\<forall>j \<in> set is. nat index + j < blk_size (block_at d (global_swap_block s))
        \<and> swap_dev (global_swap_block s) d' (nat index + j) = read_mem (vmem s) (fr + of_nat (j * 512)) 512"
      "\<forall>k. k \<notin> (\<lambda>i. nat index + i) ` set is \<longrightarrow> swap_dev (global_swap_block s) d' k = swap_dev (global_swap_block s) d k"
    using Cons.IH [OF rest] Cons.prems(2,3) by auto
  have "nat index + i \<notin> (\<lambda>i. nat index + i) ` set is" using Cons.prems(3) by auto
  then have "swap_dev (global_swap_block s) d' (nat index + i) = read_mem (vmem s) (fr + of_nat (i * 512)) 512"
    using d'(4) w(1) by simp
  then show ?case using d' w by (intro exI [of _ d']) auto
qed

lemma length_read_mem [simp]: "length (read_mem m a n) = n"
  by (simp add: read_mem_def)

lemma sub_block:
  assumes "i < 8"
  shows "unat (x - of_nat (i * 512) :: addr) < 512 \<longleftrightarrow> unat x < 4096 \<and> unat x div 512 = i"
    "unat x div 512 = i \<Longrightarrow> unat (x - of_nat (i * 512) :: addr) = unat x mod 512"
proof -
  have "unat (of_nat (i * 512) :: addr) = i * 512" using assms by (subst unat_of_nat) simp
  then have u: "unat (x - of_nat (i * 512)) = (if i * 512 \<le> unat x then unat x - i * 512 else unat x + 2 ^ 32 - i * 512)"
    by (simp add: unat_sub_if')
  have d: "unat x div 512 = i \<longleftrightarrow> i * 512 \<le> unat x \<and> unat x < i * 512 + 512" by (auto simp: div_nat_eqI)
  show "unat (x - of_nat (i * 512) :: addr) < 512 \<longleftrightarrow> unat x < 4096 \<and> unat x div 512 = i"
    unfolding u d using assms by (auto split: if_splits)
  show "unat (x - of_nat (i * 512) :: addr) = unat x mod 512" if "unat x div 512 = i"
  proof -
    have "i * 512 \<le> unat x" using that d by blast
    then show ?thesis unfolding u using minus_div_mult_eq_mod [of "unat x" 512] that by simp
  qed
qed

lemma load_frame_loop_value:
  assumes "\<forall>i \<in> set is. nat index + i < blk_size (block_at (vdevs s) (global_swap_block s))
      \<and> swap_dev (global_swap_block s) (vdevs s) (nat index + i) = f i \<and> length (f i) = 512"
    "0 \<le> index" "index + 8 \<le> 2 ^ 32" "set is \<subseteq> {..<8}" "distinct is" "pg_ofs fr = 0"
  shows "\<exists>d m. load_frame_loop fr index is s = Inr (set_vmem m (set_vdevs d s))
    \<and> (\<forall>a. m a = (if unat (a - fr) < 4096 \<and> unat (a - fr) div 512 \<in> set is then f (unat (a - fr) div 512) ! (unat (a - fr) mod 512) else vmem s a))"
  using assms(1,4,5)
proof (induction "is" arbitrary: s)
  case Nil
  then show ?case by (intro exI [of _ "vdevs s"] exI [of _ "vmem s"]) (simp add: set_vmem_def set_vdevs_def)
next
  case (Cons i "is")
  have i8: "i < 8" using Cons.prems(2) by simp
  have sec: "sector_no (index + int i) = nat index + i" using i8 assms(2,3) by (subst sector_no_value) auto
  obtain d where d: "block_read (global_swap_block s) (nat index + i) (vdevs s) = Inr (f i, d)"
      "swap_dev (global_swap_block s) d = swap_dev (global_swap_block s) (vdevs s)"
      "blk_size (block_at d (global_swap_block s)) = blk_size (block_at (vdevs s) (global_swap_block s))"
    using blk.rd_ok [of "nat index + i" "vdevs s" "global_swap_block s"] Cons.prems(1) by auto
  define m1 where "m1 = write_mem (vmem s) (fr + of_nat (i * 512)) (f i)"
  let ?s = "set_vmem m1 (set_vdevs d s)"
  have fr: "unat fr mod 4096 = 0" using assms(6) pg_ofs_unat [of fr] by simp
  have off: "unat (a - (fr + of_nat (i * 512))) < 512 \<longleftrightarrow> unat (a - fr) < 4096 \<and> unat (a - fr) div 512 = i"
    "unat (a - fr) div 512 = i \<Longrightarrow> unat (a - (fr + of_nat (i * 512))) = unat (a - fr) mod 512" for a
    using sub_block [OF i8, of "a - fr"] by (simp_all add: diff_diff_eq [symmetric])
  have m1: "m1 a = (if unat (a - fr) < 4096 \<and> unat (a - fr) div 512 = i then f i ! (unat (a - fr) mod 512) else vmem s a)" for a
    unfolding m1_def write_mem_def using off [of a] Cons.prems(1) by auto
  obtain d' m where r: "load_frame_loop fr index is ?s = Inr (set_vmem m (set_vdevs d' ?s))"
      "\<forall>a. m a = (if unat (a - fr) < 4096 \<and> unat (a - fr) div 512 \<in> set is then f (unat (a - fr) div 512) ! (unat (a - fr) mod 512) else m1 a)"
    using Cons.IH [of ?s] Cons.prems d(2,3) by auto
  have "load_frame_loop fr index (i # is) s = Inr (set_vmem m (set_vdevs d' s))"
    using d(1) r(1) unfolding m1_def by (simp add: sec set_vmem_def set_vdevs_def)
  moreover have "m a = (if unat (a - fr) < 4096 \<and> unat (a - fr) div 512 \<in> set (i # is)
      then f (unat (a - fr) div 512) ! (unat (a - fr) mod 512) else vmem s a)" for a
    using r(2) m1 [of a] by auto
  ultimately show ?case by blast
qed

lemma page_offset:
  assumes "pg_ofs fr = 0"
  shows "unat (a - fr) < 4096 \<longleftrightarrow> page_num a = page_num fr"
proof -
  obtain q where q: "unat fr = 4096 * q" using assms pg_ofs_unat [of fr] by (metis mod_0_imp_dvd dvdE unat_0)
  have fa: "unat a < 2 ^ 32" "4096 * q < 2 ^ 32" using unat_size [of a] unat_size [of fr] q by auto
  then have q': "4096 * q + 4096 \<le> 2 ^ 32" by simp
  have "unat (a - fr) = (if 4096 * q \<le> unat a then unat a - 4096 * q else unat a + 2 ^ 32 - 4096 * q)"
    by (simp add: unat_sub_if' q)
  then have "unat (a - fr) < 4096 \<longleftrightarrow> 4096 * q \<le> unat a \<and> unat a < 4096 * q + 4096" using q' by (auto split: if_splits)
  also have "\<dots> \<longleftrightarrow> unat a div 4096 = q" by (auto simp: div_nat_eqI)
  finally show ?thesis by (simp add: page_num_alt q)
qed

text \<open>C27: Swapping keeps the contents of a page: a frame that \<open>write_frame_to_block\<close> has written to the swap device is read
  back by \<open>load_frame_from_block\<close> byte for byte, into any frame, and nothing outside that frame changes.\<close>

theorem swap_roundtrip:
  assumes "write_frame_to_block fr index s = Inr s'" "0 \<le> index" "index + 8 \<le> 2 ^ 32" "pg_ofs fr' = 0"
    "swap_IO_lock s = 0" "curthread s \<noteq> 0"
  shows "\<exists>s''. load_frame_from_block fr' index s' = Some (Inr s'')
    \<and> (\<forall>i < 4096. vmem s'' (fr' + of_nat i) = vmem s (fr + of_nat i)) \<and> (\<forall>a. page_num a \<noteq> page_num fr' \<longrightarrow> vmem s'' a = vmem s a)"
proof -
  let ?b = "global_swap_block s"
  have sub: "set [0..<8] \<subseteq> {..<8 :: nat}" by auto
  have b: "?b \<noteq> 0" using assms(1) by (auto simp: write_frame_to_block_def split: if_splits)
  obtain s1 where s1: "write_frame_loop fr index [0..<8] s = Inr s1" "s' = s1\<lparr>curr_index := curr_index s1 + 8\<rparr>"
    using assms(1) b by (auto simp: write_frame_to_block_def split: if_splits)
  obtain d where d: "s1 = set_vdevs d s" "blk_size (block_at d ?b) = blk_size (block_at (vdevs s) ?b)"
      "\<forall>i \<in> set [0..<8]. nat index + i < blk_size (block_at (vdevs s) ?b)
        \<and> swap_dev ?b d (nat index + i) = read_mem (vmem s) (fr + of_nat (i * 512)) 512"
    using write_frame_loop_value [OF s1(1) assms(2,3) sub distinct_upt] by blast
  let ?s = "s'\<lparr>swap_IO_lock := curthread s'\<rparr>"
  have s': "vmem ?s = vmem s" "vdevs ?s = d" "global_swap_block ?s = ?b" "swap_IO_lock s' = 0" "curthread s' = curthread s"
    using assms(5) by (simp_all add: s1(2) d(1))
  let ?f = "\<lambda>i. read_mem (vmem s) (fr + of_nat (i * 512)) 512"
  have "\<forall>i \<in> set [0..<8]. nat index + i < blk_size (block_at (vdevs ?s) (global_swap_block ?s))
      \<and> swap_dev (global_swap_block ?s) (vdevs ?s) (nat index + i) = ?f i \<and> length (?f i) = 512"
    using d(2,3) s' by simp
  then obtain e m where l: "load_frame_loop fr' index [0..<8] ?s = Inr (set_vmem m (set_vdevs e ?s))"
      "\<forall>a. m a = (if unat (a - fr') < 4096 \<and> unat (a - fr') div 512 \<in> set [0..<8] then ?f (unat (a - fr') div 512) ! (unat (a - fr') mod 512) else vmem ?s a)"
    using load_frame_loop_value [of "[0..<8]" index ?s ?f fr', OF _ assms(2,3) sub distinct_upt assms(4)] by blast
  have "load_frame_from_block fr' index s' = Some (Inr (set_vmem m (set_vdevs e (s'\<lparr>swap_IO_lock := 0\<rparr>))))"
    using l(1) s' b assms(6)
    by (simp add: load_frame_from_block_def swap_lock_acquire_def swap_lock_release_def set_vmem_def set_vdevs_def)
  moreover have "m (fr' + of_nat i) = vmem s (fr + of_nat i)" if "i < 4096" for i
  proof -
    have u: "unat (fr' + of_nat i - fr') = i" using that by (simp add: unat_of_nat take_bit_eq_mod)
    have "i div 512 < 8" using that by simp
    then have "m (fr' + of_nat i) = ?f (i div 512) ! (i mod 512)" unfolding l(2) [rule_format] u using that by simp
    also have "\<dots> = vmem s (fr + of_nat (i div 512 * 512) + of_nat (i mod 512))" by (simp add: read_mem_def)
    also have "\<dots> = vmem s (fr + of_nat i)" by (simp only: add.assoc of_nat_add [symmetric] div_mult_mod_eq)
    finally show ?thesis .
  qed
  moreover have "m a = vmem s a" if "page_num a \<noteq> page_num fr'" for a
    using l(2) that page_offset [OF assms(4)] s'(1) by simp
  ultimately show ?thesis by auto
qed

section \<open>The pages of a directory\<close>

definition pd_pages :: "mmu \<Rightarrow> addr \<Rightarrow> nat set" where
  "pd_pages m pd = insert (page_num pd) {page_num pt | k pt. k < 768 \<and> table m pd k = Some pt}"

lemma pd_frame:
  assumes "pd_ok m pd" "\<And>a. page_num a \<in> pd_pages m pd \<Longrightarrow> mem m' a = mem m a" "palloc_ok (pal m')"
    "\<And>k. k \<in> pd_pages m pd \<Longrightarrow> k \<in> allocated (pal m) \<Longrightarrow> k \<in> allocated (pal m')"
  shows "pd_ok m' pd" "is_user_vaddr va \<Longrightarrow> pagedir_get_page pd va m' = pagedir_get_page pd va m"
    "is_user_vaddr va \<Longrightarrow> pte_of m' pd va = pte_of m pd va" "pd_pages m' pd = pd_pages m pd"
proof -
  have pd: "pg_ofs pd = 0" "page_num pd \<in> allocated (pal m)" "pd \<noteq> 0" using assms(1) by (auto simp: pd_ok_def)
  have ld: "load32 (mem m') a = load32 (mem m) a" if "aligned a" "page_num a \<in> pd_pages m pd" for a
    by (rule load32_cong [OF that(1)]) (use assms(2) that(2) in auto)
  have pde: "pde_of m' pd k = pde_of m pd k" if "k < 768" for k
  proof -
    have "k < 1024" using that by simp
    note w = page_word [OF pd(1) this]
    show ?thesis unfolding pde_of_def by (rule ld [OF w(2)]) (simp only: w(3) pd_pages_def insertI1)
  qed
  have tab: "table m' pd k = table m pd k" if "k < 768" for k using table_cong [OF pde [OF that]] .
  show ok: "pd_ok m' pd"
    unfolding pd_ok_def
  proof (intro conjI allI impI)
    show "palloc_ok (pal m')" "pd \<noteq> 0" "pg_ofs pd = 0" by (fact assms(3) pd)+
    show "page_num pd \<in> allocated (pal m')" using assms(4) pd(2) by (simp add: pd_pages_def)
    fix k :: nat assume k: "k < 768"
    show "\<exists>pt. table m' pd k = Some pt \<and> pt \<noteq> 0 \<and> pg_ofs pt = 0 \<and> page_num pt \<in> allocated (pal m') \<and> pt \<noteq> pd" if nz: "pde_of m' pd k \<noteq> 0"
    proof -
      obtain pt where "table m pd k = Some pt" using assms(1) nz pde [OF k] k unfolding pd_ok_def by auto
      then show ?thesis using tableD [OF assms(1) k] tab [OF k] assms(4) k by (auto simp: pd_pages_def)
    qed
    fix j :: nat assume "j < 768" "k \<noteq> j" "table m' pd k \<noteq> None"
    then show "table m' pd k \<noteq> table m' pd j" using assms(1) tab k unfolding pd_ok_def by metis
  qed
  show "pd_pages m' pd = pd_pages m pd" unfolding pd_pages_def using tab by (auto; metis)
  assume va: "is_user_vaddr va"
  have sl: "slot m' pd va = slot m pd va" unfolding slot_def using tab [OF index_bounds(2) [OF va]] by simp
  show e: "pte_of m' pd va = pte_of m pd va"
  proof (cases "slot m pd va")
    case (Some a)
    obtain pt where pt: "table m pd (unat (pd_no va)) = Some pt" "page_num a = page_num pt" by (rule slotD [OF assms(1) va Some])
    have "page_num pt \<in> pd_pages m pd" using pt(1) index_bounds(2) [OF va] unfolding pd_pages_def by blast
    then show ?thesis using Some sl ld [OF lookup_page_find(3) [OF assms(1) va Some]] pt(2) by (simp add: pte_of_def)
  qed (simp add: pte_of_def sl)
  show "pagedir_get_page pd va m' = pagedir_get_page pd va m"
    using e pagedir_get_page_value [OF ok va] pagedir_get_page_value [OF assms(1) va] by simp
qed

lemma store32_page: "aligned a \<Longrightarrow> page_num x \<noteq> page_num a \<Longrightarrow> store32 m a w x = m x"
proof -
  assume "aligned a" "page_num x \<noteq> page_num a"
  then have "x \<notin> {a, a + 1, a + 2, a + 3}" using aligned_page [of a x] by blast
  then show ?thesis by (simp add: store32_def)
qed

lemma invalidate_pagedir_pal: "invalidate_pagedir pd m = Inr m' \<Longrightarrow> pal m' = pal m"
  by (auto simp: invalidate_pagedir_def pagedir_activate_def split: if_splits)

lemma pagedir_clear_page_frame:
  assumes "pagedir_clear_page pd u m = Inr m'" "pd_ok m pd"
  shows "\<And>a. page_num a \<notin> pd_pages m pd \<Longrightarrow> mem m' a = mem m a" "palloc_ok (pal m')" "allocated (pal m') = allocated (pal m)"
proof -
  have u: "is_user_vaddr u" using assms(1) by (auto simp: pagedir_clear_page_def)
  have ok: "palloc_ok (pal m)" using assms(2) by (simp add: pd_ok_def)
  have "(\<forall>a. page_num a \<notin> pd_pages m pd \<longrightarrow> mem m' a = mem m a) \<and> palloc_ok (pal m') \<and> allocated (pal m') = allocated (pal m)"
  proof (cases "slot m pd u")
    case None
    then show ?thesis using assms(1) lookup_page_none(1) [OF assms(2) u None] ok by (auto simp: pagedir_clear_page_def)
  next
    case (Some a)
    note l = lookup_page_find [OF assms(2) u Some]
    obtain pt where pt: "table m pd (unat (pd_no u)) = Some pt" "page_num a = page_num pt" by (rule slotD [OF assms(2) u Some])
    have in_pd: "page_num a \<in> pd_pages m pd" using pt index_bounds(2) [OF u] unfolding pd_pages_def by auto
    have "m' = m \<or> pal m' = pal (put_word a (load32 (mem m) a AND NOT PTE_P) m)"
      using assms(1) l by (auto simp: pagedir_clear_page_def dest: invalidate_pagedir_pal split: if_splits)
    moreover have "store32 (mem m) a w x = mem m x" if "page_num x \<notin> pd_pages m pd" for x w
      using store32_page [OF l(3), of x] in_pd that by metis
    ultimately show ?thesis using ok by (auto simp: put_word_def)
  qed
  then show "\<And>a. page_num a \<notin> pd_pages m pd \<Longrightarrow> mem m' a = mem m a" "palloc_ok (pal m')" "allocated (pal m') = allocated (pal m)"
    by blast+
qed

lemma free_page_frame:
  assumes "free_page p m = Inr m'" "palloc_ok (pal m)" "p \<noteq> 0"
  shows "palloc_ok (pal m')" "allocated (pal m') = allocated (pal m) - {page_num p}" "\<And>a. page_num a \<noteq> page_num p \<Longrightarrow> mem m' a = mem m a"
proof -
  obtain pl where pl: "palloc_free_multiple (pal m) p 1 = Inr pl" "m' = m\<lparr>pal := pl\<rparr>"
    using assms(1) by (auto simp: free_page_def palloc_free_page_def)
  have ofs: "pg_ofs p = 0" using pl(1) by (auto simp: palloc_free_multiple_def)
  have r: "page_range p 1 = {page_num p}" by (auto simp: page_range_def)
  have "palloc_ok pl \<and> allocated pl = allocated (pal m) - {page_num p}
      \<and> (\<forall>a. pmem pl a = (if page_num a = page_num p then 0xcc else pmem (pal m) a))"
    using palloc_free_multiple_cases [OF assms(2) ofs assms(3) zero_less_one] pl(1) unfolding r by (auto split: if_splits)
  then show "palloc_ok (pal m')" "allocated (pal m') = allocated (pal m) - {page_num p}" "\<And>a. page_num a \<noteq> page_num p \<Longrightarrow> mem m' a = mem m a"
    using pl(2) by auto
qed

lemma write_frame_loop_mm: "write_frame_loop fr index is s = Inr s' \<Longrightarrow> \<exists>d. s' = set_vdevs d s"
proof (induction "is" arbitrary: s)
  case Nil
  then show ?case by (intro exI [of _ "vdevs s"]) simp
next
  case (Cons i "is")
  then show ?case by fastforce
qed

section \<open>Eviction\<close>

lemma pd_pages_put_word:
  assumes "pd_ok m pd" "is_user_vaddr u" "slot m pd u = Some a"
  shows "pd_pages (put_word a e m) pd = pd_pages m pd"
proof -
  obtain pt where pt: "table m pd (unat (pd_no u)) = Some pt" "page_num a = page_num pt" "pg_ofs pt = 0" "pt \<noteq> pd"
    by (rule slotD [OF assms])
  have al: "aligned a" by (rule lookup_page_find(3) [OF assms])
  have pd: "pg_ofs pd = 0" using assms(1) by (simp add: pd_ok_def)
  have "table (put_word a e m) pd k = table m pd k" if "k < 768" for k
  proof -
    have k: "k < 1024" using that by simp
    have "page_num pt \<noteq> page_num pd" using pt(3,4) pd page_num_inj by blast
    then have "a \<noteq> pd + of_nat (4 * k)" using page_word(3) [OF pd k] pt(2) by metis
    then have "pde_of (put_word a e m) pd k = pde_of m pd k"
      unfolding pde_of_def put_word_simps by (intro load_store_other al page_word(2) pd k)
    then show ?thesis by (rule table_cong)
  qed
  then show ?thesis unfolding pd_pages_def by (auto; metis)
qed

text \<open>\<open>pagedir_clear_page\<close> removes one page from the map that the page directory implements.\<close>

lemma pagedir_clear_page_value:
  assumes "pagedir_clear_page pd u m = Inr m'" "pd_ok m pd"
  shows "pd_ok m' pd" "pd_pages m' pd = pd_pages m pd"
    "\<And>va. is_user_vaddr va \<Longrightarrow> pagedir_get_page pd va m' = (if pg_no va = pg_no u then Inr 0 else pagedir_get_page pd va m)"
proof -
  have u: "is_user_vaddr u" using assms(1) by (auto simp: pagedir_clear_page_def)
  have "pd_ok m' pd \<and> pd_pages m' pd = pd_pages m pd
    \<and> (\<forall>va. is_user_vaddr va \<longrightarrow> pagedir_get_page pd va m' = (if pg_no va = pg_no u then Inr 0 else pagedir_get_page pd va m))"
  proof (cases "present m pd u")
    case False
    have "m' = m"
      using assms(1) False lookup_page_none(1) [OF assms(2) u] lookup_page_find(1) [OF assms(2) u]
      by (cases "slot m pd u") (auto simp: pagedir_clear_page_def present_def pte_of_def split: if_splits)
    have pte: "pte_of m pd va = pte_of m pd u" if "pg_no va = pg_no u" for va
      using that unfolding same_page [symmetric] by (simp add: same_slot_def pte_of_def slot_def)
    have "pagedir_get_page pd va m = Inr 0" if "pg_no va = pg_no u" "is_user_vaddr va" for va
      using False unfolding pagedir_get_page_value [OF assms(2) that(2)] pte [OF that(1)] present_def by (simp split: option.splits)
    then show ?thesis using assms(2) \<open>m' = m\<close> by simp
  next
    case True
    then obtain a where a: "slot m pd u = Some a" by (cases "slot m pd u") (auto simp: present_def pte_of_def)
    let ?e = "load32 (mem m) a AND NOT PTE_P"
    let ?m = "put_word a ?e m"
    note l = lookup_page_find [OF assms(2) u a] and pe = put_entry [OF assms(2) u a, where e = ?e]
    have "load32 (mem m) a AND PTE_P \<noteq> 0" using True a by (simp add: present_def pte_of_def)
    then have "invalidate_pagedir pd ?m = Inr m'" using assms(1) l by (simp add: pagedir_clear_page_def)
    then have pal: "pal m' = pal ?m" by (rule invalidate_pagedir_pal)
    have same: "palloc_ok (pal m')" "mem m' x = mem ?m x" "allocated (pal m') = allocated (pal ?m)" for x
      using assms(2) by (simp_all add: pal pd_ok_def)
    have f: "pd_ok m' pd" "pd_pages m' pd = pd_pages ?m pd"
      "is_user_vaddr va \<Longrightarrow> pagedir_get_page pd va m' = pagedir_get_page pd va ?m" for va
      using pd_frame [OF pe(1) same(2,1)] same(3) by simp_all
    have P: "?e AND PTE_P = 0" by (simp add: and.assoc)
    have "pagedir_get_page pd va ?m = (if pg_no va = pg_no u then Inr 0 else pagedir_get_page pd va m)" if va: "is_user_vaddr va" for va
      using pe(2) [OF va] P same_page [of u va]
      by (auto simp: pagedir_get_page_value [OF assms(2) va] pagedir_get_page_value [OF pe(1) va])
    then show ?thesis using f pd_pages_put_word [OF assms(2) u a] by simp
  qed
  then show "pd_ok m' pd" "pd_pages m' pd = pd_pages m pd"
    "\<And>va. is_user_vaddr va \<Longrightarrow> pagedir_get_page pd va m' = (if pg_no va = pg_no u then Inr 0 else pagedir_get_page pd va m)"
    by blast+
qed

lemma oldest_loop_value:
  assumes "oldest_loop sp es t r = Some e" "\<And>x. r = Some x \<Longrightarrow> access_time (sp (aux x)) = t"
  shows "(r = Some e \<or> e \<in> set es) \<and> access_time (sp (aux e)) \<le> t \<and> (\<forall>x \<in> set es. access_time (sp (aux e)) \<le> access_time (sp (aux x)))"
  using assms
proof (induction es arbitrary: t r)
  case (Cons y es)
  show ?case
  proof (cases "access_time (sp (aux y)) < t")
    case True
    then have "(Some y = Some e \<or> e \<in> set es) \<and> access_time (sp (aux e)) \<le> access_time (sp (aux y))
        \<and> (\<forall>x \<in> set es. access_time (sp (aux e)) \<le> access_time (sp (aux x)))"
      using Cons.prems(1) by (intro Cons.IH) simp_all
    then show ?thesis using True by auto
  next
    case False
    then have "(r = Some e \<or> e \<in> set es) \<and> access_time (sp (aux e)) \<le> t
        \<and> (\<forall>x \<in> set es. access_time (sp (aux e)) \<le> access_time (sp (aux x)))"
      using Cons.prems by (intro Cons.IH) simp_all
    then show ?thesis using False by auto
  qed
qed simp

text \<open>The steps of a successful eviction.\<close>

lemma evict_frameD:
  assumes "evict_frame s = Some (Inr (True, s'))"
  obtains e m where "oldest_loop (sups s) (frame_table s) (- 1) None = Some e" "swap_IO_lock s = 0"
    "pagedir_clear_page (pagedir s (curthread s)) (uservaddr (sups s (aux e))) (mm s) = Inr m"
    "free_page (frame e) m = Inr (mm s')" "frame_table s' = remove1 e (frame_table s)" "swap_IO_lock s' = 0"
proof -
  have lock: "swap_IO_lock s = 0" "swap_IO_lock s \<noteq> curthread s"
    using assms by (auto simp: evict_frame_def swap_lock_acquire_def requireo_def split: if_splits)
  obtain e where e: "oldest_loop (sups s) (frame_table s) (- 1) None = Some e"
    using assms lock by (cases "oldest_loop (sups s) (frame_table s) (- 1) None") (auto simp: evict_frame_def swap_lock_acquire_def)
  obtain m where m: "pagedir_clear_page (pagedir s (curthread s)) (uservaddr (sups s (aux e))) (mm s) = Inr m"
    using assms lock e by (cases "pagedir_clear_page (pagedir s (curthread s)) (uservaddr (sups s (aux e))) (mm s)")
      (auto simp: evict_frame_def swap_lock_acquire_def)
  define r where "r = (sups s (aux e))\<lparr>block_index := (if block_index (sups s (aux e)) = - 1 then curr_index s else block_index (sups s (aux e)))\<rparr>"
  define s1 where "s1 = s\<lparr>swap_IO_lock := curthread s, mm := m, sups := (sups s)(aux e := r)\<rparr>"
  have "bindo (Some (write_frame_to_block (frame e) (block_index r) s1)) (\<lambda>s.
      bindo (Some (vm_free_page (frame e) s)) (\<lambda>s.
      bindo (Some (swap_lock_release (s\<lparr>frame_table := remove1 e (frame_table s)\<rparr>))) (\<lambda>s. Some (Inr (True, s))))) = Some (Inr (True, s'))"
    using assms lock e m
    by (cases "block_index (sups s (aux e)) = - 1") (simp_all add: evict_frame_def swap_lock_acquire_def Let_def r_def s1_def)
  then obtain s2 s3 where s2: "write_frame_to_block (frame e) (block_index r) s1 = Inr s2" and s3: "vm_free_page (frame e) s2 = Inr s3"
    and s': "swap_lock_release (s3\<lparr>frame_table := remove1 e (frame_table s3)\<rparr>) = Inr s'"
    by (auto simp: bindo_def split: sum.splits)
  obtain x where x: "write_frame_loop (frame e) (block_index r) [0..<8] s1 = Inr x" "s2 = x\<lparr>curr_index := curr_index x + 8\<rparr>"
    using s2 by (auto simp: write_frame_to_block_def split: if_splits)
  then obtain d where "x = set_vdevs d s1" using write_frame_loop_mm by blast
  then have k: "mm s2 = m" "frame_table s2 = frame_table s" by (simp_all add: s1_def x(2))
  show thesis
    by (rule that [OF e lock(1) m])
      (use s3 s' k in \<open>auto simp: vm_free_page_def swap_lock_release_def\<close>)
qed

text \<open>C28: A successful eviction takes a frame whose entry has the least \<open>access_time\<close> in the frame table; it frees the frame and releases the lock. It
  removes the page from the page directory of the running thread, whoever owns the frame: there, the address of the evicted page is not mapped any more, and all other translations
  stay. In every other page directory all translations stay as they were, also that of the evicted page in the directory of its owner, if the owner is not
  running; this one then leads to a page that is free. The directories are well formed, the other one shares no page with that of the running thread, and
  the frame is no page of either.\<close>

theorem evict_frame_stale:
  assumes "evict_frame s = Some (Inr (True, s'))" "pd_ok (mm s) (pagedir s (curthread s))"
    "\<forall>e \<in> set (frame_table s). frame e \<noteq> 0 \<and> page_num (frame e) \<notin> pd_pages (mm s) (pagedir s (curthread s))"
  shows "\<exists>e \<in> set (frame_table s). (\<forall>e' \<in> set (frame_table s). access_time (sups s (aux e)) \<le> access_time (sups s (aux e')))
    \<and> frame_table s' = remove1 e (frame_table s) \<and> swap_IO_lock s' = 0 \<and> page_num (frame e) \<notin> allocated (pal (mm s'))
    \<and> (\<forall>va. is_user_vaddr va \<longrightarrow> pagedir_get_page (pagedir s (curthread s)) va (mm s') =
        (if pg_no va = pg_no (uservaddr (sups s (aux e))) then Inr 0 else pagedir_get_page (pagedir s (curthread s)) va (mm s)))
    \<and> (\<forall>pd va. pd_ok (mm s) pd \<and> pd_pages (mm s) pd \<inter> pd_pages (mm s) (pagedir s (curthread s)) = {}
        \<and> page_num (frame e) \<notin> pd_pages (mm s) pd \<and> is_user_vaddr va
        \<longrightarrow> pagedir_get_page pd va (mm s') = pagedir_get_page pd va (mm s))"
proof -
  let ?pd = "pagedir s (curthread s)"
  obtain e m where e: "oldest_loop (sups s) (frame_table s) (- 1) None = Some e"
    and m: "pagedir_clear_page ?pd (uservaddr (sups s (aux e))) (mm s) = Inr m"
    and fr: "free_page (frame e) m = Inr (mm s')" and ft: "frame_table s' = remove1 e (frame_table s)" "swap_IO_lock s' = 0"
    by (rule evict_frameD [OF assms(1)])
  have old: "e \<in> set (frame_table s)" "\<forall>x \<in> set (frame_table s). access_time (sups s (aux e)) \<le> access_time (sups s (aux x))"
    using oldest_loop_value [OF e] by auto
  note c = pagedir_clear_page_frame [OF m assms(2)] and v = pagedir_clear_page_value [OF m assms(2)]
  have fe: "frame e \<noteq> 0" "page_num (frame e) \<notin> pd_pages (mm s) ?pd" using old(1) assms(3) by auto
  note f = free_page_frame [OF fr c(2) fe(1)]
  have after: "pagedir_get_page pd va (mm s') = pagedir_get_page pd va m"
    if pd: "pd_ok m pd" "page_num (frame e) \<notin> pd_pages m pd" "is_user_vaddr va" for pd va
  proof (rule pd_frame(2) [OF pd(1)])
    show "mem (mm s') a = mem m a" if "page_num a \<in> pd_pages m pd" for a using that pd(2) by (intro f(3)) auto
    show "k \<in> allocated (pal (mm s'))" if "k \<in> pd_pages m pd" "k \<in> allocated (pal m)" for k using that pd(2) f(2) by auto
  qed (use f(1) pd(3) in auto)
  have "pagedir_get_page pd va (mm s') = pagedir_get_page pd va (mm s)"
    if pd: "pd_ok (mm s) pd" "pd_pages (mm s) pd \<inter> pd_pages (mm s) ?pd = {}" "page_num (frame e) \<notin> pd_pages (mm s) pd" "is_user_vaddr va" for pd va
  proof -
    have "mem m a = mem (mm s) a" if "page_num a \<in> pd_pages (mm s) pd" for a using that pd(2) by (intro c(1)) auto
    note fm = pd_frame [OF pd(1) this c(2)]
    have "pd_ok m pd" "pd_pages m pd = pd_pages (mm s) pd" "pagedir_get_page pd va m = pagedir_get_page pd va (mm s)"
      using fm(1,4) fm(2) [OF _ _ pd(4)] c(3) by simp_all
    then show ?thesis using after [of pd va] pd(3,4) by simp
  qed
  moreover have "pagedir_get_page ?pd va (mm s') =
      (if pg_no va = pg_no (uservaddr (sups s (aux e))) then Inr 0 else pagedir_get_page ?pd va (mm s))" if "is_user_vaddr va" for va
    using after [OF v(1) _ that] v(2) v(3) [OF that] fe(2) by simp
  ultimately show ?thesis using old ft f(2) by blast
qed

section \<open>The semaphore of the page fault handler\<close>

text \<open>No operation but \<open>page_fault\<close> changes the semaphore, and it has its old value when the missing page has been brought in.\<close>

lemma write_frame_keeps: "write_frame_to_block fr i s = Inr s' \<Longrightarrow> exception_lock s' = exception_lock s"
  by (auto simp: write_frame_to_block_def dest!: write_frame_loop_mm split: if_splits)

lemma load_frame_keeps: "load_frame_loop fr i ks s = Inr s' \<Longrightarrow> exception_lock s' = exception_lock s"
  by (induction ks arbitrary: s) fastforce+

lemma evict_frame_keeps:
  assumes "evict_frame s = Some (Inr (b, s'))"
  shows "exception_lock s' = exception_lock s"
  using assms
  by (auto simp: evict_frame_def swap_lock_acquire_def swap_lock_release_def vm_free_page_def requireo_def bindo_def bindr_def Let_def
      dest!: write_frame_keeps split: if_splits option.splits sum.splits)

lemma install_page_keeps: "install_page u k w s = Inr (b, s') \<Longrightarrow> exception_lock s' = exception_lock s"
  by (auto simp: install_page_def Let_def split: if_splits)

lemma table_insert_keeps: "sup_page_table_insert u t i d a s = Inr (p, s') \<Longrightarrow> exception_lock s' = exception_lock s"
  "frame_table_insert k ow e s = Inr s' \<Longrightarrow> exception_lock s' = exception_lock s"
  by (auto simp: sup_page_table_insert_def frame_table_insert_def vm_malloc_def Let_def split: if_splits prod.splits)

lemma bindo_Inr: "bindo m f = Some (Inr y) \<longleftrightarrow> (\<exists>x. m = Some (Inr x) \<and> f x = Some (Inr y))"
proof (cases m)
  case (Some r)
  then show ?thesis by (cases r) auto
qed simp

lemma grow_keeps: "grow s = Some (Inr (k, s')) \<Longrightarrow> exception_lock s' = exception_lock s"
  by (auto simp: grow_def bindo_Inr vm_get_page_def dest!: evict_frame_keeps split: if_splits)

lemma bring_in_keeps:
  assumes "bring_in u s = Some (Inr s')"
  shows "exception_lock s' = exception_lock s"
proof -
  have load: "exception_lock z = exception_lock y" if "load_frame_from_block k i y = Some (Inr z)" for k i y z
    using that by (auto simp: load_frame_from_block_def swap_lock_acquire_def swap_lock_release_def requireo_def bindo_Inr
        dest!: load_frame_keeps split: if_splits)
  show ?thesis
    using assms
    by (auto simp: bring_in_def bindo_Inr Let_def dest!: grow_keeps install_page_keeps table_insert_keeps load split: if_splits option.splits)
qed

text \<open>The history of the kernel, with the outcomes of the page faults of all threads. Between two of them anything may happen that leaves
  the semaphore alone: switches to other threads, system calls, user programs, exits.\<close>

inductive fault_history :: "vm \<Rightarrow> fault_outcome list \<Rightarrow> vm \<Rightarrow> bool" where
  boot: "fault_history s [] s"
| fault: "fault_history s os s1 \<Longrightarrow> page_fault fault_addr error_code cs s1 = Some (Inr (out, s2)) \<Longrightarrow> fault_history s (os @ [out]) s2"
| other: "fault_history s os s1 \<Longrightarrow> exception_lock s2 = exception_lock s1 \<Longrightarrow> fault_history s os s2"

lemma page_fault_lock:
  assumes "page_fault fault_addr error_code cs s = Some (Inr (out, s'))"
  shows "0 < exception_lock s" "exception_lock s' = (if out = Resumed then exception_lock s else exception_lock s - 1)"
proof -
  show "0 < exception_lock s" using assms by (simp add: page_fault_def split: if_splits)
  then show "exception_lock s' = (if out = Resumed then exception_lock s else exception_lock s - 1)"
    using assms by (auto simp: page_fault_def kill_def Let_def bindo_Inr dest!: bring_in_keeps split: if_splits)
qed

text \<open>C29: A process that dies of a page fault never gives back the semaphore of the handler, so that its death is the last page fault that the kernel ever
  handles. Take any history of the kernel from the initialisation of the semaphore on, in which page faults of any threads at any addresses alternate with
  other work, which does not touch the semaphore, and no page fault makes the kernel panic or waits for something else: its page faults all have been resolved, and the semaphore is one; or the last of them, and only the last, has ended its process, the
  semaphore is zero, and from then on every page fault of every thread waits forever.\<close>

theorem page_fault_deadlock:
  assumes "fault_history s outs s'" "exception_lock s = 1"
  shows "(set outs \<subseteq> {Resumed} \<and> exception_lock s' = 1)
    \<or> (\<exists>outs'. outs = outs' @ [Exited] \<and> set outs' \<subseteq> {Resumed} \<and> exception_lock s' = 0
        \<and> (\<forall>t fault_addr error_code cs. page_fault fault_addr error_code cs (s'\<lparr>curthread := t\<rparr>) = None))"
  using assms
proof (induction rule: fault_history.induct)
  case (fault s os s1 fault_addr error_code cs out s2)
  note l = page_fault_lock [OF fault.hyps(2)]
  have "set os \<subseteq> {Resumed} \<and> exception_lock s1 = 1" using fault.IH [OF fault.prems] l(1) by auto
  then show ?case using l(2) by (cases out) (auto simp: page_fault_def)
next
  case (other s os s1 s2)
  then show ?case by (auto simp: page_fault_def)
qed simp

text \<open>C30: When there is nothing to evict, \<open>evict_frame\<close> returns false but keeps the lock: the next eviction by the same
  thread fails the assertion of \<open>lock_acquire\<close>, and that of any other thread waits forever.\<close>

theorem evict_frame_keeps_lock:
  assumes "frame_table s = []" "swap_IO_lock s = 0" "curthread s \<noteq> 0"
  shows "\<exists>s'. evict_frame s = Some (Inr (False, s')) \<and> swap_IO_lock s' = curthread s
    \<and> evict_frame s' = Some (Inl (Assert_fail ''!lock_held_by_current_thread (lock)''))
    \<and> (t \<noteq> curthread s \<longrightarrow> evict_frame (s'\<lparr>curthread := t\<rparr>) = None)"
  using assms by (auto simp: evict_frame_def swap_lock_acquire_def)

section \<open>New mappings\<close>

lemma pd_pages_allocated:
  assumes "pd_ok m pd"
  shows "pd_pages m pd \<subseteq> allocated (pal m)"
proof -
  have "page_num pd \<in> allocated (pal m)" using assms unfolding pd_ok_def by blast
  moreover have "page_num pt \<in> allocated (pal m)" if "k < 768" "table m pd k = Some pt" for k pt by (rule tableD(3) [OF assms that])
  ultimately show ?thesis unfolding pd_pages_def by blast
qed

lemma allocated_pools: "allocated p \<subseteq> pool_pages (kernel_pool p) \<union> pool_pages (user_pool p)"
  using pool_allocated_subset by (fastforce simp: allocated_def)

lemma frame_in_ram:
  assumes "is_kernel_vaddr kp" "page_num kp < 0xc0000 + unat n"
  shows "drop_bit 12 (kp - PHYS_BASE) < n"
proof -
  have k: "0xc0000000 \<le> unat kp" using assms(1) by (simp add: is_kernel_vaddr_def PHYS_BASE_def word_le_nat_alt)
  have "unat (kp - PHYS_BASE) = unat kp - 0xc0000000" using k by (simp add: PHYS_BASE_def unat_sub word_le_nat_alt)
  moreover have "drop_bit 12 (kp - PHYS_BASE) = (kp - PHYS_BASE) div 4096" by (simp add: drop_bit_eq_div)
  ultimately have "unat (drop_bit 12 (kp - PHYS_BASE)) = (unat kp - 0xc0000000) div 4096" by (simp add: unat_div_distrib)
  also obtain d where "unat kp = 4096 * 0xc0000 + d" using k le_Suc_ex by auto
  then have "(unat kp - 0xc0000000) div 4096 = page_num kp - 0xc0000" unfolding page_num_alt by simp
  finally show ?thesis using assms kernel_page_num [of kp] by (simp add: word_less_nat_alt)
qed

text \<open>A new page table changes only the page of the directory and a free page of the kernel pool.\<close>

lemma lookup_page_frame:
  assumes "pd_ok s pd" "is_user_vaddr va" "lookup_page pd va True s = Inr (a, s')" "a \<noteq> 0"
  shows "allocated (pal s) \<subseteq> allocated (pal s')" "allocated (pal s') \<subseteq> allocated (pal s) \<union> pool_pages (kernel_pool (pal s))"
    "\<And>v. pool_pages (get_pool (pal s') v) = pool_pages (get_pool (pal s) v)"
    "pd_pages s' pd \<subseteq> pd_pages s pd \<union> (pool_pages (kernel_pool (pal s)) - allocated (pal s))"
    "\<And>x. page_num x \<notin> pd_pages s pd \<Longrightarrow> page_num x \<notin> pool_pages (kernel_pool (pal s)) - allocated (pal s) \<Longrightarrow> mem s' x = mem s x"
proof -
  have "allocated (pal s) \<subseteq> allocated (pal s') \<and> allocated (pal s') \<subseteq> allocated (pal s) \<union> pool_pages (kernel_pool (pal s))
    \<and> (\<forall>v. pool_pages (get_pool (pal s') v) = pool_pages (get_pool (pal s) v))
    \<and> pd_pages s' pd \<subseteq> pd_pages s pd \<union> (pool_pages (kernel_pool (pal s)) - allocated (pal s))
    \<and> (\<forall>x. page_num x \<notin> pd_pages s pd \<longrightarrow> page_num x \<notin> pool_pages (kernel_pool (pal s)) - allocated (pal s) \<longrightarrow> mem s' x = mem s x)"
  proof (cases "slot s pd va")
    case (Some b)
    then have "s' = s" using lookup_page_find(1) [OF assms(1,2) Some] assms(3) by simp
    then show ?thesis by simp
  next
    case None
    have pok: "palloc_ok (pal s)" "pd \<noteq> 0" "pg_ofs pd = 0" using assms(1) by (auto simp: pd_ok_def)
    have z: "load32 (mem s) (pd + 4 * pd_no va) = 0" using lookup_page_none(2) [OF assms(1,2) None] by (simp add: pde_of_def)
    have fl: "PAL_ZERO AND PAL_ASSERT = 0" "PAL_ZERO AND PAL_USER = 0" by (simp_all add: PAL_ZERO_def PAL_USER_def PAL_ASSERT_def)
    show ?thesis
      using pok(1) fl(1)
    proof (cases rule: get_page_cases)
      case full
      then show ?thesis using z pok(2) assms(2-4) by (simp add: lookup_page_def Let_def)
    next
      case (page pt s1)
      let ?k = "unat (pd_no va)"
      have k: "?k < 768" using index_bounds(2) [OF assms(2)] .
      then have k1: "?k < 1024" by simp
      obtain d where d: "pde_create pt = Inr d" "pde_get_pt d = Inr pt" using pte_values [OF page(4,3), of True] by blast
      let ?a = "pd + of_nat (4 * ?k)"
      have s': "s' = put_word ?a d s1"
        using z pok(2) assms(2,3) page(1,2) d by (simp add: lookup_page_def Let_def load_store_same)
      note w = page_word [OF pok(3) k1]
      have in_pd: "page_num ?a \<in> pd_pages s pd" by (simp only: w(3) pd_pages_def insertI1)
      have new: "page_num pt \<in> pool_pages (kernel_pool (pal s)) - allocated (pal s)"
        using page(6,7) fl(2) by (simp add: get_pool_def)
      have mem: "mem s' x = mem s x" if "page_num x \<notin> pd_pages s pd" "page_num x \<noteq> page_num pt" for x
      proof -
        have "page_num x \<noteq> page_num ?a" using in_pd that(1) by metis
        then have "mem s' x = mem s1 x" unfolding s' put_word_simps by (rule store32_page [OF w(2)])
        then show ?thesis using page(10) that(2) by simp
      qed
      have tab: "t = pt \<or> table s pd j = Some t" if "j < 768" "table s' pd j = Some t" for j t
      proof (cases "j = ?k")
        case True
        have "pde_of s' pd ?k = d" unfolding pde_of_def s' put_word_simps by (rule load_store_same)
        then show ?thesis using that(2) True d(2) by (simp add: table_def split: if_splits)
      next
        case False
        have j1: "j < 1024" using that(1) by simp
        note wj = page_word [OF pok(3) j1]
        have ne: "pd + of_nat (4 * j) \<noteq> ?a" using page_word_inj [OF pok(3) pok(3) j1 k1] False by blast
        have "page_num pd \<noteq> page_num pt" using assms(1) page(6) by (auto simp: pd_ok_def)
        then have "load32 (mem s1) (pd + of_nat (4 * j)) = load32 (mem s) (pd + of_nat (4 * j))"
          by (intro load32_cong [OF wj(2)]) (simp only: wj(3) page(10), simp)
        then have "pde_of s' pd j = pde_of s pd j"
          unfolding pde_of_def s' put_word_simps using load_store_other [OF w(2) wj(2) ne [symmetric]] by simp
        then show ?thesis using that(2) table_cong by metis
      qed
      have "pd_pages s' pd \<subseteq> insert (page_num pt) (pd_pages s pd)" unfolding pd_pages_def using tab by fastforce
      moreover have "get_pool (pal s') v = get_pool (pal s1) v" for v by (simp add: s' put_word_def get_pool_def)
      moreover have "allocated (pal s') = insert (page_num pt) (allocated (pal s))" unfolding s' put_word_simps by (rule page(8))
      ultimately show ?thesis using new mem page(9) by (auto; metis)
    qed
  qed
  then show "allocated (pal s) \<subseteq> allocated (pal s')" "allocated (pal s') \<subseteq> allocated (pal s) \<union> pool_pages (kernel_pool (pal s))"
    "\<And>v. pool_pages (get_pool (pal s') v) = pool_pages (get_pool (pal s) v)"
    "pd_pages s' pd \<subseteq> pd_pages s pd \<union> (pool_pages (kernel_pool (pal s)) - allocated (pal s))"
    "\<And>x. page_num x \<notin> pd_pages s pd \<Longrightarrow> page_num x \<notin> pool_pages (kernel_pool (pal s)) - allocated (pal s) \<Longrightarrow> mem s' x = mem s x"
    by blast+
qed

text \<open>The page number of a frame is below the number of pages of memory.\<close>

lemma install_page_value:
  fixes s :: vm
  defines "pd \<equiv> pagedir s (curthread s)"
  assumes "pd_ok (mm s) pd" "is_user_vaddr upage" "pg_ofs upage = 0" "is_kernel_vaddr kp" "pg_ofs kp = 0"
    "drop_bit 12 (kp - PHYS_BASE) < init_ram_pages (mm s)" "pd \<noteq> init_page_dir (mm s)" "\<not> present (mm s) pd upage"
  obtains (ok) m e where "install_page upage kp w s = Inr (True, s\<lparr>mm := m\<rparr>)" "pd_ok m pd" "pte_of m pd upage = Some e"
      "pte_get_page e = Inr kp" "e AND PTE_P \<noteq> 0" "e AND PTE_W \<noteq> 0 \<longleftrightarrow> w"
      "\<And>va. is_user_vaddr va \<Longrightarrow> \<not> same_slot upage va \<Longrightarrow> pagedir_get_page pd va m = pagedir_get_page pd va (mm s)"
      "allocated (pal (mm s)) \<subseteq> allocated (pal m)" "allocated (pal m) \<subseteq> allocated (pal (mm s)) \<union> pool_pages (kernel_pool (pal (mm s)))"
      "\<And>v. pool_pages (get_pool (pal m) v) = pool_pages (get_pool (pal (mm s)) v)"
      "pd_pages m pd \<subseteq> pd_pages (mm s) pd \<union> (pool_pages (kernel_pool (pal (mm s))) - allocated (pal (mm s)))"
      "\<And>x. page_num x \<notin> pd_pages (mm s) pd \<Longrightarrow> page_num x \<notin> pool_pages (kernel_pool (pal (mm s))) - allocated (pal (mm s)) \<Longrightarrow> mem m x = vmem s x"
      "m = (mm s)\<lparr>pal := pal m\<rparr>"
  | (full) "install_page upage kp w s = Inr (False, s)" "pool_pages (kernel_pool (pal (mm s))) \<subseteq> allocated (pal (mm s))"
proof -
  have get: "pagedir_get_page pd upage (mm s) = Inr 0"
    using assms(9) pagedir_get_page_value [OF assms(2,3)] by (auto simp: present_def split: option.splits)
  then have inst: "install_page upage kp w s = bindr (pagedir_set_page pd upage kp w (mm s)) (\<lambda>(b, m). Inr (b, s\<lparr>mm := m\<rparr>))"
    by (simp add: install_page_def pd_def Let_def)
  show thesis
    using assms(2-)
  proof (cases rule: pagedir_set_page_entry [where w = w])
    case full
    then show thesis using inst by (intro that(2)) auto
  next
    case (set a s1 u)
    note fr = lookup_page_frame [OF assms(2,3) set(2,3)]
    let ?m = "put_word a u s1"
    note pe = put_entry [OF set(4) assms(3) set(5), where e = u]
    obtain pt where pt: "table s1 pd (unat (pd_no upage)) = Some pt" "page_num a = page_num pt" by (rule slotD [OF set(4) assms(3) set(5)])
    have al: "aligned a" by (rule lookup_page_find(3) [OF set(4) assms(3) set(5)])
    have in_pd: "page_num a \<in> pd_pages s1 pd" using pt index_bounds(2) [OF assms(3)] unfolding pd_pages_def by auto
    have pp: "pd_pages ?m pd = pd_pages s1 pd" by (rule pd_pages_put_word [OF set(4) assms(3) set(5)])
    have mem: "mem ?m x = vmem s x"
      if x: "page_num x \<notin> pd_pages (mm s) pd" "page_num x \<notin> pool_pages (kernel_pool (pal (mm s))) - allocated (pal (mm s))" for x
    proof -
      have "page_num x \<noteq> page_num a" using in_pd fr(4) x by auto
      from store32_page [OF al this] show ?thesis using fr(5) [OF x] by (simp only: put_word_simps)
    qed
    have other: "pagedir_get_page pd va ?m = pagedir_get_page pd va (mm s)" if va: "is_user_vaddr va" "\<not> same_slot upage va" for va
      by (rule other_pages [OF assms(2) pe(1) va(1), of upage]) (use pe(2) [OF va(1)] set(9) [OF va(1)] va(2) in simp)
    have e: "pte_of ?m pd upage = Some u" using pe(2) [OF assms(3)] by (simp add: same_slot_def)
    have "?m = (mm s)\<lparr>pal := pal ?m\<rparr>" unfolding put_word_def by (subst set(10)) simp
    moreover have "install_page upage kp w s = Inr (True, s\<lparr>mm := ?m\<rparr>)" using inst set(1) by simp
    moreover have "get_pool (pal ?m) v = get_pool (pal s1) v" for v by (simp add: put_word_def get_pool_def)
    ultimately show thesis using pe(1) e set(6-8) other fr(1-4) mem pp by (intro that(1)) (simp_all only: put_word_simps not_False_eq_True)
  qed
qed

section \<open>Examples\<close>

text \<open>Two processes: thread 3 runs with the page directory at \<open>0xc0101000\<close>; the only frame belongs to it.\<close>

definition example_vm :: vm where
  "example_vm = \<lparr>mm = example_mmu, fsys = undefined\<lparr>devs := example_blocks, alloc_ok := (\<lambda>_. True), alloc_cnt := 100\<rparr>,
     curthread = 3, pagedir = (\<lambda>t. if t = 3 then 0xc0101000 else 0), page_table = (\<lambda>_. []),
     sups = (\<lambda>_. \<lparr>uservaddr = 0x8048000, access_time = 5, block_index = - 1, sp_dirty = False, sp_accessed = True\<rparr>),
     frame_table = [], global_swap_block = 16, curr_index = 0, swap_IO_lock = 0, exception_lock = 1, page_fault_cnt = 0, ticks = 9\<rparr>"

theorem evict_frame_keeps_lock_witness:
  "\<exists>s'. evict_frame example_vm = Some (Inr (False, s')) \<and> evict_frame (s'\<lparr>curthread := 4\<rparr>) = None"
  using evict_frame_keeps_lock [of example_vm 4] by (auto simp: example_vm_def)

theorem page_fault_deadlock_witness:
  "\<exists>s'. fault_history example_vm [Exited] s' \<and> (\<forall>a. page_fault a PF_U SEL_UCSEG (s'\<lparr>curthread := 4\<rparr>) = None)"
proof -
  obtain s' where "page_fault 0 PF_U SEL_UCSEG example_vm = Some (Inr (Exited, s'))" by (simp add: page_fault_def kill_def example_vm_def)
  from fault_history.fault [OF fault_history.boot this] have h: "fault_history example_vm [Exited] s'" by simp
  have "exception_lock example_vm = 1" by (simp add: example_vm_def)
  from page_fault_deadlock [OF h this] h show ?thesis by auto
qed

theorem swap_roundtrip_witness:
  "\<exists>s' s''. write_frame_to_block 0xc0102000 8 example_vm = Inr s' \<and> load_frame_from_block 0xc0103000 8 s' = Some (Inr s'')
    \<and> (\<forall>i < 4096. vmem s'' (0xc0103000 + of_nat i) = vmem example_vm (0xc0102000 + of_nat i))"
proof -
  obtain s' where w: "write_frame_to_block 0xc0102000 8 example_vm = Inr s'"
    by (simp add: write_frame_to_block_def example_vm_def example_blocks_def block_write_def check_sector_def sector_no_def
        set_vdevs_def upt_rec Let_def)
  have "pg_ofs 0xc0103000 = 0" by (simp add: pg_ofs_def PGMASK_def BITMASK_def)
  from swap_roundtrip [OF w _ _ this] w show ?thesis by (auto simp: example_vm_def)
qed

text \<open>A state in which the only frame, the first page of the user pool, belongs to thread 4, while thread 3 runs.\<close>

definition example_pal :: palloc where
  "example_pal = example_palloc\<lparr>user_pool := \<lparr>used_map = \<lparr>bit_cnt = 4, bits = [1]\<rparr>, base = 0xc0108000\<rparr>, pmem := (\<lambda>_. 0)\<rparr>"

definition example_evict :: vm where
  "example_evict = example_vm\<lparr>mm := example_mmu\<lparr>pal := example_pal\<rparr>, frame_table := [\<lparr>frame = 0xc0108000, owner = 4, aux = 7\<rparr>]\<rparr>"

lemma example_pal_ok: "palloc_ok example_pal" "{0xc0101, 0xc0108} \<subseteq> allocated example_pal"
  "0xc0108 \<in> pool_pages (user_pool example_pal)"
proof -
  have o: "pg_ofs 0xc0101000 = 0" "pg_ofs 0xc0108000 = 0" by (simp_all add: pg_ofs_def PGMASK_def BITMASK_def)
  have one: "bm_used \<lparr>bit_cnt = 4, bits = [1]\<rparr> 0" by (simp add: bm_used_def bm_list_def)
  show "palloc_ok example_pal"
    using o by (simp add: palloc_ok_def pool_ok_def example_pal_def example_palloc_def example_bitmap_ok bm_ok_def is_kernel_vaddr_def
        PHYS_BASE_def pool_pages_def page_num_def pg_no_unat example_bitmap_def)
  show "0xc0108 \<in> pool_pages (user_pool example_pal)"
    by (simp add: pool_pages_def example_pal_def page_num_def pg_no_unat)
  show "{0xc0101, 0xc0108} \<subseteq> allocated example_pal"
    using one by (auto simp: allocated_def pool_allocated_def pool_pages_def example_pal_def example_palloc_def page_num_def pg_no_unat
        example_bitmap_def)
qed

lemma example_evict_pd: "pd_ok (mm example_evict) 0xc0101000"
proof -
  have "pde_of (mm example_evict) 0xc0101000 k = 0" for k
    by (simp add: pde_of_def load32_def load_elem_def example_evict_def example_pal_def)
  moreover have "pg_ofs 0xc0101000 = 0" "page_num 0xc0101000 = 0xc0101"
    by (simp_all add: pg_ofs_def PGMASK_def BITMASK_def page_num_def pg_no_unat)
  ultimately show ?thesis using example_pal_ok by (simp add: pd_ok_def table_def example_evict_def)
qed

theorem evict_frame_stale_witness:
  "\<exists>s'. evict_frame example_evict = Some (Inr (True, s')) \<and> page_num 0xc0108000 \<notin> allocated (pal (mm s')) \<and> frame_table s' = []"
proof -
  let ?e = "\<lparr>frame = 0xc0108000, owner = 4, aux = 7\<rparr>" and ?u = "0x8048000 :: addr"
  define s1 where "s1 = example_evict\<lparr>swap_IO_lock := 3, sups := (sups example_vm)(7 := (sups example_vm 7)\<lparr>block_index := 0\<rparr>)\<rparr>"
  have u: "is_user_vaddr ?u" "pg_ofs ?u = 0" by (simp_all add: is_user_vaddr_def PHYS_BASE_def pg_ofs_def PGMASK_def BITMASK_def)
  have "slot (mm example_evict) 0xc0101000 ?u = None"
    by (simp add: slot_def table_def pde_of_def load32_def load_elem_def example_evict_def example_pal_def)
  then have c: "pagedir_clear_page 0xc0101000 ?u (mm example_evict) = Inr (mm example_evict)"
    using lookup_page_none(1) [OF example_evict_pd u(1)] u by (simp add: pagedir_clear_page_def)
  have "\<exists>s2. write_frame_to_block 0xc0108000 0 s1 = Inr s2"
    by (simp add: write_frame_to_block_def s1_def example_evict_def example_vm_def example_blocks_def block_write_def check_sector_def sector_no_def
        set_vdevs_def upt_rec Let_def)
  then obtain s2 where s2: "write_frame_to_block 0xc0108000 0 s1 = Inr s2" by blast
  then obtain x d where "s2 = x\<lparr>curr_index := curr_index x + 8\<rparr>" "x = set_vdevs d s1"
    using write_frame_loop_mm by (auto simp: write_frame_to_block_def split: if_splits) blast
  then have k: "mm s2 = mm example_evict" "frame_table s2 = [?e]" "swap_IO_lock s2 = 3" "curthread s2 = 3"
    by (simp_all add: s1_def example_evict_def example_vm_def)
  have r: "page_range 0xc0108000 1 = {0xc0108}" "pg_ofs 0xc0108000 = 0"
    by (auto simp: page_range_def page_num_def pg_no_unat pg_ofs_def PGMASK_def BITMASK_def)
  have g: "\<exists>u. {0xc0108} \<subseteq> pool_pages (get_pool example_pal u)" using example_pal_ok(3) by (auto simp: get_pool_def intro!: exI [of _ True])
  obtain pl where "palloc_free_multiple example_pal 0xc0108000 1 = Inr pl"
    using palloc_free_multiple_cases [OF example_pal_ok(1) r(2), of 1] g example_pal_ok(2) unfolding r(1) by auto
  then obtain s3 where s3: "vm_free_page 0xc0108000 s2 = Inr s3" "frame_table s3 = [?e]" "swap_IO_lock s3 = 3" "curthread s3 = 3"
    using k by (auto simp: vm_free_page_def free_page_def palloc_free_page_def example_evict_def)
  have "evict_frame example_evict = Some (Inr (True, s3\<lparr>frame_table := [], swap_IO_lock := 0\<rparr>))"
    using c s2 s3 by (simp add: evict_frame_def swap_lock_acquire_def swap_lock_release_def s1_def example_evict_def example_vm_def Let_def)
  moreover have "pd_pages (mm example_evict) 0xc0101000 = {0xc0101}"
    by (auto simp: pd_pages_def table_def pde_of_def load32_def load_elem_def example_evict_def example_pal_def page_num_def pg_no_unat)
  then have "\<forall>e \<in> set (frame_table example_evict). frame e \<noteq> 0
      \<and> page_num (frame e) \<notin> pd_pages (mm example_evict) (pagedir example_evict (curthread example_evict))"
    by (simp add: example_evict_def example_vm_def page_num_def pg_no_unat)
  moreover have "pd_ok (mm example_evict) (pagedir example_evict (curthread example_evict))"
    using example_evict_pd by (simp add: example_evict_def example_vm_def)
  ultimately have "\<exists>e \<in> set (frame_table example_evict). frame_table (s3\<lparr>frame_table := [], swap_IO_lock := 0\<rparr>) = remove1 e (frame_table example_evict)
      \<and> page_num (frame e) \<notin> allocated (pal (mm (s3\<lparr>frame_table := [], swap_IO_lock := 0\<rparr>)))"
    using evict_frame_stale [of example_evict "s3\<lparr>frame_table := [], swap_IO_lock := 0\<rparr>"] by blast
  then show ?thesis using \<open>evict_frame example_evict = _\<close> by (auto simp: example_evict_def example_vm_def)
qed

end
