(* ===== verification/Process.thy ===== *)
theory Process
  imports Vm
begin

text \<open>
  Loading a program (userprog/process.c): the checks on an ELF file, the segments, the stack with the arguments, and what
  a process gives back when it exits. The kernel writes the stack through the page directory of the running
  thread, so that a write may cause a page fault; the fault handler of \<open>Vm\<close> then resumes it or ends the process. A function that
  may end the process returns \<open>Exit\<close> with the last state, or \<open>Ret\<close> with its value.
\<close>

section \<open>Kernel code that may end the process\<close>

datatype ('s, 'a) run = Exit 's | Ret 'a

definition bindx :: "('s, 'a) run res option \<Rightarrow> ('a \<Rightarrow> ('s, 'b) run res option) \<Rightarrow> ('s, 'b) run res option" where
  "bindx m f = bindo m (\<lambda>r. case r of Exit s \<Rightarrow> Some (Inr (Exit s)) | Ret x \<Rightarrow> f x)"

definition ret :: "'a \<Rightarrow> ('s, 'a) run res option" where
  "ret x = Some (Inr (Ret x))"

definition liftx :: "'a res option \<Rightarrow> ('s, 'a) run res option" where
  "liftx m = bindo m ret"

lemma bindx_simps [simp, panic_simps]:
  "bindx None f = None" "bindx (Some (Inl e)) f = Some (Inl e)" "bindx (Some (Inr (Exit s))) f = Some (Inr (Exit s))"
  "bindx (Some (Inr (Ret x))) f = f x" "bindx (ret x) f = f x"
  by (simp_all add: bindx_def ret_def)

lemma liftx_simps [simp, panic_simps]:
  "liftx None = None" "liftx (Some (Inl e)) = Some (Inl e)" "liftx (Some (Inr x)) = ret x"
  by (simp_all add: liftx_def)

lemma bindx_mono [partial_function_mono]:
  assumes "mono_option B" and "\<And>y. mono_option (\<lambda>f. C y f)"
  shows "mono_option (\<lambda>f. bindx (B f) (\<lambda>y. C y f))"
  unfolding bindx_def
proof (rule bindo_mono [OF assms(1)])
  fix r
  show "mono_option (\<lambda>f. case r of Exit s \<Rightarrow> Some (Inr (Exit s)) | Ret x \<Rightarrow> C x f)"
    by (cases r) (auto intro: assms(2) option.const_mono)
qed

section \<open>Access to user memory\<close>

text \<open>The paging hardware: the place of an address in memory, or the error code of the fault. Kernel addresses are mapped
  as they are; the write protection holds for the kernel too.\<close>

definition translate :: "bool \<Rightarrow> addr \<Rightarrow> vm \<Rightarrow> (addr + 32 word) res" where
  "translate w va s =
     (if is_kernel_vaddr va then Inr (Inl va)
      else bindr (lookup_page (pagedir s (curthread s)) va False (mm s)) (\<lambda>(pte, _).
        let e = load32 (vmem s) pte in
        if pte = 0 \<or> e AND PTE_P = 0 then Inr (Inr (if w then PF_W else 0))
        else if w \<and> e AND PTE_W = 0 then Inr (Inr (PF_P OR PF_W))
        else bindr (pte_get_page e) (\<lambda>p. Inr (Inl (p + pg_ofs va)))))"

text \<open>An access that faults is repeated after the handler returns. If it faults again, it never ends.\<close>

definition access :: "bool \<Rightarrow> addr \<Rightarrow> vm \<Rightarrow> (vm, addr \<times> vm) run res option" where
  "access w va s = bindo (Some (translate w va s)) (\<lambda>r.
     case r of Inl p \<Rightarrow> ret (p, s)
     | Inr code \<Rightarrow> bindo (page_fault va code SEL_KCSEG s) (\<lambda>(out, s).
         if out = Exited then Some (Inr (Exit s))
         else bindo (Some (translate w va s)) (\<lambda>r. case r of Inl p \<Rightarrow> ret (p, s) | Inr code \<Rightarrow> None)))"

definition kload :: "addr \<Rightarrow> vm \<Rightarrow> (vm, 8 word \<times> vm) run res option" where
  "kload va s = bindx (access False va s) (\<lambda>(p, s). ret (vmem s p, s))"

definition kstore :: "addr \<Rightarrow> 8 word \<Rightarrow> vm \<Rightarrow> (vm, vm) run res option" where
  "kstore va b s = bindx (access True va s) (\<lambda>(p, s). ret (set_vmem ((vmem s)(p := b)) s))"

primrec kstores :: "addr \<Rightarrow> bytes \<Rightarrow> vm \<Rightarrow> (vm, vm) run res option" where
  "kstores va [] s = ret s"
| "kstores va (b # bs) s = bindx (kstore va b s) (kstores (va + 1) bs)"

primrec kcopy :: "addr \<Rightarrow> addr \<Rightarrow> nat \<Rightarrow> vm \<Rightarrow> (vm, vm) run res option" where
  "kcopy dst src 0 s = ret s"
| "kcopy dst src (Suc n) s =
     bindx (kload src s) (\<lambda>(b, s). bindx (kstore dst b s) (kcopy (dst + 1) (src + 1) n))"

text \<open>\<open>memset\<close> with zero, \<open>memcpy\<close> from a variable whose bytes are \<open>bs\<close>, and \<open>memcpy\<close> between addresses.\<close>

definition kmemset0 :: "addr \<Rightarrow> nat \<Rightarrow> vm \<Rightarrow> (vm, vm) run res option" where
  "kmemset0 dst n s = requireo (dst \<noteq> 0 \<or> n = 0) ''dst != NULL || size == 0'' (kstores dst (replicate n 0) s)"

definition kmemcpy_var :: "addr \<Rightarrow> bytes \<Rightarrow> vm \<Rightarrow> (vm, vm) run res option" where
  "kmemcpy_var dst bs s = requireo (dst \<noteq> 0 \<or> bs = []) ''dst != NULL || size == 0'' (kstores dst bs s)"

definition kmemcpy :: "addr \<Rightarrow> addr \<Rightarrow> nat \<Rightarrow> vm \<Rightarrow> (vm, vm) run res option" where
  "kmemcpy dst src n s =
     requireo (dst \<noteq> 0 \<or> n = 0) ''dst != NULL || size == 0''
     (requireo (src \<noteq> 0 \<or> n = 0) ''src != NULL || size == 0'' (kcopy dst src n s))"

section \<open>The stack\<close>

text \<open>A page with the flags, after an eviction if there is none at first; 0 if there is still none.\<close>

definition frame_or_evict :: "palloc_flags \<Rightarrow> vm \<Rightarrow> (addr \<times> vm) res option" where
  "frame_or_evict flags s =
     bindo (Some (vm_get_page flags s)) (\<lambda>(kpage, s).
     if kpage \<noteq> 0 then Some (Inr (kpage, s))
     else bindo (evict_frame s) (\<lambda>(ok, s). if ok then Some (vm_get_page flags s) else Some (Inr (0, s))))"

text \<open>The loop that counts the arguments: the length of the string and one more than the number of its runs of spaces.\<close>

partial_function (option) count_args :: "memory \<Rightarrow> addr \<Rightarrow> nat \<Rightarrow> nat \<Rightarrow> bool \<Rightarrow> (nat \<times> nat) option" where
  "count_args m file_name total_size argc prevCharWasSpace =
     (let c = m (file_name + of_nat total_size) in
      if c \<noteq> 0 then
        if c = 32 \<and> \<not> prevCharWasSpace then count_args m file_name (total_size + 1) (argc + 1) True
        else count_args m file_name (total_size + 1) argc (if c \<noteq> 32 then False else prevCharWasSpace)
      else Some (total_size, argc))"

text \<open>The loop that copies the arguments. \<open>space\<close> is the address of the string with one space, \<open>ptr\<close> the position that
  \<open>strtok_r\<close> has saved.\<close>

partial_function (option) args_loop :: "addr \<Rightarrow> addr \<Rightarrow> addr \<Rightarrow> addr \<Rightarrow> addr \<Rightarrow> vm \<Rightarrow> (vm, vm) run res option" where
  "args_loop space currArg ptr bottomForArgs bottomForAddresses s =
     bindx (liftx (strlen (vmem s) currArg)) (\<lambda>n.
     bindx (kmemcpy bottomForArgs currArg (n + 1) s) (\<lambda>s.
     bindx (kmemcpy_var bottomForAddresses (le32 bottomForArgs) s) (\<lambda>s.
     bindx (liftx (strlen (vmem s) currArg)) (\<lambda>n.
     bindx (liftx (strtok_r (vmem s) 0 space (Some ptr))) (\<lambda>(currArg, ptr, m).
     if currArg \<noteq> 0
     then args_loop space currArg ptr (bottomForArgs + of_nat (n + 1)) (bottomForAddresses + 4) (set_vmem m s)
     else ret (set_vmem m s))))))"

text \<open>The part of \<open>setup_stack\<close> that pushes the arguments, with the copy of the command line at \<open>fn_copy\<close>.\<close>

definition push_arguments :: "addr \<Rightarrow> addr \<Rightarrow> addr \<Rightarrow> addr \<Rightarrow> vm \<Rightarrow> (vm, addr \<times> vm) run res option" where
  "push_arguments space file_name fn_copy esp s =
     bindx (liftx (map_option Inr (count_args (vmem s) file_name 0 1 False))) (\<lambda>(total_size, argc).
     let total_size = total_size + 1;
         esp = esp - of_nat total_size;
         bottomForArgs = esp;
         word_align = 4 - total_size mod 4;
         esp = esp - of_nat word_align in
     bindx (kmemset0 esp word_align s) (\<lambda>s.
     let esp = esp - 4 in
     bindx (kmemset0 esp 4 s) (\<lambda>s.
     let esp = esp - of_nat (4 * argc);
         bottomForAddresses = esp;
         esp = esp - 4 in
     bindx (kmemcpy_var esp (le32 bottomForAddresses) s) (\<lambda>s.
     let esp = esp - 4 in
     bindx (kstores esp (le32 (of_nat argc)) s) (\<lambda>s.
     let esp = esp - 4 in
     bindx (kmemset0 esp 4 s) (\<lambda>s.
     bindx (liftx (strtok_r (vmem s) fn_copy space (Some 0))) (\<lambda>(currArg, ptr, m).
     bindx (args_loop space currArg ptr bottomForArgs bottomForAddresses (set_vmem m s)) (\<lambda>s. ret (esp, s)))))))))"

text \<open>\<open>esp\<close> is the value of \<open>*esp\<close> before the call. When the second eviction fails, the code returns \<open>TID_ERROR\<close>, which
  is the truth value true.\<close>

definition setup_stack :: "addr \<Rightarrow> addr \<Rightarrow> addr \<Rightarrow> vm \<Rightarrow> (vm, bool \<times> addr \<times> vm) run res option" where
  "setup_stack space file_name esp s =
     bindx (liftx (frame_or_evict (PAL_USER OR PAL_ZERO) s)) (\<lambda>(kpage, s).
     if kpage = 0 then ret (False, esp, s)
     else bindx (liftx (Some (install_page (PHYS_BASE - 0x1000) kpage True s))) (\<lambda>(success, s).
       bindx (liftx (if success then Some (Inr s) else Some (vm_free_page kpage s))) (\<lambda>s.
       let esp = (if success then PHYS_BASE else esp) in
       bindx (liftx (Some (vm_get_page PAL_USER s))) (\<lambda>(fn_copy, s).
       bindx (if fn_copy \<noteq> 0 then ret (True, fn_copy, s)
              else bindx (liftx (evict_frame s)) (\<lambda>(ok, s).
                if ok then bindx (liftx (Some (vm_get_page PAL_USER s))) (\<lambda>(p, s). ret (True, p, s)) else ret (False, 0, s)))
         (\<lambda>(ok, fn_copy, s).
         if \<not> ok then ret (True, esp, s)
         else bindx (liftx (strlcpy (vmem s) fn_copy file_name PGSIZE)) (\<lambda>(_, m).
           bindx (push_arguments space file_name fn_copy esp (set_vmem m s)) (\<lambda>(esp, s). ret (success, esp, s))))))))"

section \<open>Segments\<close>

record Elf32_Ehdr =
  e_ident :: bytes
  e_type :: "16 word"
  e_machine :: "16 word"
  e_version :: "32 word"
  e_entry :: addr
  e_phoff :: "32 word"
  e_phentsize :: "16 word"
  e_phnum :: "16 word"

record Elf32_Phdr =
  p_type :: "32 word"
  p_offset :: "32 word"
  p_vaddr :: addr
  p_paddr :: addr
  p_filesz :: "32 word"
  p_memsz :: "32 word"
  p_flags :: "32 word"
  p_align :: "32 word"

definition half_at :: "bytes \<Rightarrow> nat \<Rightarrow> 16 word" where
  "half_at bs i = ucast (bs ! i) OR push_bit 8 (ucast (bs ! (i + 1)))"

text \<open>The headers from the bytes that a read has put into the variable. The fields of the file header that the code does
  not use are left out.\<close>

definition decode_ehdr :: "bytes \<Rightarrow> Elf32_Ehdr" where
  "decode_ehdr bs = \<lparr>e_ident = take 16 bs, e_type = half_at bs 16, e_machine = half_at bs 18, e_version = word_at bs 20,
     e_entry = word_at bs 24, e_phoff = word_at bs 28, e_phentsize = half_at bs 42, e_phnum = half_at bs 44\<rparr>"

definition decode_phdr :: "bytes \<Rightarrow> Elf32_Phdr" where
  "decode_phdr bs = \<lparr>p_type = word_at bs 0, p_offset = word_at bs 4, p_vaddr = word_at bs 8, p_paddr = word_at bs 12,
     p_filesz = word_at bs 16, p_memsz = word_at bs 20, p_flags = word_at bs 24, p_align = word_at bs 28\<rparr>"

abbreviation (input) PT_LOAD :: "32 word" where "PT_LOAD \<equiv> 1"
abbreviation (input) PT_DYNAMIC :: "32 word" where "PT_DYNAMIC \<equiv> 2"
abbreviation (input) PT_INTERP :: "32 word" where "PT_INTERP \<equiv> 3"
abbreviation (input) PT_SHLIB :: "32 word" where "PT_SHLIB \<equiv> 5"

definition ROUND_UP :: "32 word \<Rightarrow> 32 word \<Rightarrow> 32 word" where
  "ROUND_UP x step = (x + step - 1) div step * step"

text \<open>\<open>file_len\<close> is the length of the file.\<close>

definition validate_segment :: "Elf32_Phdr \<Rightarrow> int \<Rightarrow> bool" where
  "validate_segment ph file_len \<longleftrightarrow>
     p_offset ph AND PGMASK = p_vaddr ph AND PGMASK
     \<and> \<not> p_offset ph > word_of_int file_len
     \<and> \<not> p_memsz ph < p_filesz ph
     \<and> p_memsz ph \<noteq> 0
     \<and> is_user_vaddr (p_vaddr ph)
     \<and> is_user_vaddr (p_vaddr ph + p_memsz ph)
     \<and> \<not> p_vaddr ph + p_memsz ph < p_vaddr ph
     \<and> \<not> p_vaddr ph < 4096"

text \<open>What \<open>load\<close> computes for a segment: offset in the file, address of the first page, bytes to read and to clear.\<close>

definition segment_args :: "Elf32_Phdr \<Rightarrow> int \<times> addr \<times> 32 word \<times> 32 word" where
  "segment_args ph =
     (let file_page = p_offset ph AND NOT PGMASK;
          mem_page = p_vaddr ph AND NOT PGMASK;
          page_offset = p_vaddr ph AND PGMASK;
          (read_bytes, zero_bytes) =
            (if p_filesz ph > 0
             then let r = page_offset + p_filesz ph in (r, ROUND_UP (page_offset + p_memsz ph) 4096 - r)
             else (0, ROUND_UP (page_offset + p_memsz ph) 4096))
      in (sint file_page, mem_page, read_bytes, zero_bytes))"

partial_function (option) load_segment_loop :: "ptr \<Rightarrow> addr \<Rightarrow> 32 word \<Rightarrow> 32 word \<Rightarrow> bool \<Rightarrow> vm \<Rightarrow> (bool \<times> vm) res option" where
  "load_segment_loop file upage read_bytes zero_bytes wr s =
     (if read_bytes > 0 \<or> zero_bytes > 0 then
        let page_read_bytes = (if read_bytes < 4096 then read_bytes else 4096);
            page_zero_bytes = 4096 - page_read_bytes in
        bindo (frame_or_evict PAL_USER s) (\<lambda>(kpage, s).
        if kpage = 0 then Some (Inr (False, s))
        else bindo (Some (file_read file (uint page_read_bytes) (fsys s))) (\<lambda>(bs, f).
          let s = set_vmem (write_mem (vmem s) kpage bs) (s\<lparr>fsys := f\<rparr>) in
          if int (length bs) \<noteq> uint page_read_bytes
          then bindo (Some (vm_free_page kpage s)) (\<lambda>s. Some (Inr (False, s)))
          else bindo (Some (memset (vmem s) (kpage + page_read_bytes) 0 (unat page_zero_bytes))) (\<lambda>(_, m).
            bindo (Some (install_page upage kpage wr (set_vmem m s))) (\<lambda>(ok, s).
            if \<not> ok then bindo (Some (vm_free_page kpage s)) (\<lambda>s. Some (Inr (False, s)))
            else bindo (Some (sup_page_table_insert upage (ticks s) (- 1) False True s)) (\<lambda>(e, s).
              bindo (Some (frame_table_insert kpage (curthread s) e s)) (\<lambda>s.
              load_segment_loop file (upage + 4096) (read_bytes - page_read_bytes) (zero_bytes - page_zero_bytes) wr s))))))
      else Some (Inr (True, s)))"

definition load_segment :: "ptr \<Rightarrow> int \<Rightarrow> addr \<Rightarrow> 32 word \<Rightarrow> 32 word \<Rightarrow> bool \<Rightarrow> vm \<Rightarrow> (bool \<times> vm) res option" where
  "load_segment file ofs upage read_bytes zero_bytes wr s =
     requireo ((read_bytes + zero_bytes) mod 4096 = 0) ''(read_bytes + zero_bytes) % PGSIZE == 0''
     (requireo (pg_ofs upage = 0) ''pg_ofs (upage) == 0''
     (requireo (ofs smod 4096 = 0) ''ofs % PGSIZE == 0''
     (bindo (Some (file_seek file ofs (fsys s))) (\<lambda>f.
      load_segment_loop file upage read_bytes zero_bytes wr (s\<lparr>fsys := f\<rparr>)))))"

section \<open>Loading a program\<close>

text \<open>The loop over the program headers. \<open>n\<close> of them are left; the next one is at \<open>file_ofs\<close>.\<close>

fun load_headers :: "ptr \<Rightarrow> nat \<Rightarrow> int \<Rightarrow> vm \<Rightarrow> (bool \<times> vm) res option" where
  "load_headers file 0 file_ofs s = Some (Inr (True, s))"
| "load_headers file (Suc n) file_ofs s =
     bindo (Some (file_length file (fsys s))) (\<lambda>file_len.
     if file_ofs < 0 \<or> file_ofs > file_len then Some (Inr (False, s))
     else bindo (Some (file_seek file file_ofs (fsys s))) (\<lambda>f.
       bindo (Some (file_read file 32 f)) (\<lambda>(bs, f).
       let s = s\<lparr>fsys := f\<rparr> in
       if length bs \<noteq> 32 then Some (Inr (False, s))
       else
         let phdr = decode_phdr bs; file_ofs = off_t (file_ofs + 32) in
         if p_type phdr = PT_DYNAMIC \<or> p_type phdr = PT_INTERP \<or> p_type phdr = PT_SHLIB then Some (Inr (False, s))
         else if p_type phdr = PT_LOAD then
           if validate_segment phdr file_len then
             let (ofs, upage, read_bytes, zero_bytes) = segment_args phdr in
             bindo (load_segment file ofs upage read_bytes zero_bytes (p_flags phdr AND 2 \<noteq> 0) s) (\<lambda>(ok, s).
             if ok then load_headers file n file_ofs s else Some (Inr (False, s)))
           else Some (Inr (False, s))
         else load_headers file n file_ofs s)))"

definition elf_ok :: "bytes \<Rightarrow> bool" where
  "elf_ok bs \<longleftrightarrow> length bs = 52
     \<and> (let ehdr = decode_ehdr bs in
        take 7 (e_ident ehdr) = [0x7f, 0x45, 0x4c, 0x46, 1, 1, 1] \<and> e_type ehdr = 2 \<and> e_machine ehdr = 3
        \<and> e_version ehdr = 1 \<and> e_phentsize ehdr = 32 \<and> \<not> e_phnum ehdr > 1024)"

text \<open>\<open>process_activate\<close>, without the task state segment.\<close>

definition process_activate :: "vm \<Rightarrow> vm res" where
  "process_activate s = bindr (pagedir_activate (pagedir s (curthread s)) (mm s)) (\<lambda>m. Inr (s\<lparr>mm := m\<rparr>))"

text \<open>The steps of \<open>load\<close> before its label \<open>done\<close>: whether they succeed, the open file, the entry point and the stack
  pointer.\<close>

definition load_steps :: "addr \<Rightarrow> bytes \<Rightarrow> addr \<Rightarrow> addr \<Rightarrow> vm \<Rightarrow> (vm, bool \<times> ptr \<times> addr \<times> addr \<times> vm) run res option" where
  "load_steps space file_name full_name esp s =
     bindx (liftx (Some (pagedir_create (mm s)))) (\<lambda>(pd, m).
     let s = s\<lparr>mm := m, pagedir := (pagedir s)(curthread s := pd)\<rparr> in
     if pd = 0 then ret (False, 0, 0, esp, s)
     else bindx (liftx (Some (process_activate s))) (\<lambda>s.
       bindx (liftx (filesys_open file_name (fsys s))) (\<lambda>(file, f).
       let s = s\<lparr>fsys := f\<rparr> in
       if file = 0 then ret (False, 0, 0, esp, s)
       else bindx (liftx (Some (file_read file 52 (fsys s)))) (\<lambda>(bs, f).
         let s = s\<lparr>fsys := f\<rparr> in
         if \<not> elf_ok bs then ret (False, file, 0, esp, s)
         else
           let ehdr = decode_ehdr bs in
           bindx (liftx (load_headers file (unat (e_phnum ehdr)) (sint (e_phoff ehdr)) s)) (\<lambda>(ok, s).
           if \<not> ok then ret (False, file, 0, esp, s)
           else bindx (setup_stack space full_name esp s) (\<lambda>(ok, esp, s).
             if \<not> ok then ret (False, file, 0, esp, s)
             else ret (True, file, e_entry ehdr, esp, s)))))))"

text \<open>The results are those of \<open>load\<close>, \<open>*eip\<close>, \<open>*esp\<close> and the new value of \<open>mFile\<close> of the running thread.\<close>

definition load :: "addr \<Rightarrow> bytes \<Rightarrow> addr \<Rightarrow> addr \<Rightarrow> vm \<Rightarrow> (vm, bool \<times> addr \<times> addr \<times> ptr \<times> vm) run res option" where
  "load space file_name full_name esp s =
     bindx (load_steps space file_name full_name esp s) (\<lambda>(success, file, eip, esp, s).
     if success then bindx (liftx (Some (file_deny_write file (fsys s)))) (\<lambda>f. ret (True, eip, esp, file, s\<lparr>fsys := f\<rparr>))
     else bindx (liftx (Some (file_close file (fsys s)))) (\<lambda>f. ret (False, eip, esp, 0, s\<lparr>fsys := f\<rparr>)))"

text \<open>The entries of the frame table that belong to the process are taken off the list.\<close>

definition process_exit :: "vm \<Rightarrow> vm res" where
  "process_exit s =
     (let pd = pagedir s (curthread s) in
      bindr (if pd \<noteq> 0
             then bindr (pagedir_activate 0 (mm s)) (\<lambda>m. bindr (pagedir_destroy pd m) (\<lambda>m.
               Inr (s\<lparr>mm := m, pagedir := (pagedir s)(curthread s := 0)\<rparr>)))
             else Inr s)
        (\<lambda>s. Inr (s\<lparr>frame_table := filter (\<lambda>e. owner e \<noteq> curthread s) (frame_table s)\<rparr>)))"

section \<open>Segments stay in user space\<close>

lemma round_up_value:
  assumes "unat x < 0xc0000000"
  shows "unat (ROUND_UP x 4096) = 4096 * ((unat x + 4095) div 4096)"
proof -
  have "unat (x + of_nat 4095) = unat x + 4095" using assms by (intro unat_plus_small) simp
  then have s: "unat (x + 4096 - 1) = unat x + 4095" by (simp add: add.commute)
  let ?q = "(x + 4096 - 1) div 4096"
  have q: "unat ?q = (unat x + 4095) div 4096" unfolding unat_div_distrib s by simp
  have "(unat x + 4095) div 4096 * 4096 \<le> unat x + 4095" by simp
  then have "unat ?q * unat (4096 :: addr) < 2 ^ 32" using assms unfolding q by simp
  then have "unat (?q * 4096) = unat ?q * unat (4096 :: addr)" by (subst unat_word_ariths) simp
  then show ?thesis unfolding ROUND_UP_def q by simp
qed

lemma ceil_page: "n \<le> 4096 * ((n + 4095) div 4096)" for n :: nat
  using mult_div_mod_eq [of 4096 "n + 4095"] mod_less_divisor [of 4096 "n + 4095"] by linarith

lemma segment_args_value:
  assumes "validate_segment ph file_len" "segment_args ph = (ofs, upage, rd, zr)"
  defines "v \<equiv> unat (p_vaddr ph)" and "m \<equiv> unat (p_memsz ph)" and "f \<equiv> unat (p_filesz ph)"
  shows "unat upage = v - v mod 4096" "unat rd + unat zr = 4096 * ((v mod 4096 + m + 4095) div 4096)"
    "unat rd = (if f = 0 then 0 else v mod 4096 + f)" "v + m < 0xc0000000" "4096 \<le> v" "f \<le> m" "0 < m"
proof -
  have val: "p_filesz ph \<le> p_memsz ph" "p_memsz ph \<noteq> 0" "p_vaddr ph < 0xc0000000" "p_vaddr ph + p_memsz ph < 0xc0000000"
    "p_vaddr ph \<le> p_vaddr ph + p_memsz ph" "4096 \<le> p_vaddr ph"
    using assms(1) by (auto simp: validate_segment_def is_user_vaddr_def PHYS_BASE_def)
  have vm: "unat (p_vaddr ph + p_memsz ph) = v + m"
    using val(5) by (simp add: v_def m_def no_olen_add_nat [symmetric] unat_plus_simple [symmetric])
  show b: "v + m < 0xc0000000" "4096 \<le> v" "f \<le> m" "0 < m"
    using val vm by (auto simp: word_less_nat_alt word_le_nat_alt v_def m_def f_def unat_gt_0)
  let ?po = "p_vaddr ph AND PGMASK" and ?po' = "v mod 4096"
  have po: "unat ?po = ?po'" using pg_ofs_unat [of "p_vaddr ph"] by (simp add: pg_ofs_def v_def)
  have le: "?po' \<le> v" by simp
  have pm: "unat (?po + p_memsz ph) = ?po' + m" and pf: "unat (?po + p_filesz ph) = ?po' + f"
    using b le po by (simp_all add: unat_word_ariths m_def f_def)
  have R: "unat (ROUND_UP (?po + p_memsz ph) 4096) = 4096 * ((?po' + m + 4095) div 4096)"
    using b le pm by (subst round_up_value) simp_all
  have ge: "?po' + m \<le> 4096 * ((?po' + m + 4095) div 4096)" by (rule ceil_page)
  have up: "upage = pg_round_down (p_vaddr ph)" using assms(2) by (auto simp: segment_args_def pg_round_down_def Let_def split: if_splits)
  then show "unat upage = v - ?po'" using pg_round_down_unat [of "p_vaddr ph"] by (simp add: v_def minus_mod_eq_mult_div)
  have "unat rd + unat zr = 4096 * ((?po' + m + 4095) div 4096) \<and> unat rd = (if f = 0 then 0 else ?po' + f)"
  proof (cases "f = 0")
    case True
    then have "p_filesz ph = 0" by (simp add: f_def unat_eq_zero)
    then have "rd = 0" "zr = ROUND_UP (?po + p_memsz ph) 4096" using assms(2) by (auto simp: segment_args_def Let_def)
    then show ?thesis using R True by simp
  next
    case False
    then have "p_filesz ph > 0" by (simp add: f_def unat_eq_zero word_gt_0)
    then have r: "rd = ?po + p_filesz ph" "zr = ROUND_UP (?po + p_memsz ph) 4096 - rd"
      using assms(2) by (auto simp: segment_args_def Let_def)
    have "rd \<le> ROUND_UP (?po + p_memsz ph) 4096" using ge b(3) by (simp add: word_le_nat_alt R pf r(1))
    then show ?thesis using R pf False by (simp add: r unat_sub word_le_nat_alt)
  qed
  then show "unat rd + unat zr = 4096 * ((?po' + m + 4095) div 4096)" "unat rd = (if f = 0 then 0 else ?po' + f)" by blast+
qed

text \<open>C25: A segment that \<open>validate_segment\<close> accepts is loaded into user space only: the arguments of \<open>load_segment\<close> satisfy its
  assertions, the offset in the file is in the file, no sum wraps around, and the pages start at or above 4096, end below the kernel's
  part of the address space and contain the whole segment, whatever the numbers in the file are.\<close>

theorem segment_bounds:
  assumes "validate_segment ph file_len" "0 \<le> file_len" "file_len < 2 ^ 31" "segment_args ph = (ofs, upage, rd, zr)"
  shows "pg_ofs upage = 0 \<and> ofs smod 4096 = 0 \<and> (rd + zr) mod 4096 = 0 \<and> 0 \<le> ofs \<and> ofs \<le> file_len
    \<and> 4096 \<le> unat upage \<and> unat upage + unat rd + unat zr \<le> unat PHYS_BASE
    \<and> unat upage \<le> unat (p_vaddr ph) \<and> unat (p_vaddr ph) + unat (p_memsz ph) \<le> unat upage + unat rd + unat zr
    \<and> (p_filesz ph \<noteq> 0 \<longrightarrow> unat upage + unat rd = unat (p_vaddr ph) + unat (p_filesz ph))"
proof -
  define v m where "v = unat (p_vaddr ph)" and "m = unat (p_memsz ph)"
  note a = segment_args_value [OF assms(1,4), folded v_def m_def]
  define q r where "q = v div 4096" and "r = v mod 4096"
  have v: "v = 4096 * q + r" "r < 4096" by (simp_all add: q_def r_def)
  have up: "unat upage = 4096 * q" using a(1) v by simp
  have sum: "unat rd + unat zr = 4096 * ((r + m + 4095) div 4096)" using a(2) by (simp add: r_def)
  have end1: "4096 * q + 4096 * ((r + m + 4095) div 4096) = 4096 * ((v + m + 4095) div 4096)"
    unfolding v(1) by (simp add: add.assoc add_mult_distrib2)
  have "(v + m + 4095) div 4096 \<le> (0xc0000000 + 4095 - 1) div 4096" using a(4) by (intro div_le_mono) simp
  then have top: "4096 * ((v + m + 4095) div 4096) \<le> 0xc0000000" by simp
  have pg: "pg_ofs upage = 0" using pg_ofs_unat [of upage] up by (simp add: unat_eq_zero)
  have "unat (rd + zr) = unat rd + unat zr" using sum end1 top by (subst unat_word_ariths) simp
  then have md: "(rd + zr) mod 4096 = 0" using sum by (simp add: word_unat_eq_iff unat_mod_distrib)
  have q1: "4096 \<le> 4096 * q" using a(5) v by simp
  have ofs: "ofs = sint (p_offset ph AND NOT PGMASK)" using assms(4) by (auto simp: segment_args_def Let_def split: if_splits)
  have "p_offset ph \<le> word_of_int file_len" using assms(1) by (simp add: validate_segment_def not_less)
  moreover have "unat (word_of_int file_len :: addr) = nat file_len"
    using assms(2,3) by (simp add: unat_eq_nat_uint uint_word_of_int)
  ultimately have po: "unat (p_offset ph) \<le> nat file_len" by (simp add: word_le_nat_alt)
  have pr: "unat (p_offset ph AND NOT PGMASK) = 4096 * (unat (p_offset ph) div 4096)"
    using pg_round_down_unat [of "p_offset ph"] by (simp add: pg_round_down_def)
  have "unat (p_offset ph AND NOT PGMASK) < 2147483648" unfolding pr using po assms(2,3) by (intro le_less_trans [OF times_div_less_eq_dividend]) simp
  then have "uint (p_offset ph AND NOT PGMASK) < 2147483648" unfolding uint_nat by linarith
  then have "sint (p_offset ph AND NOT PGMASK) = uint (p_offset ph AND NOT PGMASK)"
    unfolding sint_uint by (intro signed_take_bit_int_eq_self) (auto intro: order_trans [OF _ uint_ge_0])
  then have o: "ofs = int (4096 * (unat (p_offset ph) div 4096))" unfolding ofs pr [symmetric] by simp
  have le: "4096 * (unat (p_offset ph) div 4096) \<le> nat file_len" using po by (intro le_trans [OF times_div_less_eq_dividend])
  have fz: "unat upage + unat rd = v + unat (p_filesz ph)" if "p_filesz ph \<noteq> 0"
    using a(3) that v up by (simp add: unat_eq_zero r_def [symmetric])
  have om: "ofs smod 4096 = 0" "0 \<le> ofs" "ofs \<le> file_len" using o le assms(2) by (simp_all add: signed_modulo_int_def nat_le_iff)
  have rng: "unat upage + unat rd + unat zr \<le> unat PHYS_BASE" using top end1 up sum by (simp add: PHYS_BASE_unat)
  have "v + m \<le> unat upage + unat rd + unat zr" "unat upage \<le> v" using ceil_page [of "r + m"] up sum v by auto
  then show ?thesis using pg md q1 om rng fz up unfolding v_def m_def by auto
qed

definition example_segment :: Elf32_Phdr where
  "example_segment = \<lparr>p_type = 1, p_offset = 0x1234, p_vaddr = 0x8048234, p_paddr = 0, p_filesz = 0x500, p_memsz = 0x2000, p_flags = 5, p_align = 0x1000\<rparr>"

theorem segment_bounds_witness:
  "validate_segment example_segment 0x2000 \<and> segment_args example_segment = (0x1000, 0x8048000, 0x734, 0x28cc)
    \<and> unat (0x8048000 :: addr) + unat (0x734 :: addr) + unat (0x28cc :: addr) \<le> unat PHYS_BASE"
proof -
  have v: "validate_segment example_segment 0x2000"
    by (simp add: validate_segment_def example_segment_def PGMASK_def BITMASK_def is_user_vaddr_def PHYS_BASE_def)
  have a: "segment_args example_segment = (0x1000, 0x8048000, 0x734, 0x28cc)"
    by (simp add: segment_args_def example_segment_def PGMASK_def BITMASK_def ROUND_UP_def Let_def)
  show ?thesis using segment_bounds [OF v _ _ a] v a by simp
qed

end
