(* ===== verification/Syscall.thy ===== *)
theory Syscall
  imports Process
begin

text \<open>
  The system calls (userprog/syscall.c): the checks on the pointers of the caller, the table of open files of a process, and every
  case of \<open>syscall_handler\<close>. The handler reads its arguments and the data of the calls from user memory, so that each of its steps may cause a page fault.
  \<open>Exit\<close> is the state in which the handler calls \<open>thread_exit\<close>; \<open>None\<close> means that the process waits for \<open>IOLock\<close> (or for a key) and that nothing
  in this process can wake it.
\<close>

section \<open>State\<close>

record fileListElem =
  mFile :: ptr
  fd :: int

text \<open>What the console shows: characters, and the message of a thread that exits.\<close>

datatype console_item = Put "8 word" | Exit_message ptr int

text \<open>The fields of \<open>struct thread\<close> that the handler uses are maps from threads. \<open>keys\<close> are the keys that have been pressed and not yet read.
  \<open>stack_junk\<close> and \<open>heap_junk\<close> are the contents of memory that the code does not initialise.\<close>

record usys =
  uvm :: vm
  IOLock :: nat
  fileList :: "ptr \<Rightarrow> fileListElem list"
  fdCounter :: "ptr \<Rightarrow> int"
  saved_esp :: "ptr \<Rightarrow> addr"
  exitStatus :: "ptr \<Rightarrow> int"
  console :: "console_item list"
  keys :: bytes
  stack_junk :: bytes
  heap_junk :: int

abbreviation cur :: "usys \<Rightarrow> ptr" where "cur s \<equiv> curthread (uvm s)"

record intr_frame =
  esp :: addr
  eax :: "32 word"

type_synonym 'a sys = "(usys, 'a) run res option"

section \<open>Steps\<close>

definition doBadExit :: "usys \<Rightarrow> 'a sys" where
  "doBadExit s = Some (Inr (Exit (s\<lparr>console := console s @ [Exit_message (cur s) (- 1)]\<rparr>)))"

text \<open>Code of the virtual memory and of the file system. A page fault in the kernel that ends the process prints the same message as
  \<open>doBadExit\<close>.\<close>

definition onvm :: "(vm \<Rightarrow> (vm, 'a \<times> vm) run res option) \<Rightarrow> usys \<Rightarrow> ('a \<times> usys) sys" where
  "onvm g s = bindo (g (uvm s)) (\<lambda>r. case r of Exit v \<Rightarrow> doBadExit (s\<lparr>uvm := v\<rparr>) | Ret (x, v) \<Rightarrow> ret (x, s\<lparr>uvm := v\<rparr>))"

definition onfs :: "(fs \<Rightarrow> ('a \<times> fs) res option) \<Rightarrow> usys \<Rightarrow> ('a \<times> usys) sys" where
  "onfs g s = bindo (g (fsys (uvm s))) (\<lambda>(x, f). ret (x, s\<lparr>uvm := (uvm s)\<lparr>fsys := f\<rparr>\<rparr>))"

definition io_down :: "usys \<Rightarrow> usys sys" where
  "io_down s = (if IOLock s = 0 then None else ret (s\<lparr>IOLock := IOLock s - 1\<rparr>))"

definition io_up :: "usys \<Rightarrow> usys" where
  "io_up s = s\<lparr>IOLock := IOLock s + 1\<rparr>"

text \<open>Reads of user memory: bytes, a word, and a string.\<close>

primrec kloads :: "addr \<Rightarrow> nat \<Rightarrow> usys \<Rightarrow> (bytes \<times> usys) sys" where
  "kloads a 0 s = ret ([], s)"
| "kloads a (Suc n) s = bindx (onvm (kload a) s) (\<lambda>(b, s). bindx (kloads (a + 1) n s) (\<lambda>(bs, s). ret (b # bs, s)))"

definition kload32 :: "addr \<Rightarrow> usys \<Rightarrow> (32 word \<times> usys) sys" where
  "kload32 a s = bindx (kloads a 4 s) (\<lambda>(bs, s). ret (word_at bs 0, s))"

partial_function (option) kstring :: "addr \<Rightarrow> usys \<Rightarrow> (bytes \<times> usys) sys" where
  "kstring a s = bindx (onvm (kload a) s) (\<lambda>(b, s).
     if b = 0 then ret ([], s) else bindx (kstring (a + 1) s) (\<lambda>(bs, s). ret (b # bs, s)))"

section \<open>Checks and open files\<close>

definition syscall_init :: "usys \<Rightarrow> usys" where
  "syscall_init s = s\<lparr>IOLock := 1\<rparr>"

definition addressCheck :: "addr \<Rightarrow> usys \<Rightarrow> bool res" where
  "addressCheck adr s =
     (if adr \<noteq> 0 \<and> is_user_vaddr adr
      then bindr (pagedir_get_page (pagedir (uvm s) (cur s)) adr (mm (uvm s))) (\<lambda>p. Inr (p \<noteq> 0))
      else Inr False)"

text \<open>The argument of \<open>pagedir_get_page\<close> is the truth value of \<open>adr != NULL\<close>. The function is not called.\<close>

definition addressCheckWithEsp :: "addr \<Rightarrow> addr \<Rightarrow> usys \<Rightarrow> bool res" where
  "addressCheckWithEsp adr sp s =
     (if adr = 0 then Inr False
      else bindr (if is_user_vaddr adr then pagedir_get_page (pagedir (uvm s) (cur s)) 1 (mm (uvm s)) else Inr 0) (\<lambda>p.
        Inr (p \<noteq> 0 \<or> adr \<ge> sp - 32)))"

definition getFileWithFd :: "int \<Rightarrow> usys \<Rightarrow> fileListElem option" where
  "getFileWithFd n s = find (\<lambda>e. fd e = n) (fileList s (cur s))"

text \<open>The checks with their \<open>doBadExit\<close>. \<open>unlock\<close> is what the code does before it: \<open>sema_up\<close>, or nothing.\<close>

definition address_or_exit :: "(usys \<Rightarrow> usys) \<Rightarrow> addr \<Rightarrow> usys \<Rightarrow> unit sys" where
  "address_or_exit unlock adr s = bindx (liftx (Some (addressCheck adr s))) (\<lambda>ok. if ok then ret () else doBadExit (unlock s))"

definition file_or_exit :: "int \<Rightarrow> usys \<Rightarrow> fileListElem sys" where
  "file_or_exit n s = (case getFileWithFd n s of None \<Rightarrow> doBadExit (io_up s) | Some e \<Rightarrow> ret e)"

definition argCounts :: "nat list" where
  "argCounts = [0, 1, 1, 1, 1, 1, 1, 1, 3, 3, 2, 1, 1, 2, 1]"

primrec check_args :: "nat \<Rightarrow> addr \<Rightarrow> usys \<Rightarrow> unit sys" where
  "check_args 0 tempArg s = ret ()"
| "check_args (Suc n) tempArg s = bindx (address_or_exit id tempArg s) (\<lambda>_. check_args n (tempArg + 4) s)"

section \<open>The calls\<close>

text \<open>What the handler hands over: a return to the process with the frame, the end of the machine, or the call of \<open>process_execute\<close> or
  \<open>process_wait\<close> in the middle of the case.\<close>

datatype sys_result = Return intr_frame | Halt | Execute addr | Wait int

abbreviation (input) arg1 :: "intr_frame \<Rightarrow> addr" where "arg1 f \<equiv> esp f + 4"
abbreviation (input) arg2 :: "intr_frame \<Rightarrow> addr" where "arg2 f \<equiv> esp f + 8"
abbreviation (input) arg3 :: "intr_frame \<Rightarrow> addr" where "arg3 f \<equiv> esp f + 12"

type_synonym handler = "intr_frame \<Rightarrow> usys \<Rightarrow> (sys_result \<times> usys) sys"

fun close_all :: "fileListElem list \<Rightarrow> fs \<Rightarrow> fs res" where
  "close_all [] f = Inr f"
| "close_all (e # es) f = bindr (file_close (mFile e) f) (close_all es)"

definition sys_exit :: handler where
  "sys_exit f s =
     bindx (kload32 (arg1 f) s) (\<lambda>(status, s).
     bindx (onfs (\<lambda>x. Some (bindr (close_all (fileList s (cur s)) x) (\<lambda>x. Inr ((), x)))) s) (\<lambda>(_, s).
     Some (Inr (Exit (s\<lparr>fileList := (fileList s)(cur s := []), console := console s @ [Exit_message (cur s) (sint status)],
       exitStatus := (exitStatus s)(cur s := sint status)\<rparr>)))))"

definition sys_exec :: handler where
  "sys_exec f s =
     bindx (kload32 (arg1 f) s) (\<lambda>(execArgs, s).
     bindx (address_or_exit id execArgs s) (\<lambda>_. ret (Execute execArgs, s)))"

definition sys_wait :: handler where
  "sys_wait f s = bindx (kload32 (arg1 f) s) (\<lambda>(pid, s). ret (Wait (sint pid), s))"

text \<open>A name in user memory, after the check of its address.\<close>

definition user_name :: "addr \<Rightarrow> usys \<Rightarrow> (bytes \<times> usys) sys" where
  "user_name fileName s = bindx (address_or_exit io_up fileName s) (\<lambda>_. kstring fileName s)"

definition sys_create :: handler where
  "sys_create f s =
     bindx (io_down s) (\<lambda>s.
     bindx (kload32 (arg1 f) s) (\<lambda>(fileName, s).
     bindx (kload32 (arg2 f) s) (\<lambda>(sz, s).
     bindx (user_name fileName s) (\<lambda>(name, s).
     bindx (onfs (filesys_create (stack_junk s) name (sint sz)) s) (\<lambda>(fileCreated, s).
     ret (Return (f\<lparr>eax := of_bool fileCreated\<rparr>), io_up s))))))"

definition sys_remove :: handler where
  "sys_remove f s =
     bindx (io_down s) (\<lambda>s.
     bindx (kload32 (arg1 f) s) (\<lambda>(fileName, s).
     bindx (user_name fileName s) (\<lambda>(name, s).
     bindx (onfs (filesys_remove name) s) (\<lambda>(fileRemoved, s).
     ret (Return (f\<lparr>eax := of_bool fileRemoved\<rparr>), io_up s)))))"

text \<open>A new entry of the table, without a check of the result of \<open>malloc\<close>; the increment of the counter may overflow.\<close>

definition add_file_entry :: "ptr \<Rightarrow> usys \<Rightarrow> usys sys" where
  "add_file_entry newfile s =
     bindx (onfs (\<lambda>x. Some (Inr (malloc x))) s) (\<lambda>(p, s).
     if p = 0 then Some (Inl (Undefined ''newElem''))
     else ret (s\<lparr>fileList := (fileList s)(cur s := fileList s (cur s) @ [\<lparr>mFile = newfile, fd = fdCounter s (cur s)\<rparr>])\<rparr>))"

definition next_fd :: "usys \<Rightarrow> (int \<times> usys) sys" where
  "next_fd s =
     (let n = fdCounter s (cur s) in
      if n + 1 < 2 ^ 31 then ret (n, s\<lparr>fdCounter := (fdCounter s)(cur s := n + 1)\<rparr>)
      else Some (Inl (Undefined ''signed overflow'')))"

definition sys_open :: handler where
  "sys_open f s =
     bindx (io_down s) (\<lambda>s.
     bindx (kload32 (arg1 f) s) (\<lambda>(fileName, s).
     bindx (user_name fileName s) (\<lambda>(name, s).
     bindx (onfs (filesys_open name) s) (\<lambda>(newfile, s).
     if newfile = 0 then ret (Return (f\<lparr>eax := - 1\<rparr>), io_up s)
     else bindx (add_file_entry newfile s) (\<lambda>s.
       bindx (next_fd (io_up s)) (\<lambda>(n, s). ret (Return (f\<lparr>eax := word_of_int n\<rparr>), s)))))))"

definition sys_filesize :: handler where
  "sys_filesize f s =
     bindx (io_down s) (\<lambda>s.
     bindx (kload32 (arg1 f) s) (\<lambda>(n, s).
     bindx (file_or_exit (sint n) s) (\<lambda>curElem.
     bindx (liftx (Some (file_length (mFile curElem) (fsys (uvm s))))) (\<lambda>len.
     ret (Return (f\<lparr>eax := word_of_int len\<rparr>), io_up s)))))"

text \<open>The new page of \<open>SYS_READ\<close> at a buffer that is not mapped and near the stack pointer.\<close>

definition read_grow :: "addr \<Rightarrow> vm \<Rightarrow> vm res" where
  "read_grow upage v =
     bindr (vm_get_page (PAL_USER OR PAL_ZERO) v) (\<lambda>(kpage, v).
     if kpage = 0 then Inl (Panic ''Ran out of memory - fix this by implementing swaps'')
     else bindr (install_page upage kpage True v) (\<lambda>(success, v).
       if \<not> success then Inl (Panic ''There's already a page at this virtual address'')
       else bindr (sup_page_table_insert upage (ticks v) (- 1) False True v) (\<lambda>(new_elem, v).
         frame_table_insert kpage (curthread v) new_elem v)))"

text \<open>Note that the two exits for a bad buffer leave \<open>IOLock\<close> down.\<close>

definition read_buffer :: "intr_frame \<Rightarrow> addr \<Rightarrow> usys \<Rightarrow> usys sys" where
  "read_buffer f buffer s =
     (if \<not> (buffer \<noteq> 0 \<and> is_user_vaddr buffer) then doBadExit s
      else bindx (liftx (Some (addressCheck buffer s))) (\<lambda>ok.
        if ok then ret s
        else if buffer \<ge> esp f - 32
        then bindx (onvm (\<lambda>v. liftx (Some (bindr (read_grow (pg_round_down buffer) v) (\<lambda>v. Inr ((), v))))) s) (\<lambda>(_, s). ret s)
        else doBadExit s))"

definition input_getc :: "usys \<Rightarrow> (8 word \<times> usys) sys" where
  "input_getc s = (case keys s of [] \<Rightarrow> None | k # ks \<Rightarrow> ret (k, s\<lparr>keys := ks\<rparr>))"

text \<open>\<open>inode_read_at\<close> with a buffer in user memory: in each round, a sector is read and its bytes are copied to the buffer, where the copy may
  fault. As in \<open>inode_read_loop\<close>, \<open>bounce\<close> tells whether the bounce buffer has been allocated.\<close>

definition fs_step :: "(fs \<Rightarrow> ('a \<times> fs) res) \<Rightarrow> usys \<Rightarrow> ('a \<times> usys) sys" where
  "fs_step g = onfs (\<lambda>x. Some (g x))"

definition bounce_buffer :: "bool \<Rightarrow> usys \<Rightarrow> (ptr \<times> usys) sys" where
  "bounce_buffer bounce = fs_step (\<lambda>x. Inr (if bounce then (1, x) else malloc x))"

definition user_store :: "addr \<Rightarrow> bytes \<Rightarrow> usys \<Rightarrow> (unit \<times> usys) sys" where
  "user_store buffer bs = onvm (\<lambda>v. bindx (kstores buffer bs v) (\<lambda>v. ret ((), v)))"

function user_read_loop :: "inode \<Rightarrow> bool \<Rightarrow> addr \<Rightarrow> int \<Rightarrow> int \<Rightarrow> usys \<Rightarrow> (int \<times> usys) sys" where
  "user_read_loop i bounce buffer sz offset s =
     (if sz > 0 then
        let sector_idx = byte_to_sector i offset;
            sector_ofs = offset smod 512;
            chunk = chunk_size i sz offset
        in if chunk \<le> 0 then ret (0, s)
           else if sector_ofs = 0 \<and> chunk = 512 then
             bindx (fs_step (fs_read sector_idx) s) (\<lambda>(bs, s).
             bindx (user_store buffer bs s) (\<lambda>(_, s).
             bindx (user_read_loop i bounce (buffer + word_of_int chunk) (sz - chunk) (offset + chunk) s) (\<lambda>(n, s). ret (chunk + n, s))))
           else
             bindx (bounce_buffer bounce s) (\<lambda>(bp, s).
             if bp = 0 then ret (0, s)
             else bindx (fs_step (fs_read sector_idx) s) (\<lambda>(bs, s).
               bindx (user_store buffer (take (nat chunk) (drop (nat sector_ofs) bs)) s) (\<lambda>(_, s).
               bindx (user_read_loop i True (buffer + word_of_int chunk) (sz - chunk) (offset + chunk) s) (\<lambda>(n, s). ret (chunk + n, s)))))
      else ret (0, s))"
  by pat_completeness auto
termination
  by (relation "measure (\<lambda>(i, bounce, buffer, sz, offset, s). nat sz)") auto

declare user_read_loop.simps [simp del]

text \<open>The position of a file is advanced at the end.\<close>

definition advance :: "ptr \<Rightarrow> int \<Rightarrow> fs \<Rightarrow> (unit \<times> fs) res" where
  "advance p n x = bindr (get_file p x) (\<lambda>y. Inr ((), x\<lparr>files := (files x)(p := Some (y\<lparr>pos := pos y + n\<rparr>))\<rparr>))"

definition user_file_read :: "ptr \<Rightarrow> addr \<Rightarrow> 32 word \<Rightarrow> usys \<Rightarrow> (int \<times> usys) sys" where
  "user_file_read p buffer sz s =
     bindx (liftx (Some (get_file p (fsys (uvm s))))) (\<lambda>file.
     bindx (if sint sz > 0
        then bindx (liftx (Some (get_inode (finode file) (fsys (uvm s))))) (\<lambda>i. user_read_loop i False buffer (sint sz) (pos file) s)
        else ret (0, s)) (\<lambda>(n, s).
     bindx (fs_step (advance p n) s) (\<lambda>(_, s). ret (n, s))))"

definition sys_read :: handler where
  "sys_read f s =
     bindx (io_down s) (\<lambda>s.
     bindx (kload32 (arg1 f) s) (\<lambda>(n, s).
     bindx (kload32 (arg2 f) s) (\<lambda>(buffer, s).
     bindx (kload32 (arg3 f) s) (\<lambda>(sz, s).
     bindx (read_buffer f buffer s) (\<lambda>s.
     bindx (file_or_exit (sint n) s) (\<lambda>curElem.
     if n = 0 then bindx (input_getc s) (\<lambda>(k, s). ret (Return (f\<lparr>eax := ucast k\<rparr>), io_up s))
     else bindx (user_file_read (mFile curElem) buffer sz s) (\<lambda>(cnt, s).
       ret (Return (f\<lparr>eax := word_of_int cnt\<rparr>), io_up s))))))))"

text \<open>\<open>putbuf\<close> prints one character after the other.\<close>

primrec putbuf :: "addr \<Rightarrow> nat \<Rightarrow> usys \<Rightarrow> usys sys" where
  "putbuf buffer 0 s = ret s"
| "putbuf buffer (Suc n) s =
     bindx (onvm (kload buffer) s) (\<lambda>(b, s). putbuf (buffer + 1) n (s\<lparr>console := console s @ [Put b]\<rparr>))"

text \<open>\<open>inode_write_at\<close> with a buffer in user memory: in each round, the bytes of one sector are read from the buffer and written. When a whole sector is
  written, the driver reads the buffer after \<open>block_write\<close> has checked the number of the sector, which matters only if the sector lies outside of the device and
  the buffer is bad as well.\<close>

definition fs_put :: "(fs \<Rightarrow> fs res) \<Rightarrow> usys \<Rightarrow> (unit \<times> usys) sys" where
  "fs_put g = fs_step (\<lambda>x. bindr (g x) (\<lambda>x. Inr ((), x)))"

function user_write_loop :: "inode \<Rightarrow> bool \<Rightarrow> addr \<Rightarrow> int \<Rightarrow> int \<Rightarrow> usys \<Rightarrow> (int \<times> usys) sys" where
  "user_write_loop i bounce buffer sz offset s =
     (if sz > 0 then
        let sector_idx = byte_to_sector i offset;
            sector_ofs = offset smod 512;
            sector_left = 512 - sector_ofs;
            chunk = chunk_size i sz offset
        in if chunk \<le> 0 then ret (0, s)
           else if sector_ofs = 0 \<and> chunk = 512 then
             bindx (kloads buffer 512 s) (\<lambda>(bs, s).
             bindx (fs_put (fs_write sector_idx bs) s) (\<lambda>(_, s).
             bindx (user_write_loop i bounce (buffer + word_of_int chunk) (sz - chunk) (offset + chunk) s) (\<lambda>(n, s). ret (chunk + n, s))))
           else
             bindx (bounce_buffer bounce s) (\<lambda>(bp, s).
             if bp = 0 then ret (0, s)
             else bindx (fs_step (\<lambda>x. if sector_ofs > 0 \<or> chunk < sector_left then fs_read sector_idx x else Inr (replicate 512 0, x)) s) (\<lambda>(old, s).
               bindx (kloads buffer (nat chunk) s) (\<lambda>(bs, s).
               bindx (fs_put (fs_write sector_idx (take (nat sector_ofs) old @ bs @ drop (nat (sector_ofs + chunk)) old)) s) (\<lambda>(_, s).
               bindx (user_write_loop i True (buffer + word_of_int chunk) (sz - chunk) (offset + chunk) s) (\<lambda>(n, s). ret (chunk + n, s))))))
      else ret (0, s))"
  by pat_completeness auto
termination
  by (relation "measure (\<lambda>(i, bounce, buffer, sz, offset, s). nat sz)") auto

declare user_write_loop.simps [simp del]

definition user_file_write :: "ptr \<Rightarrow> addr \<Rightarrow> 32 word \<Rightarrow> usys \<Rightarrow> (int \<times> usys) sys" where
  "user_file_write p buffer sz s =
     bindx (liftx (Some (get_file p (fsys (uvm s))))) (\<lambda>file.
     bindx (liftx (Some (get_inode (finode file) (fsys (uvm s))))) (\<lambda>i.
     bindx (if deny_write_cnt i \<noteq> 0 then ret (0, s) else user_write_loop i False buffer (sint sz) (pos file) s) (\<lambda>(n, s).
     bindx (fs_step (advance p n) s) (\<lambda>(_, s). ret (n, s)))))"

text \<open>Note that \<open>doBadExit\<close> is called with \<open>IOLock\<close> down.\<close>

definition write_fd :: "int \<Rightarrow> addr \<Rightarrow> 32 word \<Rightarrow> fileListElem option \<Rightarrow> usys \<Rightarrow> (32 word \<times> usys) sys" where
  "write_fd n buffer sz elem s =
     bindx (io_down s) (\<lambda>s.
     if n = 1 then bindx (putbuf buffer (unat sz) s) (\<lambda>s. ret (sz, io_up s))
     else if n = 0 then doBadExit s
     else case elem of None \<Rightarrow> Some (Inl (Undefined ''elem''))
       | Some e \<Rightarrow>
           bindx (liftx (Some (get_file (mFile e) (fsys (uvm s))))) (\<lambda>file.
           if deny_write file then doBadExit s
           else bindx (user_file_write (mFile e) buffer sz s) (\<lambda>(cnt, s). ret (word_of_int cnt, io_up s))))"

definition sys_write :: handler where
  "sys_write f s =
     bindx (kload32 (arg1 f) s) (\<lambda>(n, s).
     bindx (kload32 (arg2 f) s) (\<lambda>(buffer, s).
     bindx (kload32 (arg3 f) s) (\<lambda>(sz, s).
     bindx (address_or_exit id buffer s) (\<lambda>_.
     let curElem = getFileWithFd (sint n) s in
     if curElem = None \<and> n \<noteq> 1 then doBadExit s
     else bindx (write_fd (sint n) buffer sz curElem s) (\<lambda>(cnt, s). ret (Return (f\<lparr>eax := cnt\<rparr>), s))))))"

definition sys_seek :: handler where
  "sys_seek f s =
     bindx (io_down s) (\<lambda>s.
     bindx (kload32 (arg1 f) s) (\<lambda>(n, s).
     bindx (kload32 (arg2 f) s) (\<lambda>(position, s).
     bindx (file_or_exit (sint n) s) (\<lambda>curElem.
     bindx (onfs (\<lambda>x. Some (bindr (file_seek (mFile curElem) (sint position) x) (\<lambda>x. Inr ((), x)))) s) (\<lambda>(_, s).
     ret (Return f, io_up s))))))"

definition sys_tell :: handler where
  "sys_tell f s =
     bindx (io_down s) (\<lambda>s.
     bindx (kload32 (arg1 f) s) (\<lambda>(n, s).
     bindx (file_or_exit (sint n) s) (\<lambda>curElem.
     bindx (liftx (Some (file_tell (mFile curElem) (fsys (uvm s))))) (\<lambda>p.
     ret (Return (f\<lparr>eax := word_of_int p\<rparr>), io_up s)))))"

definition sys_close :: handler where
  "sys_close f s =
     bindx (io_down s) (\<lambda>s.
     bindx (kload32 (arg1 f) s) (\<lambda>(n, s).
     bindx (file_or_exit (sint n) s) (\<lambda>curElem.
     bindx (onfs (\<lambda>x. Some (bindr (file_close (mFile curElem) x) (\<lambda>x. Inr ((), x)))) s) (\<lambda>(_, s).
     ret (Return f, io_up (s\<lparr>fileList := (fileList s)(cur s := remove1 curElem (fileList s (cur s)))\<rparr>))))))"

section \<open>Memory mappings\<close>

text \<open>A frame for a page of the mapping; 0 if there is none after an eviction.\<close>

definition mmap_frame :: "vm \<Rightarrow> (addr \<times> vm) res option" where
  "mmap_frame v =
     bindo (Some (vm_get_page PAL_USER v)) (\<lambda>(kpage, v).
     if kpage \<noteq> 0 then Some (Inr (kpage, v)) else bindo (evict_frame v) (\<lambda>(_, v). Some (vm_get_page PAL_USER v)))"

text \<open>The new entry of the supplemental page table. Its \<open>block_index\<close> is not initialised.\<close>

definition mmap_entries :: "addr \<Rightarrow> addr \<Rightarrow> int \<Rightarrow> vm \<Rightarrow> vm res" where
  "mmap_entries upage kpage junk v =
     bindr (sup_page_table_insert upage (ticks v) junk False True v) (\<lambda>(newElem, v). frame_table_insert kpage (curthread v) newElem v)"

definition fill_page :: "ptr \<Rightarrow> addr \<Rightarrow> 32 word \<Rightarrow> vm \<Rightarrow> (bool \<times> vm) res" where
  "fill_page fresh_file kpage n v =
     bindr (file_read fresh_file (uint n) (fsys v)) (\<lambda>(bs, x).
     let v = set_vmem (write_mem (vmem v) kpage bs) (v\<lparr>fsys := x\<rparr>) in
     if int (length bs) \<noteq> uint n then bindr (vm_free_page kpage v) (\<lambda>v. Inr (False, v))
     else bindr (memset (vmem v) (kpage + n) 0 (unat (4096 - n))) (\<lambda>(_, m). Inr (True, set_vmem m v)))"

text \<open>One round of the loop up to \<open>install_page\<close>: false if the process has to exit.\<close>

definition map_page :: "ptr \<Rightarrow> addr \<Rightarrow> 32 word \<Rightarrow> vm \<Rightarrow> (addr \<times> bool \<times> vm) res option" where
  "map_page fresh_file upage n v =
     bindo (mmap_frame v) (\<lambda>(kpage, v).
     if kpage = 0 then Some (Inr (0, False, v))
     else bindo (Some (fill_page fresh_file kpage n v)) (\<lambda>(ok, v).
       if \<not> ok then Some (Inr (0, False, v))
       else bindo (Some (install_page upage kpage True v)) (\<lambda>(ok, v).
         if ok then Some (Inr (kpage, True, v))
         else bindo (Some (vm_free_page kpage v)) (\<lambda>v. Some (Inr (0, False, v))))))"

partial_function (option) mmap_loop :: "ptr \<Rightarrow> addr \<Rightarrow> 32 word \<Rightarrow> 32 word \<Rightarrow> int \<Rightarrow> vm \<Rightarrow> (bool \<times> vm) res option" where
  "mmap_loop fresh_file upage read_bytes zero_bytes junk v =
     (if read_bytes > 0 \<or> zero_bytes > 0 then
        let page_read_bytes = (if read_bytes < 4096 then read_bytes else 4096);
            page_zero_bytes = 4096 - page_read_bytes in
        bindo (map_page fresh_file upage page_read_bytes v) (\<lambda>(kpage, ok, v).
        if \<not> ok then Some (Inr (False, v))
        else bindo (Some (mmap_entries upage kpage junk v)) (\<lambda>v.
          mmap_loop fresh_file (upage + 4096) (read_bytes - page_read_bytes) (zero_bytes - page_zero_bytes) junk v))
      else Some (Inr (True, v)))"

text \<open>Note that the address of the mapping is the address of the argument on the stack, not the argument.\<close>

definition sys_mmap :: handler where
  "sys_mmap f s =
     bindx (io_down (s\<lparr>saved_esp := (saved_esp s)(cur s := esp f)\<rparr>)) (\<lambda>s.
     bindx (kload32 (arg1 f) s) (\<lambda>(n, s).
     let upage = arg2 f in
     bindx (file_or_exit (sint n) s) (\<lambda>curElem.
     bindx (onfs (\<lambda>x. Some (file_reopen (mFile curElem) x)) s) (\<lambda>(fresh_file, s).
     if fresh_file = 0 then doBadExit (io_up s)
     else bindx (liftx (Some (file_length fresh_file (fsys (uvm s))))) (\<lambda>len.
       let read_bytes = word_of_int len; zero_bytes = 4096 - read_bytes mod 4096 in
       bindx (onvm (\<lambda>v. liftx (mmap_loop fresh_file upage read_bytes zero_bytes (heap_junk s) v)) s) (\<lambda>(ok, s).
       if \<not> ok then doBadExit (io_up s) else ret (Return f, io_up s)))))))"

definition sys_munmap :: handler where
  "sys_munmap f s = bindx (io_down s) (\<lambda>s. bindx (kload32 (arg1 f) s) (\<lambda>(mapid, s). ret (Return f, io_up s)))"

section \<open>The handler\<close>

definition dispatch :: "nat \<Rightarrow> handler" where
  "dispatch code =
     [\<lambda>f s. ret (Halt, s), sys_exit, sys_exec, sys_wait, sys_create, sys_remove, sys_open, sys_filesize, sys_read, sys_write, sys_seek,
      sys_tell, sys_close, sys_mmap, sys_munmap] ! code"

definition syscall_handler :: handler where
  "syscall_handler f s =
     bindx (address_or_exit id (esp f) s) (\<lambda>_.
     bindx (kload32 (esp f) s) (\<lambda>(sysCode, s).
     if sint sysCode < 0 \<or> sint sysCode > 14 then doBadExit s
     else bindx (check_args (argCounts ! nat (sint sysCode)) (arg1 f) s) (\<lambda>_.
       dispatch (nat (sint sysCode)) f (s\<lparr>saved_esp := (saved_esp s)(cur s := esp f)\<rparr>))))"

end
