(* ===== verification/Syscall_Files.thy ===== *)
theory Syscall_Files
  imports Syscall Fs_Ops
begin

text \<open>
  The table of open files of the processes. A descriptor is a number that a process has been given and has not closed; its entry leads to a
  file structure that is open, that no other descriptor of any process leads to, and that is not the file of the free map. Every system call
  keeps this, releases \<open>IOLock\<close> when it returns, and never uses a file or an inode that has been closed.
\<close>

section \<open>Postconditions of system calls\<close>

text \<open>\<open>okx E Q m\<close>: \<open>m\<close> raises no error of the reference counts, it satisfies \<open>E\<close> where it ends the process, and \<open>Q\<close> where it returns.\<close>

definition okx :: "('s \<Rightarrow> bool) \<Rightarrow> ('a \<Rightarrow> bool) \<Rightarrow> ('s, 'a) run res option \<Rightarrow> bool" where
  "okx E Q m \<longleftrightarrow> oko m (\<lambda>r. case r of Exit s \<Rightarrow> E s | Ret x \<Rightarrow> Q x)"

lemma okx_bind: "okx E P m \<Longrightarrow> (\<And>x. P x \<Longrightarrow> okx E Q (f x)) \<Longrightarrow> okx E Q (bindx m f)"
  unfolding okx_def bindx_def by (erule oko_bind) (auto split: run.splits)

lemma okx_mono: "okx E P m \<Longrightarrow> (\<And>x. P x \<Longrightarrow> Q x) \<Longrightarrow> okx E Q m"
  unfolding okx_def by (erule oko_mono) (auto split: run.splits)

lemma okx_simps [simp]: "okx E Q (ret x) \<longleftrightarrow> Q x" "okx E Q (Some (Inr (Exit s))) \<longleftrightarrow> E s" "okx E Q (Some (Inl e)) \<longleftrightarrow> e \<notin> ref_errors" "okx E Q None"
  by (simp_all add: okx_def ret_def)

lemma okx_lift: "oko m Q \<Longrightarrow> okx E Q (liftx m)"
  unfolding okx_def liftx_def by (erule oko_bind) (auto simp: ret_def)

lemma okx_liftr: "okr m Q \<Longrightarrow> okx E Q (liftx (Some m))"
  by (rule okx_lift) simp

lemma okx_if: "(c \<Longrightarrow> okx E Q a) \<Longrightarrow> (\<not> c \<Longrightarrow> okx E Q b) \<Longrightarrow> okx E Q (if c then a else b)"
  by simp

section \<open>Memory raises no such error\<close>

lemma okr_addresses: "okr (vtop a) (\<lambda>_. True)" "okr (ptov a) (\<lambda>_. True)" "okr (pte_get_page e) (\<lambda>_. True)" "okr (pde_get_pt e) (\<lambda>_. True)"
  "okr (pde_create p) (\<lambda>_. True)" "okr (pte_create_user p w) (\<lambda>_. True)"
  by (auto simp: vtop_def ptov_def pte_get_page_def pde_get_pt_def pde_create_def pte_create_user_def pte_create_kernel_def require_def
      okr_def ref_errors_def bindr_def split: sum.splits if_splits)

lemma okr_get_page: "okr (get_page flags m) (\<lambda>_. True)"
  unfolding get_page_def palloc_get_page_def palloc_get_multiple_def Let_def
  by (auto intro!: okr_bind [where P = "\<lambda>_. True"] okr_if okr_bitmap_scan_and_flip [THEN okr_mono])

lemma okr_free_page: "okr (free_page p m) (\<lambda>_. True)"
proof -
  have "okr (palloc_free_multiple pl p 1) (\<lambda>_. True)" for pl
    unfolding palloc_free_multiple_def Let_def
    by (intro okr_require okr_if okr_bind [where P = "\<lambda>_. True"] okr_bitmap_all okr_bitmap_set_multiple) (auto simp: ref_errors_def)
  then show ?thesis unfolding free_page_def palloc_free_page_def by (rule okr_bind) simp
qed

lemma okr_lookup_page: "okr (lookup_page pd va create m) (\<lambda>_. True)"
  unfolding lookup_page_def Let_def
  by (intro okr_require okr_if okr_bind [where P = "\<lambda>_. True"] okr_addresses okr_get_page)
    (auto simp: ref_errors_def split: prod.split intro!: okr_bind [OF okr_addresses(5)] okr_bind [OF okr_addresses(4)])

lemma okr_pagedir_get_page: "okr (pagedir_get_page pd va m) (\<lambda>_. True)"
  unfolding pagedir_get_page_def
  by (intro okr_require okr_bind [OF okr_lookup_page]) (auto simp: ref_errors_def intro!: okr_bind [OF okr_addresses(3)])

lemma okr_pagedir_set_page: "okr (pagedir_set_page pd u k w m) (\<lambda>_. True)"
  unfolding pagedir_set_page_def
  by (intro okr_require okr_bind [OF okr_addresses(1)] okr_bind [OF okr_lookup_page])
    (auto simp: ref_errors_def intro!: okr_bind [OF okr_addresses(6)] okr_require)

lemma okr_pagedir_clear_page: "okr (pagedir_clear_page pd u m) (\<lambda>_. True)"
  unfolding pagedir_clear_page_def invalidate_pagedir_def pagedir_activate_def active_pd_def
  by (intro okr_require okr_bind [OF okr_lookup_page])
    (auto simp: ref_errors_def intro!: okr_bind [OF okr_addresses(1)] okr_bind [OF okr_addresses(2)])

section \<open>Virtual memory leaves the files alone\<close>

definition vkeeps :: "vm \<Rightarrow> vm \<Rightarrow> bool" where
  "vkeeps v v' \<longleftrightarrow> curthread v' = curthread v \<and> same_refs (fsys v) (fsys v')"

lemma vkeeps_refl [simp]: "vkeeps v v"
  by (simp add: vkeeps_def)

lemma vkeeps_trans: "vkeeps u v \<Longrightarrow> vkeeps v w \<Longrightarrow> vkeeps u w"
  by (auto simp: vkeeps_def intro: same_refs_trans)

lemma vkeeps_same: "curthread v' = curthread v \<Longrightarrow> fsys v' = fsys v \<Longrightarrow> vkeeps u v \<Longrightarrow> vkeeps u v'"
  by (simp add: vkeeps_def)

lemma okr_vm_get_page: "okr (vm_get_page flags v) (\<lambda>(p, v'). vkeeps v v')"
  unfolding vm_get_page_def by (rule okr_bind [OF okr_get_page]) (auto simp: vkeeps_def)

lemma okr_vm_free_page: "okr (vm_free_page p v) (vkeeps v)"
  unfolding vm_free_page_def by (rule okr_bind [OF okr_free_page]) (auto simp: vkeeps_def)

lemma okr_install_page: "okr (install_page u k w v) (\<lambda>(b, v'). vkeeps v v')"
  unfolding install_page_def Let_def
  by (rule okr_bind [OF okr_pagedir_get_page]) (auto simp: vkeeps_def intro!: okr_bind [OF okr_pagedir_set_page])

lemma vm_malloc_keeps: "vm_malloc v = (p, v') \<Longrightarrow> vkeeps v v'"
  by (auto simp: vm_malloc_def vkeeps_def same_refs_malloc split: prod.splits)

lemma okr_table_insert: "okr (sup_page_table_insert u t i d a v) (\<lambda>(p, v'). vkeeps v v')" "okr (frame_table_insert k o' e v) (vkeeps v)"
  unfolding sup_page_table_insert_def frame_table_insert_def Let_def
  by (auto simp: ref_errors_def split: prod.split dest!: vm_malloc_keeps simp: vkeeps_def)

lemma okr_block: "okr (block_read b i d) (\<lambda>_. True)" "okr (block_write b i bs d) (\<lambda>_. True)"
  by (auto simp: block_read_def block_write_def check_sector_def Let_def require_def okr_def ref_errors_def)

lemma okr_write_frame_loop: "okr (write_frame_loop fr i ks v) (vkeeps v)"
proof (induction ks arbitrary: v)
  case (Cons k ks)
  show ?case unfolding write_frame_loop.simps
    by (rule okr_bind [OF okr_block(2)], rule okr_mono [OF Cons]) (auto simp: vkeeps_def set_vdevs_def same_refs_def)
qed simp

lemma okr_load_frame_loop: "okr (load_frame_loop fr i ks v) (vkeeps v)"
proof (induction ks arbitrary: v)
  case (Cons k ks)
  show ?case unfolding load_frame_loop.simps
  proof (rule okr_bind [OF okr_block(1)], clarify)
    fix bs d
    show "okr (load_frame_loop fr i ks (set_vmem (write_mem (vmem v) (fr + of_nat (k * 512)) bs) (set_vdevs d v))) (vkeeps v)"
      by (rule okr_mono [OF Cons]) (auto simp: vkeeps_def set_vdevs_def set_vmem_def same_refs_def)
  qed
qed simp

lemma okr_swap_lock: "oko (swap_lock_acquire v) (vkeeps v)" "okr (swap_lock_release v) (vkeeps v)"
  unfolding swap_lock_acquire_def swap_lock_release_def
  by (auto simp: ref_errors_def vkeeps_def intro!: okr_require oko_require)

lemma oko_chain:
  "oko m (\<lambda>v'. vkeeps v1 v') \<Longrightarrow> vkeeps v v1 \<Longrightarrow> (\<And>v'. vkeeps v v' \<Longrightarrow> oko (f v') Q) \<Longrightarrow> oko (bindo m f) Q"
  "oko n (\<lambda>(x, v'). vkeeps v1 v') \<Longrightarrow> vkeeps v v1 \<Longrightarrow> (\<And>x v'. vkeeps v v' \<Longrightarrow> oko (g x v') Q) \<Longrightarrow> oko (bindo n (\<lambda>(x, v). g x v)) Q"
  by (erule oko_bind, blast intro: vkeeps_trans) (erule oko_bind, auto intro: vkeeps_trans)

lemma okr_chain:
  "okr n (\<lambda>(x, v'). vkeeps v1 v') \<Longrightarrow> vkeeps v v1 \<Longrightarrow> (\<And>x v'. vkeeps v v' \<Longrightarrow> okr (g x v') Q) \<Longrightarrow> okr (bindr n (\<lambda>(x, v). g x v)) Q"
  by (erule okr_bind) (auto intro: vkeeps_trans)

lemma okr_end: "okr m (vkeeps v1) \<Longrightarrow> vkeeps v v1 \<Longrightarrow> okr m (vkeeps v)"
  by (auto elim!: okr_mono intro: vkeeps_trans)

lemma oko_end: "okr m (vkeeps v1) \<Longrightarrow> vkeeps v v1 \<Longrightarrow> oko (Some m) (vkeeps v)"
  "okr n (\<lambda>(x, v'). vkeeps v1 v') \<Longrightarrow> vkeeps v v1 \<Longrightarrow> oko (Some n) (\<lambda>(x, v'). vkeeps v v')"
  by (auto elim!: okr_mono intro: vkeeps_trans)

lemma okr_write_frame: "okr (write_frame_to_block fr i v) (vkeeps v)"
  unfolding write_frame_to_block_def
  by (auto simp: ref_errors_def vkeeps_def intro!: okr_bind [OF okr_write_frame_loop])

lemma oko_load_frame: "oko (load_frame_from_block fr i v) (vkeeps v)"
  unfolding load_frame_from_block_def
  by (rule oko_chain(1) [OF okr_swap_lock(1) vkeeps_refl])
    (auto simp: ref_errors_def intro!: oko_chain(1) [of "Some (load_frame_loop a b c d)" for a b c d] oko_end okr_swap_lock okr_load_frame_loop)

lemma vkeeps_sups: "vkeeps (v\<lparr>sups := f\<rparr>) w = vkeeps v w"
  by (simp add: vkeeps_def)

lemma oko_evict_frame: "oko (evict_frame v) (\<lambda>(ok, v'). vkeeps v v')"
proof -
  have free: "oko (bindo (Some (vm_free_page fr s)) (\<lambda>s. bindo (Some (swap_lock_release (s\<lparr>frame_table := f s\<rparr>))) (\<lambda>s. Some (Inr (True, s)))))
      (\<lambda>(ok, v'). vkeeps v v')" if "vkeeps v s" for fr s f
  proof (rule oko_chain(1) [OF _ that])
    show "oko (Some (vm_free_page fr s)) (vkeeps s)" by (simp add: okr_vm_free_page)
    fix s1 assume "vkeeps v s1"
    then have s1: "vkeeps v (s1\<lparr>frame_table := f s1\<rparr>)" by (simp add: vkeeps_def)
    have "oko (Some (swap_lock_release (s1\<lparr>frame_table := f s1\<rparr>))) (vkeeps (s1\<lparr>frame_table := f s1\<rparr>))" by (simp add: okr_swap_lock)
    then show "oko (bindo (Some (swap_lock_release (s1\<lparr>frame_table := f s1\<rparr>))) (\<lambda>s. Some (Inr (True, s)))) (\<lambda>(ok, v'). vkeeps v v')"
      by (rule oko_chain(1) [OF _ s1]) simp
  qed
  have wr: "oko (bindo (Some (write_frame_to_block fr i s)) (\<lambda>s. bindo (Some (vm_free_page fr s)) (\<lambda>s.
      bindo (Some (swap_lock_release (s\<lparr>frame_table := f s\<rparr>))) (\<lambda>s. Some (Inr (True, s)))))) (\<lambda>(ok, v'). vkeeps v v')"
    if "vkeeps v s" for fr i s f
    by (rule oko_chain(1) [OF _ that], simp add: okr_write_frame, rule free)
  show ?thesis unfolding evict_frame_def
  proof (rule oko_chain(1) [OF okr_swap_lock(1) vkeeps_refl], split option.split, intro conjI allI impI)
    fix v1 and e :: frame_table_entry assume v1: "vkeeps v v1"
    then show "oko (Some (Inr (False, v1))) (\<lambda>(ok, v'). vkeeps v v')" by simp
    have "oko (Some (pagedir_clear_page (pagedir v1 (curthread v1)) (uservaddr (sups v1 (aux e))) (mm v1))) (\<lambda>_. True)"
      by (simp add: okr_pagedir_clear_page)
    then show "oko (bindo (Some (pagedir_clear_page (pagedir v1 (curthread v1)) (uservaddr (sups v1 (aux e))) (mm v1))) (\<lambda>m.
         let s = v1\<lparr>mm := m\<rparr>; r = sups s (aux e); r = r\<lparr>block_index := (if block_index r = - 1 then curr_index s else block_index r)\<rparr>;
             s = s\<lparr>sups := (sups s)(aux e := r)\<rparr> in
         bindo (Some (write_frame_to_block (frame e) (block_index r) s)) (\<lambda>s.
         bindo (Some (vm_free_page (frame e) s)) (\<lambda>s.
         bindo (Some (swap_lock_release (s\<lparr>frame_table := remove1 e (frame_table s)\<rparr>))) (\<lambda>s. Some (Inr (True, s))))))) (\<lambda>(ok, v'). vkeeps v v')"
      unfolding Let_def by (rule oko_bind) (rule wr, use v1 in \<open>simp add: vkeeps_def\<close>)
  qed
qed

lemma oko_grow: "oko (grow v) (\<lambda>(p, v'). vkeeps v v')"
  unfolding grow_def
  by (rule oko_chain(2) [of "Some (vm_get_page a c)" c v for a c] oko_chain(2) [OF oko_evict_frame] oko_if
      | simp add: okr_vm_get_page)+

lemma oko_bring_in: "oko (bring_in u v) (vkeeps v)"
  unfolding bring_in_def Let_def
proof (rule oko_chain(2) [OF oko_grow vkeeps_refl], rule oko_chain(2) [of "Some (install_page a b c d)" d v for a b c d])
  fix k v1 assume v1: "vkeeps v v1"
  show "oko (Some (install_page u k True v1)) (\<lambda>(x, v'). vkeeps v1 v')" "vkeeps v v1" using v1 by (simp_all add: okr_install_page)
  fix ok v2 assume v2: "vkeeps v v2"
  let ?found = "find_page (sups v) u (page_table v (curthread v)) None"
  have "oko (case ?found of None \<Rightarrow> Some (sup_page_table_insert u (ticks v2) (- 1) False True v2)
    | Some p \<Rightarrow> bindo (load_frame_from_block k (block_index (sups v2 p)) (v2\<lparr>sups := (sups v2)(p := (sups v2 p)\<lparr>access_time := ticks v2\<rparr>)\<rparr>))
        (\<lambda>s. Some (Inr (p, s)))) (\<lambda>(x, v'). vkeeps v2 v')"
    by (auto simp: okr_table_insert split: option.split intro!: oko_bind [OF oko_load_frame] vkeeps_same [OF _ _ vkeeps_refl] simp: vkeeps_sups)
  then show "oko (if \<not> ok then Some (Inl (Panic ''There's already a page at this virtual address''))
      else bindo (case ?found of None \<Rightarrow> Some (sup_page_table_insert u (ticks v2) (- 1) False True v2)
        | Some p \<Rightarrow> bindo (load_frame_from_block k (block_index (sups v2 p)) (v2\<lparr>sups := (sups v2)(p := (sups v2 p)\<lparr>access_time := ticks v2\<rparr>)\<rparr>))
            (\<lambda>s. Some (Inr (p, s)))) (\<lambda>(e, s). Some (frame_table_insert k (curthread s) e s))) (vkeeps v)"
    by (intro oko_if) (simp, erule oko_chain(2) [OF _ v2], rule oko_end, rule okr_table_insert)
qed

lemma oko_page_fault: "oko (page_fault a c u v) (\<lambda>(out, v'). vkeeps v v')"
proof -
  define v1 where "v1 = v\<lparr>exception_lock := exception_lock v - 1, page_fault_cnt := page_fault_cnt v + 1\<rparr>"
  have v1: "vkeeps v v1" by (simp add: v1_def vkeeps_def)
  have k: "okr (kill u v1) (\<lambda>(out, v'). vkeeps v v')" using v1 by (simp add: kill_def)
  have "oko (bindo (bring_in x v1) (\<lambda>s. Some (Inr (Resumed, s\<lparr>exception_lock := exception_lock s + 1\<rparr>)))) (\<lambda>(out, v'). vkeeps v v')" for x
    by (rule oko_chain(1) [OF oko_bring_in v1]) (simp add: vkeeps_def)
  then show ?thesis unfolding page_fault_def Let_def v1_def [symmetric] using k v1 by simp
qed

lemma okr_translate: "okr (translate w a v) (\<lambda>_. True)"
  unfolding translate_def Let_def
  by (intro okr_if okr_bind [OF okr_lookup_page]) (auto intro!: okr_bind [OF okr_addresses(3)])

lemma okx_access: "okx (vkeeps v) (\<lambda>(p, v'). vkeeps v v') (access w a v)"
proof -
  have again: "oko (bindo (Some (translate w a v1)) (\<lambda>r. case r of Inl p \<Rightarrow> ret (p, v1) | Inr code \<Rightarrow> None))
      (case_run (vkeeps v) (\<lambda>(p, v'). vkeeps v v'))" if "vkeeps v v1" for v1
    by (rule oko_bind [where P = "\<lambda>_. True"]) (use that in \<open>auto simp: okr_translate ret_def split: sum.split\<close>)
  have "oko (bindo (page_fault a c SEL_KCSEG v) (\<lambda>(out, s). if out = Exited then Some (Inr (Exit s))
      else bindo (Some (translate w a s)) (\<lambda>r. case r of Inl p \<Rightarrow> ret (p, s) | Inr code \<Rightarrow> None)))
      (case_run (vkeeps v) (\<lambda>(p, v'). vkeeps v v'))" for c
    by (rule oko_chain(2) [OF oko_page_fault vkeeps_refl]) (use again in auto)
  then show ?thesis unfolding access_def okx_def
    by (intro oko_bind [where P = "\<lambda>_. True" and m = "Some (translate w a v)"]) (auto simp: okr_translate ret_def split: sum.split)
qed

lemma okx_kload: "okx (vkeeps v) (\<lambda>(b, v'). vkeeps v v') (kload a v)"
  unfolding kload_def by (rule okx_bind [OF okx_access]) auto

lemma okx_kstore: "okx (vkeeps v) (vkeeps v) (kstore a b v)"
  unfolding kstore_def by (rule okx_bind [OF okx_access]) (auto simp: vkeeps_def set_vmem_def)

lemma okx_trans: "okx (vkeeps v1) (vkeeps v1) m \<Longrightarrow> vkeeps v v1 \<Longrightarrow> okx (vkeeps v) (vkeeps v) m"
  unfolding okx_def by (erule oko_mono) (auto split: run.splits intro: vkeeps_trans)

lemma okx_kstores: "okx (vkeeps v) (vkeeps v) (kstores a bs v)"
proof (induction bs arbitrary: a v)
  case (Cons b bs)
  show ?case unfolding kstores.simps by (rule okx_bind [OF okx_kstore], rule okx_trans [OF Cons])
qed simp

section \<open>The invariant\<close>

text \<open>Descriptors are at least 5, the number that \<open>init_thread\<close> starts with.\<close>

definition descriptors_ok :: "usys \<Rightarrow> bool" where
  "descriptors_ok s \<longleftrightarrow> (\<forall>t. 5 \<le> fdCounter s t \<and> distinct (map fd (fileList s t)) \<and> (\<forall>e \<in> set (fileList s t). 5 \<le> fd e \<and> fd e < fdCounter s t))"

definition owned_files :: "usys \<Rightarrow> (ptr \<times> fileListElem) set" where
  "owned_files s = {(t, e). e \<in> set (fileList s t)}"

definition files_ok :: "usys \<Rightarrow> bool" where
  "files_ok s \<longleftrightarrow> inj_on (\<lambda>(t, e). mFile e) (owned_files s)
     \<and> (\<forall>(t, e) \<in> owned_files s. mFile e \<in> dom (files (fsys (uvm s))) \<and> mFile e \<noteq> free_map_file (fsys (uvm s)))"

definition uok :: "usys \<Rightarrow> bool" where
  "uok s \<longleftrightarrow> quiet (fsys (uvm s)) \<and> descriptors_ok s \<and> files_ok s"

text \<open>A part of a call that leaves the tables alone and closes no file.\<close>

definition vgrows :: "vm \<Rightarrow> vm \<Rightarrow> bool" where
  "vgrows v v' \<longleftrightarrow> curthread v' = curthread v \<and> quiet (fsys v') \<and> dom (files (fsys v)) \<subseteq> dom (files (fsys v'))
     \<and> free_map_file (fsys v') = free_map_file (fsys v)"

definition ukeeps :: "usys \<Rightarrow> usys \<Rightarrow> bool" where
  "ukeeps s s' \<longleftrightarrow> vgrows (uvm s) (uvm s') \<and> IOLock s' = IOLock s \<and> fileList s' = fileList s \<and> fdCounter s' = fdCounter s"

lemma vkeeps_grows: "quiet (fsys v) \<Longrightarrow> vkeeps v v' \<Longrightarrow> vgrows v v'"
  using refs_ok_same by (auto simp: vkeeps_def vgrows_def quiet_def same_refs_def)

lemma vgrows_trans: "vgrows u v \<Longrightarrow> vgrows v w \<Longrightarrow> vgrows u w"
  by (auto simp: vgrows_def)

lemma okx_vgrows:
  assumes "okx (vkeeps v) (\<lambda>(x, v'). vkeeps v v') m" "quiet (fsys v)"
  shows "okx (vgrows v) (\<lambda>(x, v'). vgrows v v') m"
  using assms(1) unfolding okx_def by (rule oko_mono) (use vkeeps_grows [OF assms(2)] in \<open>auto split: run.splits\<close>)

lemma ukeeps_refl: "uok s \<Longrightarrow> ukeeps s s"
  by (simp add: ukeeps_def uok_def vgrows_def)

lemma ukeeps_trans: "ukeeps s s1 \<Longrightarrow> ukeeps s1 s2 \<Longrightarrow> ukeeps s s2"
  using vgrows_trans by (auto simp: ukeeps_def)

lemma ukeeps_ok: "uok s \<Longrightarrow> ukeeps s s' \<Longrightarrow> uok s'"
  unfolding uok_def ukeeps_def descriptors_ok_def files_ok_def owned_files_def vgrows_def by (simp add: case_prod_beta) blast

lemma ukeeps_vm: "vgrows (uvm s) v \<Longrightarrow> ukeeps s (s\<lparr>uvm := v\<rparr>)"
  by (simp add: ukeeps_def)

lemma uok_fields [simp]:
  "uok (s\<lparr>console := c\<rparr>) = uok s" "uok (s\<lparr>IOLock := k\<rparr>) = uok s" "uok (s\<lparr>saved_esp := f\<rparr>) = uok s" "uok (s\<lparr>exitStatus := g\<rparr>) = uok s"
  "uok (s\<lparr>keys := ks\<rparr>) = uok s" "uok (io_up s) = uok s"
  by (simp_all add: uok_def descriptors_ok_def files_ok_def owned_files_def io_up_def)

lemma ukeeps_fields [simp]:
  "ukeeps s (s'\<lparr>console := c\<rparr>) = ukeeps s s'" "ukeeps s (s'\<lparr>saved_esp := f\<rparr>) = ukeeps s s'" "ukeeps s (s'\<lparr>keys := ks\<rparr>) = ukeeps s s'"
  by (simp_all add: ukeeps_def)

lemma okx_doBadExit [simp]: "okx uok Q (doBadExit s) = uok s"
  by (simp add: doBadExit_def)

lemma okx_onvm:
  assumes "uok s" "okx (vgrows (uvm s)) (\<lambda>(x, v). vgrows (uvm s) v) (g (uvm s))"
  shows "okx uok (\<lambda>(x, s'). ukeeps s s') (onvm g s)"
  unfolding onvm_def okx_def
proof (rule oko_bind [OF assms(2) [unfolded okx_def]])
  fix r assume "case r of Exit v \<Rightarrow> vgrows (uvm s) v | Ret (x, v) \<Rightarrow> vgrows (uvm s) v"
  then show "oko (case r of Exit v \<Rightarrow> doBadExit (s\<lparr>uvm := v\<rparr>) | Ret (x, v) \<Rightarrow> ret (x, s\<lparr>uvm := v\<rparr>))
      (\<lambda>r. case r of Exit s \<Rightarrow> uok s | Ret (x, s') \<Rightarrow> ukeeps s s')"
    using ukeeps_vm [of s] ukeeps_ok [OF assms(1)] by (cases r) (auto simp: ret_def doBadExit_def)
qed

lemma okx_onfs:
  assumes "oko (g (fsys (uvm s))) (\<lambda>(x, f). P x f)"
  shows "okx E (\<lambda>(x, s'). \<exists>f. P x f \<and> s' = s\<lparr>uvm := (uvm s)\<lparr>fsys := f\<rparr>\<rparr>) (onfs g s)"
  unfolding onfs_def okx_def by (rule oko_bind [OF assms]) (auto simp: ret_def)

text \<open>Sequencing of parts that keep the tables.\<close>

lemma okx_keep:
  fixes m :: "('a \<times> usys) sys"
  assumes "okx uok (\<lambda>(x, s'). ukeeps s1 s') m" "uok s1" "ukeeps s s1" "\<And>x s'. uok s' \<Longrightarrow> ukeeps s s' \<Longrightarrow> okx uok Q (f x s')"
  shows "okx uok Q (bindx m (\<lambda>(x, s). f x s))"
proof (rule okx_bind [OF assms(1)])
  fix r :: "'a \<times> usys" assume "case r of (x, s') \<Rightarrow> ukeeps s1 s'"
  then obtain x s' where r: "r = (x, s')" "ukeeps s1 s'" by (cases r) simp
  have "okx uok Q (f x s')" by (rule assms(4) [OF ukeeps_ok [OF assms(2) r(2)] ukeeps_trans [OF assms(3) r(2)]])
  then show "okx uok Q (case r of (x, s) \<Rightarrow> f x s)" by (simp add: r(1))
qed

lemma okx_uload: "uok s \<Longrightarrow> okx uok (\<lambda>(b, s'). ukeeps s s') (onvm (kload a) s)"
  by (rule okx_onvm, assumption, rule okx_vgrows [OF okx_kload]) (simp add: uok_def)

lemma okx_kloads: "uok s \<Longrightarrow> okx uok (\<lambda>(bs, s'). ukeeps s s') (kloads a n s)"
proof (induction n arbitrary: a s)
  case (Suc n)
  show ?case unfolding kloads.simps
  proof (rule okx_keep [OF okx_uload [OF Suc.prems] Suc.prems ukeeps_refl [OF Suc.prems]])
    fix b s1 assume "uok s1" "ukeeps s s1"
    then show "okx uok (\<lambda>(bs, s'). ukeeps s s') (bindx (kloads (a + 1) n s1) (\<lambda>(bs, s). ret (b # bs, s)))"
      by (intro okx_keep [OF Suc.IH]) auto
  qed
qed (simp add: ukeeps_refl)

lemma okx_kload32: "uok s \<Longrightarrow> okx uok (\<lambda>(w, s'). ukeeps s s') (kload32 a s)"
  unfolding kload32_def by (rule okx_keep [OF okx_kloads]) (auto intro: ukeeps_refl)

lemma okx_kstring:
  assumes "uok s"
  shows "okx uok (\<lambda>(bs, s'). ukeeps s s') (kstring a s)"
proof -
  have "uok s \<longrightarrow> okx uok (\<lambda>(bs, s'). ukeeps s s') (Some r)" if "kstring a s = Some r" for r
    using that
  proof (rule kstring.raw_induct [rotated])
    fix f a s r
    assume IH: "\<And>a s r. f a s = Some r \<Longrightarrow> uok s \<longrightarrow> okx uok (\<lambda>(bs, s'). ukeeps s s') (Some r)"
      and eq: "bindx (onvm (kload a) s) (\<lambda>(b, s). if b = 0 then ret ([], s) else bindx (f (a + 1) s) (\<lambda>(bs, s). ret (b # bs, s))) = Some r"
    have IH': "okx uok (\<lambda>(bs, s'). ukeeps s1 s') (f a1 s1)" if "uok s1" for a1 s1
      using IH [of a1 s1] that by (cases "f a1 s1") auto
    show "uok s \<longrightarrow> okx uok (\<lambda>(bs, s'). ukeeps s s') (Some r)" unfolding eq [symmetric]
    proof
      assume s: "uok s"
      show "okx uok (\<lambda>(bs, s'). ukeeps s s') (bindx (onvm (kload a) s) (\<lambda>(b, s). if b = 0 then ret ([], s) else bindx (f (a + 1) s) (\<lambda>(bs, s). ret (b # bs, s))))"
        by (rule okx_keep [OF okx_uload [OF s] s ukeeps_refl [OF s]], rule okx_if, simp, rule okx_keep [OF IH']) auto
    qed
  qed
  then show ?thesis using assms by (cases "kstring a s") auto
qed

section \<open>The calls that keep the tables\<close>

text \<open>A call that takes \<open>IOLock\<close>: what holds while it has the lock, and that the lock is as before when it has been released.\<close>

lemma okx_locked:
  assumes "uok s" "\<And>s1. uok s1 \<Longrightarrow> s1 = s\<lparr>IOLock := IOLock s - 1\<rparr> \<Longrightarrow> 0 < IOLock s \<Longrightarrow> okx uok Q (f s1)"
  shows "okx uok Q (bindx (io_down s) f)"
  using assms by (auto simp: io_down_def)

lemma ukeeps_unlock:
  "s1 = s\<lparr>IOLock := IOLock s - 1\<rparr> \<Longrightarrow> 0 < IOLock s \<Longrightarrow> ukeeps s1 s2 \<Longrightarrow> ukeeps s (io_up s2)"
  by (simp add: ukeeps_def io_up_def)

lemma okr_addressCheck: "okr (addressCheck a s) (\<lambda>_. True)"
  unfolding addressCheck_def by (intro okr_if okr_bind [OF okr_pagedir_get_page]) simp_all

lemma okx_address: "uok s \<Longrightarrow> uok (u s) \<Longrightarrow> okx uok (\<lambda>_. True) (address_or_exit u a s)"
  unfolding address_or_exit_def by (rule okx_bind [OF okx_liftr [OF okr_addressCheck]]) simp

lemma okx_file: "uok s \<Longrightarrow> okx uok (\<lambda>e. e \<in> set (fileList s (cur s)) \<and> fd e = n) (file_or_exit n s)"
  by (auto simp: file_or_exit_def getFileWithFd_def find_Some_iff split: option.split)

lemma owned_file:
  assumes "uok s" "e \<in> set (fileList s t)"
  obtains x where "files (fsys (uvm s)) (mFile e) = Some x" "mFile e \<noteq> free_map_file (fsys (uvm s))" "mFile e \<noteq> 0" "refs_ok (\<lambda>_. 0) (fsys (uvm s))"
proof -
  have q: "refs_ok (\<lambda>_. 0) (fsys (uvm s))" using assms(1) by (simp add: uok_def quiet_def)
  have "mFile e \<in> dom (files (fsys (uvm s)))" "mFile e \<noteq> free_map_file (fsys (uvm s))"
    using assms by (auto simp: uok_def files_ok_def owned_files_def)
  then obtain x where "files (fsys (uvm s)) (mFile e) = Some x" by blast
  moreover from this have "mFile e \<noteq> 0" using q unfolding refs_ok_def table_ok_def by (metis less_irrefl option.distinct(1))
  ultimately show thesis using that q \<open>mFile e \<noteq> free_map_file _\<close> by blast
qed

text \<open>An operation of the file system that closes no file.\<close>

lemma okx_onfs_keep:
  assumes "uok s" "oko (g (fsys (uvm s))) (\<lambda>(x, f). keeps (fsys (uvm s)) f \<and> dom (files (fsys (uvm s))) \<subseteq> dom (files f))"
  shows "okx uok (\<lambda>(x, s'). ukeeps s s') (onfs g s)"
  by (rule okx_mono [OF okx_onfs [of g s, OF assms(2)]]) (auto simp: ukeeps_def vgrows_def)

lemma okx_user_name: "uok s \<Longrightarrow> okx uok (\<lambda>(name, s'). ukeeps s s') (user_name a s)"
  unfolding user_name_def by (rule okx_bind [OF okx_address]) (auto intro: okx_kstring)

text \<open>The steps of the calls: \<open>s\<close> is the state after \<open>IOLock\<close> has been taken, \<open>s1\<close> the state before the step.\<close>

lemmas step_load = okx_keep [OF okx_kload32]
lemmas step_name = okx_keep [OF okx_user_name]

lemma step_address:
  assumes "uok s1" "okx uok Q f"
  shows "okx uok Q (bindx (address_or_exit id a s1) (\<lambda>_. f))"
  by (rule okx_bind [OF okx_address]) (use assms in auto)

lemma step_file:
  assumes "uok s1" "\<And>e. e \<in> set (fileList s1 (cur s1)) \<Longrightarrow> fd e = n \<Longrightarrow> okx uok Q (f e)"
  shows "okx uok Q (bindx (file_or_exit n s1) f)"
  by (rule okx_bind [OF okx_file [OF assms(1)]]) (use assms in auto)

lemmas step_fs = okx_keep [OF okx_onfs_keep]
lemmas step_vm = okx_keep [OF okx_onvm]

lemma step_lift:
  assumes "okr m (\<lambda>_. True)" "\<And>x. okx uok Q (f x)"
  shows "okx uok Q (bindx (liftx (Some m)) f)"
  by (rule okx_bind [OF okx_liftr [OF assms(1)]]) (rule assms(2))

lemma step_lock:
  assumes "uok s" "\<And>s1. uok s1 \<Longrightarrow> ukeeps s1 s1 \<Longrightarrow> \<forall>s2. ukeeps s1 s2 \<longrightarrow> ukeeps s (io_up s2) \<Longrightarrow> okx uok Q (f s1)"
  shows "okx uok Q (bindx (io_down s) f)"
proof (cases "IOLock s = 0")
  case False
  let ?s = "s\<lparr>IOLock := IOLock s - 1\<rparr>"
  have "uok ?s" using assms(1) by simp
  then have "okx uok Q (f ?s)" using False by (intro assms(2)) (auto intro: ukeeps_refl ukeeps_unlock)
  then show ?thesis using False by (simp add: io_down_def)
qed (simp add: io_down_def)

lemma step_return: "ukeeps s s' \<Longrightarrow> okx uok (\<lambda>(r, s'). ukeeps s s') (ret (r, s'))"
  by simp

lemmas call_steps = step_lock step_load step_name step_address step_file

lemma oko_files_grow: "oko m (\<lambda>(x, f). P f \<and> files f = F) \<Longrightarrow> oko m (\<lambda>(x, f). P f \<and> dom F \<subseteq> dom (files f))"
  by (erule oko_mono) auto

lemma okx_sys_create: "uok s \<Longrightarrow> okx uok (\<lambda>(r, s'). ukeeps s s') (sys_create f s)"
  unfolding sys_create_def
  by (rule call_steps step_fs step_return | assumption | rule oko_files_grow [OF oko_filesys_create], simp add: uok_def | blast)+

lemma okx_sys_remove: "uok s \<Longrightarrow> okx uok (\<lambda>(r, s'). ukeeps s s') (sys_remove f s)"
  unfolding sys_remove_def
  by (rule call_steps step_fs step_return | assumption | rule oko_files_grow [OF oko_filesys_remove], simp add: uok_def | blast)+

lemma okx_sys_munmap: "uok s \<Longrightarrow> okx uok (\<lambda>(r, s'). ukeeps s s') (sys_munmap f s)"
  unfolding sys_munmap_def by (rule call_steps step_return | assumption | blast)+

text \<open>What the calls ask about an open file.\<close>

lemma okr_file_queries:
  assumes "uok s" "e \<in> set (fileList s t)"
  shows "okr (file_length (mFile e) (fsys (uvm s))) (\<lambda>_. True)" "okr (file_tell (mFile e) (fsys (uvm s))) (\<lambda>_. True)"
    "okr (get_file (mFile e) (fsys (uvm s))) (\<lambda>_. True)"
proof -
  obtain x where x: "files (fsys (uvm s)) (mFile e) = Some x" "mFile e \<noteq> 0" "refs_ok (\<lambda>_. 0) (fsys (uvm s))" by (rule owned_file [OF assms])
  obtain i where "inodes (fsys (uvm s)) (finode x) = Some i" using refs_ok_file [OF x(3,1)] by auto
  then show "okr (file_length (mFile e) (fsys (uvm s))) (\<lambda>_. True)" "okr (file_tell (mFile e) (fsys (uvm s))) (\<lambda>_. True)"
    "okr (get_file (mFile e) (fsys (uvm s))) (\<lambda>_. True)"
    using x by (simp_all add: file_length_def file_tell_def get_file_def get_inode_def)
qed

lemma okr_file_ops:
  assumes "uok s" "e \<in> set (fileList s t)"
  defines "F \<equiv> fsys (uvm s)"
  shows "okr (file_read (mFile e) n F) (\<lambda>(bs, f). keeps F f \<and> dom (files F) \<subseteq> dom (files f))"
    "okr (file_write (mFile e) bs F) (\<lambda>(n, f). keeps F f \<and> dom (files F) \<subseteq> dom (files f))"
    "okr (bindr (file_seek (mFile e) p F) (\<lambda>x. Inr ((), x))) (\<lambda>(n, f). keeps F f \<and> dom (files F) \<subseteq> dom (files f))"
    "okr (file_reopen (mFile e) F) (\<lambda>(p, f). keeps F f \<and> opened F p f)"
proof -
  obtain x where x: "files F (mFile e) = Some x" "mFile e \<noteq> 0" and r: "refs_ok (\<lambda>_. 0) F" unfolding F_def by (rule owned_file [OF assms(1,2)])
  have e: "0 \<le> (\<lambda>_. 0 :: int) (finode x)" by simp
  show "okr (file_read (mFile e) n F) (\<lambda>(bs, f). keeps F f \<and> dom (files F) \<subseteq> dom (files f))"
    by (rule okr_mono [OF okr_file_read [OF r x(1) e]]) (auto simp: quiet_def)
  show "okr (file_write (mFile e) bs F) (\<lambda>(n, f). keeps F f \<and> dom (files F) \<subseteq> dom (files f))"
    by (rule okr_mono [OF okr_file_write [OF r x(1) e]]) (auto simp: quiet_def)
  show "okr (bindr (file_seek (mFile e) p F) (\<lambda>x. Inr ((), x))) (\<lambda>(n, f). keeps F f \<and> dom (files F) \<subseteq> dom (files f))"
    by (rule okr_bind [OF okr_file_seek [OF r x(1)]]) (auto simp: quiet_def)
  show "okr (file_reopen (mFile e) F) (\<lambda>(p, f). keeps F f \<and> opened F p f)"
    by (rule okr_mono [OF okr_file_reopen [OF r x(1) e]]) (auto simp: quiet_def)
qed

lemma okx_sys_filesize: "uok s \<Longrightarrow> okx uok (\<lambda>(r, s'). ukeeps s s') (sys_filesize f s)"
  unfolding sys_filesize_def by (rule call_steps step_lift okr_file_queries step_return | assumption | blast)+

lemma okx_sys_tell: "uok s \<Longrightarrow> okx uok (\<lambda>(r, s'). ukeeps s s') (sys_tell f s)"
  unfolding sys_tell_def by (rule call_steps step_lift okr_file_queries step_return | assumption | blast)+

lemma oko_Some: "okr m P \<Longrightarrow> oko (Some m) P"
  by simp

lemma okx_sys_seek: "uok s \<Longrightarrow> okx uok (\<lambda>(r, s'). ukeeps s s') (sys_seek f s)"
  unfolding sys_seek_def by (rule call_steps step_fs oko_Some okr_file_ops step_return | assumption | blast)+

section \<open>Reading and writing\<close>

lemma okr_read_grow: "okr (read_grow u v) (vkeeps v)"
  unfolding read_grow_def
  by (rule okr_chain [OF okr_vm_get_page vkeeps_refl], rule okr_if, simp, rule okr_chain [OF okr_install_page], assumption, rule okr_if, simp,
      rule okr_chain [OF okr_table_insert(1)], assumption, rule okr_end [OF okr_table_insert(2)])

lemma okx_vm_unit:
  "quiet (fsys v) \<Longrightarrow> okx (vkeeps v) (vkeeps v) m \<Longrightarrow> okx (vgrows v) (\<lambda>(x, v'). vgrows v v') (bindx m (\<lambda>v. ret ((), v)))"
  by (rule okx_vgrows, erule okx_bind) auto

lemma okx_read_buffer: "uok s \<Longrightarrow> okx uok (ukeeps s) (read_buffer f b s)"
  unfolding read_buffer_def
proof (intro okx_if okx_bind [OF okx_liftr [OF okr_addressCheck]])
  assume s: "uok s"
  then have q: "quiet (fsys (uvm s))" by (simp add: uok_def)
  have "okr (bindr (read_grow u v) (\<lambda>v. Inr ((), v))) (\<lambda>(x, v'). vkeeps v v')" for u v
    using okr_read_grow by (rule okr_bind) simp
  then have "okx (vgrows (uvm s)) (\<lambda>(x, v). vgrows (uvm s) v) (liftx (Some (bindr (read_grow u (uvm s)) (\<lambda>v. Inr ((), v)))))" for u
    by (intro okx_vgrows [OF okx_liftr q])
  then show "okx uok (ukeeps s) (bindx (onvm (\<lambda>v. liftx (Some (bindr (read_grow (pg_round_down b) v) (\<lambda>v. Inr ((), v))))) s) (\<lambda>(_, s). ret s))"
    by (intro okx_keep [OF okx_onvm [OF s] s ukeeps_refl [OF s]]) simp_all
qed (simp_all add: ukeeps_refl)

lemma okx_input_getc: "uok s \<Longrightarrow> okx uok (\<lambda>(k, s'). ukeeps s s') (input_getc s)"
  by (simp add: input_getc_def ukeeps_refl split: list.split)

text \<open>Reading and writing with a buffer in user memory.\<close>

lemma okx_fs_step:
  assumes "uok s" "okr (g (fsys (uvm s))) (\<lambda>(x, F). same_refs (fsys (uvm s)) F)"
  shows "okx uok (\<lambda>(x, s'). ukeeps s s') (fs_step g s)"
  unfolding fs_step_def
proof (rule okx_onfs_keep [OF assms(1)], rule oko_Some, rule okr_mono [OF assms(2)], clarify)
  fix F assume F: "same_refs (fsys (uvm s)) F"
  have "quiet (fsys (uvm s))" using assms(1) by (simp add: uok_def)
  then show "keeps (fsys (uvm s)) F \<and> dom (files (fsys (uvm s))) \<subseteq> dom (files F)"
    using F refs_ok_same [OF _ F] by (auto simp: quiet_def same_refs_def)
qed

lemma okx_bounce_buffer: "uok s \<Longrightarrow> okx uok (\<lambda>(x, s'). ukeeps s s') (bounce_buffer b s)"
  unfolding bounce_buffer_def by (rule okx_fs_step) (auto dest: same_refs_malloc)

lemma okx_fs_put: "uok s \<Longrightarrow> okx uok (\<lambda>(x, s'). ukeeps s s') (fs_put (fs_write k bs) s)"
  unfolding fs_put_def by (rule okx_fs_step, assumption, rule okr_bind [OF okr_fs_write]) simp

lemma okx_user_store: "uok s \<Longrightarrow> okx uok (\<lambda>(x, s'). ukeeps s s') (user_store a bs s)"
  unfolding user_store_def by (rule okx_onvm, assumption, rule okx_vm_unit [OF _ okx_kstores]) (simp add: uok_def)

lemmas step_sector = okx_keep [OF okx_fs_step] okx_keep [OF okx_bounce_buffer] okx_keep [OF okx_fs_put] okx_keep [OF okx_user_store]
  okx_keep [OF okx_kloads]

lemma okx_user_read_loop: "uok s \<Longrightarrow> okx uok (\<lambda>(n, s'). ukeeps s s') (user_read_loop i bounce b sz off s)"
proof (induction "nat sz" arbitrary: bounce b sz off s rule: less_induct)
  case less
  let ?c = "chunk_size i sz off"
  note k = ukeeps_refl [OF less.prems]
  have more: "okx uok (\<lambda>(n, s'). ukeeps s s') (bindx (user_read_loop i b' a (sz - ?c) (off + ?c) s1) (\<lambda>(n, s). ret (?c + n, s)))"
    if "0 < sz" "\<not> ?c \<le> 0" "uok s1" "ukeeps s s1" for b' a s1
    by (rule okx_keep [OF less.hyps]) (use that in auto)
  show ?case unfolding user_read_loop.simps [of i bounce b sz off s] Let_def
    by (intro okx_if) (assumption | rule step_sector [where s = s] more okr_fs_read okx_if less.prems k | simp add: k)+
qed

lemma okx_user_write_loop: "uok s \<Longrightarrow> okx uok (\<lambda>(n, s'). ukeeps s s') (user_write_loop i bounce b sz off s)"
proof (induction "nat sz" arbitrary: bounce b sz off s rule: less_induct)
  case less
  let ?c = "chunk_size i sz off"
  note k = ukeeps_refl [OF less.prems]
  have more: "okx uok (\<lambda>(n, s'). ukeeps s s') (bindx (user_write_loop i b' a (sz - ?c) (off + ?c) s1) (\<lambda>(n, s). ret (?c + n, s)))"
    if "0 < sz" "\<not> ?c \<le> 0" "uok s1" "ukeeps s s1" for b' a s1
    by (rule okx_keep [OF less.hyps]) (use that in auto)
  have old: "okr (if c then fs_read k F else Inr (z, F)) (\<lambda>(x, F'). same_refs F F')" for c k z F using okr_fs_read by simp
  show ?case unfolding user_write_loop.simps [of i bounce b sz off s] Let_def
    by (intro okx_if) (assumption | rule step_sector [where s = s] more old okx_if less.prems k | simp add: k)+
qed

lemma okx_advance:
  assumes "uok s" "e \<in> set (fileList s (cur s))"
  shows "okx uok (\<lambda>(x, s'). ukeeps s s') (fs_step (advance (mFile e) n) s)"
proof -
  obtain x where x: "files (fsys (uvm s)) (mFile e) = Some x" and r: "refs_ok (\<lambda>_. 0) (fsys (uvm s))" by (rule owned_file [OF assms])
  note f = set_file [OF r x, of "x\<lparr>pos := pos x + n\<rparr>"]
  show ?thesis unfolding fs_step_def
    by (rule okx_onfs_keep [OF assms(1)]) (use x f in \<open>auto simp: advance_def get_file_def quiet_def\<close>)
qed

lemma ukeeps_entry: "ukeeps s s' \<Longrightarrow> e \<in> set (fileList s (cur s)) \<Longrightarrow> e \<in> set (fileList s' (cur s'))"
  by (simp add: ukeeps_def vgrows_def)

lemma step_advance:
  assumes "e \<in> set (fileList s (cur s))" "uok s1" "ukeeps s s1"
  shows "okx uok (\<lambda>(n, s'). ukeeps s s') (bindx (fs_step (advance (mFile e) n) s1) (\<lambda>(_, s). ret (n, s)))"
  by (rule okx_keep [OF okx_advance]) (use assms ukeeps_entry [OF assms(3,1)] in auto)

lemma okr_file_inode:
  assumes "uok s" "e \<in> set (fileList s (cur s))" "get_file (mFile e) (fsys (uvm s)) = Inr x"
  shows "okr (get_inode (finode x) (fsys (uvm s))) (\<lambda>_. True)"
proof -
  obtain y where y: "files (fsys (uvm s)) (mFile e) = Some y" "refs_ok (\<lambda>_. 0) (fsys (uvm s))" by (rule owned_file [OF assms(1,2)])
  moreover have "y = x" using y(1) assms(3) by (simp add: get_file_def)
  ultimately obtain i where "inodes (fsys (uvm s)) (finode x) = Some i" using refs_ok_file [OF y(2,1)] by auto
  then show ?thesis by (simp add: get_inode_def)
qed

lemma owned_get_file:
  assumes "uok s" "e \<in> set (fileList s (cur s))"
  obtains x where "get_file (mFile e) (fsys (uvm s)) = Inr x"
  using owned_file [OF assms] by (metis get_file_def option.simps(5))

lemma okx_user_file_read:
  assumes "uok s" "e \<in> set (fileList s (cur s))"
  shows "okx uok (\<lambda>(n, s'). ukeeps s s') (user_file_read (mFile e) b sz s)"
proof -
  obtain x where x: "get_file (mFile e) (fsys (uvm s)) = Inr x" by (rule owned_get_file [OF assms])
  note k = assms(1) ukeeps_refl [OF assms(1)]
  have "okx uok (\<lambda>(n, s'). ukeeps s s') (if sint sz > 0
      then bindx (liftx (Some (get_inode (finode x) (fsys (uvm s))))) (\<lambda>i. user_read_loop i False b (sint sz) (pos x) s) else ret (0, s))"
    by (intro okx_if) (rule step_lift okr_file_inode [OF assms x] okx_user_read_loop [OF k(1)] | simp add: k)+
  then have "okx uok (\<lambda>(n, s'). ukeeps s s') (bindx (if sint sz > 0
      then bindx (liftx (Some (get_inode (finode x) (fsys (uvm s))))) (\<lambda>i. user_read_loop i False b (sint sz) (pos x) s) else ret (0, s)) (\<lambda>(n, s).
      bindx (fs_step (advance (mFile e) n) s) (\<lambda>(_, s). ret (n, s))))"
    by (intro okx_keep [OF _ k] step_advance [OF assms(2)]) auto
  then show ?thesis unfolding user_file_read_def by (simp only: x liftx_simps bindx_simps)
qed

lemma step_keep:
  assumes "okx uok (ukeeps s1) m" "uok s1" "ukeeps s s1" "\<And>s'. uok s' \<Longrightarrow> ukeeps s s' \<Longrightarrow> okx uok Q (f s')"
  shows "okx uok Q (bindx m f)"
  by (rule okx_bind [OF assms(1)], rule assms(4)) (blast intro: ukeeps_ok [OF assms(2)] ukeeps_trans [OF assms(3)])+

lemma okx_sys_read: "uok s \<Longrightarrow> okx uok (\<lambda>(r, s'). ukeeps s s') (sys_read f s)"
  unfolding sys_read_def
  by (rule call_steps step_keep [OF okx_read_buffer] okx_if okx_keep [OF okx_input_getc] okx_keep [OF okx_user_file_read] step_return
      | assumption | blast)+

lemma okx_putbuf: "uok s \<Longrightarrow> okx uok (ukeeps s) (putbuf b n s)"
proof (induction n arbitrary: b s)
  case (Suc n)
  show ?case unfolding putbuf.simps
  proof (rule okx_keep [OF okx_uload [OF Suc.prems] Suc.prems ukeeps_refl [OF Suc.prems]])
    fix c s1 assume s1: "uok s1" "ukeeps s s1"
    let ?s = "s1\<lparr>console := console s1 @ [Put c]\<rparr>"
    have "uok ?s" "ukeeps s ?s" using s1 by simp_all
    then show "okx uok (ukeeps s) (putbuf (b + 1) n ?s)" using ukeeps_trans by (blast intro: okx_mono [OF Suc.IH])
  qed
qed (simp add: ukeeps_refl)

lemma okx_user_file_write:
  assumes "uok s" "e \<in> set (fileList s (cur s))"
  shows "okx uok (\<lambda>(n, s'). ukeeps s s') (user_file_write (mFile e) b sz s)"
proof -
  obtain x where x: "get_file (mFile e) (fsys (uvm s)) = Inr x" by (rule owned_get_file [OF assms])
  note k = assms(1) ukeeps_refl [OF assms(1)]
  have "okx uok (\<lambda>(n, s'). ukeeps s s') (if deny_write_cnt i \<noteq> 0 then ret (0, s) else user_write_loop i False b (sint sz) (pos x) s)" for i
    by (intro okx_if okx_user_write_loop [OF k(1)]) (simp add: k)
  then have "okx uok (\<lambda>(n, s'). ukeeps s s') (bindx (if deny_write_cnt i \<noteq> 0 then ret (0, s) else user_write_loop i False b (sint sz) (pos x) s) (\<lambda>(n, s).
      bindx (fs_step (advance (mFile e) n) s) (\<lambda>(_, s). ret (n, s))))" for i
    by (intro okx_keep [OF _ k] step_advance [OF assms(2)]) auto
  then show ?thesis unfolding user_file_write_def by (simp only: x liftx_simps bindx_simps) (rule step_lift [OF okr_file_inode [OF assms x]])
qed

lemma okx_write_fd:
  assumes "uok s" "elem = getFileWithFd n s" "elem \<noteq> None \<or> n = 1"
  shows "okx uok (\<lambda>(c, s'). ukeeps s s') (write_fd n b sz elem s)"
proof -
  have entry: "okx uok (\<lambda>(c, s'). ukeeps s s') (bindx (liftx (Some (get_file (mFile e) (fsys (uvm s1))))) (\<lambda>file.
      if deny_write file then doBadExit s1
      else bindx (user_file_write (mFile e) b sz s1) (\<lambda>(cnt, s). ret (word_of_int cnt, io_up s))))"
    if "uok s1" "e \<in> set (fileList s1 (cur s1))" "\<forall>s2. ukeeps s1 s2 \<longrightarrow> ukeeps s (io_up s2)" for e s1
    by (rule step_lift okr_file_queries okx_if okx_keep [OF okx_user_file_write] step_return ukeeps_refl that(1,2) | simp add: that)+
  have e: "e \<in> set (fileList s1 (cur s1))" if "elem = Some e" "s1 = s\<lparr>IOLock := k\<rparr>" for e s1 k
    using that assms(2) by (auto simp: getFileWithFd_def find_Some_iff)
  show ?thesis unfolding write_fd_def
  proof (rule okx_locked [OF assms(1)], intro okx_if)
    fix s1 assume s1: "uok s1" "s1 = s\<lparr>IOLock := IOLock s - 1\<rparr>" "0 < IOLock s"
    note u = ukeeps_unlock [OF s1(2,3)]
    show "okx uok (\<lambda>(c, s'). ukeeps s s') (bindx (putbuf b (unat sz) s1) (\<lambda>s. ret (sz, io_up s)))"
      by (rule step_keep [OF okx_putbuf [OF s1(1)] s1(1) ukeeps_refl [OF s1(1)]]) (simp add: u)
    show "okx uok (\<lambda>(c, s'). ukeeps s s') (doBadExit s1)" using s1(1) by simp
    assume "n \<noteq> 1"
    then obtain e where "elem = Some e" using assms(3) by auto
    then show "okx uok (\<lambda>(c, s'). ukeeps s s') (case elem of None \<Rightarrow> Some (Inl (Undefined ''elem''))
       | Some e \<Rightarrow> bindx (liftx (Some (get_file (mFile e) (fsys (uvm s1))))) (\<lambda>file.
           if deny_write file then doBadExit s1
           else bindx (user_file_write (mFile e) b sz s1) (\<lambda>(cnt, s). ret (word_of_int cnt, io_up s))))"
      using entry [OF s1(1) e [OF _ s1(2)]] u by simp
  qed
qed

lemma okx_sys_write: "uok s \<Longrightarrow> okx uok (\<lambda>(r, s'). ukeeps s s') (sys_write f s)"
proof -
  assume s: "uok s"
  have go: "okx uok (\<lambda>(r, s'). ukeeps s s') (let c = getFileWithFd (sint n) s1 in if c = None \<and> n \<noteq> 1 then doBadExit s1
      else bindx (write_fd (sint n) b sz c s1) (\<lambda>(cnt, s). ret (Return (f\<lparr>eax := cnt\<rparr>), s)))" if "uok s1" "ukeeps s s1" for s1 b sz and n :: "32 word"
    unfolding Let_def by (rule okx_if, simp add: that, rule okx_keep [OF okx_write_fd [OF that(1)] that]) auto
  show ?thesis unfolding sys_write_def by (assumption | rule call_steps ukeeps_refl s go)+
qed

section \<open>Mappings\<close>

text \<open>The loop of \<open>SYS_MMAP\<close> reads a file that it has opened itself, \<open>p\<close>.\<close>

definition vopen :: "ptr \<Rightarrow> vm \<Rightarrow> bool" where
  "vopen p v \<longleftrightarrow> quiet (fsys v) \<and> p \<in> dom (files (fsys v))"

lemma vopen_grows: "vopen p v \<Longrightarrow> vgrows v v' \<Longrightarrow> vopen p v'"
  by (auto simp: vopen_def vgrows_def)

lemma vgrows_refl: "vopen p v \<Longrightarrow> vgrows v v"
  by (simp add: vopen_def vgrows_def)

lemma vopen_step: "vgrows v v1 \<Longrightarrow> vopen p v1 \<Longrightarrow> vkeeps v1 v2 \<Longrightarrow> vgrows v v2 \<and> vopen p v2"
  using vkeeps_grows [of v1 v2] vgrows_trans [of v v1 v2] vopen_grows [of p v1 v2] by (simp add: vopen_def)

lemma oko_vopen:
  assumes "oko m (\<lambda>(x, v'). vkeeps v v')" "vopen p v"
  shows "oko m (\<lambda>(x, v'). vgrows v v' \<and> vopen p v')"
  by (rule oko_mono [OF assms(1)]) (use vopen_step [OF vgrows_refl [OF assms(2)] assms(2)] in auto)

lemma oko_vchain:
  assumes "oko m (\<lambda>(x, v'). vgrows v1 v' \<and> vopen p v')" "vgrows v v1" "\<And>x v'. vopen p v' \<Longrightarrow> vgrows v v' \<Longrightarrow> oko (g x v') Q"
  shows "oko (bindo m (\<lambda>(x, v). g x v)) Q"
  by (rule oko_bind [OF assms(1)]) (use assms(2,3) vgrows_trans in auto)

lemma oko_mmap_frame: "oko (mmap_frame v) (\<lambda>(k, v'). vkeeps v v')"
  unfolding mmap_frame_def
  by (rule oko_chain(2) [OF oko_Some [OF okr_vm_get_page] vkeeps_refl], rule oko_if, simp, rule oko_chain(2) [OF oko_evict_frame],
      assumption, rule oko_end(2) [OF okr_vm_get_page])

lemma okr_fill_page:
  assumes "vopen p v"
  shows "okr (fill_page p k n v) (\<lambda>(ok, v'). vgrows v v' \<and> vopen p v')"
proof -
  obtain x where x: "files (fsys v) p = Some x" and r: "refs_ok (\<lambda>_. 0) (fsys v)" using assms by (auto simp: vopen_def quiet_def)
  have e: "0 \<le> (\<lambda>_. 0 :: int) (finode x)" by simp
  have w: "vgrows v v1 \<and> vopen p v1" if "refs_ok (\<lambda>_. 0) f" "free_map_file f = free_map_file (fsys v)" "dom (files f) = dom (files (fsys v))"
    "v1 = set_vmem m (v\<lparr>fsys := f\<rparr>)" for f m v1
    using that assms by (simp add: vgrows_def vopen_def quiet_def set_vmem_def)
  have free: "okr (bindr (vm_free_page k v1) (\<lambda>v. Inr (False, v))) (\<lambda>(ok, v'). vgrows v v' \<and> vopen p v')" if "vgrows v v1 \<and> vopen p v1" for v1
    by (rule okr_bind [OF okr_vm_free_page]) (use vopen_step [OF conjunct1 [OF that] conjunct2 [OF that]] in simp)
  have mem: "okr (memset m a b c) (\<lambda>_. True)" for m a b c by (auto simp: memset_def require_def okr_def ref_errors_def Let_def)
  show ?thesis unfolding fill_page_def
  proof (rule okr_bind [OF okr_file_read [OF r x e]], clarify)
    fix bs f assume f: "refs_ok (\<lambda>_. 0) f" "free_map_file f = free_map_file (fsys v)" "dom (files f) = dom (files (fsys v))"
    note w1 = w [OF f refl]
    have "okr (bindr (memset m a b c) (\<lambda>(_, m). Inr (True, set_vmem m (set_vmem m' (v\<lparr>fsys := f\<rparr>))))) (\<lambda>(ok, v'). vgrows v v' \<and> vopen p v')" for m a b c m'
      by (rule okr_bind [OF mem]) (use w [OF f] in \<open>auto simp: set_vmem_def\<close>)
    then show "okr (let v = set_vmem (write_mem (vmem v) k bs) (v\<lparr>fsys := f\<rparr>) in
        if int (length bs) \<noteq> uint n then bindr (vm_free_page k v) (\<lambda>v. Inr (False, v))
        else bindr (memset (vmem v) (k + n) 0 (unat (4096 - n))) (\<lambda>(_, m). Inr (True, set_vmem m v))) (\<lambda>(ok, v'). vgrows v v' \<and> vopen p v')"
      unfolding Let_def by (intro okr_if free w1)
  qed
qed

lemma oko_map_page:
  assumes "vopen p v"
  shows "oko (map_page p u n v) (\<lambda>(k, ok, v'). vgrows v v' \<and> vopen p v')"
  unfolding map_page_def
proof (rule oko_vchain [OF oko_vopen [OF oko_mmap_frame assms] vgrows_refl [OF assms]], rule oko_if)
  fix k v1 assume v1: "vopen p v1" "vgrows v v1"
  then show "oko (Some (Inr (0, False, v1))) (\<lambda>(k, ok, v'). vgrows v v' \<and> vopen p v')" by simp
  show "oko (bindo (Some (fill_page p k n v1)) (\<lambda>(ok, v). if \<not> ok then Some (Inr (0, False, v))
       else bindo (Some (install_page u k True v)) (\<lambda>(ok, v). if ok then Some (Inr (k, True, v))
         else bindo (Some (vm_free_page k v)) (\<lambda>v. Some (Inr (0, False, v)))))) (\<lambda>(k, ok, v'). vgrows v v' \<and> vopen p v')"
  proof (rule oko_vchain [OF oko_Some [OF okr_fill_page [OF v1(1)]] v1(2)], rule oko_if)
    fix ok v2 assume v2: "vopen p v2" "vgrows v v2"
    then show "oko (Some (Inr (0, False, v2))) (\<lambda>(k, ok, v'). vgrows v v' \<and> vopen p v')" by simp
    show "oko (bindo (Some (install_page u k True v2)) (\<lambda>(ok, v). if ok then Some (Inr (k, True, v))
         else bindo (Some (vm_free_page k v)) (\<lambda>v. Some (Inr (0, False, v))))) (\<lambda>(k, ok, v'). vgrows v v' \<and> vopen p v')"
    proof (rule oko_vchain [OF oko_vopen [OF oko_Some [OF okr_install_page] v2(1)] v2(2)], rule oko_if)
      fix ok v3 assume v3: "vopen p v3" "vgrows v v3"
      then show "oko (Some (Inr (k, True, v3))) (\<lambda>(k, ok, v'). vgrows v v' \<and> vopen p v')" by simp
      show "oko (bindo (Some (vm_free_page k v3)) (\<lambda>v. Some (Inr (0, False, v)))) (\<lambda>(k, ok, v'). vgrows v v' \<and> vopen p v')"
        by (rule oko_bind [OF oko_Some [OF okr_vm_free_page]]) (use vopen_step [OF v3(2,1)] in simp)
    qed
  qed
qed

lemma okr_mmap_entries: "okr (mmap_entries u k j v) (vkeeps v)"
  unfolding mmap_entries_def by (rule okr_chain [OF okr_table_insert(1) vkeeps_refl], rule okr_end [OF okr_table_insert(2)])

lemma oko_mmap_loop:
  assumes "vopen p v"
  shows "oko (mmap_loop p u rb zb j v) (\<lambda>(ok, v'). vgrows v v')"
proof -
  let ?P = "\<lambda>p v r. vopen p v \<longrightarrow> okr r (\<lambda>(ok, v'). vgrows v v')"
  have "?P p v r" if "mmap_loop p u rb zb j v = Some r" for r
    using that
  proof (rule mmap_loop.raw_induct [rotated])
    fix f p u rb zb j v r
    assume IH: "\<And>p u rb zb j v r. f p u rb zb j v = Some r \<Longrightarrow> ?P p v r"
      and eq: "(if rb > 0 \<or> zb > 0 then
        let page_read_bytes = (if rb < 4096 then rb else 4096); page_zero_bytes = 4096 - page_read_bytes in
        bindo (map_page p u page_read_bytes v) (\<lambda>(kpage, ok, v). if \<not> ok then Some (Inr (False, v))
        else bindo (Some (mmap_entries u kpage j v)) (\<lambda>v. f p (u + 4096) (rb - page_read_bytes) (zb - page_zero_bytes) j v))
      else Some (Inr (True, v))) = Some r"
    have IH': "oko (f p u rb zb j v) (\<lambda>(ok, v'). vgrows v v')" if "vopen p v" for p u rb zb j v
      using IH [of p u rb zb j v] that by (cases "f p u rb zb j v") auto
    show "?P p v r"
    proof
      assume v: "vopen p v"
      have more: "oko (bindo (Some (mmap_entries u k j v1)) (\<lambda>v. f p u' rb' zb' j v)) (\<lambda>(ok, v'). vgrows v v')"
        if "vgrows v v1 \<and> vopen p v1" for k v1 u' rb' zb'
      proof (rule oko_bind [OF oko_Some [OF okr_mmap_entries]])
        fix v2 assume "vkeeps v1 v2"
        then have v2: "vgrows v v2" "vopen p v2" using that vopen_step by blast+
        show "oko (f p u' rb' zb' j v2) (\<lambda>(ok, v'). vgrows v v')"
          by (rule oko_mono [OF IH' [OF v2(2)]]) (use vgrows_trans [OF v2(1)] in blast)
      qed
      have "oko (bindo (map_page p u n v) (\<lambda>(kpage, ok, v). if \<not> ok then Some (Inr (False, v))
        else bindo (Some (mmap_entries u kpage j v)) (\<lambda>v. f p u' rb' zb' j v))) (\<lambda>(ok, v'). vgrows v v')" for n u' rb' zb'
        by (rule oko_bind [OF oko_map_page [OF v]]) (use more in auto)
      then have "oko (Some r) (\<lambda>(ok, v'). vgrows v v')" unfolding eq [symmetric] Let_def using vgrows_refl [OF v] by simp
      then show "okr r (\<lambda>(ok, v'). vgrows v v')" by simp
    qed
  qed
  then show ?thesis using assms by (cases "mmap_loop p u rb zb j v") auto
qed

lemma okr_file_length:
  assumes "vopen p v"
  shows "okr (file_length p (fsys v)) (\<lambda>_. True)"
proof -
  obtain x where x: "files (fsys v) p = Some x" and r: "refs_ok (\<lambda>_. 0) (fsys v)" using assms by (auto simp: vopen_def quiet_def)
  obtain i where "inodes (fsys v) (finode x) = Some i" using refs_ok_file [OF r x] by auto
  then show ?thesis using x by (simp add: file_length_def get_file_def get_inode_def require_def ref_errors_def)
qed

lemma okx_sys_mmap:
  assumes "uok s"
  shows "okx uok (\<lambda>(r, s'). ukeeps s s') (sys_mmap f s)"
proof -
  have mapped: "okx uok (\<lambda>(r, s'). ukeeps s s') (bindx (onfs (\<lambda>x. Some (file_reopen (mFile e) x)) s1) (\<lambda>(fresh_file, s).
     if fresh_file = 0 then doBadExit (io_up s)
     else bindx (liftx (Some (file_length fresh_file (fsys (uvm s))))) (\<lambda>len.
       let read_bytes = word_of_int len; zero_bytes = 4096 - read_bytes mod 4096 in
       bindx (onvm (\<lambda>v. liftx (mmap_loop fresh_file u read_bytes zero_bytes (heap_junk s) v)) s) (\<lambda>(ok, s).
       if \<not> ok then doBadExit (io_up s) else ret (Return f, io_up s)))))"
    if s1: "uok s1" "ukeeps s0 s1" and e: "e \<in> set (fileList s1 (cur s1))" and unl: "\<forall>s2. ukeeps s0 s2 \<longrightarrow> ukeeps s (io_up s2)" for e s0 s1 u
  proof (rule okx_bind, rule okx_onfs, rule oko_Some [OF okr_file_ops(4) [OF s1(1) e]], clarify, rule okx_if)
    fix p F assume F: "quiet F" "free_map_file F = free_map_file (fsys (uvm s1))" "opened (fsys (uvm s1)) p F"
    let ?s = "s1\<lparr>uvm := uvm s1\<lparr>fsys := F\<rparr>\<rparr>"
    have k: "ukeeps s1 ?s" using F by (auto simp: ukeeps_def vgrows_def opened_def split: if_splits)
    have s: "uok ?s" "ukeeps s0 ?s" using ukeeps_ok [OF s1(1) k] ukeeps_trans [OF s1(2) k] by blast+
    then show "okx uok (\<lambda>(r, s'). ukeeps s s') (doBadExit (io_up ?s))" by simp
    assume "p \<noteq> 0"
    then have v: "vopen p (uvm ?s)" using F by (simp add: vopen_def opened_def)
    have loop: "okx (vgrows (uvm ?s)) (\<lambda>(x, v'). vgrows (uvm ?s) v') (liftx (mmap_loop p u rb zb j (uvm ?s)))" for rb zb j
      by (rule okx_lift) (rule oko_mmap_loop [OF v])
    show "okx uok (\<lambda>(r, s'). ukeeps s s') (bindx (liftx (Some (file_length p (fsys (uvm ?s))))) (\<lambda>len.
       let read_bytes = word_of_int len; zero_bytes = 4096 - read_bytes mod 4096 in
       bindx (onvm (\<lambda>v. liftx (mmap_loop p u read_bytes zero_bytes (heap_junk ?s) v)) ?s) (\<lambda>(ok, s).
       if \<not> ok then doBadExit (io_up s) else ret (Return f, io_up s))))"
      unfolding Let_def
      by (rule step_lift [OF okr_file_length [OF v]], rule step_vm, rule s, rule loop, rule s, rule s) (use unl in auto)
  qed
  let ?s = "s\<lparr>saved_esp := (saved_esp s)(cur s := esp f)\<rparr>"
  have s: "uok ?s" "\<forall>s2. ukeeps ?s s2 \<longrightarrow> ukeeps s s2" using assms by (simp_all add: ukeeps_def)
  show ?thesis unfolding sys_mmap_def Let_def
    by (rule step_lock [OF s(1)]) (rule call_steps mapped [unfolded Let_def] | assumption | use s(2) in blast)+
qed

section \<open>The calls that change the tables\<close>

text \<open>The table of the running process as a map from descriptors to files.\<close>

definition fds :: "usys \<Rightarrow> int \<rightharpoonup> ptr" where
  "fds s n = map_option mFile (getFileWithFd n s)"

text \<open>The number of the system call that a frame asks for, and its first argument.\<close>

definition call_number :: "intr_frame \<Rightarrow> usys \<Rightarrow> nat option" where
  "call_number f s = (case kload32 (esp f) s of Some (Inr (Ret (w, _))) \<Rightarrow> Some (nat (sint w)) | _ \<Rightarrow> None)"

definition call_argument :: "intr_frame \<Rightarrow> usys \<Rightarrow> int option" where
  "call_argument f s = (case bindx (kload32 (esp f) s) (\<lambda>(_, s). kload32 (esp f + 4) s) of Some (Inr (Ret (w, _))) \<Rightarrow> Some (sint w) | _ \<Rightarrow> None)"

text \<open>What a system call with the number \<open>code\<close> and the first argument \<open>a\<close> does to the table and to its result: \<open>SYS_OPEN\<close> (6) adds a
  new descriptor, \<open>SYS_CLOSE\<close> (12) removes its argument, and the others change nothing.\<close>

definition fd_effect :: "nat \<Rightarrow> int option \<Rightarrow> usys \<Rightarrow> intr_frame \<Rightarrow> usys \<Rightarrow> bool" where
  "fd_effect code a s f s' \<longleftrightarrow>
     (if code = 6 then
        eax f = - 1 \<and> fds s' = fds s
           \<or> (let n = fdCounter s (cur s) in eax f = word_of_int n \<and> fds s n = None \<and> fdCounter s' (cur s) = n + 1
              \<and> (\<exists>p. p \<notin> dom (files (fsys (uvm s))) \<and> fds s' = (fds s)(n \<mapsto> p)))
      else if code = 12 then (\<exists>n p. a = Some n \<and> fds s n = Some p \<and> fds s' = (fds s)(n := None) \<and> p \<notin> dom (files (fsys (uvm s'))))
      else fds s' = fds s)"

text \<open>What the handler hands over. When it returns, the calls are those with the numbers from 4. \<open>SYS_HALT\<close> does not return, and \<open>SYS_EXEC\<close> and
  \<open>SYS_WAIT\<close> have called \<open>process_execute\<close> and \<open>process_wait\<close> with their argument and not changed a table up to there.\<close>

definition call_effect :: "nat \<Rightarrow> int option \<Rightarrow> usys \<Rightarrow> sys_result \<Rightarrow> usys \<Rightarrow> bool" where
  "call_effect code a s r s' \<longleftrightarrow>
     (case r of Return f \<Rightarrow> code \<in> {4..14} \<and> fd_effect code a s f s'
      | Halt \<Rightarrow> code = 0 \<and> fds s' = fds s
      | Execute b \<Rightarrow> code = 2 \<and> a = Some (sint b) \<and> fds s' = fds s
      | Wait n \<Rightarrow> code = 3 \<and> a = Some n \<and> fds s' = fds s)"

definition call_ok :: "usys \<Rightarrow> usys \<Rightarrow> bool" where
  "call_ok s s' \<longleftrightarrow> uok s' \<and> cur s' = cur s \<and> IOLock s' = IOLock s
     \<and> (\<forall>t. t \<noteq> cur s \<longrightarrow> fileList s' t = fileList s t \<and> fdCounter s' t = fdCounter s t)"

lemma ukeeps_call:
  assumes "uok s" "ukeeps s s'"
  shows "call_ok s s'" "fds s' = fds s"
  using assms ukeeps_ok [OF assms] by (auto simp: call_ok_def ukeeps_def vgrows_def fds_def getFileWithFd_def)

lemma fds_fields [simp]: "fds (s\<lparr>IOLock := k\<rparr>) = fds s" "fds (io_up s) = fds s" "fds (s\<lparr>saved_esp := g\<rparr>) = fds s"
  by (simp_all add: fds_def getFileWithFd_def io_up_def fun_eq_iff)

text \<open>The value of a load from user memory depends on the memory only.\<close>

lemma bindx_retD: "bindx m g = ret y \<Longrightarrow> \<exists>x. m = ret x \<and> g x = ret y"
  by (auto simp: bindx_def bindo_def ret_def split: option.splits sum.splits run.splits bind_splits)

lemma doBadExit_not_ret [simp]: "doBadExit s \<noteq> ret r"
  by (simp add: doBadExit_def ret_def)

lemma ret_inject: "ret x = ret y \<longleftrightarrow> x = y"
  by (simp add: ret_def)

lemma onvm_iff: "onvm g s = ret (x, s1) \<longleftrightarrow> (\<exists>v. g (uvm s) = ret (x, v) \<and> s1 = s\<lparr>uvm := v\<rparr>)"
  by (auto simp: onvm_def ret_def bindo_def doBadExit_def split: option.splits sum.splits run.splits bind_splits)

lemma kloads_same: "kloads a n s = ret (bs, s1) \<Longrightarrow> uvm t = uvm s \<Longrightarrow> kloads a n t = ret (bs, t\<lparr>uvm := uvm s1\<rparr>)"
proof (induction n arbitrary: a s s1 bs t)
  case 0
  then show ?case by (auto simp: ret_def intro: usys.equality)
next
  case (Suc n)
  obtain b v cs where v: "kload a (uvm s) = ret (b, v)" "kloads (a + 1) n (s\<lparr>uvm := v\<rparr>) = ret (cs, s1)" "bs = b # cs"
    using Suc.prems(1) by (auto simp: onvm_iff dest!: bindx_retD) (auto simp: ret_def)
  have "onvm (kload a) t = ret (b, t\<lparr>uvm := v\<rparr>)" using v(1) Suc.prems(2) by (auto simp: onvm_iff)
  moreover have "kloads (a + 1) n (t\<lparr>uvm := v\<rparr>) = ret (cs, t\<lparr>uvm := v\<rparr>\<lparr>uvm := uvm s1\<rparr>)" by (rule Suc.IH [OF v(2)]) simp
  ultimately show ?case using v(3) by simp
qed

lemma kload32_same:
  assumes "kload32 a s = ret (w, s1)" "uvm t = uvm s"
  shows "kload32 a t = ret (w, t\<lparr>uvm := uvm s1\<rparr>)"
proof -
  obtain bs where bs: "kloads a 4 s = ret (bs, s1)" "w = word_at bs 0"
    using assms(1) by (auto simp: kload32_def dest!: bindx_retD) (auto simp: ret_def)
  then show ?thesis using kloads_same [OF bs(1) assms(2)] by (simp add: kload32_def)
qed

text \<open>The first argument as a call finds it after the number of the call has been read.\<close>

lemma call_argument_load:
  assumes "kload32 (esp f) s = ret (c, s1)" "uvm t = uvm s1" "kload32 (esp f + 4) t = ret (w, t1)"
  shows "call_argument f s = Some (sint w)"
  using kload32_same [OF assms(3), of s1] assms(1,2) by (simp add: call_argument_def) (simp add: ret_def)

lemma okx_ret: "okx E Q m \<Longrightarrow> okx E (\<lambda>x. Q x \<and> m = ret x) m"
  by (cases m) (auto simp: okx_def ret_def okr_def split: sum.splits run.splits)

lemma step_load_value:
  assumes "uok s1" "ukeeps s s1" "\<And>w s'. uok s' \<Longrightarrow> ukeeps s s' \<Longrightarrow> kload32 a s1 = ret (w, s') \<Longrightarrow> okx uok Q (f w s')"
  shows "okx uok Q (bindx (kload32 a s1) (\<lambda>(w, s). f w s))"
  by (rule okx_bind [OF okx_ret [OF okx_kload32 [OF assms(1)]]])
    (use assms(3) ukeeps_ok [OF assms(1)] ukeeps_trans [OF assms(2)] in auto)

lemma find_append_one: "find P (xs @ [x]) = (case find P xs of None \<Rightarrow> (if P x then Some x else None) | Some y \<Rightarrow> Some y)"
  by (induction xs) auto

lemma find_remove1:
  assumes "distinct (map fd es)" "e \<in> set es"
  shows "find (\<lambda>x. fd x = n) (remove1 e es) = (if fd e = n then None else find (\<lambda>x. fd x = n) es)"
  using assms by (induction es) (auto simp: find_None_iff image_iff)

lemma uok_insert:
  assumes "uok s" "p \<in> dom (files (fsys (uvm s)))" "p \<noteq> free_map_file (fsys (uvm s))" "\<forall>(t, e) \<in> owned_files s. mFile e \<noteq> p"
  defines "n \<equiv> fdCounter s (cur s)"
  defines "s' \<equiv> s\<lparr>fileList := (fileList s)(cur s := fileList s (cur s) @ [\<lparr>mFile = p, fd = n\<rparr>]), fdCounter := (fdCounter s)(cur s := n + 1)\<rparr>"
  shows "uok s'" "fds s n = None" "fds s' = (fds s)(n \<mapsto> p)"
proof -
  have d: "descriptors_ok s" "files_ok s" "quiet (fsys (uvm s))" using assms(1) by (auto simp: uok_def)
  have o: "owned_files s' = insert (cur s, \<lparr>mFile = p, fd = n\<rparr>) (owned_files s)" by (auto simp: owned_files_def s'_def split: if_splits)
  have c: "5 \<le> n" "distinct (map fd (fileList s (cur s)))" "\<And>e. e \<in> set (fileList s (cur s)) \<Longrightarrow> 5 \<le> fd e \<and> fd e < n"
    using d(1) by (auto simp: descriptors_ok_def n_def)
  then have new: "n \<notin> fd ` set (fileList s (cur s))" "\<And>e. e \<in> set (fileList s (cur s)) \<Longrightarrow> fd e < n + 1" by fastforce+
  then have "descriptors_ok s'" using d(1) c by (auto simp: descriptors_ok_def s'_def)
  moreover have "files_ok s'" using d(2) assms(2-4) unfolding files_ok_def o by (fastforce simp: s'_def inj_on_def)
  ultimately show "uok s'" using d(3) by (simp add: uok_def s'_def)
  have none: "find (\<lambda>e. fd e = n) (fileList s (cur s)) = None" using new(1) by (auto simp: find_None_iff)
  then show "fds s n = None" by (simp add: fds_def getFileWithFd_def)
  show "fds s' = (fds s)(n \<mapsto> p)"
    using none by (auto simp: fun_eq_iff fds_def getFileWithFd_def s'_def find_append_one split: option.split)
qed

lemma uok_delete:
  assumes "uok s" "e \<in> set (fileList s (cur s))" "quiet F" "free_map_file F = free_map_file (fsys (uvm s))"
    "dom (files F) = dom (files (fsys (uvm s))) - {mFile e}"
  defines "s' \<equiv> s\<lparr>uvm := (uvm s)\<lparr>fsys := F\<rparr>, fileList := (fileList s)(cur s := remove1 e (fileList s (cur s)))\<rparr>"
  shows "uok s'" "fds s (fd e) = Some (mFile e)" "fds s' = (fds s)(fd e := None)"
proof -
  have d: "descriptors_ok s" "files_ok s" using assms(1) by (auto simp: uok_def)
  have dist: "distinct (map fd (fileList s t))" "distinct (fileList s t)" for t using d(1) by (auto simp: descriptors_ok_def distinct_map)
  have o: "owned_files s' = owned_files s - {(cur s, e)}" using dist(2) by (auto simp: owned_files_def s'_def split: if_splits)
  have "descriptors_ok s'" using d(1) dist by (auto simp: descriptors_ok_def s'_def distinct_map intro: inj_on_diff)
  moreover have "files_ok s'"
  proof -
    have inj: "inj_on (\<lambda>(t, e). mFile e) (owned_files s)" and mem: "(cur s, e) \<in> owned_files s"
      using d(2) assms(2) by (auto simp: files_ok_def owned_files_def)
    have "mFile x \<noteq> mFile e" if "(t, x) \<in> owned_files s" "(t, x) \<noteq> (cur s, e)" for t x
      using inj_onD [OF inj, of "(t, x)" "(cur s, e)"] that mem by auto
    then show ?thesis using d(2) assms(4,5) inj unfolding files_ok_def o by (auto simp: s'_def intro: inj_on_subset)
  qed
  ultimately show "uok s'" using assms(3) by (simp add: uok_def s'_def)
  show "fds s (fd e) = Some (mFile e)"
  proof -
    obtain x where x: "find (\<lambda>x. fd x = fd e) (fileList s (cur s)) = Some x" using assms(2)
      by (cases "find (\<lambda>x. fd x = fd e) (fileList s (cur s))") (auto simp: find_None_iff)
    then have "x \<in> set (fileList s (cur s))" "fd x = fd e" by (auto simp: find_Some_iff)
    moreover have "inj_on fd (set (fileList s (cur s)))" using dist(1) by (simp add: distinct_map)
    ultimately have "x = e" using assms(2) by (blast dest: inj_onD)
    then show ?thesis using x by (simp add: fds_def getFileWithFd_def)
  qed
  show "fds s' = (fds s)(fd e := None)"
    using find_remove1 [OF dist(1) assms(2)] by (auto simp: fun_eq_iff fds_def getFileWithFd_def s'_def)
qed

lemma okx_sys_exec:
  assumes "uok s" "\<And>w t t1. uvm t = uvm s \<Longrightarrow> kload32 (arg1 f) t = ret (w, t1) \<Longrightarrow> a = Some (sint w)"
  shows "okx uok (\<lambda>(r, s'). call_ok s s' \<and> call_effect 2 a s r s') (sys_exec f s)"
  unfolding sys_exec_def
  by (rule step_load_value [OF assms(1) ukeeps_refl [OF assms(1)]], rule step_address)
    (use ukeeps_call [OF assms(1)] assms(2) in \<open>auto simp: call_effect_def\<close>)

lemma okx_sys_wait:
  assumes "uok s" "\<And>w t t1. uvm t = uvm s \<Longrightarrow> kload32 (arg1 f) t = ret (w, t1) \<Longrightarrow> a = Some (sint w)"
  shows "okx uok (\<lambda>(r, s'). call_ok s s' \<and> call_effect 3 a s r s') (sys_wait f s)"
  unfolding sys_wait_def
  by (rule step_load_value [OF assms(1) ukeeps_refl [OF assms(1)]])
    (use ukeeps_call [OF assms(1)] assms(2) in \<open>auto simp: call_effect_def\<close>)

lemma okx_sys_close:
  assumes "uok s" "\<And>w t t1. uvm t = uvm s \<Longrightarrow> kload32 (arg1 f) t = ret (w, t1) \<Longrightarrow> a = Some (sint w)"
  shows "okx uok (\<lambda>(r, s'). call_ok s s' \<and> call_effect 12 a s r s') (sys_close f s)"
  unfolding sys_close_def
proof (rule okx_locked [OF assms(1)], rule step_load_value, assumption, rule ukeeps_refl, assumption, rule step_file, assumption)
  fix s1 s2 e and n :: addr
  assume s1: "s1 = s\<lparr>IOLock := IOLock s - 1\<rparr>" "0 < IOLock s" and s2: "uok s2" "ukeeps s1 s2" and e: "e \<in> set (fileList s2 (cur s2))" "fd e = sint n"
    and n: "kload32 (arg1 f) s1 = ret (n, s2)"
  have a: "a = Some (fd e)" using assms(2) [OF _ n] s1(1) e(2) by simp
  obtain x where x: "files (fsys (uvm s2)) (mFile e) = Some x" "mFile e \<noteq> free_map_file (fsys (uvm s2))" "refs_ok (\<lambda>_. 0) (fsys (uvm s2))"
    by (rule owned_file [OF s2(1) e(1)])
  have c: "oko (Some (bindr (file_close (mFile e) (fsys (uvm s2))) (\<lambda>x. Inr ((), x)))) (\<lambda>(u, F). quiet F
      \<and> free_map_file F = free_map_file (fsys (uvm s2)) \<and> dom (files F) = dom (files (fsys (uvm s2))) - {mFile e})"
    by (rule oko_Some, rule okr_bind [OF okr_file_close [OF x(3,1) _ x(2)]]) (simp_all add: quiet_def)
  show "okx uok (\<lambda>(r, s'). call_ok s s' \<and> call_effect 12 a s r s')
      (bindx (onfs (\<lambda>x. Some (bindr (file_close (mFile e) x) (\<lambda>x. Inr ((), x)))) s2) (\<lambda>(_, s).
     ret (Return f, io_up (s\<lparr>fileList := (fileList s)(cur s := remove1 e (fileList s (cur s)))\<rparr>))))"
  proof (rule okx_bind, rule okx_onfs, rule c, clarify)
    fix F assume F: "quiet F" "free_map_file F = free_map_file (fsys (uvm s2))" "dom (files F) = dom (files (fsys (uvm s2))) - {mFile e}"
    note d = uok_delete [OF s2(1) e(1) F]
    let ?s = "s2\<lparr>uvm := uvm s2\<lparr>fsys := F\<rparr>, fileList := (fileList s2)(cur s2 := remove1 e (fileList s2 (cur s2)))\<rparr>"
    have same: "fds s2 = fds s" "cur s2 = cur s" "IOLock s2 + 1 = IOLock s" "fileList s2 = fileList s" "fdCounter s2 = fdCounter s"
      using s2(2) s1 by (auto simp: ukeeps_def vgrows_def fds_def getFileWithFd_def)
    then have "call_ok s (io_up ?s)" using d(1) by (auto simp: call_ok_def io_up_def)
    moreover have "mFile e \<notin> dom (files (fsys (uvm (io_up ?s))))" using F(3) by (simp add: io_up_def)
    then have "call_effect 12 a s (Return f) (io_up ?s)"
      unfolding call_effect_def fd_effect_def using d(2,3) same(1) a by simp
    ultimately show "okx uok (\<lambda>(r, s'). call_ok s s' \<and> call_effect 12 a s r s') (ret (Return f,
        io_up (s2\<lparr>uvm := uvm s2\<lparr>fsys := F\<rparr>\<rparr>\<lparr>fileList := (fileList (s2\<lparr>uvm := uvm s2\<lparr>fsys := F\<rparr>\<rparr>))(cur (s2\<lparr>uvm := uvm s2\<lparr>fsys := F\<rparr>\<rparr>) :=
          remove1 e (fileList (s2\<lparr>uvm := uvm s2\<lparr>fsys := F\<rparr>\<rparr>) (cur (s2\<lparr>uvm := uvm s2\<lparr>fsys := F\<rparr>\<rparr>))))\<rparr>)))"
      by simp
  qed
qed

lemma okr_close_all:
  assumes "refs_ok (\<lambda>_. 0) F" "distinct (map mFile es)" "\<forall>e \<in> set es. mFile e \<in> dom (files F) \<and> mFile e \<noteq> free_map_file F"
  shows "okr (close_all es F) (\<lambda>F'. refs_ok (\<lambda>_. 0) F' \<and> free_map_file F' = free_map_file F \<and> dom (files F') = dom (files F) - mFile ` set es)"
  using assms
proof (induction es arbitrary: F)
  case (Cons e es)
  then obtain x where x: "files F (mFile e) = Some x" "mFile e \<noteq> free_map_file F" by auto
  show ?case unfolding close_all.simps
  proof (rule okr_bind [OF okr_file_close [OF Cons.prems(1) x(1) _ x(2)]], simp, elim conjE)
    fix F1 assume F1: "refs_ok (\<lambda>_. 0) F1" "free_map_file F1 = free_map_file F" "dom (files F1) = dom (files F) - {mFile e}"
    have "\<forall>e \<in> set es. mFile e \<in> dom (files F1) \<and> mFile e \<noteq> free_map_file F1"
      unfolding F1(2,3) using Cons.prems(2,3) by (fastforce simp: image_iff)
    then show "okr (close_all es F1) (\<lambda>F'. refs_ok (\<lambda>_. 0) F' \<and> free_map_file F' = free_map_file F \<and> dom (files F') = dom (files F) - mFile ` set (e # es))"
      using F1 Cons.prems(2) by (intro okr_mono [OF Cons.IH]) auto
  qed
qed simp

lemma okx_sys_exit:
  assumes "uok s"
  shows "okx uok (\<lambda>_. False) (sys_exit f s)"
  unfolding sys_exit_def
proof (rule step_load [OF assms assms ukeeps_refl [OF assms]])
  fix status s1 assume s1: "uok s1" "ukeeps s s1"
  let ?F = "fsys (uvm s1)" and ?es = "fileList s1 (cur s1)"
  have d: "descriptors_ok s1" "files_ok s1" "refs_ok (\<lambda>_. 0) ?F" using s1(1) by (auto simp: uok_def quiet_def)
  have inj: "inj_on (\<lambda>(t, e). mFile e) (owned_files s1)" using d(2) by (simp add: files_ok_def)
  have es: "\<forall>e \<in> set ?es. mFile e \<in> dom (files ?F) \<and> mFile e \<noteq> free_map_file ?F" using d(2) by (auto simp: files_ok_def owned_files_def)
  have "inj_on mFile (set ?es)"
  proof (rule inj_onI)
    fix x y assume "x \<in> set ?es" "y \<in> set ?es" "mFile x = mFile y"
    then show "x = y" using inj_onD [OF inj, of "(cur s1, x)" "(cur s1, y)"] by (simp add: owned_files_def)
  qed
  then have dist: "distinct (map mFile ?es)" using d(1) by (auto simp: descriptors_ok_def distinct_map)
  let ?P = "\<lambda>F. refs_ok (\<lambda>_. 0) F \<and> free_map_file F = free_map_file ?F \<and> dom (files F) = dom (files ?F) - mFile ` set ?es"
  have c: "oko (Some (bindr (close_all ?es ?F) (\<lambda>x. Inr ((), x)))) (\<lambda>(u, F). ?P F)"
    by (rule oko_Some, rule okr_bind [OF okr_close_all [OF d(3) dist es]]) simp
  show "okx uok (\<lambda>_. False) (bindx (onfs (\<lambda>x. Some (bindr (close_all ?es x) (\<lambda>x. Inr ((), x)))) s1) (\<lambda>(_, s).
     Some (Inr (Exit (s\<lparr>fileList := (fileList s)(cur s := []), console := console s @ [Exit_message (cur s) (sint status)],
       exitStatus := (exitStatus s)(cur s := sint status)\<rparr>)))))"
  proof (rule okx_bind, rule okx_onfs, rule c, clarify)
    fix F assume F: "refs_ok (\<lambda>_. 0) F" "free_map_file F = free_map_file ?F" "dom (files F) = dom (files ?F) - mFile ` set ?es"
    let ?s = "s1\<lparr>uvm := uvm s1\<lparr>fsys := F\<rparr>, fileList := (fileList s1)(cur s1 := [])\<rparr>"
    have o: "owned_files ?s = {(t, e) \<in> owned_files s1. t \<noteq> cur s1}" by (auto simp: owned_files_def split: if_splits)
    have "mFile e \<notin> mFile ` set ?es" if "(t, e) \<in> owned_files s1" "t \<noteq> cur s1" for t e
    proof
      assume "mFile e \<in> mFile ` set ?es"
      then obtain e' where "e' \<in> set ?es" "mFile e = mFile e'" by blast
      then show False using inj_onD [OF inj, of "(t, e)" "(cur s1, e')"] that by (simp add: owned_files_def)
    qed
    then have "files_ok ?s" using d(2) F inj unfolding files_ok_def o by (auto intro: inj_on_subset)
    moreover have "descriptors_ok ?s" using d(1) by (simp add: descriptors_ok_def)
    ultimately have "uok ?s" using F(1) by (simp add: uok_def quiet_def)
    then show "okx uok (\<lambda>_. False) (Some (Inr (Exit (s1\<lparr>uvm := uvm s1\<lparr>fsys := F\<rparr>\<rparr>\<lparr>fileList := (fileList (s1\<lparr>uvm := uvm s1\<lparr>fsys := F\<rparr>\<rparr>))(cur (s1\<lparr>uvm := uvm s1\<lparr>fsys := F\<rparr>\<rparr>) := []),
        console := console (s1\<lparr>uvm := uvm s1\<lparr>fsys := F\<rparr>\<rparr>) @ [Exit_message (cur (s1\<lparr>uvm := uvm s1\<lparr>fsys := F\<rparr>\<rparr>)) (sint status)],
        exitStatus := (exitStatus (s1\<lparr>uvm := uvm s1\<lparr>fsys := F\<rparr>\<rparr>))(cur (s1\<lparr>uvm := uvm s1\<lparr>fsys := F\<rparr>\<rparr>) := sint status)\<rparr>))))"
      by (simp add: uok_def descriptors_ok_def files_ok_def owned_files_def)
  qed
qed

lemma okx_sys_open:
  assumes "uok s"
  shows "okx uok (\<lambda>(r, s'). call_ok s s' \<and> call_effect 6 a s r s') (sys_open f s)"
  unfolding sys_open_def
proof (rule okx_locked [OF assms], rule step_load, assumption, assumption, rule ukeeps_refl, assumption, rule step_name, assumption, assumption, assumption)
  fix s1 s2 name
  assume s1: "s1 = s\<lparr>IOLock := IOLock s - 1\<rparr>" "0 < IOLock s" and s2: "uok s2" "ukeeps s1 s2"
  have q: "quiet (fsys (uvm s2))" using s2(1) by (simp add: uok_def)
  show "okx uok (\<lambda>(r, s'). call_ok s s' \<and> call_effect 6 a s r s') (bindx (onfs (filesys_open name) s2) (\<lambda>(newfile, s).
     if newfile = 0 then ret (Return (f\<lparr>eax := - 1\<rparr>), io_up s)
     else bindx (add_file_entry newfile s) (\<lambda>s.
       bindx (next_fd (io_up s)) (\<lambda>(n, s). ret (Return (f\<lparr>eax := word_of_int n\<rparr>), s)))))"
  proof (rule okx_bind, rule okx_onfs, rule oko_filesys_open [OF q], clarify, rule okx_if)
    fix p F assume F: "quiet F" "free_map_file F = free_map_file (fsys (uvm s2))" "opened (fsys (uvm s2)) p F"
    define s3 where "s3 = s2\<lparr>uvm := uvm s2\<lparr>fsys := F\<rparr>\<rparr>"
    have k: "ukeeps s1 s3" using F s2(2) by (auto simp: ukeeps_def vgrows_def opened_def s3_def split: if_splits)
    have s3: "uok s3" using ukeeps_ok [of s1 s3] k assms s1(1) by simp
    note u = ukeeps_unlock [OF s1 k]
    show "okx uok (\<lambda>(r, s'). call_ok s s' \<and> call_effect 6 a s r s') (ret (Return (f\<lparr>eax := - 1\<rparr>), io_up (s2\<lparr>uvm := uvm s2\<lparr>fsys := F\<rparr>\<rparr>)))"
      using ukeeps_call [OF assms u] by (simp add: call_effect_def fd_effect_def s3_def)
    assume p: "p \<noteq> 0"
    obtain np F' where m: "malloc F = (np, F')" by (metis prod.exhaust)
    define s4 where "s4 = s3\<lparr>uvm := uvm s3\<lparr>fsys := F'\<rparr>\<rparr>"
    have r: "same_refs F F'" by (rule same_refs_malloc [OF m])
    have k4: "ukeeps s3 s4" using r F(1) refs_ok_same [OF _ r] by (auto simp: s4_def s3_def ukeeps_def vgrows_def quiet_def same_refs_def)
    have s4: "uok s4" by (rule ukeeps_ok [OF s3 k4])
    have fs4: "fsys (uvm s4) = F'" "fileList s4 = fileList s2" "cur s4 = cur s2" by (simp_all add: s4_def s3_def)
    have pd: "p \<in> dom (files F')" "p \<notin> dom (files (fsys (uvm s2)))" using F(3) p r by (auto simp: opened_def same_refs_def)
    have fm: "free_map_file F' = free_map_file (fsys (uvm s2))" using r F(2) by (simp add: same_refs_def)
    have "free_map_file (fsys (uvm s2)) \<in> dom (files (fsys (uvm s2)))"
      using q by (auto simp: quiet_def refs_ok_def fm_ready_def)
    then have nf: "p \<noteq> free_map_file (fsys (uvm s4))" using pd(2) fm fs4(1) by metis
    have "mFile e \<in> dom (files (fsys (uvm s2)))" if "(t, e) \<in> owned_files s4" for t e
      using that s2(1) fs4(2) by (auto simp: uok_def files_ok_def owned_files_def)
    then have new: "\<forall>(t, e) \<in> owned_files s4. mFile e \<noteq> p" using pd(2) by blast
    note ins = uok_insert [OF s4 _ nf new, unfolded fs4(1), OF pd(1)]
    have same: "fds s4 = fds s" "cur s4 = cur s" "IOLock s4 + 1 = IOLock s" "fileList s4 = fileList s" "fdCounter s4 = fdCounter s"
      "dom (files (fsys (uvm s))) \<subseteq> dom (files (fsys (uvm s2)))"
      using s2(2) s1 by (auto simp: s4_def s3_def ukeeps_def vgrows_def fds_def getFileWithFd_def)
    have "okx uok (\<lambda>(r, s'). call_ok s s' \<and> call_effect 6 a s r s') (bindx (add_file_entry p s3) (\<lambda>s.
       bindx (next_fd (io_up s)) (\<lambda>(n, s). ret (Return (f\<lparr>eax := word_of_int n\<rparr>), s))))"
    proof (cases "np = 0 \<or> \<not> fdCounter s4 (cur s4) + 1 < 2 ^ 31")
      case True
      then show ?thesis using m by (auto simp: add_file_entry_def onfs_def s3_def s4_def next_fd_def ref_errors_def io_up_def Let_def)
    next
      case False
      let ?n = "fdCounter s4 (cur s4)"
      let ?s = "s4\<lparr>fileList := (fileList s4)(cur s4 := fileList s4 (cur s4) @ [\<lparr>mFile = p, fd = ?n\<rparr>]), fdCounter := (fdCounter s4)(cur s4 := ?n + 1)\<rparr>"
      have swap: "x\<lparr>IOLock := k, fdCounter := c\<rparr> = x\<lparr>fdCounter := c, IOLock := k\<rparr>" for x :: usys and k c by (rule usys.equality) simp_all
      have "bindx (add_file_entry p s3) (\<lambda>s. bindx (next_fd (io_up s)) (\<lambda>(n, s). ret (Return (f\<lparr>eax := word_of_int n\<rparr>), s)))
          = ret (Return (f\<lparr>eax := word_of_int ?n\<rparr>), io_up ?s)"
        using False m by (simp add: add_file_entry_def onfs_def s3_def s4_def next_fd_def io_up_def Let_def swap)
      moreover have "call_ok s (io_up ?s)" using ins(1) same by (auto simp: call_ok_def io_up_def)
      moreover have "call_effect 6 a s (Return (f\<lparr>eax := word_of_int ?n\<rparr>)) (io_up ?s)"
        unfolding call_effect_def fd_effect_def Let_def using ins(2,3) same pd(2) by (auto simp: io_up_def intro!: exI [of _ p])
      ultimately show ?thesis by simp
    qed
    then show "okx uok (\<lambda>(r, s'). call_ok s s' \<and> call_effect 6 a s r s') (bindx (add_file_entry p (s2\<lparr>uvm := uvm s2\<lparr>fsys := F\<rparr>\<rparr>)) (\<lambda>s.
       bindx (next_fd (io_up s)) (\<lambda>(n, s). ret (Return (f\<lparr>eax := word_of_int n\<rparr>), s))))" by (simp add: s3_def)
  qed
qed

section \<open>The handler\<close>

lemma okx_check_args: "uok s \<Longrightarrow> okx uok (\<lambda>_. True) (check_args n a s)"
  by (induction n arbitrary: a) (auto intro: okx_bind [OF okx_address])

lemma calls_return:
  assumes "dispatch code f s = ret (r, s')" "code \<in> {4..14}"
  shows "\<exists>g. r = Return g"
proof -
  have "code = 4 \<or> code = 5 \<or> code = 6 \<or> code = 7 \<or> code = 8 \<or> code = 9 \<or> code = 10 \<or> code = 11 \<or> code = 12 \<or> code = 13 \<or> code = 14"
    using assms(2) by (simp only: atLeastAtMost_iff) presburger
  then show ?thesis using assms(1)
    by (elim disjE) (auto simp: dispatch_def sys_create_def sys_remove_def sys_open_def sys_filesize_def sys_read_def sys_write_def
      sys_seek_def sys_tell_def sys_close_def sys_mmap_def sys_munmap_def Let_def ret_inject dest!: bindx_retD split: if_splits)
qed

lemma okx_dispatch:
  assumes "uok s" "code \<le> 14" "\<And>w t t1. uvm t = uvm s \<Longrightarrow> kload32 (arg1 f) t = ret (w, t1) \<Longrightarrow> a = Some (sint w)"
  shows "okx uok (\<lambda>(r, s'). call_ok s s' \<and> call_effect code a s r s') (dispatch code f s)"
proof -
  have keep: "okx uok (\<lambda>(r, s'). call_ok s s' \<and> call_effect code a s r s') (dispatch code f s)"
    if h: "okx uok (\<lambda>(r, s'). ukeeps s s') (dispatch code f s)" "code \<in> {4..14} - {6, 12}"
  proof (rule okx_mono [OF okx_ret [OF h(1)]], clarify)
    fix r s' assume r: "ukeeps s s'" "dispatch code f s = ret (r, s')"
    obtain g where "r = Return g" using calls_return [OF r(2)] h(2) by auto
    then show "call_ok s s' \<and> call_effect code a s r s'" using ukeeps_call [OF assms(1) r(1)] h(2) by (simp add: call_effect_def fd_effect_def)
  qed
  have exit: "okx uok (\<lambda>(r, s'). call_ok s s' \<and> call_effect code a s r s') (sys_exit f s)"
    by (rule okx_mono [OF okx_sys_exit [OF assms(1)]]) simp
  have halt: "okx uok (\<lambda>(r, s'). call_ok s s' \<and> call_effect 0 a s r s') (ret (Halt, s))"
    using ukeeps_call [OF assms(1) ukeeps_refl [OF assms(1)]] by (simp add: call_effect_def)
  note calls = okx_sys_create [OF assms(1), of f] okx_sys_remove [OF assms(1), of f] okx_sys_filesize [OF assms(1), of f]
    okx_sys_read [OF assms(1), of f] okx_sys_write [OF assms(1), of f] okx_sys_seek [OF assms(1), of f] okx_sys_tell [OF assms(1), of f]
    okx_sys_mmap [OF assms(1), of f] okx_sys_munmap [OF assms(1), of f]
  consider "code = 0" | "code = 1" | "code = 2" | "code = 3" | "code = 6" | "code = 12" | "code \<in> {4, 5, 7, 8, 9, 10, 11, 13, 14}"
    using assms(2) by (auto simp: le_Suc_eq eval_nat_numeral)
  then show ?thesis
  proof cases
    case 7
    then have "okx uok (\<lambda>(r, s'). ukeeps s s') (dispatch code f s)"
      by (elim insertE emptyE) (simp_all add: dispatch_def calls)
    then show ?thesis using 7 by (intro keep) auto
  qed (use exit halt okx_sys_exec [OF assms(1,3)] okx_sys_wait [OF assms(1,3)] okx_sys_open [OF assms(1)] okx_sys_close [OF assms(1,3)]
      in \<open>simp_all add: dispatch_def\<close>)
qed

lemma okx_handler:
  assumes "uok s"
  shows "okx uok (\<lambda>(r, s'). call_ok s s' \<and> (\<exists>code. call_number f s = Some code \<and> call_effect code (call_argument f s) s r s')) (syscall_handler f s)"
    (is "okx uok ?Q _")
proof -
  have go: "okx uok ?Q
      (if sint w < 0 \<or> 14 < sint w then doBadExit s1
       else bindx (check_args (argCounts ! nat (sint w)) (arg1 f) s1) (\<lambda>_.
         dispatch (nat (sint w)) f (s1\<lparr>saved_esp := (saved_esp s1)(cur s1 := esp f)\<rparr>)))"
    if h: "uok s1" "ukeeps s s1" "kload32 (esp f) s = ret (w, s1)" for s1 and w :: "32 word"
  proof (rule okx_if)
    show "okx uok Q (doBadExit s1)" for Q :: "sys_result \<times> usys \<Rightarrow> bool" using h(1) by simp
    assume w: "\<not> (sint w < 0 \<or> 14 < sint w)"
    let ?s = "s1\<lparr>saved_esp := (saved_esp s1)(cur s1 := esp f)\<rparr>"
    have s: "uok ?s" "nat (sint w) \<le> 14" using h(1) w by auto
    have num: "call_number f s = Some (nat (sint w))" using h(3) by (simp add: call_number_def ret_def)
    have same: "fds ?s = fds s" "cur ?s = cur s" "fdCounter ?s = fdCounter s" "fileList ?s = fileList s" "IOLock ?s = IOLock s"
      "dom (files (fsys (uvm s))) \<subseteq> dom (files (fsys (uvm ?s)))"
      using h(2) ukeeps_call [OF assms h(2)] by (simp_all add: ukeeps_def vgrows_def)
    have fd: "fd_effect code a s g s'" if "fd_effect code a ?s g s'" for code a g s'
      using that same unfolding fd_effect_def Let_def by (simp split: if_splits) blast+
    have eff: "call_effect code a s r s'" if "call_effect code a ?s r s'" for code a r s'
      using that fd same(1) unfolding call_effect_def by (auto split: sys_result.splits)
    have arg: "call_argument f s = Some (sint x)" if "uvm t = uvm ?s" "kload32 (arg1 f) t = ret (x, t1)" for x t t1
      by (rule call_argument_load [OF h(3)]) (use that in simp_all)
    show "okx uok ?Q (bindx (check_args (argCounts ! nat (sint w)) (arg1 f) s1) (\<lambda>_. dispatch (nat (sint w)) f ?s))"
      by (rule okx_bind [OF okx_check_args [OF h(1)]], rule okx_mono [OF okx_dispatch [OF s arg]])
        (use num eff same in \<open>auto simp: call_ok_def\<close>)
  qed
  have "okx uok ?Q (bindx (kload32 (esp f) s) (\<lambda>(w, s1). if sint w < 0 \<or> 14 < sint w then doBadExit s1
       else bindx (check_args (argCounts ! nat (sint w)) (arg1 f) s1) (\<lambda>_.
         dispatch (nat (sint w)) f (s1\<lparr>saved_esp := (saved_esp s1)(cur s1 := esp f)\<rparr>))))"
    by (rule step_load_value [OF assms ukeeps_refl [OF assms]]) (rule go)
  then show ?thesis unfolding syscall_handler_def by (intro step_address [OF assms]) simp
qed

end
