(* ===== verification/User_Memory.thy ===== *)
theory User_Memory
  imports Process
begin

text \<open>
  Pages of user memory: what the kernel reads and writes at the addresses of a page that the page directory of the running thread
  maps for writing. A write changes the frame and nothing else, and the page stays mapped.
\<close>

section \<open>A page that is mapped\<close>

text \<open>The page at \<open>U\<close> is in user space and mapped for writing to the frame \<open>kp\<close>, which is no part of the page directory.\<close>

definition page_at :: "addr \<Rightarrow> addr \<Rightarrow> vm \<Rightarrow> bool" where
  "page_at U kp s \<longleftrightarrow> pg_ofs U = 0 \<and> is_user_vaddr U \<and> U \<noteq> 0
     \<and> pd_ok (mm s) (pagedir s (curthread s)) \<and> pg_ofs kp = 0 \<and> kp \<noteq> 0 \<and> page_num kp \<notin> pd_pages (mm s) (pagedir s (curthread s))
     \<and> (\<exists>e. pte_of (mm s) (pagedir s (curthread s)) U = Some e \<and> e AND PTE_P \<noteq> 0 \<and> e AND PTE_W \<noteq> 0 \<and> pte_get_page e = Inr kp)"

lemma page_vaddr:
  assumes "page_at U kp s" "i < 4096"
  shows "is_user_vaddr (U + of_nat i)" "pg_ofs (U + of_nat i) = of_nat i" "same_slot U (U + of_nat i)" "U + of_nat i \<noteq> 0"
    "unat (U + of_nat i) = unat U + i"
proof -
  have U: "pg_ofs U = 0" "is_user_vaddr U" "U \<noteq> 0" using assms(1) by (simp_all add: page_at_def)
  obtain q where q: "unat U = 4096 * q" using U(1) pg_ofs_unat [of U] by (metis mod_0_imp_dvd dvdE unat_0)
  have "4096 * q < 4096 * 0xc0000" using U(2) q by (simp add: is_user_vaddr_def PHYS_BASE_def word_less_nat_alt)
  then have lt: "unat U + i < 4096 * 0xc0000" using assms(2) q by (simp only: mult_less_cancel1) simp
  then show u: "unat (U + of_nat i) = unat U + i" by (intro unat_plus_small) simp
  then show "is_user_vaddr (U + of_nat i)" using lt by (simp add: is_user_vaddr_def PHYS_BASE_def word_less_nat_alt)
  have "unat U \<noteq> 0" using U(3) by (simp add: unat_eq_zero)
  then show "U + of_nat i \<noteq> 0" using u by (metis unat_0 add_is_0)
  have m: "(unat U + i) mod 4096 = i" "(unat U + i) div 4096 = q" using assms(2) q by simp_all
  then have "unat (pg_ofs (U + of_nat i)) = i" by (simp add: pg_ofs_unat u)
  moreover have "unat (of_nat i :: addr) = i" using assms(2) by (simp add: unsigned_of_nat take_bit_eq_mod)
  ultimately show "pg_ofs (U + of_nat i) = of_nat i" by (simp add: word_unat_eq_iff)
  show "same_slot U (U + of_nat i)" using m(2) by (simp add: same_page word_unat_eq_iff pg_no_unat u q)
qed

lemma pte_of_same: "same_slot va vb \<Longrightarrow> pte_of s pd va = pte_of s pd vb"
  by (simp add: pte_of_def slot_def same_slot_def)

lemma page_translate:
  assumes "page_at U kp s" "i < 4096"
  shows "translate w (U + of_nat i) s = Inr (Inl (kp + of_nat i))" "access w (U + of_nat i) s = ret (kp + of_nat i, s)"
proof -
  let ?va = "U + of_nat i" and ?pd = "pagedir s (curthread s)"
  note v = page_vaddr [OF assms]
  obtain e where e: "pte_of (mm s) ?pd ?va = Some e" "e AND PTE_P \<noteq> 0" "e AND PTE_W \<noteq> 0" "pte_get_page e = Inr kp"
    using assms(1) pte_of_same [OF v(3)] by (auto simp: page_at_def)
  have ok: "pd_ok (mm s) ?pd" using assms(1) by (simp add: page_at_def)
  obtain a where a: "slot (mm s) ?pd ?va = Some a" "load32 (vmem s) a = e" using e(1) by (auto simp: pte_of_def)
  note l = lookup_page_find [OF ok v(1) a(1)]
  have "\<not> is_kernel_vaddr ?va" using v(1) by (simp add: is_user_vaddr_def is_kernel_vaddr_def)
  then show t: "translate w ?va s = Inr (Inl (kp + of_nat i))" using l e(2-4) a(2) v(2) by (simp add: translate_def Let_def)
  then show "access w ?va s = ret (kp + of_nat i, s)" by (simp add: access_def)
qed

lemma kernel_access: "is_kernel_vaddr va \<Longrightarrow> access w va s = ret (va, s)"
  by (simp add: access_def translate_def)

lemma set_vmem_fields [simp]: "pal (mm (set_vmem m s)) = (pal (mm s))\<lparr>pmem := m\<rparr>" "pagedir (set_vmem m s) = pagedir s"
  by (simp_all add: set_vmem_def)

lemma page_at_write:
  assumes "page_at U kp s" "\<And>a. page_num a \<in> pd_pages (mm s) (pagedir s (curthread s)) \<Longrightarrow> m a = vmem s a"
  shows "page_at U kp (set_vmem m s)"
proof -
  let ?pd = "pagedir s (curthread s)"
  have ok: "pd_ok (mm s) ?pd" using assms(1) by (simp add: page_at_def)
  have "palloc_ok (pal (mm (set_vmem m s)))" "allocated (pal (mm (set_vmem m s))) = allocated (pal (mm s))"
    using ok by (auto simp: pd_ok_def)
  note f = pd_frame [OF ok, of "mm (set_vmem m s)", simplified set_vmem_simps, OF assms(2) this(1)]
  then show ?thesis using assms(1) by (simp add: page_at_def)
qed

lemma page_frame:
  assumes "page_at U kp s" "i < 4096"
  shows "page_num (kp + of_nat i) = page_num kp" "unat (kp + of_nat i) = unat kp + i"
proof -
  have kp: "pg_ofs kp = 0" using assms(1) by (simp add: page_at_def)
  have "unat (kp + of_nat i - kp) < 4096" using assms(2) by (simp add: unsigned_of_nat take_bit_eq_mod)
  then show "page_num (kp + of_nat i) = page_num kp" using page_offset [OF kp] by blast
  obtain q where "unat kp = 4096 * q" using kp pg_ofs_unat [of kp] by (metis mod_0_imp_dvd dvdE unat_0)
  then show "unat (kp + of_nat i) = unat kp + i" using unat_size [of kp] assms(2) by (intro unat_plus_small) simp
qed

lemma write_mem_Nil [simp]: "write_mem m a [] = m"
  by (simp add: write_mem_def)

lemma write_mem_Cons:
  assumes "length bs < 2 ^ 32"
  shows "write_mem m a (b # bs) = write_mem (m(a := b)) (a + 1) bs"
proof
  fix x
  show "write_mem m a (b # bs) x = write_mem (m(a := b)) (a + 1) bs x"
  proof (cases "x = a")
    case True
    then have "unat (x - (a + 1)) = 2 ^ 32 - 1" by (simp add: unsigned_minus_1_eq_mask mask_eq_exp_minus_1)
    then show ?thesis using True assms by (simp add: write_mem_def)
  next
    case False
    then show ?thesis using unat_minus_one_shift [OF False, symmetric] by (simp add: write_mem_def)
  qed
qed

text \<open>A write of \<open>bs\<close> at offset \<open>i\<close> of a page, as a change of the bytes of the page.\<close>

lemma write_mem_page:
  assumes "i + length bs \<le> 4096" "j < 4096"
  shows "write_mem m (kp + of_nat i) bs (kp + of_nat j) = (if i \<le> j \<and> j < i + length bs then bs ! (j - i) else m (kp + of_nat j))"
proof -
  have u: "unat (of_nat j :: addr) = j" "unat (of_nat i :: addr) = i" using assms by (simp_all add: unsigned_of_nat take_bit_eq_mod)
  have "kp + of_nat j - (kp + of_nat i) = (of_nat j - of_nat i :: addr)" by simp
  moreover have "unat (of_nat j - of_nat i :: addr) = (if i \<le> j then j - i else j + 2 ^ 32 - i)"
    using u by (simp add: unat_sub_if' word_le_nat_alt)
  ultimately show ?thesis using assms by (auto simp: write_mem_def)
qed

lemma write_mem_other_page:
  assumes "page_at U kp s" "i + length bs \<le> 4096" "page_num a \<noteq> page_num kp"
  shows "write_mem m (kp + of_nat i) bs a = m a"
proof (rule ccontr)
  assume "\<not> ?thesis"
  then have lt: "unat (a - (kp + of_nat i)) < length bs" by (auto simp: write_mem_def split: if_splits)
  then have "i + unat (a - (kp + of_nat i)) < 4096" using assms(2) by simp
  moreover have "a = kp + of_nat (i + unat (a - (kp + of_nat i)))" by simp
  ultimately show False using page_frame(1) [OF assms(1)] assms(3) by metis
qed

lemma page_at_write_mem:
  assumes "page_at U kp s" "i + length bs \<le> 4096"
  shows "page_at U kp (set_vmem (write_mem (vmem s) (kp + of_nat i) bs) s)"
proof (rule page_at_write [OF assms(1)])
  fix a assume "page_num a \<in> pd_pages (mm s) (pagedir s (curthread s))"
  then have "page_num a \<noteq> page_num kp" using assms(1) by (auto simp: page_at_def)
  then show "write_mem (vmem s) (kp + of_nat i) bs a = vmem s a" by (rule write_mem_other_page [OF assms])
qed

lemma kstore_page:
  assumes "page_at U kp s" "i < 4096"
  shows "kstore (U + of_nat i) b s = ret (set_vmem (write_mem (vmem s) (kp + of_nat i) [b]) s)"
  using page_translate(2) [OF assms] by (simp add: kstore_def write_mem_Cons)

lemma kstores_page:
  assumes "page_at U kp s" "i + length bs \<le> 4096"
  shows "kstores (U + of_nat i) bs s = ret (set_vmem (write_mem (vmem s) (kp + of_nat i) bs) s)"
  using assms
proof (induction bs arbitrary: i s)
  case Nil
  then show ?case by simp
next
  case (Cons b bs)
  let ?s = "set_vmem (write_mem (vmem s) (kp + of_nat i) [b]) s"
  have "kstores (U + of_nat (i + 1)) bs ?s = ret (set_vmem (write_mem (vmem ?s) (kp + of_nat (i + 1)) bs) ?s)"
    using Cons.prems page_at_write_mem [OF Cons.prems(1), of i "[b]"] by (intro Cons.IH) simp_all
  then show ?case
    using kstore_page [OF Cons.prems(1), of i b] Cons.prems(2) by (simp add: write_mem_Cons ac_simps)
qed

lemma read_mem_Suc: "read_mem m a (Suc n) = m a # read_mem m (a + 1) n"
  by (simp add: read_mem_def upt_conv_Cons map_Suc_upt [symmetric] del: upt_Suc) (simp add: add.assoc)

lemma kcopy_page:
  assumes "page_at U kp s" "i + n \<le> 4096" "\<And>j. j < n \<Longrightarrow> is_kernel_vaddr (src + of_nat j) \<and> page_num (src + of_nat j) \<noteq> page_num kp"
  shows "kcopy (U + of_nat i) src n s = ret (set_vmem (write_mem (vmem s) (kp + of_nat i) (read_mem (vmem s) src n)) s)"
  using assms
proof (induction n arbitrary: i s src)
  case 0
  then show ?case by (simp add: read_mem_def)
next
  case (Suc n)
  let ?s = "set_vmem (write_mem (vmem s) (kp + of_nat i) [vmem s src]) s"
  have src: "is_kernel_vaddr src" using Suc.prems(3) [of 0] by simp
  have nxt: "is_kernel_vaddr (src + 1 + of_nat j) \<and> page_num (src + 1 + of_nat j) \<noteq> page_num kp" if "j < n" for j
    using Suc.prems(3) [of "Suc j"] that by (simp add: add.assoc)
  have "kcopy (U + of_nat (i + 1)) (src + 1) n ?s = ret (set_vmem (write_mem (vmem ?s) (kp + of_nat (i + 1)) (read_mem (vmem ?s) (src + 1) n)) ?s)"
    using Suc.prems(2) page_at_write_mem [OF Suc.prems(1), of i "[vmem s src]"] nxt by (intro Suc.IH) simp_all
  moreover have "read_mem (vmem ?s) (src + 1) n = read_mem (vmem s) (src + 1) n"
    using write_mem_other_page [OF Suc.prems(1), of i "[vmem s src]"] Suc.prems(2) nxt by (auto simp: read_mem_def)
  ultimately show ?case
    using kstore_page [OF Suc.prems(1), of i "vmem s src"] Suc.prems(2) kernel_access [OF src]
    by (simp add: kload_def read_mem_Suc write_mem_Cons ac_simps)
qed

section \<open>User memory\<close>

text \<open>The byte that a process reads at an address.\<close>

definition user_mem :: "vm \<Rightarrow> memory" where
  "user_mem s va = (case pagedir_get_page (pagedir s (curthread s)) va (mm s) of Inl _ \<Rightarrow> 0 | Inr p \<Rightarrow> vmem s p)"

lemma user_mem_page:
  assumes "page_at U kp s" "i < 4096"
  shows "user_mem s (U + of_nat i) = vmem s (kp + of_nat i)"
proof -
  let ?va = "U + of_nat i" and ?pd = "pagedir s (curthread s)"
  note v = page_vaddr [OF assms]
  obtain e where "pte_of (mm s) ?pd ?va = Some e" "e AND PTE_P \<noteq> 0" "pte_get_page e = Inr kp"
    using assms(1) pte_of_same [OF v(3)] by (auto simp: page_at_def)
  moreover have "pd_ok (mm s) ?pd" using assms(1) by (simp add: page_at_def)
  ultimately show ?thesis using v(2) by (simp add: user_mem_def pagedir_get_page_value [OF _ v(1)])
qed

end
