(* ===== verification/Syscall_Calls.thy ===== *)
theory Syscall_Calls
  imports Syscall_Files User_Memory Fs_Properties
begin

text \<open>
  What single system calls do, seen from the process: its arguments on its stack, its buffer in its memory. Reading a file
  copies the bytes of the file to the buffer, writing one copies the bytes of the buffer to the file. The other two results are about calls
  that go wrong: a read with a bad buffer stops all later calls on files, and \<open>SYS_MMAP\<close> never maps anything.
\<close>

section \<open>Arguments on the stack\<close>

text \<open>The words at the stack pointer are \<open>ws\<close>, the number of the call first, all of them in one page that is mapped.\<close>

definition call_args :: "intr_frame \<Rightarrow> usys \<Rightarrow> addr list \<Rightarrow> bool" where
  "call_args f s ws \<longleftrightarrow> (\<exists>U kp i. page_at U kp (uvm s) \<and> esp f = U + of_nat i \<and> i + 4 * length ws \<le> 4096
     \<and> (\<forall>k < length ws. load32 (user_mem (uvm s)) (esp f + of_nat (4 * k)) = ws ! k))"

lemma onvm_ret: "g (uvm s) = ret (x, v) \<Longrightarrow> onvm g s = ret (x, s\<lparr>uvm := v\<rparr>)"
  by (simp add: onvm_def ret_def)

lemma kload_page:
  assumes "page_at U kp (uvm s)" "i < 4096"
  shows "onvm (kload (U + of_nat i)) s = ret (user_mem (uvm s) (U + of_nat i), s)"
  using page_translate(2) [OF assms] user_mem_page [OF assms] by (simp add: onvm_ret kload_def)

lemma kloads_page:
  assumes "page_at U kp (uvm s)" "i + n \<le> 4096"
  shows "kloads (U + of_nat i) n s = ret (map (\<lambda>k. user_mem (uvm s) (U + of_nat (i + k))) [0..<n], s)"
  using assms
proof (induction n arbitrary: i)
  case (Suc n)
  have "kloads (U + of_nat (i + 1)) n s = ret (map (\<lambda>k. user_mem (uvm s) (U + of_nat (i + 1 + k))) [0..<n], s)"
    using Suc.prems by (intro Suc.IH) simp_all
  moreover have "U + of_nat i + 1 = U + of_nat (i + 1)" by simp
  moreover have "map (\<lambda>k. user_mem (uvm s) (U + of_nat (i + k))) [0..<Suc n]
      = user_mem (uvm s) (U + of_nat i) # map (\<lambda>k. user_mem (uvm s) (U + of_nat (i + 1 + k))) [0..<n]"
    by (simp add: upt_conv_Cons map_Suc_upt [symmetric] del: upt_Suc) (simp add: ac_simps)
  ultimately show ?case using kload_page [OF Suc.prems(1), of i] Suc.prems(2) by (simp add: ac_simps del: upt_Suc)
qed simp

lemma kload32_page:
  assumes "page_at U kp (uvm s)" "i + 4 \<le> 4096"
  shows "kload32 (U + of_nat i) s = ret (load32 (user_mem (uvm s)) (U + of_nat i), s)"
proof -
  have "map (\<lambda>k. user_mem (uvm s) (U + of_nat (i + k))) [0..<4]
      = [user_mem (uvm s) (U + of_nat i), user_mem (uvm s) (U + of_nat i + 1), user_mem (uvm s) (U + of_nat i + 2), user_mem (uvm s) (U + of_nat i + 3)]"
    by (simp add: upt_rec add.assoc)
  then show ?thesis using kloads_page [OF assms] by (simp add: kload32_def word_at_def load32_def load_elem_def)
qed

lemma addressCheck_page:
  assumes "page_at U kp (uvm s)" "i < 4096"
  shows "addressCheck (U + of_nat i) s = Inr True"
proof -
  note v = page_vaddr [OF assms]
  obtain e where "pte_of (mm (uvm s)) (pagedir (uvm s) (cur s)) (U + of_nat i) = Some e" "e AND PTE_P \<noteq> 0" "pte_get_page e = Inr kp"
    using assms(1) pte_of_same [OF v(3)] by (auto simp: page_at_def)
  moreover have "pd_ok (mm (uvm s)) (pagedir (uvm s) (cur s))" "kp \<noteq> 0" using assms(1) by (simp_all add: page_at_def)
  moreover have "kp + of_nat i \<noteq> 0"
    using page_frame(2) [OF assms] \<open>kp \<noteq> 0\<close> by (metis unat_0 add_is_0 unat_eq_zero)
  ultimately show ?thesis using v by (simp add: addressCheck_def pagedir_get_page_value [OF _ v(1)])
qed

lemma arg_load:
  assumes "call_args f s ws" "uvm s' = uvm s" "k < length ws"
  shows "kload32 (esp f + of_nat (4 * k)) s' = ret (ws ! k, s')" "addressCheck (esp f + of_nat (4 * k)) s' = Inr True"
proof -
  obtain U kp i where u: "page_at U kp (uvm s')" "esp f = U + of_nat i" "i + 4 * length ws \<le> 4096"
    "load32 (user_mem (uvm s')) (esp f + of_nat (4 * k)) = ws ! k" using assms by (auto simp: call_args_def)
  have e: "esp f + of_nat (4 * k) = U + of_nat (i + 4 * k)" by (simp add: u(2))
  have "i + 4 * k + 4 \<le> 4096" using u(3) assms(3) by linarith
  then show "kload32 (esp f + of_nat (4 * k)) s' = ret (ws ! k, s')" "addressCheck (esp f + of_nat (4 * k)) s' = Inr True"
    using kload32_page [OF u(1), of "i + 4 * k"] addressCheck_page [OF u(1), of "i + 4 * k"] u(4) unfolding e by simp_all
qed

lemma check_args_value:
  assumes "call_args f s ws" "j + n \<le> length ws"
  shows "check_args n (esp f + of_nat (4 * j)) s = ret ()"
  using assms(2)
proof (induction n arbitrary: j)
  case (Suc n)
  have e: "esp f + of_nat (4 * j) + 4 = esp f + of_nat (4 * (j + 1))" by simp
  show ?case unfolding check_args.simps e using Suc.prems arg_load(2) [OF assms(1) refl, of j] Suc.IH [of "j + 1"]
    by (simp add: address_or_exit_def)
qed simp

lemma handler_dispatch:
  assumes "call_args f s (w # ws)" "0 \<le> sint w" "sint w \<le> 14" "argCounts ! nat (sint w) \<le> length ws"
  shows "syscall_handler f s = dispatch (nat (sint w)) f (s\<lparr>saved_esp := (saved_esp s)(cur s := esp f)\<rparr>)"
proof -
  have "kload32 (esp f) s = ret (w, s)" "addressCheck (esp f) s = Inr True" using arg_load [OF assms(1) refl, of 0] by simp_all
  moreover have "check_args (argCounts ! nat (sint w)) (esp f + 4) s = ret ()"
    using check_args_value [OF assms(1), of 1] assms(4) by simp
  ultimately show ?thesis using assms(2,3) by (simp add: syscall_handler_def address_or_exit_def)
qed

lemma arg_words:
  assumes "call_args f s (w # ws)" "uvm s' = uvm s"
  shows "ws \<noteq> [] \<Longrightarrow> kload32 (esp f + 4) s' = ret (ws ! 0, s')" "1 < length ws \<Longrightarrow> kload32 (esp f + 8) s' = ret (ws ! 1, s')"
    "2 < length ws \<Longrightarrow> kload32 (esp f + 12) s' = ret (ws ! 2, s')"
  using arg_load(1) [OF assms, of 1] arg_load(1) [OF assms, of 2] arg_load(1) [OF assms, of 3] by simp_all

section \<open>A read that stops everything\<close>

text \<open>The calls that take \<open>IOLock\<close> first: \<open>SYS_CREATE\<close> to \<open>SYS_READ\<close> (4 to 8) and \<open>SYS_SEEK\<close> to \<open>SYS_MUNMAP\<close> (10 to 14).\<close>

lemma dispatch_blocked:
  assumes "IOLock s = 0" "code \<in> {4..8} \<union> {10..14}"
  shows "dispatch code f s = None"
proof -
  have d: "io_down t = None" if "IOLock t = 0" for t using that by (simp add: io_down_def)
  have "code \<in> {4, 5, 6, 7, 8, 10, 11, 12, 13, 14}" using assms(2) by auto
  then show ?thesis using d assms(1)
    by (auto simp: dispatch_def sys_create_def sys_remove_def sys_open_def sys_filesize_def sys_read_def sys_seek_def sys_tell_def sys_close_def
        sys_mmap_def sys_munmap_def)
qed

lemma handler_blocked:
  assumes "IOLock s = 0" "call_args f s (of_nat code # ws)" "code \<in> {4..8} \<union> {10..14}" "argCounts ! code \<le> length ws"
  shows "syscall_handler f s = None"
proof -
  have "code < 2 ^ 31" using assms(3) by auto
  then have "sint (of_nat code :: addr) = int code" by (simp add: signed_of_nat signed_take_bit_int_eq_self)
  then show ?thesis using handler_dispatch [OF assms(2)] dispatch_blocked [OF _ assms(3)] assms by auto
qed

text \<open>Whatever its arguments are, a call that is made while \<open>IOLock\<close> is zero does not return to the process, and \<open>IOLock\<close> is zero
  when it ends the process. \<open>stays Q m\<close> states this of a part of a call, which satisfies \<open>Q\<close> where it comes to its end.\<close>

definition stays :: "('a \<Rightarrow> bool) \<Rightarrow> 'a sys \<Rightarrow> bool" where
  "stays Q m \<longleftrightarrow> (\<forall>s. m = Some (Inr (Exit s)) \<longrightarrow> IOLock s = 0) \<and> (\<forall>x. m = ret x \<longrightarrow> Q x)"

lemma bindx_exitD: "bindx m g = Some (Inr (Exit s)) \<Longrightarrow> m = Some (Inr (Exit s)) \<or> (\<exists>x. m = ret x \<and> g x = Some (Inr (Exit s)))"
  by (auto simp: bindx_def bindo_def ret_def split: option.splits sum.splits run.splits bind_splits)

lemma stays_bind: "stays P m \<Longrightarrow> (\<And>x. P x \<Longrightarrow> stays Q (f x)) \<Longrightarrow> stays Q (bindx m f)"
  unfolding stays_def by (blast dest: bindx_retD bindx_exitD)

lemma stays_step: "stays (\<lambda>(x, s). IOLock s = 0) m \<Longrightarrow> (\<And>x s. IOLock s = 0 \<Longrightarrow> stays Q (f x s)) \<Longrightarrow> stays Q (bindx m (\<lambda>(x, s). f x s))"
  by (erule stays_bind) auto

lemma stays_simps [simp]:
  "stays Q (ret x) = Q x" "stays Q None" "stays Q (Some (Inl e))" "stays Q (Some (Inr (Exit s))) = (IOLock s = 0)" "stays Q (doBadExit s) = (IOLock s = 0)"
  by (auto simp: stays_def ret_def doBadExit_def)

lemma stays_onvm: "IOLock s = 0 \<Longrightarrow> stays (\<lambda>(x, s). IOLock s = 0) (onvm g s)"
  by (auto simp: stays_def onvm_def ret_def bindo_def doBadExit_def split: option.splits sum.splits run.splits bind_splits)

lemma stays_onfs: "IOLock s = 0 \<Longrightarrow> stays (\<lambda>(x, s). IOLock s = 0) (onfs g s)"
  by (auto simp: stays_def onfs_def ret_def bindo_def split: option.splits sum.splits run.splits bind_splits)

lemma stays_kload32: "IOLock s = 0 \<Longrightarrow> stays (\<lambda>(x, s). IOLock s = 0) (kload32 a s)"
proof -
  have "stays (\<lambda>(x, s). IOLock s = 0) (kloads a n s)" if "IOLock s = 0" for n a s
    using that by (induction n arbitrary: a s) (auto intro!: stays_step stays_onvm)
  then show "IOLock s = 0 \<Longrightarrow> stays (\<lambda>(x, s). IOLock s = 0) (kload32 a s)" unfolding kload32_def by (intro stays_step) auto
qed

lemma stays_lift: "stays (\<lambda>_. True) (liftx m)"
  by (auto simp: stays_def liftx_def ret_def bindo_def split: option.splits sum.splits bind_splits)

lemma stays_address: "IOLock s = 0 \<Longrightarrow> stays (\<lambda>_. True) (address_or_exit id a s)"
  unfolding address_or_exit_def by (rule stays_bind [OF stays_lift]) simp

lemma stays_args: "IOLock s = 0 \<Longrightarrow> stays (\<lambda>_. True) (check_args n a s)"
  by (induction n arbitrary: a) (auto intro: stays_bind [OF stays_address])

lemma stays_dispatch:
  assumes "IOLock s = 0" "code \<le> 14"
  shows "stays (\<lambda>(r, s'). IOLock s' = 0 \<and> (\<forall>h. r \<noteq> Return h)) (dispatch code f s)"
proof -
  have "io_down t = None" if "IOLock t = 0" for t using that by (simp add: io_down_def)
  then have "write_fd n b sz e t = None" if "IOLock t = 0" for n b sz e t using that by (simp add: write_fd_def)
  then have "stays (\<lambda>(r, s'). IOLock s' = 0 \<and> (\<forall>h. r \<noteq> Return h)) (sys_write f s)"
    unfolding sys_write_def Let_def
    by (intro stays_step [OF stays_kload32] stays_bind [OF stays_address] assms) auto
  moreover have "stays (\<lambda>(r, s'). IOLock s' = 0 \<and> (\<forall>h. r \<noteq> Return h)) (sys_exit f s)"
    unfolding sys_exit_def by (intro stays_step [OF stays_kload32] stays_step [OF stays_onfs] assms) auto
  moreover have "stays (\<lambda>(r, s'). IOLock s' = 0 \<and> (\<forall>h. r \<noteq> Return h)) (sys_exec f s)"
    unfolding sys_exec_def by (intro stays_step [OF stays_kload32] stays_bind [OF stays_address] assms) auto
  moreover have "stays (\<lambda>(r, s'). IOLock s' = 0 \<and> (\<forall>h. r \<noteq> Return h)) (sys_wait f s)"
    unfolding sys_wait_def by (intro stays_step [OF stays_kload32] assms) auto
  moreover have "stays (\<lambda>(r, s'). IOLock s' = 0 \<and> (\<forall>h. r \<noteq> Return h)) (dispatch code f s)" if "code \<in> {4..8} \<union> {10..14}"
    using dispatch_blocked [OF assms(1) that] by simp
  moreover have "code = 0 \<or> code = 1 \<or> code = 2 \<or> code = 3 \<or> code = 9 \<or> code \<in> {4..8} \<union> {10..14}"
    using assms(2) by (simp add: disj_commute) presburger
  ultimately show ?thesis using assms(1) by (elim disjE) (simp_all add: dispatch_def)
qed

lemma handler_stays:
  assumes "IOLock s = 0"
  shows "stays (\<lambda>(r, s'). IOLock s' = 0 \<and> (\<forall>h. r \<noteq> Return h)) (syscall_handler f s)"
proof -
  have "stays (\<lambda>(r, s'). IOLock s' = 0 \<and> (\<forall>h. r \<noteq> Return h))
      (if sint w < 0 \<or> sint w > 14 then doBadExit t
       else bindx (check_args (argCounts ! nat (sint w)) (arg1 f) t) (\<lambda>_. dispatch (nat (sint w)) f (t\<lparr>saved_esp := (saved_esp t)(cur t := esp f)\<rparr>)))"
    if "IOLock t = 0" for w :: "32 word" and t
    using that by (auto intro!: stays_bind [OF stays_args] stays_dispatch)
  then show ?thesis unfolding syscall_handler_def by (intro stays_bind [OF stays_address] stays_step [OF stays_kload32] assms)
qed

lemma read_bad_buffer:
  assumes "call_args f s [8, n, buffer, sz]" "IOLock s = 1" "buffer = 0 \<or> is_kernel_vaddr buffer"
  shows "\<exists>s'. syscall_handler f s = Some (Inr (Exit s')) \<and> IOLock s' = 0"
proof -
  have "syscall_handler f s = sys_read f (s\<lparr>saved_esp := (saved_esp s)(cur s := esp f)\<rparr>)"
    using handler_dispatch [OF assms(1)] by (simp add: argCounts_def dispatch_def)
  then show ?thesis
    using arg_words [OF assms(1)] assms(2,3)
    by (auto simp: sys_read_def io_down_def read_buffer_def doBadExit_def is_user_vaddr_def is_kernel_vaddr_def)
qed

section \<open>A mapping that never happens\<close>

lemma install_unaligned: "pg_ofs u \<noteq> 0 \<Longrightarrow> install_page u k w v \<noteq> Inr (True, v')"
  by (auto simp: install_page_def Let_def pagedir_set_page_def)

lemma bindo_SomeD: "bindo m g = Some (Inr y) \<Longrightarrow> \<exists>x. m = Some (Inr x) \<and> g x = Some (Inr y)"
  by (auto simp: bindo_def split: sum.splits bind_splits)

lemma map_page_unaligned:
  assumes "pg_ofs u \<noteq> 0"
  shows "map_page p u n v \<noteq> Some (Inr (k, True, v'))"
  using install_unaligned [OF assms] unfolding map_page_def by (auto dest!: bindo_SomeD split: if_splits prod.splits)

lemma mmap_loop_unaligned:
  assumes "pg_ofs u \<noteq> 0" "0 < zb"
  shows "mmap_loop p u rb zb j v \<noteq> Some (Inr (True, v'))"
  using map_page_unaligned [OF assms(1)] assms(2) by (subst mmap_loop.simps) (auto simp: Let_def dest!: bindo_SomeD split: if_splits)

lemma sys_mmap_unaligned:
  assumes "pg_ofs (arg2 f) \<noteq> 0"
  shows "sys_mmap f s \<noteq> ret r"
proof
  assume "sys_mmap f s = ret r"
  then obtain p rb s1 ok s2 where "onvm (\<lambda>v. liftx (mmap_loop p (arg2 f) rb (4096 - rb mod 4096) (heap_junk s1) v)) s1 = ret (ok, s2)"
    "(if \<not> ok then doBadExit (io_up s2) else ret (Return f, io_up s2)) = ret r"
    unfolding sys_mmap_def Let_def
    by (auto dest!: bindx_retD split: if_splits)
  moreover from this(2) have "ok" by (auto split: if_splits)
  ultimately obtain v' where "mmap_loop p (arg2 f) rb (4096 - rb mod 4096) (heap_junk s1) (uvm s1) = Some (Inr (True, v'))"
    by (auto simp: onvm_def ret_def liftx_def doBadExit_def dest!: bindo_SomeD split: run.splits)
  moreover have "0 < 4096 - rb mod 4096"
    by (simp add: word_less_nat_alt unat_sub unat_mod_distrib word_le_nat_alt)
  ultimately show False using mmap_loop_unaligned [OF assms] by blast
qed

section \<open>Sectors and user memory\<close>

text \<open>With a buffer in one page that is mapped for writing, the loops over the sectors are those of \<open>inode_read_at\<close> and \<open>inode_write_at\<close> on
  the bytes of the buffer.\<close>

lemma page_at_fsys: "page_at U kp (v\<lparr>fsys := F\<rparr>) = page_at U kp v"
  by (simp add: page_at_def)

lemma chunk_bounds:
  assumes "0 \<le> off" "0 < chunk_size i sz off"
  shows "chunk_size i sz off \<le> sz" "0 \<le> off smod 512" "off smod 512 + chunk_size i sz off \<le> 512"
proof -
  have "0 \<le> off smod 512" "off smod 512 < 512" using assms(1) by (simp_all add: sdiv_pos)
  then show "chunk_size i sz off \<le> sz" "0 \<le> off smod 512" "off smod 512 + chunk_size i sz off \<le> 512"
    by (auto simp: chunk_size_def Let_def)
qed

lemma write_mem_append:
  "length xs + length ys \<le> 4096 \<Longrightarrow> write_mem (write_mem m a xs) (a + of_nat (length xs)) ys = write_mem m a (xs @ ys)"
proof (induction xs arbitrary: m a)
  case (Cons x xs)
  have "a + of_nat (length (x # xs)) = a + 1 + of_nat (length xs)" by simp
  moreover have "length xs < 2 ^ 32" "length (xs @ ys) < 2 ^ 32" using Cons.prems by simp_all
  moreover have "length xs + length ys \<le> 4096" using Cons.prems by simp
  note Cons.IH [OF this, of "m(a := x)" "a + 1"]
  ultimately show ?case by (simp only: append_Cons write_mem_Cons)
qed simp

lemma fs_read_disk: "fs_read k F = Inr (bs, F1) \<Longrightarrow> bs = disk F k \<and> disk F1 = disk F"
  by (auto simp: fs_read_def block_read_def check_sector_def Let_def disk_def split: if_splits)

lemma bounce_disk: "(if bounce then (1, F) else malloc F) = (p, F1) \<Longrightarrow> disk F1 = disk F"
  by (auto simp: malloc_def disk_def split: if_splits)

text \<open>The state after \<open>bs\<close> has been stored at offset \<open>j\<close> of the page with the frame \<open>kp\<close>, and the file system is \<open>F\<close>.\<close>

definition stored :: "addr \<Rightarrow> nat \<Rightarrow> bytes \<Rightarrow> fs \<Rightarrow> usys \<Rightarrow> usys" where
  "stored kp j bs F s = s\<lparr>uvm := set_vmem (write_mem (vmem (uvm s)) (kp + of_nat j) bs) ((uvm s)\<lparr>fsys := F\<rparr>)\<rparr>"

lemma stored_stored:
  assumes "j + length xs + length ys \<le> 4096"
  shows "stored kp (j + length xs) ys F (stored kp j xs F1 s) = stored kp j (xs @ ys) F s"
  using write_mem_append [of xs ys "vmem (uvm s)" "kp + of_nat j"] assms
  by (auto simp: stored_def set_vmem_def add.assoc intro!: usys.equality vm.equality)

lemma user_store_page:
  assumes "page_at U kp (uvm s)" "j + length bs \<le> 4096"
  shows "user_store (U + of_nat j) bs s = ret ((), stored kp j bs (fsys (uvm s)) s)" "page_at U kp (uvm (stored kp j bs F s))"
proof -
  have "kstores (U + of_nat j) bs (uvm s) = ret (set_vmem (write_mem (vmem (uvm s)) (kp + of_nat j) bs) (uvm s))" by (rule kstores_page [OF assms])
  moreover have "(uvm s)\<lparr>fsys := fsys (uvm s)\<rparr> = uvm s" by simp
  ultimately show "user_store (U + of_nat j) bs s = ret ((), stored kp j bs (fsys (uvm s)) s)"
    unfolding user_store_def stored_def by (intro onvm_ret) simp
  have "page_at U kp ((uvm s)\<lparr>fsys := F\<rparr>)" using assms(1) by (simp add: page_at_fsys)
  from page_at_write_mem [OF this assms(2)] show "page_at U kp (uvm (stored kp j bs F s))" by (simp add: stored_def)
qed

lemma fs_step_Inr: "g (fsys (uvm s)) = Inr (x, F) \<Longrightarrow> fs_step g s = ret (x, s\<lparr>uvm := (uvm s)\<lparr>fsys := F\<rparr>\<rparr>)"
  by (simp add: fs_step_def onfs_def)

lemma stored_fsys: "stored kp j bs F (s\<lparr>uvm := (uvm s)\<lparr>fsys := G\<rparr>\<rparr>) = stored kp j bs F s"
  by (simp add: stored_def)

lemma fsys_stored [simp]: "fsys (uvm (stored kp j bs F s)) = F"
  by (simp add: stored_def set_vmem_def)

lemma user_read_loop_page:
  assumes "page_at U kp (uvm s)" "j + nat sz \<le> 4096" "0 \<le> off" "\<forall>k. length (disk (fsys (uvm s)) k) = 512"
    "inode_read_loop i bounce sz off (fsys (uvm s)) = Inr (bs, F)"
  shows "user_read_loop i bounce (U + of_nat j) sz off s = ret (int (length bs), stored kp j bs F s) \<and> length bs \<le> nat sz"
  using assms
proof (induction "nat sz" arbitrary: bounce j sz off s bs rule: less_induct)
  case less
  let ?c = "chunk_size i sz off" and ?F = "fsys (uvm s)" and ?k = "byte_to_sector i off"
  have step: "bindx (user_store (U + of_nat j) ps s1) (\<lambda>(_, s).
        bindx (user_read_loop i b' (U + of_nat j + word_of_int ?c) (sz - ?c) (off + ?c) s) (\<lambda>(n, s). ret (?c + n, s)))
      = ret (int (length (ps @ rest)), stored kp j (ps @ rest) F s) \<and> length (ps @ rest) \<le> nat sz"
    if h: "0 < sz" "0 < ?c" "length ps = nat ?c" "s1 = s\<lparr>uvm := (uvm s)\<lparr>fsys := F1\<rparr>\<rparr>" "disk F1 = disk ?F"
      "inode_read_loop i b' (sz - ?c) (off + ?c) F1 = Inr (rest, F)" for ps rest s1 F1 b'
  proof -
    note b = chunk_bounds [OF less.prems(3) h(2)]
    have at: "page_at U kp (uvm s1)" using less.prems(1) by (simp add: h(4) page_at_fsys)
    have len: "j + length ps \<le> 4096" using less.prems(2) b(1) h(1-3) by simp
    note st = user_store_page [OF at len]
    let ?s2 = "stored kp j ps F1 s1"
    have "word_of_int ?c = (of_nat (nat ?c) :: addr)" using h(2) by simp
    then have e: "U + of_nat j + word_of_int ?c = U + of_nat (j + length ps)" unfolding h(3) by (simp only: of_nat_add add.assoc)
    have IH: "user_read_loop i b' (U + of_nat (j + length ps)) (sz - ?c) (off + ?c) ?s2
        = ret (int (length rest), stored kp (j + length ps) rest F ?s2) \<and> length rest \<le> nat (sz - ?c)"
    proof (rule less.hyps)
      show "nat (sz - ?c) < nat sz" "0 \<le> off + ?c" using h(1,2) less.prems(3) by simp_all
      show "page_at U kp (uvm ?s2)" by (rule st(2))
      show "j + length ps + nat (sz - ?c) \<le> 4096" using less.prems(2) b(1) h(1-3) by simp
      show "\<forall>k. length (disk (fsys (uvm ?s2)) k) = 512" "inode_read_loop i b' (sz - ?c) (off + ?c) (fsys (uvm ?s2)) = Inr (rest, F)"
        using less.prems(4) h(5,6) by simp_all
    qed
    have "j + length ps + length rest \<le> 4096" using conjunct2 [OF IH] less.prems(2) b(1) h(1-3) by linarith
    then have "stored kp (j + length ps) rest F ?s2 = stored kp j (ps @ rest) F s" by (simp add: stored_stored h(4) stored_fsys)
    moreover have "fsys (uvm s1) = F1" by (simp add: h(4))
    moreover have "length (ps @ rest) \<le> nat sz" using conjunct2 [OF IH] b(1) h(1-3) by simp
    ultimately show ?thesis using st(1) IH h(2,3) unfolding e by simp
  qed
  show ?case
  proof (cases "0 < sz \<and> 0 < ?c")
    case True
    note b = chunk_bounds [OF less.prems(3) conjunct2 [OF True]]
    show ?thesis
    proof (cases "off smod 512 = 0 \<and> ?c = 512")
      case full: True
      then obtain xs F1 rest where r: "fs_read ?k ?F = Inr (xs, F1)" "inode_read_loop i bounce (sz - ?c) (off + ?c) F1 = Inr (rest, F)" "bs = xs @ rest"
        using less.prems(5) True unfolding inode_read_loop.simps [of i bounce sz off] Let_def
        by (auto simp: bindr_def split: sum.splits prod.splits)
      have "length xs = nat ?c" "disk F1 = disk ?F" using fs_read_disk [OF r(1)] less.prems(4) full by auto
      from step [OF _ _ this(1) refl this(2) r(2)] show ?thesis
        using True full unfolding user_read_loop.simps [of i bounce "U + of_nat j" sz off] Let_def fs_step_Inr [of "fs_read ?k", OF r(1)] r(3) by simp
    next
      case part: False
      obtain p F0 where m: "(if bounce then (1, ?F) else malloc ?F) = (p, F0)" by (metis prod.exhaust)
      have cond: "(0 < sz) = True" "(?c \<le> 0) = False" "(off smod 512 = 0 \<and> ?c = 512) = False" using True part by auto
      let ?s0 = "s\<lparr>uvm := (uvm s)\<lparr>fsys := F0\<rparr>\<rparr>"
      have bb: "bounce_buffer bounce s = ret (p, ?s0)" unfolding bounce_buffer_def using m by (intro fs_step_Inr) simp
      show ?thesis
      proof (cases "p = 0")
        case True': True
        then have "bs = []" "F = F0" using less.prems(5) True part m unfolding inode_read_loop.simps [of i bounce sz off] Let_def by auto
        then show ?thesis using True part True' bb unfolding user_read_loop.simps [of i bounce "U + of_nat j" sz off] Let_def
          by (auto simp: stored_def set_vmem_def ret_def intro!: usys.equality vm.equality)
      next
        case False
        then obtain xs F1 rest where r: "fs_read ?k F0 = Inr (xs, F1)" "inode_read_loop i True (sz - ?c) (off + ?c) F1 = Inr (rest, F)"
          "bs = take (nat ?c) (drop (nat (off smod 512)) xs) @ rest"
          using less.prems(5) True part m unfolding inode_read_loop.simps [of i bounce sz off] Let_def
          by (auto simp: bindr_def split: sum.splits prod.splits)
        have d: "disk F1 = disk ?F" "length xs = 512" using fs_read_disk [OF r(1)] bounce_disk [OF m] less.prems(4) by auto
        have "nat ?c + nat (off smod 512) \<le> 512" using b True by linarith
        then have len: "length (take (nat ?c) (drop (nat (off smod 512)) xs)) = nat ?c" using d(2) by simp
        have rd: "fs_step (fs_read ?k) ?s0 = ret (xs, s\<lparr>uvm := (uvm s)\<lparr>fsys := F1\<rparr>\<rparr>)" using r(1) by (subst fs_step_Inr [of _ _ xs F1]) simp_all
        from step [OF _ _ len refl d(1) r(2)] show ?thesis
          using True False cond unfolding user_read_loop.simps [of i bounce "U + of_nat j" sz off] Let_def r(3)
          by (simp only: cond if_True if_False bb rd bindx_simps case_prod_conv False)
      qed
    qed
  next
    case False
    then have "bs = []" "F = ?F" using less.prems(5) unfolding inode_read_loop.simps [of i bounce sz off] Let_def by (auto split: if_splits)
    moreover have "stored kp j [] ?F s = s" by (simp add: stored_def set_vmem_def)
    ultimately show ?thesis using False unfolding user_read_loop.simps [of i bounce "U + of_nat j" sz off] Let_def by (auto split: if_splits)
  qed
qed

lemma user_mem_fsys: "user_mem (v\<lparr>fsys := F\<rparr>) = user_mem v"
  by (simp add: user_mem_def fun_eq_iff split: sum.split)

lemma fs_step_bind:
  assumes "\<And>x F. f x (s\<lparr>uvm := (uvm s)\<lparr>fsys := F\<rparr>\<rparr>) = fs_step (h x) (s\<lparr>uvm := (uvm s)\<lparr>fsys := F\<rparr>\<rparr>)"
  shows "bindx (fs_step g s) (\<lambda>(x, s). f x s) = fs_step (\<lambda>F. bindr (g F) (\<lambda>(x, F). h x F)) s"
proof (cases "g (fsys (uvm s))")
  case (Inr r)
  obtain x F where r: "r = (x, F)" by (cases r)
  show ?thesis using Inr assms [of x F] by (simp add: fs_step_Inr r) (simp add: fs_step_def onfs_def)
qed (simp add: fs_step_def onfs_def)

lemma fs_put_bind:
  assumes "\<And>F. f (s\<lparr>uvm := (uvm s)\<lparr>fsys := F\<rparr>\<rparr>) = fs_step h (s\<lparr>uvm := (uvm s)\<lparr>fsys := F\<rparr>\<rparr>)"
  shows "bindx (fs_put g s) (\<lambda>(_, s). f s) = fs_step (\<lambda>F. bindr (g F) h) s"
  unfolding fs_put_def by (subst fs_step_bind [where h = "\<lambda>_. h"]) (use assms in \<open>simp_all add: bindr_assoc\<close>)

lemma fs_step_ret: "ret (x, s) = fs_step (\<lambda>F. Inr (x, F)) s"
  by (simp add: fs_step_def onfs_def)

lemma fs_step_if: "(if c then fs_step g s else fs_step h s) = fs_step (\<lambda>F. if c then g F else h F) s"
  by simp

text \<open>The bytes of a buffer in user memory.\<close>

definition user_bytes :: "usys \<Rightarrow> addr \<Rightarrow> nat \<Rightarrow> bytes" where
  "user_bytes s b n = map (\<lambda>k. user_mem (uvm s) (b + of_nat k)) [0..<n]"

lemma length_user_bytes [simp]: "length (user_bytes s b n) = n"
  by (simp add: user_bytes_def)

lemma user_bytes_fsys: "user_bytes (s\<lparr>uvm := (uvm s)\<lparr>fsys := F\<rparr>\<rparr>) = user_bytes s"
  by (simp add: user_bytes_def user_mem_fsys fun_eq_iff)

lemma user_bytes_parts:
  assumes "c \<le> n"
  shows "take c (user_bytes s b n) = user_bytes s b c" "drop c (user_bytes s b n) = user_bytes s (b + of_nat c) (n - c)"
proof -
  show "take c (user_bytes s b n) = user_bytes s b c" using assms by (simp add: user_bytes_def take_map take_upt)
  show "drop c (user_bytes s b n) = user_bytes s (b + of_nat c) (n - c)"
    by (rule nth_equalityI) (use assms in \<open>auto simp: user_bytes_def add.assoc\<close>)
qed

lemma user_bytes_load: "page_at U kp (uvm s) \<Longrightarrow> j + n \<le> 4096 \<Longrightarrow> kloads (U + of_nat j) n s = ret (user_bytes s (U + of_nat j) n, s)"
  by (simp add: kloads_page user_bytes_def add.assoc)

lemma user_write_loop_page:
  assumes "page_at U kp (uvm s)" "j + nat sz \<le> 4096" "0 \<le> off"
  shows "user_write_loop i bounce (U + of_nat j) sz off s
    = fs_step (inode_write_loop i bounce (user_bytes s (U + of_nat j) (nat sz)) off) s"
  using assms
proof (induction "nat sz" arbitrary: bounce j sz off s rule: less_induct)
  case less
  let ?c = "chunk_size i sz off" and ?b = "U + of_nat j" and ?k = "byte_to_sector i off"
  let ?bs = "user_bytes s (U + of_nat j) (nat sz)"
  show ?case
  proof (cases "0 < sz \<and> 0 < ?c")
    case True
    note b = chunk_bounds [OF less.prems(3) conjunct2 [OF True]]
    have len: "int (length ?bs) = sz" using True by (simp add: user_bytes_def)
    have c: "nat ?c \<le> nat sz" "j + nat ?c \<le> 4096" using b(1) True less.prems(2) by linarith+
    have e: "?b + word_of_int ?c = U + of_nat (j + nat ?c)" using True by (simp add: add.assoc)
    let ?h = "\<lambda>b'. \<lambda>F. bindr (inode_write_loop i b' (drop (nat ?c) ?bs) (off + ?c) F) (\<lambda>(n, F). Inr (?c + n, F))"
    have rest: "bindx (user_write_loop i b' (?b + word_of_int ?c) (sz - ?c) (off + ?c) t) (\<lambda>(n, s). ret (?c + n, s)) = fs_step (?h b') t"
      if t: "t = s\<lparr>uvm := (uvm s)\<lparr>fsys := F\<rparr>\<rparr>" for b' t F
    proof -
      have "user_write_loop i b' (U + of_nat (j + nat ?c)) (sz - ?c) (off + ?c) t
          = fs_step (inode_write_loop i b' (user_bytes t (U + of_nat (j + nat ?c)) (nat (sz - ?c))) (off + ?c)) t"
        by (rule less.hyps) (use less.prems True c b(1) in \<open>auto simp: t page_at_fsys nat_diff_distrib\<close>)
      moreover have "user_bytes t (U + of_nat (j + nat ?c)) (nat (sz - ?c)) = drop (nat ?c) ?bs"
        using user_bytes_parts(2) [OF c(1), of s ?b] True nat_diff_distrib [OF _ b(1)] by (simp add: t user_bytes_fsys add.assoc)
      ultimately show ?thesis unfolding e by (simp only:) (rule fs_step_bind, rule fs_step_ret)
    qed
    have put: "bindx (fs_put (fs_write ?k xs) t) (\<lambda>(_, s). bindx (user_write_loop i b' (?b + word_of_int ?c) (sz - ?c) (off + ?c) s)
        (\<lambda>(n, s). ret (?c + n, s))) = fs_step (\<lambda>F. bindr (fs_write ?k xs F) (?h b')) t" if t: "t = s\<lparr>uvm := (uvm s)\<lparr>fsys := F\<rparr>\<rparr>" for xs b' t F
      by (rule fs_put_bind, rule rest) (simp add: t)
    have load: "kloads ?b (nat ?c) t = ret (take (nat ?c) ?bs, t)" if t: "t = s\<lparr>uvm := (uvm s)\<lparr>fsys := F\<rparr>\<rparr>" for t F
      using user_bytes_load [of U kp t j "nat ?c"] less.prems(1) c(2) by (simp add: t page_at_fsys user_bytes_fsys user_bytes_parts(1) [OF c(1)])
    have same: "s = s\<lparr>uvm := (uvm s)\<lparr>fsys := fsys (uvm s)\<rparr>\<rparr>" by simp
    show ?thesis
    proof (cases "off smod 512 = 0 \<and> ?c = 512")
      case full: True
      have "user_write_loop i bounce ?b sz off s = fs_step (\<lambda>F. bindr (fs_write ?k (take 512 ?bs) F) (?h bounce)) s"
        using True full put [OF same, of "take 512 ?bs" bounce] load [OF same] unfolding user_write_loop.simps [of i bounce ?b sz off s] Let_def by simp
      moreover have "(\<lambda>F. bindr (fs_write ?k (take 512 ?bs) F) (?h bounce)) = inode_write_loop i bounce ?bs off"
        using True full len by (auto simp: fun_eq_iff inode_write_loop.simps [of i bounce ?bs off] Let_def)
      ultimately show ?thesis by simp
    next
      case part: False
      have cond: "(0 < sz) = True" "(?c \<le> 0) = False" "(off smod 512 = 0 \<and> ?c = 512) = False" using True part by auto
      let ?ofs = "off smod 512"
      let ?old = "\<lambda>F. if ?ofs > 0 \<or> ?c < 512 - ?ofs then fs_read ?k F else Inr (replicate 512 0, F)"
      let ?w = "\<lambda>old F. bindr (fs_write ?k (take (nat ?ofs) old @ take (nat ?c) ?bs @ drop (nat (?ofs + ?c)) old) F) (?h True)"
      have "bindx (kloads ?b (nat ?c) t) (\<lambda>(bs, s). bindx (fs_put (fs_write ?k (take (nat ?ofs) old @ bs @ drop (nat (?ofs + ?c)) old)) s) (\<lambda>(_, s).
          bindx (user_write_loop i True (?b + word_of_int ?c) (sz - ?c) (off + ?c) s) (\<lambda>(n, s). ret (?c + n, s)))) = fs_step (?w old) t"
        if t: "t = s\<lparr>uvm := (uvm s)\<lparr>fsys := F\<rparr>\<rparr>" for t F old
        using put [OF t] load [OF t] by simp
      then have old: "bindx (fs_step ?old t) (\<lambda>(old, s). bindx (kloads ?b (nat ?c) s) (\<lambda>(bs, s).
          bindx (fs_put (fs_write ?k (take (nat ?ofs) old @ bs @ drop (nat (?ofs + ?c)) old)) s) (\<lambda>(_, s).
          bindx (user_write_loop i True (?b + word_of_int ?c) (sz - ?c) (off + ?c) s) (\<lambda>(n, s). ret (?c + n, s)))))
          = fs_step (\<lambda>F. bindr (?old F) (\<lambda>(old, F). ?w old F)) t" if t: "t = s\<lparr>uvm := (uvm s)\<lparr>fsys := F\<rparr>\<rparr>" for t F
        by (intro fs_step_bind) (simp add: t)
      let ?m = "\<lambda>p F. if p = 0 then Inr (0, F) else bindr (?old F) (\<lambda>(old, F). ?w old F)"
      have "user_write_loop i bounce ?b sz off s = fs_step (\<lambda>F. bindr (Inr (if bounce then (1, F) else malloc F)) (\<lambda>(p, F). ?m p F)) s"
        unfolding user_write_loop.simps [of i bounce ?b sz off s] Let_def bounce_buffer_def cond if_True if_False
        by (rule fs_step_bind) (simp only: old [OF refl] fs_step_ret [of 0] fs_step_if)
      moreover have "(\<lambda>F. bindr (Inr (if bounce then (1, F) else malloc F)) (\<lambda>(p, F). ?m p F)) = inode_write_loop i bounce ?bs off"
        using True part len by (auto simp: fun_eq_iff inode_write_loop.simps [of i bounce ?bs off] Let_def)
      ultimately show ?thesis by simp
    qed
  next
    case False
    have "user_write_loop i bounce ?b sz off s = ret (0, s)"
      using False unfolding user_write_loop.simps [of i bounce ?b sz off s] Let_def by auto
    moreover have "inode_write_loop i bounce ?bs off F = Inr (0, F)" for F
      using False by (subst inode_write_loop.simps) (auto simp: Let_def)
    then have "inode_write_loop i bounce ?bs off = (\<lambda>F. Inr (0, F))" by blast
    ultimately show ?thesis by (simp add: fs_step_ret)
  qed
qed

section \<open>Reading a file\<close>

text \<open>The process has the descriptor \<open>n\<close> for the file \<open>p\<close>, whose structure is \<open>x\<close> and whose inode is \<open>i\<close>; the inode lies on the disk, and the
  next allocation succeeds.\<close>

definition open_for :: "usys \<Rightarrow> int \<Rightarrow> ptr \<Rightarrow> open_file \<Rightarrow> inode \<Rightarrow> bool" where
  "open_for s n p x i \<longleftrightarrow> (let F = fsys (uvm s) in map_option mFile (getFileWithFd n s) = Some p \<and> files F p = Some x
     \<and> inodes F (finode x) = Some i \<and> inode_fits F (data i) \<and> disk_ok F \<and> alloc_ok F (alloc_cnt F) \<and> 0 \<le> pos x)"

text \<open>\<open>len\<close> bytes at \<open>b\<close> lie in one page that is mapped for writing.\<close>

definition buffer_ok :: "usys \<Rightarrow> addr \<Rightarrow> nat \<Rightarrow> bool" where
  "buffer_ok s b len \<longleftrightarrow> (\<exists>U kp j. page_at U kp (uvm s) \<and> b = U + of_nat j \<and> j < 4096 \<and> j + len \<le> 4096)"

lemma user_mem_write:
  assumes "page_at U kp v" "j + length bs \<le> 4096"
  shows "kstores (U + of_nat j) bs v = ret (set_vmem (write_mem (vmem v) (kp + of_nat j) bs) v)"
    "\<forall>k < length bs. user_mem (set_vmem (write_mem (vmem v) (kp + of_nat j) bs) v) (U + of_nat j + of_nat k) = bs ! k"
proof -
  show "kstores (U + of_nat j) bs v = ret (set_vmem (write_mem (vmem v) (kp + of_nat j) bs) v)" by (rule kstores_page [OF assms])
  let ?v = "set_vmem (write_mem (vmem v) (kp + of_nat j) bs) v"
  have at: "page_at U kp ?v" by (rule page_at_write_mem [OF assms])
  show "\<forall>k < length bs. user_mem ?v (U + of_nat j + of_nat k) = bs ! k"
  proof (intro allI impI)
    fix k assume k: "k < length bs"
    have "U + of_nat j + of_nat k = U + of_nat (j + k)" by (simp add: add.assoc)
    then have "user_mem ?v (U + of_nat j + of_nat k) = vmem ?v (kp + of_nat (j + k))" using user_mem_page [OF at, of "j + k"] assms(2) k by (simp add: add.assoc)
    also have "\<dots> = bs ! k" using write_mem_page [OF assms(2), of "j + k" "vmem v" kp] assms(2) k by simp
    finally show "user_mem ?v (U + of_nat j + of_nat k) = bs ! k" .
  qed
qed

lemma sint_small:
  fixes w :: "32 word"
  assumes "unat w < 2 ^ 31"
  shows "sint w = int (unat w)"
proof -
  have "int (unat w) < int (2 ^ 31)" using assms unfolding of_nat_less_iff .
  then have "uint w < 2 ^ 31" "0 \<le> uint w" unfolding uint_nat by simp_all
  moreover from this(2) have "- (2 ^ 31) \<le> uint w" by (rule order_trans [rotated]) simp
  ultimately have "sint w = uint w" using signed_take_bit_int_eq_self [of 31 "uint w"] by (simp add: sint_uint)
  then show ?thesis by simp
qed

lemma user_file_read_value:
  assumes "open_for s n p x i" "buffer_ok s b (unat sz)" "unat sz < 2 ^ 31"
  defines "bs \<equiv> take (unat sz) (drop (nat (pos x)) (content (fsys (uvm s)) i))"
  obtains s' where "user_file_read p b sz s = ret (int (length bs), s')" "\<forall>k < length bs. user_mem (uvm s') (b + of_nat k) = bs ! k"
    "files (fsys (uvm s')) = (files (fsys (uvm s)))(p \<mapsto> x\<lparr>pos := pos x + int (length bs)\<rparr>)" "disk (fsys (uvm s')) = disk (fsys (uvm s))"
    "IOLock s' = IOLock s" "fileList s' = fileList s" "cur s' = cur s"
proof -
  define F where "F = fsys (uvm s)"
  have o: "files F p = Some x" "inodes F (finode x) = Some i" "inode_fits F (data i)" "disk_ok F" "alloc_ok F (alloc_cnt F)" "0 \<le> pos x"
    using assms(1) by (simp_all add: open_for_def Let_def F_def)
  obtain F1 where F1: "inode_read_at (finode x) (int (unat sz)) (int (nat (pos x))) F = Inr (bs, F1)" "same_mem F F1" "disk F1 = disk F"
    unfolding bs_def F_def [symmetric] by (rule inode_read_at_value [OF o(2-5)])
  note sz = sint_small [OF assms(3)]
  obtain U kp j where U: "page_at U kp (uvm s)" "b = U + of_nat j" "j + unat sz \<le> 4096" using assms(2) by (auto simp: buffer_ok_def)
  have len: "j + length bs \<le> 4096" using U(3) by (simp add: bs_def)
  let ?s = "stored kp j bs F1 s"
  have loop: "(if sint sz > 0 then bindx (liftx (Some (get_inode (finode x) F))) (\<lambda>i. user_read_loop i False b (sint sz) (pos x) s) else ret (0, s))
      = ret (int (length bs), ?s)"
  proof (cases "sint sz > 0")
    case True
    then have "inode_read_loop i False (sint sz) (pos x) F = Inr (bs, F1)" using F1(1) o(2,6) unfolding sz by (simp add: inode_read_at_def get_inode_def)
    then have "user_read_loop i False b (sint sz) (pos x) s = ret (int (length bs), ?s)"
      using user_read_loop_page [OF U(1), of j "sint sz" "pos x" i False bs F1] U(3) o(4,6) unfolding U(2) sz by (simp add: disk_ok_def F_def)
    then show ?thesis using True o(2) by (simp add: get_inode_def)
  next
    case False
    then have "bs = []" "F1 = F" using F1(1) unfolding sz by (simp_all add: inode_read_at_def)
    then show ?thesis using False by (simp add: stored_def set_vmem_def F_def)
  qed
  let ?y = "x\<lparr>pos := pos x + int (length bs)\<rparr>"
  let ?t = "?s\<lparr>uvm := (uvm ?s)\<lparr>fsys := F1\<lparr>files := (files F1)(p \<mapsto> ?y)\<rparr>\<rparr>\<rparr>"
  have files: "files F1 = files F" using F1(2) by (simp add: same_mem_def)
  have "fs_step (advance p (int (length bs))) ?s = ret ((), ?t)" by (rule fs_step_Inr) (simp add: advance_def get_file_def files o(1))
  then have "user_file_read p b sz s = ret (int (length bs), ?t)"
    using loop o(1) unfolding user_file_read_def F_def by (simp add: get_file_def)
  moreover have at: "page_at U kp ((uvm s)\<lparr>fsys := F1\<rparr>)" using U(1) by (simp add: page_at_fsys)
  have "\<forall>k < length bs. user_mem (uvm ?t) (b + of_nat k) = bs ! k"
    using user_mem_write(2) [OF at len] by (simp add: U(2) user_mem_fsys stored_def)
  ultimately show thesis
    using F1(3) by (intro that [of ?t]) (simp_all add: F_def files stored_def set_vmem_def disk_def)
qed

lemma sys_read_value:
  assumes "call_args f s [8, n, b, sz]" "open_for s (sint n) p x i" "buffer_ok s b (unat sz)" "unat sz < 2 ^ 31" "0 < IOLock s" "n \<noteq> 0"
  defines "bs \<equiv> take (unat sz) (drop (nat (pos x)) (content (fsys (uvm s)) i))"
  shows "\<exists>s'. syscall_handler f s = ret (Return (f\<lparr>eax := of_nat (length bs)\<rparr>), s') \<and> (\<forall>k < length bs. user_mem (uvm s') (b + of_nat k) = bs ! k)
    \<and> files (fsys (uvm s')) = (files (fsys (uvm s)))(p \<mapsto> x\<lparr>pos := pos x + int (length bs)\<rparr>) \<and> disk (fsys (uvm s')) = disk (fsys (uvm s))
    \<and> IOLock s' = IOLock s \<and> fileList s' = fileList s"
proof -
  let ?s = "s\<lparr>saved_esp := (saved_esp s)(cur s := esp f), IOLock := IOLock s - 1\<rparr>"
  have h: "syscall_handler f s = sys_read f (s\<lparr>saved_esp := (saved_esp s)(cur s := esp f)\<rparr>)"
    using handler_dispatch [OF assms(1)] by (simp add: argCounts_def dispatch_def)
  obtain e where e: "getFileWithFd (sint n) ?s = Some e" "mFile e = p" using assms(2) by (auto simp: open_for_def Let_def getFileWithFd_def)
  have "open_for ?s (sint n) p x i" "buffer_ok ?s b (unat sz)" using assms(2,3) by (simp_all add: open_for_def buffer_ok_def getFileWithFd_def Let_def)
  then obtain s' where s': "user_file_read p b sz ?s = ret (int (length bs), s')" "\<forall>k < length bs. user_mem (uvm s') (b + of_nat k) = bs ! k"
    "files (fsys (uvm s')) = (files (fsys (uvm s)))(p \<mapsto> x\<lparr>pos := pos x + int (length bs)\<rparr>)" "disk (fsys (uvm s')) = disk (fsys (uvm s))"
    "IOLock s' = IOLock s - 1" "fileList s' = fileList s"
    using assms(4) by (rule user_file_read_value) (simp_all add: bs_def)
  obtain U kp j where U: "page_at U kp (uvm ?s)" "b = U + of_nat j" "j < 4096" using assms(3) by (auto simp: buffer_ok_def)
  have "read_buffer f b ?s = ret ?s"
    using addressCheck_page [OF U(1,3)] page_vaddr [OF U(1,3)] U(2) by (simp add: read_buffer_def)
  then have "syscall_handler f s = ret (Return (f\<lparr>eax := of_nat (length bs)\<rparr>), io_up s')"
    using h arg_words [OF assms(1), of ?s] e s'(1) assms(5,6) by (simp add: sys_read_def io_down_def file_or_exit_def)
  then show ?thesis using s'(2-6) assms(5) by (intro exI [of _ "io_up s'"]) (simp add: io_up_def)
qed

section \<open>Writing a file\<close>

lemma user_file_write_value:
  assumes "open_for s n p x i" "buffer_ok s b (unat sz)" "unat sz < 2 ^ 31" "deny_write_cnt i = 0"
  defines "bs \<equiv> map (\<lambda>k. user_mem (uvm s) (b + of_nat k)) [0..<min (unat sz) (flen (data i) - nat (pos x))]"
  obtains s' where "user_file_write p b sz s = ret (int (length bs), s')" "mm (uvm s') = mm (uvm s)"
    "files (fsys (uvm s')) = (files (fsys (uvm s)))(p \<mapsto> x\<lparr>pos := pos x + int (length bs)\<rparr>)"
    "content (fsys (uvm s')) i = overwrite (content (fsys (uvm s)) i) (nat (pos x)) bs"
    "IOLock s' = IOLock s" "fileList s' = fileList s" "cur s' = cur s"
proof -
  define F where "F = fsys (uvm s)"
  have o: "files F p = Some x" "inodes F (finode x) = Some i" "inode_fits F (data i)" "disk_ok F" "alloc_ok F (alloc_cnt F)" "0 \<le> pos x"
    using assms(1) by (simp_all add: open_for_def Let_def F_def)
  let ?cs = "user_bytes s b (unat sz)"
  have bs: "bs = take (min (unat sz) (flen (data i) - nat (pos x))) ?cs" by (simp add: bs_def user_bytes_def take_map take_upt)
  obtain n F1 where F1: "inode_write_at (finode x) ?cs (int (nat (pos x))) F = Inr (int n, F1)" "same_mem F F1"
    "content F1 i = overwrite (content F i) (nat (pos x)) (take n ?cs)" "alloc_ok F (alloc_cnt F) \<longrightarrow> n = min (length ?cs) (flen (data i) - nat (pos x))"
    by (rule inode_write_at_value [OF o(2-4) assms(4)])
  have n: "n = length bs" "take n ?cs = bs" using F1(4) o(5) by (simp_all add: bs)
  obtain U kp j where U: "page_at U kp (uvm s)" "b = U + of_nat j" "j + unat sz \<le> 4096" using assms(2) by (auto simp: buffer_ok_def)
  have "inode_write_loop i False ?cs (pos x) F = Inr (int (length bs), F1)"
    using F1(1) o(2,6) assms(4) n(1) by (simp add: inode_write_at_def get_inode_def)
  then have loop: "user_write_loop i False b (sint sz) (pos x) s = ret (int (length bs), s\<lparr>uvm := (uvm s)\<lparr>fsys := F1\<rparr>\<rparr>)"
    using user_write_loop_page [OF U(1), of j "sint sz" "pos x" i False] U(3) o(6) unfolding U(2) sint_small [OF assms(3)]
    by (simp add: fs_step_Inr F_def)
  let ?t = "s\<lparr>uvm := (uvm s)\<lparr>fsys := F1\<lparr>files := (files F1)(p \<mapsto> x\<lparr>pos := pos x + int (length bs)\<rparr>)\<rparr>\<rparr>\<rparr>"
  have files: "files F1 = files F" using F1(2) by (simp add: same_mem_def)
  have "fs_step (advance p (int (length bs))) (s\<lparr>uvm := (uvm s)\<lparr>fsys := F1\<rparr>\<rparr>) = ret ((), ?t)"
    by (subst fs_step_Inr) (simp_all add: advance_def get_file_def files o(1))
  then have "user_file_write p b sz s = ret (int (length bs), ?t)"
    using loop o(1,2) assms(4) unfolding user_file_write_def F_def by (simp add: get_file_def get_inode_def)
  moreover have "content (F1\<lparr>files := G\<rparr>) i = content F1 i" for G by (simp add: content_def dbyte_def disk_def)
  ultimately show thesis using F1(3) n(2) by (intro that [of ?t]) (simp_all add: F_def files)
qed

lemma sys_write_value:
  assumes "call_args f s [9, n, b, sz]" "open_for s (sint n) p x i" "buffer_ok s b (unat sz)" "unat sz < 2 ^ 31" "0 < IOLock s" "n \<noteq> 0" "n \<noteq> 1"
    "\<not> deny_write x" "deny_write_cnt i = 0"
  defines "bs \<equiv> map (\<lambda>k. user_mem (uvm s) (b + of_nat k)) [0..<min (unat sz) (flen (data i) - nat (pos x))]"
  shows "\<exists>s'. syscall_handler f s = ret (Return (f\<lparr>eax := of_nat (length bs)\<rparr>), s')
    \<and> content (fsys (uvm s')) i = overwrite (content (fsys (uvm s)) i) (nat (pos x)) bs
    \<and> files (fsys (uvm s')) = (files (fsys (uvm s)))(p \<mapsto> x\<lparr>pos := pos x + int (length bs)\<rparr>)
    \<and> mm (uvm s') = mm (uvm s) \<and> IOLock s' = IOLock s \<and> fileList s' = fileList s"
proof -
  let ?t = "s\<lparr>saved_esp := (saved_esp s)(cur s := esp f)\<rparr>" and ?s = "s\<lparr>saved_esp := (saved_esp s)(cur s := esp f), IOLock := IOLock s - 1\<rparr>"
  have h: "syscall_handler f s = sys_write f ?t" using handler_dispatch [OF assms(1)] by (simp add: argCounts_def dispatch_def)
  obtain e where e: "getFileWithFd (sint n) ?t = Some e" "mFile e = p" using assms(2) by (auto simp: open_for_def Let_def getFileWithFd_def)
  have x: "get_file p (fsys (uvm s)) = Inr x" using assms(2) by (simp add: open_for_def Let_def get_file_def)
  have "open_for ?s (sint n) p x i" "buffer_ok ?s b (unat sz)" using assms(2,3) by (simp_all add: open_for_def buffer_ok_def getFileWithFd_def Let_def)
  then obtain s' where s': "user_file_write p b sz ?s = ret (int (length bs), s')" "mm (uvm s') = mm (uvm s)"
    "files (fsys (uvm s')) = (files (fsys (uvm s)))(p \<mapsto> x\<lparr>pos := pos x + int (length bs)\<rparr>)"
    "content (fsys (uvm s')) i = overwrite (content (fsys (uvm s)) i) (nat (pos x)) bs" "IOLock s' = IOLock s - 1" "fileList s' = fileList s"
    using assms(4,9) by (rule user_file_write_value) (simp_all add: bs_def)
  obtain U kp j where U: "page_at U kp (uvm ?t)" "b = U + of_nat j" "j < 4096" using assms(3) by (auto simp: buffer_ok_def)
  have "address_or_exit id b ?t = ret ()" using addressCheck_page [OF U(1,3)] U(2) by (simp add: address_or_exit_def)
  moreover have "n = word_of_int (take_bit 32 (sint n))" using uint_sint [of n] word_of_int_uint [of n] by simp
  then have "sint n \<noteq> 0" "sint n \<noteq> 1" using assms(6,7) by auto
  then have "write_fd (sint n) b sz (Some e) ?t = ret (of_nat (length bs), io_up s')"
    using s'(1) x e(2) assms(5,8) by (simp add: write_fd_def io_down_def)
  ultimately have "syscall_handler f s = ret (Return (f\<lparr>eax := of_nat (length bs)\<rparr>), io_up s')"
    using h arg_words [OF assms(1), of ?t] e by (simp add: sys_write_def)
  then show ?thesis using s'(2-6) assms(5) by (intro exI [of _ "io_up s'"]) (simp add: io_up_def)
qed

end
