(* ===== verification/Process_Stack.thy ===== *)
theory Process_Stack
  imports User_Memory
begin

text \<open>
  The stack of a new process. The lemmas follow \<open>setup_stack\<close> of userprog/process.c: writes to the page at the top of user space through the
  page directory, the loop over the words of the command line, the words below the arguments, and the allocation of
  the two frames. The result is that the process finds its arguments where the C library expects them.
\<close>

section \<open>The stack page\<close>

text \<open>\<open>kp\<close> is the frame of the page at the top of user space of the running thread.\<close>

abbreviation (input) STACK :: addr where "STACK \<equiv> 0xbffff000"

abbreviation stack_at :: "addr \<Rightarrow> vm \<Rightarrow> bool" where "stack_at \<equiv> page_at STACK"

lemma stack_vaddr:
  assumes "i < 4096"
  shows "is_user_vaddr (STACK + of_nat i)" "pg_ofs (STACK + of_nat i) = of_nat i" "same_slot STACK (STACK + of_nat i)" "STACK + of_nat i \<noteq> 0"
    "unat (STACK + of_nat i) = 0xbffff000 + i"
proof -
  show u: "unat (STACK + of_nat i) = 0xbffff000 + i" using assms by (subst unat_plus_small) simp_all
  then show "is_user_vaddr (STACK + of_nat i)" using assms by (simp add: is_user_vaddr_def PHYS_BASE_def word_less_nat_alt)
  show "STACK + of_nat i \<noteq> 0" using u by (metis unat_0 add_is_0 numeral_neq_zero)
  have "0xbffff000 + i = 4096 * 0xbffff + i" by simp
  then have "(0xbffff000 + i) mod 4096 = i" using assms by (simp only: mod_mult_self4) simp
  then have "unat (pg_ofs (STACK + of_nat i)) = i" by (simp add: pg_ofs_unat u)
  moreover have "unat (of_nat i :: addr) = i" using assms by (simp add: unsigned_of_nat take_bit_eq_mod)
  ultimately show "pg_ofs (STACK + of_nat i) = of_nat i" by (simp add: word_unat_eq_iff)
  have "(0xbffff000 + i) div 4096 = 0xbffff" using assms by simp
  then show "same_slot STACK (STACK + of_nat i)" by (simp add: same_page word_unat_eq_iff pg_no_unat u)
qed

section \<open>Arguments on the stack\<close>

definition bytes_in :: "memory \<Rightarrow> addr \<Rightarrow> bytes \<Rightarrow> bool" where
  "bytes_in m a bs \<longleftrightarrow> (\<forall>i < length bs. m (a + of_nat i) = bs ! i)"

definition args_len :: "bytes list \<Rightarrow> nat" where
  "args_len ws = sum_list (map (\<lambda>w. length w + 1) ws)"

text \<open>In the page at \<open>kp\<close>, the arguments stand one after the other from offset \<open>x\<close> on, and their user addresses in an array at
  offset \<open>y\<close>.\<close>

fun placed :: "memory \<Rightarrow> addr \<Rightarrow> nat \<Rightarrow> nat \<Rightarrow> bytes list \<Rightarrow> bool" where
  "placed m kp x y [] \<longleftrightarrow> True"
| "placed m kp x y (w # ws) \<longleftrightarrow> bytes_in m (kp + of_nat x) (w @ [0]) \<and> bytes_in m (kp + of_nat y) (le32 (STACK + of_nat x))
     \<and> placed m kp (x + length w + 1) (y + 4) ws"

lemma args_len_simps [simp]: "args_len [] = 0" "args_len (w # ws) = length w + 1 + args_len ws"
  by (simp_all add: args_len_def)

lemma read_string:
  assumes "cstr m a w"
  shows "read_mem m a (length w + 1) = w @ [0]"
  using assms
proof (induction w arbitrary: a)
  case Nil
  then show ?case by (simp add: read_mem_def)
next
  case (Cons b w)
  then show ?case using read_mem_Suc [of m a "length w + 1"] by simp
qed

lemma bytes_in_write:
  assumes "i + length bs \<le> 4096"
  shows "bytes_in (write_mem m (kp + of_nat i) bs) (kp + of_nat i) bs"
  unfolding bytes_in_def
proof (intro allI impI)
  fix j assume j: "j < length bs"
  have "kp + of_nat i + of_nat j = kp + of_nat (i + j)" by (simp add: add.assoc)
  then show "write_mem m (kp + of_nat i) bs (kp + of_nat i + of_nat j) = bs ! j"
    using write_mem_page [OF assms, of "i + j" m kp] j assms by (simp add: add.assoc)
qed

lemma bytes_in_keep:
  assumes "bytes_in m (kp + of_nat i) bs" "\<And>j. i \<le> j \<Longrightarrow> j < i + length bs \<Longrightarrow> m' (kp + of_nat j) = m (kp + of_nat j)"
  shows "bytes_in m' (kp + of_nat i) bs"
  unfolding bytes_in_def
proof (intro allI impI)
  fix j assume j: "j < length bs"
  have "kp + of_nat i + of_nat j = kp + of_nat (i + j)" by (simp add: add.assoc)
  then show "m' (kp + of_nat i + of_nat j) = bs ! j" using assms(1) assms(2) [of "i + j"] j by (auto simp: bytes_in_def add.assoc)
qed

text \<open>What one round of the loop writes.\<close>

definition pushed :: "memory \<Rightarrow> addr \<Rightarrow> nat \<Rightarrow> nat \<Rightarrow> bytes \<Rightarrow> memory" where
  "pushed m kp x y w = write_mem (write_mem m (kp + of_nat x) (w @ [0])) (kp + of_nat y) (le32 (STACK + of_nat x))"

lemma pushed_frame:
  assumes "stack_at kp s" "x + length w + 1 \<le> 4096" "y + 4 \<le> x"
  shows "\<And>a. page_num a \<noteq> page_num kp \<Longrightarrow> pushed m kp x y w a = m a"
    "\<And>j. j < 4096 \<Longrightarrow> \<not> (y \<le> j \<and> j < y + 4) \<Longrightarrow> \<not> (x \<le> j \<and> j < x + length w + 1) \<Longrightarrow> pushed m kp x y w (kp + of_nat j) = m (kp + of_nat j)"
    "bytes_in (pushed m kp x y w) (kp + of_nat x) (w @ [0])" "bytes_in (pushed m kp x y w) (kp + of_nat y) (le32 (STACK + of_nat x))"
    "stack_at kp (set_vmem (pushed (vmem s) kp x y w) s)"
proof -
  let ?m = "write_mem m (kp + of_nat x) (w @ [0])"
  have l: "x + length (w @ [0]) \<le> 4096" "y + length (le32 (STACK + of_nat x)) \<le> 4096" using assms(2,3) by (simp_all add: length_le32)
  show "pushed m kp x y w a = m a" if "page_num a \<noteq> page_num kp" for a
    using write_mem_other_page [OF assms(1) l(1) that] write_mem_other_page [OF assms(1) l(2) that] by (simp add: pushed_def)
  show "pushed m kp x y w (kp + of_nat j) = m (kp + of_nat j)" if "j < 4096" "\<not> (y \<le> j \<and> j < y + 4)" "\<not> (x \<le> j \<and> j < x + length w + 1)" for j
    using that write_mem_page [OF l(1), of j] write_mem_page [OF l(2), of j] by (auto simp: pushed_def length_le32)
  show "bytes_in (pushed m kp x y w) (kp + of_nat x) (w @ [0])"
    unfolding pushed_def using assms(2,3) write_mem_page [OF l(2)] by (intro bytes_in_keep [OF bytes_in_write [OF l(1)]]) (auto simp: length_le32)
  show "bytes_in (pushed m kp x y w) (kp + of_nat y) (le32 (STACK + of_nat x))" unfolding pushed_def by (rule bytes_in_write [OF l(2)])
  show "stack_at kp (set_vmem (pushed (vmem s) kp x y w) s)"
    using page_at_write_mem [OF page_at_write_mem [OF assms(1) l(1)] l(2)] by (simp add: pushed_def)
qed

lemma args_loop_round:
  assumes "stack_at kp s" "string_at (vmem s) cur w" "\<And>i. i \<le> length w \<Longrightarrow> page_num (cur + of_nat i) = page_num fp"
    "is_kernel_vaddr fp" "page_num fp \<noteq> page_num kp" "x + length w + 1 \<le> 4096" "y + 4 \<le> x"
  shows "args_loop sp cur ptr (STACK + of_nat x) (STACK + of_nat y) s =
    bindx (liftx (strtok_r (pushed (vmem s) kp x y w) 0 sp (Some ptr))) (\<lambda>(cur, ptr, m).
      if cur \<noteq> 0 then args_loop sp cur ptr (STACK + of_nat (x + length w + 1)) (STACK + of_nat (y + 4)) (set_vmem m s)
      else ret (set_vmem m s))"
proof -
  have cur: "cstr (vmem s) cur w" "cur \<noteq> 0" using assms(2) by (auto simp: string_at_def)
  let ?m = "write_mem (vmem s) (kp + of_nat x) (w @ [0])" and ?p = "pushed (vmem s) kp x y w"
  have rd: "is_kernel_vaddr (cur + of_nat j) \<and> page_num (cur + of_nat j) \<noteq> page_num kp" if "j < length w + 1" for j
    using assms(3) [of j] that assms(4,5) by (simp add: kernel_page_num)
  have ne: "STACK + of_nat x \<noteq> 0" "STACK + of_nat y \<noteq> 0" using stack_vaddr(4) assms(6,7) by auto
  have l: "x + length (w @ [0]) \<le> 4096" "y + length (le32 (STACK + of_nat x)) \<le> 4096" using assms(6,7) by (simp_all add: length_le32)
  have c: "kmemcpy (STACK + of_nat x) cur (length w + 1) s = ret (set_vmem ?m s)"
    using kcopy_page [OF assms(1), of x "length w + 1" cur] assms(6) rd ne cur read_string [OF cur(1)] by (simp add: kmemcpy_def)
  have v: "kmemcpy_var (STACK + of_nat y) (le32 (STACK + of_nat x)) (set_vmem ?m s) = ret (set_vmem ?p s)"
    using kstores_page [OF page_at_write_mem [OF assms(1) l(1)] l(2)] ne by (simp add: kmemcpy_var_def pushed_def)
  have "string_at ?p cur w"
    using assms(3,5) pushed_frame(1) [OF assms(1,6,7)] by (intro string_at_cong [OF assms(2)]) simp
  then have "strlen ?p cur = Some (Inr (length w))" using strlen_value cur(2) by (simp add: string_at_def)
  moreover have e: "STACK + of_nat x + of_nat (length w + 1) = STACK + of_nat (x + length w + 1)" "STACK + of_nat y + 4 = STACK + of_nat (y + 4)"
    by simp_all
  ultimately show ?thesis
    unfolding args_loop.simps [of sp cur ptr "STACK + of_nat x" "STACK + of_nat y" s] strlen_value [OF cur] liftx_simps bindx_simps c v
    by (simp only: set_vmem_simps liftx_simps bindx_simps e)
qed

lemma pd_pages_write:
  assumes "stack_at kp s" "\<And>a. page_num a \<in> pd_pages (mm s) (pagedir s (curthread s)) \<Longrightarrow> m a = vmem s a"
  shows "pd_pages (mm (set_vmem m s)) (pagedir s (curthread s)) = pd_pages (mm s) (pagedir s (curthread s))"
proof -
  have ok: "pd_ok (mm s) (pagedir s (curthread s))" using assms(1) by (simp add: page_at_def)
  then have "palloc_ok (pal (mm (set_vmem m s)))" by (auto simp: pd_ok_def)
  from pd_frame(4) [OF ok, of "mm (set_vmem m s)", simplified set_vmem_simps, OF assms(2) this] show ?thesis by simp
qed

text \<open>The state in which the arguments from \<open>w\<close> on are still to be copied: \<open>cur\<close> is the string \<open>w\<close>, and \<open>ptr\<close> the rest of the
  command line, both in the page \<open>fp\<close>.\<close>

definition args_state :: "addr \<Rightarrow> addr \<Rightarrow> addr \<Rightarrow> addr \<Rightarrow> bytes \<Rightarrow> addr \<Rightarrow> bytes \<Rightarrow> vm \<Rightarrow> bool" where
  "args_state kp fp sp cur w ptr rest s \<longleftrightarrow> stack_at kp s \<and> is_kernel_vaddr fp \<and> page_num fp \<noteq> page_num kp
     \<and> page_num fp \<notin> pd_pages (mm s) (pagedir s (curthread s))
     \<and> string_at (vmem s) cur w \<and> string_at (vmem s) ptr rest \<and> string_at (vmem s) sp [32]
     \<and> (\<forall>i \<le> length w. page_num (cur + of_nat i) = page_num fp) \<and> (\<forall>i \<le> length rest. page_num (ptr + of_nat i) = page_num fp)
     \<and> (\<forall>i \<le> 1. page_num (sp + of_nat i) \<noteq> page_num fp \<and> page_num (sp + of_nat i) \<noteq> page_num kp)"

lemma args_state_pushed:
  assumes "args_state kp fp sp cur w ptr rest s" "x + length w + 1 \<le> 4096" "y + 4 \<le> x"
  defines "m \<equiv> pushed (vmem s) kp x y w"
  shows "string_at m ptr rest" "string_at m sp [32]" "stack_at kp (set_vmem m s)"
    "\<And>i j. i \<le> length rest \<Longrightarrow> j \<le> 1 \<Longrightarrow> ptr + of_nat i \<noteq> sp + of_nat j"
proof -
  note a = assms(1) [unfolded args_state_def]
  have k: "stack_at kp s" using a by blast
  note p = pushed_frame [OF k assms(2,3)]
  have "m (ptr + of_nat i) = vmem s (ptr + of_nat i)" if "i \<le> length rest" for i
    unfolding m_def using that a by (intro p(1)) auto
  then show "string_at m ptr rest" using a string_at_cong by blast
  have "m (sp + of_nat i) = vmem s (sp + of_nat i)" if "i \<le> length [32 :: 8 word]" for i
    unfolding m_def using that a by (intro p(1)) auto
  then show "string_at m sp [32]" using a string_at_cong by blast
  show "stack_at kp (set_vmem m s)" unfolding m_def by (rule p(5))
  show "ptr + of_nat i \<noteq> sp + of_nat j" if "i \<le> length rest" "j \<le> 1" for i j
  proof -
    have "page_num (ptr + of_nat i) = page_num fp" "page_num (sp + of_nat j) \<noteq> page_num fp" using that a by auto
    then show ?thesis by metis
  qed
qed

lemma args_loop_value:
  assumes "args_state kp fp sp cur w ptr rest s" "x + args_len (w # tokens {32} rest) \<le> 4096" "y + 4 * length (w # tokens {32} rest) \<le> x"
  shows "\<exists>m'. args_loop sp cur ptr (STACK + of_nat x) (STACK + of_nat y) s = ret (set_vmem m' s) \<and> stack_at kp (set_vmem m' s)
    \<and> placed m' kp x y (w # tokens {32} rest)
    \<and> (\<forall>j < 4096. \<not> (y \<le> j \<and> j < y + 4 * length (w # tokens {32} rest)) \<and> \<not> (x \<le> j \<and> j < x + args_len (w # tokens {32} rest))
        \<longrightarrow> m' (kp + of_nat j) = vmem s (kp + of_nat j))
    \<and> (\<forall>a. page_num a \<noteq> page_num kp \<and> page_num a \<noteq> page_num fp \<longrightarrow> m' a = vmem s a)"
  using assms
proof (induction "length rest" arbitrary: cur w ptr rest s x y rule: less_induct)
  case less
  note a = less.prems(1) [unfolded args_state_def]
  let ?m = "pushed (vmem s) kp x y w"
  have b: "x + length w + 1 \<le> 4096" "y + 4 \<le> x" using less.prems(2,3) by simp_all
  have k: "stack_at kp s" using a by blast
  note p = pushed_frame [OF k b] and q = args_state_pushed [OF less.prems(1) b]
  have round: "args_loop sp cur ptr (STACK + of_nat x) (STACK + of_nat y) s =
    bindx (liftx (strtok_r ?m 0 sp (Some ptr))) (\<lambda>(cur, ptr, m).
      if cur \<noteq> 0 then args_loop sp cur ptr (STACK + of_nat (x + length w + 1)) (STACK + of_nat (y + 4)) (set_vmem m s)
      else ret (set_vmem m s))"
    by (rule args_loop_round [of kp s cur w fp]) (use a b in auto)
  show ?case
  proof (cases "dropWhile (\<lambda>b. b \<in> set [32]) rest = []")
    case True
    then have "strtok_r ?m 0 sp (Some ptr) = Some (Inr (0, ptr + of_nat (length rest), ?m))"
      by (intro strtok_r_end [OF q(2,1)]) simp_all
    then have "args_loop sp cur ptr (STACK + of_nat x) (STACK + of_nat y) s = ret (set_vmem ?m s)" by (simp add: round)
    moreover have "tokens {32} rest = []" using tokens_end [of "{32}" rest] True by simp
    ultimately show ?thesis using p(1-4) [where m = "vmem s"] q(3) by (intro exI [of _ ?m]) auto
  next
    case False
    obtain i j w' rest' m' where st: "strtok_r ?m 0 sp (Some ptr) = Some (Inr (ptr + of_nat i, ptr + of_nat j, m'))"
      and tk: "tokens (set [32]) rest = w' # tokens (set [32]) rest'" and ln: "i + length w' \<le> length rest" "j + length rest' \<le> length rest"
        "length rest' < length rest"
      and str: "string_at m' (ptr + of_nat i) w'" "string_at m' (ptr + of_nat j) rest'" "string_at m' sp [32]"
      and kp: "\<And>a. (\<And>i. i < length rest \<Longrightarrow> a \<noteq> ptr + of_nat i) \<Longrightarrow> m' a = ?m a"
      by (rule strtok_step [OF q(2,1) _ q(4) False, of 0 ptr]) auto
    have pg: "page_num (ptr + of_nat i) = page_num fp" if "i \<le> length rest" for i using that a by blast
    have other: "m' a = ?m a" if "page_num a \<noteq> page_num fp" for a using kp [of a] pg that by (metis less_imp_le)
    let ?s = "set_vmem m' s"
    have "m' a = vmem s a" if "page_num a \<in> pd_pages (mm s) (pagedir s (curthread s))" for a
    proof -
      have "page_num a \<noteq> page_num kp" "page_num a \<noteq> page_num fp" using that a by (auto simp: page_at_def)
      then show ?thesis using other p(1) by simp
    qed
    note k' = page_at_write [OF k this] and pd = pd_pages_write [OF k this]
    have s': "args_state kp fp sp (ptr + of_nat i) w' (ptr + of_nat j) rest' ?s"
      using a k' pd str pg ln by (auto simp: args_state_def add.assoc of_nat_add [symmetric] simp del: of_nat_add)
    have tk': "tokens {32} rest = w' # tokens {32} rest'" using tk by simp
    obtain m'' where m'': "args_loop sp (ptr + of_nat i) (ptr + of_nat j) (STACK + of_nat (x + length w + 1)) (STACK + of_nat (y + 4)) ?s
          = ret (set_vmem m'' ?s)" "stack_at kp (set_vmem m'' ?s)" "placed m'' kp (x + length w + 1) (y + 4) (tokens {32} rest)"
        "\<And>l. l < 4096 \<Longrightarrow> \<not> (y + 4 \<le> l \<and> l < y + 4 + 4 * length (tokens {32} rest)) \<Longrightarrow>
          \<not> (x + length w + 1 \<le> l \<and> l < x + length w + 1 + args_len (tokens {32} rest)) \<Longrightarrow> m'' (kp + of_nat l) = m' (kp + of_nat l)"
        "\<And>a. page_num a \<noteq> page_num kp \<Longrightarrow> page_num a \<noteq> page_num fp \<Longrightarrow> m'' a = m' a"
      using less.hyps [OF ln(3) s', of "x + length w + 1" "y + 4"] less.prems(2,3) unfolding tk' by auto
    have call: "args_loop sp cur ptr (STACK + of_nat x) (STACK + of_nat y) s = ret (set_vmem m'' s)"
      using round st m''(1) string_at_nonnull [OF q(1), of i] ln(1) by simp
    have st_pg: "m'' (kp + of_nat l) = ?m (kp + of_nat l)" if "l < 4096" "\<not> (y + 4 \<le> l \<and> l < y + 4 + 4 * length (tokens {32} rest))"
        "\<not> (x + length w + 1 \<le> l \<and> l < x + length w + 1 + args_len (tokens {32} rest))" for l
      using m''(4) [OF that] other [of "kp + of_nat l"] page_frame(1) [OF k that(1)] a by simp
    have "bytes_in m'' (kp + of_nat x) (w @ [0])"
      by (rule bytes_in_keep [OF p(3) [where m = "vmem s"]]) (use b less.prems(2,3) in \<open>intro st_pg; auto\<close>)
    moreover have "bytes_in m'' (kp + of_nat y) (le32 (STACK + of_nat x))"
      by (rule bytes_in_keep [OF p(4) [where m = "vmem s"]]) (use b less.prems(2,3) in \<open>intro st_pg; auto simp: length_le32\<close>)
    ultimately have "placed m'' kp x y (w # tokens {32} rest)" using m''(3) by simp
    moreover have "m'' (kp + of_nat l) = vmem s (kp + of_nat l)"
      if "l < 4096" "\<not> (y \<le> l \<and> l < y + 4 * length (w # tokens {32} rest))" "\<not> (x \<le> l \<and> l < x + args_len (w # tokens {32} rest))" for l
      using that st_pg [of l] p(2) [where m = "vmem s"] by auto
    moreover have "m'' a = vmem s a" if "page_num a \<noteq> page_num kp" "page_num a \<noteq> page_num fp" for a
      using that m''(5) other p(1) by metis
    ultimately show ?thesis using call m''(2) by (intro exI [of _ m'']) auto
  qed
qed

section \<open>Counting the arguments\<close>

fun spaces :: "bool \<Rightarrow> bytes \<Rightarrow> nat" where
  "spaces prev [] = 0"
| "spaces prev (c # cs) = (if c = 32 \<and> \<not> prev then Suc (spaces True cs) else spaces (if c \<noteq> 32 then False else prev) cs)"

lemma count_args_value:
  "cstr m (fn + of_nat n) bs \<Longrightarrow> count_args m fn n argc prev = Some (n + length bs, argc + spaces prev bs)"
proof (induction bs arbitrary: n argc prev)
  case Nil
  then show ?case by (subst count_args.simps) simp
next
  case (Cons c cs)
  then have c: "m (fn + of_nat n) = c" "c \<noteq> 0" "cstr m (fn + of_nat (n + 1)) cs" by (simp_all add: ac_simps)
  show ?case using Cons.IH [OF c(3)] by (subst count_args.simps) (simp add: c Let_def)
qed

lemma spaces_word: "32 \<notin> set w \<Longrightarrow> spaces False (w @ rest) = spaces False rest"
  by (induction w) auto

lemma spaces_skip: "spaces True cs = spaces False (dropWhile (\<lambda>b. b \<in> {32}) cs)"
proof (induction cs)
  case (Cons c cs)
  then show ?case by simp
qed simp

lemma tokens_skip: "tokens D (dropWhile (\<lambda>b. b \<in> D) bs) = tokens D bs"
  by (simp add: tokens.simps [of D bs] tokens.simps [of D "dropWhile (\<lambda>b. b \<in> D) bs"])

lemma tokens_word:
  assumes "c \<notin> D"
  shows "tokens D (c # cs) = takeWhile (\<lambda>b. b \<notin> D) (c # cs) # tokens D (tl (dropWhile (\<lambda>b. b \<notin> D) (c # cs)))"
  using assms by (simp add: tokens.simps [of D "c # cs"])

text \<open>Without spaces at the ends, the code counts right.\<close>

lemma spaces_tokens: "bs \<noteq> [] \<Longrightarrow> hd bs \<noteq> 32 \<Longrightarrow> last bs \<noteq> 32 \<Longrightarrow> Suc (spaces False bs) = length (tokens {32} bs)"
proof (induction "length bs" arbitrary: bs rule: less_induct)
  case less
  obtain c cs where c: "bs = c # cs" "c \<noteq> 32" using less.prems by (cases bs) auto
  define w rest where "w = takeWhile (\<lambda>b. b \<notin> {32}) bs" and "rest = dropWhile (\<lambda>b. b \<notin> {32}) bs"
  have bs: "bs = w @ rest" by (simp add: w_def rest_def)
  have w: "32 \<notin> set w" "w \<noteq> []" unfolding w_def using c set_takeWhileD [of 32] by auto
  have tk: "tokens {32} bs = w # tokens {32} (tl rest)" using tokens_word [of c "{32}" cs] c unfolding w_def rest_def by simp
  show ?case
  proof (cases rest)
    case Nil
    then have "spaces False bs = 0" using spaces_word [OF w(1), of "[]"] bs by simp
    moreover have "tokens {32} (tl rest) = []" using Nil by (simp add: tokens_end)
    ultimately show ?thesis using tk by simp
  next
    case (Cons d r)
    have "hd rest \<in> {32}" using hd_dropWhile [of "\<lambda>b. b \<notin> {32}" bs] Cons unfolding rest_def by (metis list.distinct(1))
    then have d: "d = 32" using Cons by simp
    let ?r = "dropWhile (\<lambda>b. b \<in> {32}) r"
    have lst: "last (d # r) = last bs" using bs Cons by simp
    then have rne: "r \<noteq> []" using d less.prems(3) by auto
    then have "last r \<noteq> 32" using lst less.prems(3) by simp
    then have ne: "?r \<noteq> []" using rne last_in_set [of r] by (auto simp: dropWhile_eq_Nil_conv)
    have "last ?r = last r" by (metis last_append ne takeWhile_dropWhile_id)
    moreover have "hd ?r \<noteq> 32" using hd_dropWhile [OF ne] by simp
    moreover have "length ?r < length bs" using bs Cons length_dropWhile_le [of "\<lambda>b. b \<in> {32}" r] by simp
    ultimately have "Suc (spaces False ?r) = length (tokens {32} ?r)"
      using ne \<open>last r \<noteq> 32\<close> by (intro less.hyps) auto
    moreover have "spaces False bs = Suc (spaces False ?r)" using spaces_word [OF w(1), of rest] bs Cons d spaces_skip [of r] by simp
    ultimately show ?thesis using tk Cons tokens_skip [of "{32}" r] by simp
  qed
qed

lemma args_len_tokens: "args_len (tokens D bs) \<le> length bs + 1"
proof (induction D bs rule: tokens.induct)
  case (1 D bs)
  show ?case
  proof (cases "dropWhile (\<lambda>b. b \<in> D) bs")
    case Nil
    then show ?thesis by (simp add: tokens_end)
  next
    case (Cons c cs)
    let ?w = "takeWhile (\<lambda>b. b \<notin> D) (c # cs)" and ?r = "dropWhile (\<lambda>b. b \<notin> D) (c # cs)"
    have eq: "tokens D bs = ?w # tokens D (tl ?r)" by (subst tokens.simps) (simp add: Cons)
    have "length ?w + length ?r = length (c # cs)" by (metis length_append takeWhile_dropWhile_id)
    moreover have "length (c # cs) \<le> length bs" using length_dropWhile_le [of "\<lambda>b. b \<in> D" bs] Cons by simp
    moreover have "?r = [] \<Longrightarrow> tokens D (tl ?r) = []" by (simp add: tokens_end)
    ultimately show ?thesis using 1 [OF Cons] eq by (cases ?r) auto
  qed
qed

section \<open>What the program sees\<close>

lemma bytes_in_user:
  assumes "stack_at kp s" "bytes_in (vmem s) (kp + of_nat i) bs" "i + length bs \<le> 4096"
  shows "bytes_in (user_mem s) (STACK + of_nat i) bs"
  unfolding bytes_in_def
proof (intro allI impI)
  fix j assume j: "j < length bs"
  have "STACK + of_nat i + of_nat j = STACK + of_nat (i + j)" "kp + of_nat i + of_nat j = kp + of_nat (i + j)" by (simp_all add: add.assoc)
  then show "user_mem s (STACK + of_nat i + of_nat j) = bs ! j"
    using user_mem_page [OF assms(1), of "i + j"] assms(2,3) j by (simp add: bytes_in_def add.assoc)
qed

lemma bytes_in_word:
  assumes "bytes_in m a (le32 w)"
  shows "load32 m a = w"
proof -
  have "m (a + of_nat i) = le32 w ! i" if "i < 4" for i using assms that by (simp add: bytes_in_def length_le32)
  from this [of 0] this [of 1] this [of 2] this [of 3] show ?thesis
    using word_bytes [of w] by (simp add: load32_def load_elem_def le32_def)
qed

lemma bytes_in_string:
  assumes "bytes_in m a (w @ [0])" "0 \<notin> set w" "a \<noteq> 0" "unat a + length w < 2 ^ 32"
  shows "string_at m a w"
proof -
  have "m (a + of_nat i) = w ! i \<and> w ! i \<noteq> 0" if "i < length w" for i
    using assms(1,2) that nth_mem [OF that] by (metis bytes_in_def nth_append length_append_singleton less_SucI)
  moreover have "m (a + of_nat (length w)) = 0" using assms(1) by (simp add: bytes_in_def nth_append)
  ultimately have "cstr m a w" using cstr_append [of m a w "[]"] by simp
  then show ?thesis using assms(3,4) by (simp add: string_at_def)
qed

lemma placed_user:
  assumes "stack_at kp s" "placed (vmem s) kp x y ws" "x + args_len ws \<le> 4096" "y + 4 * length ws \<le> 4096" "\<forall>w \<in> set ws. 0 \<notin> set w"
    "j < length ws"
  shows "string_at (user_mem s) (load32 (user_mem s) (STACK + of_nat (y + 4 * j))) (ws ! j)"
  using assms(2-)
proof (induction ws arbitrary: x y j)
  case (Cons w ws)
  show ?case
  proof (cases j)
    case 0
    have x: "x < 4096" using Cons.prems by simp
    have "load32 (user_mem s) (STACK + of_nat y) = STACK + of_nat x"
      using Cons.prems by (intro bytes_in_word bytes_in_user [OF assms(1)]) (auto simp: length_le32)
    moreover have "string_at (user_mem s) (STACK + of_nat x) w"
      by (rule bytes_in_string [OF bytes_in_user [OF assms(1)]])
        (use Cons.prems stack_vaddr(4,5) [OF x] in auto)
    ultimately show ?thesis by (simp add: 0)
  next
    case (Suc k)
    have "STACK + of_nat (y + 4 * j) = STACK + of_nat (y + 4 + 4 * k)" by (simp add: Suc)
    then show ?thesis using Cons.IH [of "x + length w + 1" "y + 4" k] Cons.prems Suc by simp
  qed
qed simp

section \<open>The whole stack\<close>

lemma le32_zero: "le32 0 = replicate 4 0"
  by (simp add: le32_def numeral_eq_Suc)

lemma stack_sub: "i \<le> j \<Longrightarrow> STACK + of_nat j - of_nat i = STACK + of_nat (j - i)"
  by (simp add: of_nat_diff)

lemma stack_sub4: "4 \<le> j \<Longrightarrow> STACK + of_nat j - 4 = STACK + of_nat (j - 4)"
  using stack_sub [of 4 j] by simp

text \<open>What \<open>push_arguments\<close> writes below the arguments, which start at offset \<open>x\<close>; the array of \<open>argc\<close> addresses starts at
  offset \<open>y\<close>.\<close>

definition stack_head :: "memory \<Rightarrow> addr \<Rightarrow> nat \<Rightarrow> nat \<Rightarrow> nat \<Rightarrow> memory" where
  "stack_head m kp al argc y =
     (let m = write_mem m (kp + of_nat (y + 4 * argc + 4)) (replicate al 0);
          m = write_mem m (kp + of_nat (y + 4 * argc)) (le32 0);
          m = write_mem m (kp + of_nat (y - 4)) (le32 (STACK + of_nat y));
          m = write_mem m (kp + of_nat (y - 4 - 4)) (le32 (of_nat argc))
      in write_mem m (kp + of_nat (y - 4 - 4 - 4)) (le32 0))"

lemma stack_head_other:
  assumes "stack_at kp s" "y + 4 * argc + 4 + al \<le> 4096" "12 \<le> y" "page_num a \<noteq> page_num kp"
  shows "stack_head m kp al argc y a = m a"
proof -
  have "write_mem m (kp + of_nat i) b a = m a" if "i + length b \<le> 4096" for m i b by (rule write_mem_other_page [OF assms(1) that assms(4)])
  note w = this [of "y + 4 * argc + 4" "replicate al 0"] this [of "y + 4 * argc" "le32 0"] this [of "y - 4" "le32 (STACK + of_nat y)"]
    this [of "y - 4 - 4" "le32 (of_nat argc)"] this [of "y - 4 - 4 - 4" "le32 0"]
  have l: "y + 4 * argc + 4 + length (replicate al (0 :: 8 word)) \<le> 4096" "y + 4 * argc + length (le32 0) \<le> 4096"
    "y - 4 + length (le32 (STACK + of_nat y)) \<le> 4096" "y - 4 - 4 + length (le32 (of_nat argc)) \<le> 4096" "y - 4 - 4 - 4 + length (le32 0) \<le> 4096"
    using assms(2,3) by (simp_all add: length_le32)
  show ?thesis unfolding stack_head_def Let_def w(5) [OF l(5)] w(4) [OF l(4)] w(3) [OF l(3)] w(2) [OF l(2)] w(1) [OF l(1)] ..
qed

lemma bytes_in_over:
  assumes "bytes_in m (kp + of_nat i) bs" "i + length bs \<le> j \<or> j + length cs \<le> i" "i + length bs \<le> 4096" "j + length cs \<le> 4096"
  shows "bytes_in (write_mem m (kp + of_nat j) cs) (kp + of_nat i) bs"
proof (rule bytes_in_keep [OF assms(1)])
  fix l assume "i \<le> l" "l < i + length bs"
  then show "write_mem m (kp + of_nat j) cs (kp + of_nat l) = m (kp + of_nat l)" using assms(2-) write_mem_page [OF assms(4), of l m kp] by auto
qed

lemma stack_head_words:
  fixes m :: memory and kp :: addr
  assumes "y + 4 * argc + 4 + al \<le> 4096" "12 \<le> y"
  defines "m' \<equiv> stack_head m kp al argc y"
  shows "bytes_in m' (kp + of_nat (y + 4 * argc)) (le32 0)" "bytes_in m' (kp + of_nat (y - 4)) (le32 (STACK + of_nat y))"
    "bytes_in m' (kp + of_nat (y - 4 - 4)) (le32 (of_nat argc))" "bytes_in m' (kp + of_nat (y - 4 - 4 - 4)) (le32 0)"
proof -
  have l: "y + 4 * argc + length (le32 0) \<le> 4096" "y - 4 + length (le32 (STACK + of_nat y)) \<le> 4096"
    "y - 4 - 4 + length (le32 (of_nat argc)) \<le> 4096" "y - 4 - 4 - 4 + length (le32 0) \<le> 4096"
    using assms(1,2) by (simp_all add: length_le32)
  show "bytes_in m' (kp + of_nat (y + 4 * argc)) (le32 0)" unfolding m'_def stack_head_def Let_def
    by (rule bytes_in_over [OF bytes_in_over [OF bytes_in_over [OF bytes_in_write [OF l(1)] _ l(1,2)] _ l(1,3)] _ l(1,4)])
      (unfold length_le32, (rule disjI2, use assms(2) in linarith)+)
  show "bytes_in m' (kp + of_nat (y - 4)) (le32 (STACK + of_nat y))" unfolding m'_def stack_head_def Let_def
    by (rule bytes_in_over [OF bytes_in_over [OF bytes_in_write [OF l(2)] _ l(2,3)] _ l(2,4)])
      (unfold length_le32, (rule disjI2, use assms(2) in linarith)+)
  show "bytes_in m' (kp + of_nat (y - 4 - 4)) (le32 (of_nat argc))" unfolding m'_def stack_head_def Let_def
    by (rule bytes_in_over [OF bytes_in_write [OF l(3)] _ l(3,4)]) (unfold length_le32, rule disjI2, use assms(2) in linarith)
  show "bytes_in m' (kp + of_nat (y - 4 - 4 - 4)) (le32 0)" unfolding m'_def stack_head_def Let_def by (rule bytes_in_write [OF l(4)])
qed

lemma push_arguments_steps:
  assumes k: "stack_at kp s" and fn: "cstr (vmem s) fn bs" and bs: "bs \<noteq> []" "hd bs \<noteq> 32" "last bs \<noteq> 32"
    and al: "al = 4 - (length bs + 1) mod 4" and argc: "argc = length (tokens {32} bs)"
    and x: "x + (length bs + 1) = 4096" and y: "y + 4 * argc + 4 + al = x" "12 \<le> y"
  shows "push_arguments sp fn fp PHYS_BASE s =
    bindx (liftx (strtok_r (stack_head (vmem s) kp al argc y) fp sp (Some 0))) (\<lambda>(cur, ptr, m).
      bindx (args_loop sp cur ptr (STACK + of_nat x) (STACK + of_nat y) (set_vmem m s)) (\<lambda>s. ret (STACK + of_nat (y - 4 - 4 - 4), s)))"
proof -
  have cnt: "count_args (vmem s) fn 0 1 False = Some (length bs, argc)"
    using count_args_value [of "vmem s" fn 0 bs 1 False] fn spaces_tokens [OF bs] argc by simp
  have "PHYS_BASE - of_nat (length bs + 1) = STACK + of_nat 4096 - of_nat (length bs + 1)" by (simp add: PHYS_BASE_def)
  also have "\<dots> = STACK + of_nat (4096 - (length bs + 1))" using x by (intro stack_sub) simp
  also have "4096 - (length bs + 1) = x" using x by simp
  finally have e1: "PHYS_BASE - of_nat (length bs + 1) = STACK + of_nat x" .
  have e2: "STACK + of_nat x - of_nat al = STACK + of_nat (y + 4 * argc + 4)" using y(1) by auto
  have e3: "STACK + of_nat (y + 4 * argc + 4) - 4 = STACK + of_nat (y + 4 * argc)" by simp
  have e4: "STACK + of_nat (y + 4 * argc) - of_nat (4 * argc) = STACK + of_nat y" by simp
  have e5: "STACK + of_nat y - 4 = STACK + of_nat (y - 4)" "STACK + of_nat (y - 4) - 4 = STACK + of_nat (y - 4 - 4)"
    "STACK + of_nat (y - 4 - 4) - 4 = STACK + of_nat (y - 4 - 4 - 4)" using y(2) by (simp_all only: stack_sub4)
  have w1: "kmemset0 (STACK + of_nat i) n s = ret (set_vmem (write_mem (vmem s) (kp + of_nat i) (replicate n 0)) s)"
    if "stack_at kp s" "i < 4096" "i + n \<le> 4096" for i n s
    using that(3) kstores_page [OF that(1), of i "replicate n 0"] stack_vaddr(4) [OF that(2)] by (simp add: kmemset0_def)
  have w2: "kmemcpy_var (STACK + of_nat i) b s = ret (set_vmem (write_mem (vmem s) (kp + of_nat i) b) s)"
    if "stack_at kp s" "i < 4096" "i + length b \<le> 4096" for i b s
    using that(3) kstores_page [OF that(1), of i b] stack_vaddr(4) [OF that(2)] by (simp add: kmemcpy_var_def)
  define m1 where "m1 = write_mem (vmem s) (kp + of_nat (y + 4 * argc + 4)) (replicate al 0)"
  define m2 where "m2 = write_mem m1 (kp + of_nat (y + 4 * argc)) (le32 0)"
  define m3 where "m3 = write_mem m2 (kp + of_nat (y - 4)) (le32 (STACK + of_nat y))"
  define m4 where "m4 = write_mem m3 (kp + of_nat (y - 4 - 4)) (le32 (of_nat argc))"
  define m5 where "m5 = write_mem m4 (kp + of_nat (y - 4 - 4 - 4)) (le32 0)"
  have lt: "y + 4 * argc + 4 + al < 4096" using x y by simp
  have k1: "stack_at kp (set_vmem m1 s)" unfolding m1_def by (rule page_at_write_mem [OF k]) (use lt in simp)
  have k2: "stack_at kp (set_vmem m2 s)" using lt page_at_write_mem [OF k1, of "y + 4 * argc" "le32 0"] unfolding m2_def by (simp add: length_le32)
  have k3: "stack_at kp (set_vmem m3 s)"
    using lt y(2) page_at_write_mem [OF k2, of "y - 4" "le32 (STACK + of_nat y)"] unfolding m3_def by (simp add: length_le32)
  have k4: "stack_at kp (set_vmem m4 s)"
    using lt y(2) page_at_write_mem [OF k3, of "y - 4 - 4" "le32 (of_nat argc)"] unfolding m4_def by (simp add: length_le32)
  have s1: "kmemset0 (STACK + of_nat (y + 4 * argc + 4)) al s = ret (set_vmem m1 s)" using lt by (subst w1 [OF k]) (auto simp: m1_def)
  have s2: "kmemset0 (STACK + of_nat (y + 4 * argc)) 4 (set_vmem m1 s) = ret (set_vmem m2 s)"
    using lt by (subst w1 [OF k1]) (auto simp: m2_def le32_zero)
  have s3: "kmemcpy_var (STACK + of_nat (y - 4)) (le32 (STACK + of_nat y)) (set_vmem m2 s) = ret (set_vmem m3 s)"
    using lt y(2) by (subst w2 [OF k2]) (auto simp: m3_def length_le32)
  have s4: "kstores (STACK + of_nat (y - 4 - 4)) (le32 (of_nat argc)) (set_vmem m3 s) = ret (set_vmem m4 s)"
    using lt y(2) by (subst kstores_page [OF k3]) (auto simp: m4_def length_le32)
  have s5: "kmemset0 (STACK + of_nat (y - 4 - 4 - 4)) 4 (set_vmem m4 s) = ret (set_vmem m5 s)"
    using lt y(2) by (subst w1 [OF k4]) (auto simp: m5_def le32_zero)
  have h: "stack_head (vmem s) kp al argc y = m5" by (simp add: stack_head_def m1_def m2_def m3_def m4_def m5_def Let_def)
  show ?thesis
    unfolding push_arguments_def cnt option.map liftx_simps bindx_simps prod.case Let_def e1 al [symmetric] e2 s1 e3 s2 e4 e5 s3 s4 s5
      set_vmem_simps h ..
qed

text \<open>The stack of a new process as its C library expects it: a return address, the number of arguments, the address of the array of
  their addresses, and the array itself, which ends with a null pointer.\<close>

definition argument_stack :: "memory \<Rightarrow> addr \<Rightarrow> bytes list \<Rightarrow> bool" where
  "argument_stack u esp args \<longleftrightarrow> load32 u esp = 0 \<and> load32 u (esp + 4) = of_nat (length args) \<and> load32 u (esp + 8) = esp + 12
     \<and> (\<forall>j < length args. string_at u (load32 u (esp + 12 + of_nat (4 * j))) (args ! j))
     \<and> load32 u (esp + 12 + of_nat (4 * length args)) = 0"

text \<open>The command line fits with everything else into one page.\<close>

definition fits :: "bytes \<Rightarrow> bool" where
  "fits bs \<longleftrightarrow> bs \<noteq> [] \<and> hd bs \<noteq> 32 \<and> last bs \<noteq> 32
     \<and> length bs + 1 + (4 - (length bs + 1) mod 4) + 4 + 4 * length (tokens {32} bs) + 12 \<le> 4096"

lemma tokens_nonzero: "cstr m a bs \<Longrightarrow> w \<in> set (tokens D bs) \<Longrightarrow> 0 \<notin> set w"
proof -
  assume c: "cstr m a bs" and w: "w \<in> set (tokens D bs)"
  have "0 \<notin> set bs"
  proof
    assume "0 \<in> set bs"
    then obtain i where "i < length bs" "bs ! i = 0" by (metis in_set_conv_nth)
    then show False using cstr_append [of m a bs "[]"] c by auto
  qed
  moreover have "set w \<subseteq> set (concat (tokens D bs))" using w by auto
  ultimately show ?thesis using tokens_correct [of D bs] by auto
qed

lemma push_arguments_value:
  assumes k: "stack_at kp s" and fn: "cstr (vmem s) fn bs" and bs: "fits bs"
    and fp: "string_at (vmem s) fp bs" "pg_ofs fp = 0" "is_kernel_vaddr fp" "page_num fp \<noteq> page_num kp"
      "page_num fp \<notin> pd_pages (mm s) (pagedir s (curthread s))"
    and sp: "string_at (vmem s) sp [32]" "\<And>i. i \<le> 1 \<Longrightarrow> page_num (sp + of_nat i) \<noteq> page_num fp \<and> page_num (sp + of_nat i) \<noteq> page_num kp"
  shows "\<exists>esp s'. push_arguments sp fn fp PHYS_BASE s = ret (esp, s') \<and> argument_stack (user_mem s') esp (tokens {32} bs)"
proof -
  define al argc where "al = 4 - (length bs + 1) mod 4" and "argc = length (tokens {32} bs)"
  define x y where "x = 4096 - (length bs + 1)" and "y = x - al - 4 - 4 * argc"
  have fit: "length bs + 1 + al + 4 + 4 * argc + 12 \<le> 4096" using bs by (simp add: fits_def al_def argc_def)
  have x: "x + (length bs + 1) = 4096" and y: "y + 4 * argc + 4 + al = x" "12 \<le> y" using fit by (simp_all add: x_def y_def)
  have y': "y + 4 * argc + 4 + al \<le> 4096" using x y by simp
  have b: "bs \<noteq> []" "hd bs \<noteq> 32" "last bs \<noteq> 32" using bs by (simp_all add: fits_def)
  let ?m = "stack_head (vmem s) kp al argc y" and ?pd = "pagedir s (curthread s)"
  note steps = push_arguments_steps [OF k fn b al_def argc_def x y, of sp fp]
  note other = stack_head_other [OF k y' y(2), where m = "vmem s"] and words = stack_head_words [OF y' y(2), where m = "vmem s" and kp = kp]
  have pg: "page_num (fp + of_nat i) = page_num fp" if "i \<le> length bs" for i
  proof -
    have "unat (fp + of_nat i - fp) < 4096" using that fit by (simp add: unsigned_of_nat take_bit_eq_mod)
    then show ?thesis using page_offset [OF fp(2)] by blast
  qed
  have f1: "string_at ?m fp bs" using pg fp(4) other by (intro string_at_cong [OF fp(1)]) simp
  have s1: "string_at ?m sp [32]" using sp(2) other by (intro string_at_cong [OF sp(1)]) simp
  have nofp: "fp \<noteq> 0" using fp(1) by (simp add: string_at_def)
  have apart: "fp + of_nat i \<noteq> sp + of_nat j" if "i \<le> length bs" "j \<le> length [32 :: 8 word]" for i j
    using pg [OF that(1)] sp(2) [of j] that(2) by auto
  have "hd bs \<in> set bs" using b(1) by simp
  then have ne: "dropWhile (\<lambda>b. b \<in> set [32]) bs \<noteq> []" using b(2) by (auto simp: dropWhile_eq_Nil_conv)
  obtain i j w rest m where st: "strtok_r ?m fp sp (Some 0) = Some (Inr (fp + of_nat i, fp + of_nat j, m))"
    and tk: "tokens (set [32]) bs = w # tokens (set [32]) rest" and ln: "i + length w \<le> length bs" "j + length rest \<le> length bs"
    and str: "string_at m (fp + of_nat i) w" "string_at m (fp + of_nat j) rest" "string_at m sp [32]"
    and kp: "\<And>a. (\<And>i. i < length bs \<Longrightarrow> a \<noteq> fp + of_nat i) \<Longrightarrow> m a = ?m a"
    by (rule strtok_step [OF s1 f1 _ apart ne, of fp 0]) (use nofp in auto)
  have oth: "m a = ?m a" if "page_num a \<noteq> page_num fp" for a using kp [of a] pg that by (metis less_imp_le)
  have pdm: "m a = vmem s a" if "page_num a \<in> pd_pages (mm s) ?pd" for a
  proof -
    have "page_num a \<noteq> page_num kp" "page_num a \<noteq> page_num fp" using that k fp(5) by (auto simp: page_at_def)
    then show ?thesis using oth other by simp
  qed
  note k' = page_at_write [OF k pdm] and pd = pd_pages_write [OF k pdm]
  let ?s = "set_vmem m s"
  have tk': "tokens {32} bs = w # tokens {32} rest" using tk by simp
  have "args_state kp fp sp (fp + of_nat i) w (fp + of_nat j) rest ?s"
    using k' pd str pg ln fp sp by (auto simp: args_state_def add.assoc of_nat_add [symmetric] simp del: of_nat_add)
  moreover have xl: "x + args_len (tokens {32} bs) \<le> 4096" using args_len_tokens [of "{32}" bs] x by simp
  moreover have "y + 4 * length (tokens {32} bs) \<le> x" using y by (simp add: argc_def)
  ultimately obtain m' where m': "args_loop sp (fp + of_nat i) (fp + of_nat j) (STACK + of_nat x) (STACK + of_nat y) ?s = ret (set_vmem m' ?s)"
      "stack_at kp (set_vmem m' ?s)" "placed m' kp x y (tokens {32} bs)"
      "\<And>l. l < 4096 \<Longrightarrow> \<not> (y \<le> l \<and> l < y + 4 * argc) \<Longrightarrow> \<not> x \<le> l \<Longrightarrow> m' (kp + of_nat l) = m (kp + of_nat l)"
    using args_loop_value [of kp fp sp "fp + of_nat i" w "fp + of_nat j" rest ?s x y] unfolding tk' [symmetric] argc_def by auto
  let ?e = "STACK + of_nat (y - 4 - 4 - 4)" and ?s' = "set_vmem m' s"
  have call: "push_arguments sp fn fp PHYS_BASE s = ret (?e, ?s')" using steps st m'(1) by simp
  have k2: "stack_at kp ?s'" using m'(2) by simp
  have keep: "m' (kp + of_nat l) = ?m (kp + of_nat l)" if "l < 4096" "\<not> (y \<le> l \<and> l < y + 4 * argc)" "\<not> x \<le> l" for l
    using m'(4) [OF that] oth [of "kp + of_nat l"] page_frame(1) [OF k that(1)] fp(4) by simp
  have word: "load32 (user_mem ?s') (STACK + of_nat l) = v"
    if "bytes_in ?m (kp + of_nat l) (le32 v)" "l + 4 \<le> y \<or> y + 4 * argc \<le> l" "l + 4 \<le> x" for l v
    using that x
    by (intro bytes_in_word bytes_in_user [OF k2]) (auto simp: length_le32 intro!: bytes_in_keep [OF that(1)] keep)
  have e: "?e + 12 = STACK + of_nat y" "?e + 4 = STACK + of_nat (y - 4 - 4)" "?e + 8 = STACK + of_nat (y - 4)"
    using y(2) by (simp_all add: of_nat_diff)
  have e': "?e + 12 + of_nat (4 * l) = STACK + of_nat (y + 4 * l)" for l unfolding e(1) by simp
  have "argument_stack (user_mem ?s') ?e (tokens {32} bs)"
    unfolding argument_stack_def e' unfolding e argc_def [symmetric]
  proof (intro conjI allI impI)
    show "load32 (user_mem ?s') ?e = 0" using words(4) y by (intro word) simp_all
    show "load32 (user_mem ?s') (STACK + of_nat (y - 4 - 4)) = of_nat argc" using words(3) y by (intro word) linarith+
    show "load32 (user_mem ?s') (STACK + of_nat (y - 4)) = STACK + of_nat y" using words(2) y by (intro word) linarith+
    show "load32 (user_mem ?s') (STACK + of_nat (y + 4 * argc)) = 0" using words(1) y by (intro word) simp_all
    fix l assume "l < argc"
    then show "string_at (user_mem ?s') (load32 (user_mem ?s') (STACK + of_nat (y + 4 * l))) (tokens {32} bs ! l)"
      using m'(3) xl y x tokens_nonzero [OF fn] by (intro placed_user [OF k2, where x = x]) (auto simp: argc_def)
  qed
  then show ?thesis using call by blast
qed

lemma stack_at_mm:
  assumes "stack_at kp s" "\<And>a. page_num a \<in> pd_pages (mm s) (pagedir s (curthread s)) \<Longrightarrow> mem m a = vmem s a" "palloc_ok (pal m)"
    "allocated (pal (mm s)) \<subseteq> allocated (pal m)"
  shows "stack_at kp (s\<lparr>mm := m\<rparr>)"
proof -
  have ok: "pd_ok (mm s) (pagedir s (curthread s))" using assms(1) by (simp add: page_at_def)
  have "is_user_vaddr STACK" by (simp add: is_user_vaddr_def PHYS_BASE_def)
  moreover have "k \<in> allocated (pal m)" if "k \<in> pd_pages (mm s) (pagedir s (curthread s))" "k \<in> allocated (pal (mm s))" for k
    using that assms(4) by blast
  note f = pd_frame [OF ok assms(2,3) this]
  ultimately show ?thesis using assms(1) f by (auto simp: page_at_def)
qed

lemma copied_other:
  assumes "pg_ofs fp = 0" "n \<le> 4096" "page_num a \<noteq> page_num fp"
  shows "copied m fp src n a = m a"
proof -
  have "\<not> unat (a - fp) < 4096" using page_offset [OF assms(1)] assms(3) by blast
  then show ?thesis using assms(2) by (simp add: copied_def)
qed

text \<open>Just before \<open>setup_stack\<close>: there is a frame for the stack, one for the copy of the command line and one for a page table, nothing is mapped
  at the place of the stack, the command line \<open>bs\<close> is in an allocated page that is no part of the page directory, and the string
  with one space is in the image of the kernel, outside of both pools.\<close>

definition new_process :: "addr \<Rightarrow> addr \<Rightarrow> bytes \<Rightarrow> vm \<Rightarrow> bool" where
  "new_process sp fn bs s \<longleftrightarrow>
     (let pd = pagedir s (curthread s); p = pal (mm s) in
      pd_ok (mm s) pd \<and> pd \<noteq> init_page_dir (mm s) \<and> \<not> present (mm s) pd STACK
      \<and> (\<forall>k \<in> pool_pages (user_pool p). k < 0xc0000 + unat (init_ram_pages (mm s)))
      \<and> \<not> pool_pages (kernel_pool p) \<subseteq> allocated p
      \<and> (\<exists>j k. j \<noteq> k \<and> {j, k} \<subseteq> pool_pages (user_pool p) - allocated p)
      \<and> string_at (vmem s) fn bs \<and> (\<forall>i \<le> length bs. page_num (fn + of_nat i) \<in> allocated p - pd_pages (mm s) pd)
      \<and> string_at (vmem s) sp [32] \<and> (\<forall>i \<le> 1. page_num (sp + of_nat i) \<notin> pool_pages (kernel_pool p) \<union> pool_pages (user_pool p)))"

text \<open>The two pages, and the mapping of the first one.\<close>

lemma setup_frames:
  assumes "new_process sp fn bs s"
  defines "pd \<equiv> pagedir s (curthread s)"
  obtains kp fp m1 m2 m3 where "vm_get_page (PAL_USER OR PAL_ZERO) s = Inr (kp, s\<lparr>mm := m1\<rparr>)" "kp \<noteq> 0"
    "install_page STACK kp True (s\<lparr>mm := m1\<rparr>) = Inr (True, s\<lparr>mm := m2\<rparr>)" "vm_get_page PAL_USER (s\<lparr>mm := m2\<rparr>) = Inr (fp, s\<lparr>mm := m3\<rparr>)"
    "fp \<noteq> 0" "stack_at kp (s\<lparr>mm := m3\<rparr>)" "pg_ofs fp = 0" "is_kernel_vaddr fp" "page_num fp \<noteq> page_num kp" "page_num fp \<notin> pd_pages m3 pd"
    "page_num fp \<notin> allocated (pal (mm s))" "page_num fp \<in> pool_pages (user_pool (pal (mm s)))"  "page_num kp \<in> pool_pages (user_pool (pal (mm s)))"
    "\<forall>x. page_num x \<in> allocated (pal (mm s)) - pd_pages (mm s) pd \<or> page_num x \<notin> pool_pages (kernel_pool (pal (mm s))) \<union> pool_pages (user_pool (pal (mm s)))
      \<longrightarrow> mem m3 x = vmem s x"
proof -
  let ?p = "pal (mm s)"
  note n = assms(1) [unfolded new_process_def Let_def, folded pd_def]
  have ok: "pd_ok (mm s) pd" "palloc_ok ?p" "pd \<noteq> init_page_dir (mm s)" using n by (auto simp: pd_ok_def)
  have disj: "pool_pages (kernel_pool ?p) \<inter> pool_pages (user_pool ?p) = {}" using ok(2) by (simp add: palloc_ok_def)
  obtain j k where jk: "j \<noteq> k" "{j, k} \<subseteq> pool_pages (user_pool ?p) - allocated ?p" using n by blast
  have fl: "(PAL_USER OR PAL_ZERO) AND PAL_ASSERT = 0" "(PAL_USER OR PAL_ZERO) AND PAL_USER \<noteq> 0" "PAL_USER AND PAL_ASSERT = 0"
    "PAL_USER AND PAL_USER \<noteq> 0" "PAL_USER AND PAL_ZERO = 0"
    by (simp_all add: PAL_ZERO_def PAL_USER_def PAL_ASSERT_def)
  have up: "get_pool q True = user_pool q" "get_pool q False = kernel_pool q" for q by (simp_all add: get_pool_def)
  have nu: "\<not> pool_pages (get_pool ?p ((PAL_USER OR PAL_ZERO) AND PAL_USER \<noteq> 0)) \<subseteq> allocated ?p" using jk fl(2) up by auto
  obtain kp m1 where g1: "get_page (PAL_USER OR PAL_ZERO) (mm s) = Inr (kp, m1)" "kp \<noteq> 0" "pg_ofs kp = 0" "is_kernel_vaddr kp" "palloc_ok (pal m1)"
      "page_num kp \<notin> allocated ?p" "page_num kp \<in> pool_pages (user_pool ?p)" "allocated (pal m1) = insert (page_num kp) (allocated ?p)"
      "\<And>v. pool_pages (get_pool (pal m1) v) = pool_pages (get_pool ?p v)" "\<And>a. page_num a \<noteq> page_num kp \<Longrightarrow> mem m1 a = vmem s a"
      "m1 = (mm s)\<lparr>pal := pal m1\<rparr>"
    using ok(2) fl(1) by (rule get_page_cases) (use nu fl(2) up in auto)
  let ?s1 = "s\<lparr>mm := m1\<rparr>"
  have pp: "pd_pages (mm s) pd \<subseteq> allocated ?p" by (rule pd_pages_allocated [OF ok(1)])
  have "mem m1 a = vmem s a" if "page_num a \<in> pd_pages (mm s) pd" for a using that pp g1(6) by (intro g1(10)) auto
  note f1 = pd_frame [OF ok(1) this g1(5)]
  have st: "is_user_vaddr STACK" "pg_ofs STACK = 0" by (simp_all add: is_user_vaddr_def PHYS_BASE_def pg_ofs_def PGMASK_def BITMASK_def)
  have ok1: "pd_ok m1 pd" "pte_of m1 pd STACK = pte_of (mm s) pd STACK" "pd_pages m1 pd = pd_pages (mm s) pd" using f1 g1(8) st(1) by auto
  have ini: "init_page_dir m1 = init_page_dir (mm s)" "init_ram_pages m1 = init_ram_pages (mm s)" by (subst g1(11), simp)+
  have np: "\<not> present m1 pd STACK" using n ok1(2) by (simp add: present_def)
  have ram: "drop_bit 12 (kp - PHYS_BASE) < init_ram_pages m1" using n g1(7) ini by (intro frame_in_ram [OF g1(4)]) auto
  have kpool: "pool_pages (kernel_pool (pal m1)) = pool_pages (kernel_pool ?p)" using g1(9) [of False] up by simp
  have nk: "\<not> pool_pages (kernel_pool (pal m1)) \<subseteq> allocated (pal m1)" unfolding kpool g1(8) using n g1(7) disj by auto
  obtain m2 e where i2: "install_page STACK kp True ?s1 = Inr (True, ?s1\<lparr>mm := m2\<rparr>)" "pd_ok m2 pd" "pte_of m2 pd STACK = Some e"
      "pte_get_page e = Inr kp" "e AND PTE_P \<noteq> 0" "e AND PTE_W \<noteq> 0" "allocated (pal m1) \<subseteq> allocated (pal m2)"
      "allocated (pal m2) \<subseteq> allocated (pal m1) \<union> pool_pages (kernel_pool ?p)" "\<And>v. pool_pages (get_pool (pal m2) v) = pool_pages (get_pool (pal m1) v)"
      "pd_pages m2 pd \<subseteq> pd_pages (mm s) pd \<union> (pool_pages (kernel_pool ?p) - allocated (pal m1))"
      "\<And>x. page_num x \<notin> pd_pages (mm s) pd \<Longrightarrow> page_num x \<notin> pool_pages (kernel_pool ?p) - allocated (pal m1) \<Longrightarrow> mem m2 x = mem m1 x"
    by (rule install_page_value [of ?s1 STACK kp True]) (use ok1 st g1(3,4) ram ok(3) ini np nk kpool in \<open>auto simp: pd_def\<close>)
  let ?s2 = "s\<lparr>mm := m2\<rparr>"
  have k2: "stack_at kp ?s2"
    using st i2(2-6,10) g1(2,3,4,6,8) pp unfolding page_at_def by (auto simp: pd_def)
  have u2: "pool_pages (get_pool (pal m2) True) = pool_pages (user_pool ?p)" using i2(9) [of True] g1(9) [of True] up(1) by simp
  have a2: "allocated (pal m2) \<subseteq> insert (page_num kp) (allocated ?p) \<union> pool_pages (kernel_pool ?p)" using i2(8) g1(8) by auto
  have nu2: "\<not> pool_pages (get_pool (pal m2) (PAL_USER AND PAL_USER \<noteq> 0)) \<subseteq> allocated (pal m2)"
  proof -
    obtain l where "l \<in> {j, k}" "l \<noteq> page_num kp" using jk(1) by auto
    then have "l \<in> pool_pages (user_pool ?p)" "l \<notin> allocated (pal m2)" using jk(2) a2 disj by auto
    then show ?thesis using u2 fl(4) by auto
  qed
  have p2: "palloc_ok (pal m2)" using i2(2) by (simp add: pd_ok_def)
  obtain fp m3 where g3: "get_page PAL_USER m2 = Inr (fp, m3)" "fp \<noteq> 0" "pg_ofs fp = 0" "is_kernel_vaddr fp" "palloc_ok (pal m3)"
      "page_num fp \<notin> allocated (pal m2)" "page_num fp \<in> pool_pages (user_pool ?p)" "allocated (pal m3) = insert (page_num fp) (allocated (pal m2))"
      "\<And>a. mem m3 a = mem m2 a"
    using p2 fl(3) by (rule get_page_cases) (use nu2 fl(4,5) u2 in auto)
  have k3: "stack_at kp (s\<lparr>mm := m3\<rparr>)" using stack_at_mm [OF k2, of m3] g3(5,8,9) by auto
  have "pd_pages m3 pd = pd_pages m2 pd" by (rule pd_frame(4) [OF i2(2) _ g3(5)]) (use g3(8,9) in auto)
  then have fp3: "page_num fp \<notin> pd_pages m3 pd" using pd_pages_allocated [OF i2(2)] g3(6) by auto
  have fpn: "page_num fp \<noteq> page_num kp" "page_num fp \<notin> allocated ?p" using g3(6) i2(7) g1(8) by auto
  have mem: "mem m3 x = vmem s x"
    if "page_num x \<in> allocated ?p - pd_pages (mm s) pd \<or> page_num x \<notin> pool_pages (kernel_pool ?p) \<union> pool_pages (user_pool ?p)" for x
  proof -
    have "page_num x \<noteq> page_num kp" using that g1(6,7) by auto
    moreover have "page_num x \<notin> pd_pages (mm s) pd" "page_num x \<notin> pool_pages (kernel_pool ?p) - allocated (pal m1)"
      using that pp allocated_pools [of ?p] g1(8) by auto
    ultimately show ?thesis using g3(9) i2(11) g1(10) by simp
  qed
  then have mem': "\<forall>x. page_num x \<in> allocated ?p - pd_pages (mm s) pd \<or> page_num x \<notin> pool_pages (kernel_pool ?p) \<union> pool_pages (user_pool ?p)
      \<longrightarrow> mem m3 x = vmem s x" by blast
  have i2': "install_page STACK kp True ?s1 = Inr (True, ?s2)" using i2(1) by simp
  show thesis
    by (rule that [OF _ g1(2) i2' _ g3(2) k3 g3(3,4) fpn(1) fp3 fpn(2) g3(7) g1(7) mem'])
      (use g1(1) g3(1) in \<open>simp_all add: vm_get_page_def\<close>)
qed

text \<open>C24: \<open>setup_stack\<close> builds the stack that the C library of a user program expects. If the command line is not empty and has no space at its ends,
  everything fits into a page, two frames are free in the user pool and a page for a page table in the kernel pool, and nothing is mapped at the place of the stack, then
  \<open>setup_stack\<close> succeeds and the new process finds, through its own page directory: a null return address, the number of arguments,
  the address of the array after these words, in the array for each word of the command line, in order, the address of a null-terminated copy
  of it, and a null pointer at the end of the array.\<close>

theorem setup_stack_correct:
  assumes "new_process sp fn bs s" "fits bs"
  shows "\<exists>esp s'. setup_stack sp fn esp0 s = ret (True, esp, s') \<and> argument_stack (user_mem s') esp (tokens {32} bs)"
proof -
  let ?pd = "pagedir s (curthread s)" and ?p = "pal (mm s)"
  note n = assms(1) [unfolded new_process_def Let_def]
  obtain kp fp m1 m2 m3 where f: "vm_get_page (PAL_USER OR PAL_ZERO) s = Inr (kp, s\<lparr>mm := m1\<rparr>)" "kp \<noteq> 0"
    "install_page STACK kp True (s\<lparr>mm := m1\<rparr>) = Inr (True, s\<lparr>mm := m2\<rparr>)" "vm_get_page PAL_USER (s\<lparr>mm := m2\<rparr>) = Inr (fp, s\<lparr>mm := m3\<rparr>)"
    "fp \<noteq> 0" "stack_at kp (s\<lparr>mm := m3\<rparr>)" "pg_ofs fp = 0" "is_kernel_vaddr fp" "page_num fp \<noteq> page_num kp" "page_num fp \<notin> pd_pages m3 ?pd"
    "page_num fp \<notin> allocated ?p" "page_num fp \<in> pool_pages (user_pool ?p)" "page_num kp \<in> pool_pages (user_pool ?p)"
    and f14: "\<forall>x. page_num x \<in> allocated ?p - pd_pages (mm s) ?pd \<or> page_num x \<notin> pool_pages (kernel_pool ?p) \<union> pool_pages (user_pool ?p)
      \<longrightarrow> mem m3 x = vmem s x"
    by (rule setup_frames [OF assms(1)])
  let ?s = "s\<lparr>mm := m3\<rparr>"
  have "length bs + 1 + (4 - (length bs + 1) mod 4) + 4 + 4 * length (tokens {32} bs) + 12 \<le> 4096" using assms(2) unfolding fits_def by blast
  then have len: "length bs \<le> 4095" by linarith
  have fnp: "page_num (fn + of_nat i) \<in> allocated ?p - pd_pages (mm s) ?pd" if "i \<le> length bs" for i using n that by blast
  have spp: "page_num (sp + of_nat i) \<notin> pool_pages (kernel_pool ?p) \<union> pool_pages (user_pool ?p)" if "i \<le> 1" for i using n that by blast
  have "string_at (vmem s) fn bs" "string_at (vmem s) sp [32]" using n by blast+
  note str = string_at_cong [OF this(1)] string_at_cong [OF this(2)]
  have fn: "string_at (mem m3) fn bs" by (rule str(1)) (use f14 fnp in blast)
  have sp: "string_at (mem m3) sp [32]" by (rule str(2)) (use f14 spp in simp)
  have pg: "page_num (fp + of_nat i) = page_num fp" if "i < 4096" for i
  proof -
    have "unat (fp + of_nat i - fp) < 4096" using that by (simp add: unsigned_of_nat take_bit_eq_mod)
    then show ?thesis using page_offset [OF f(7)] by blast
  qed
  have "fp + of_nat i \<noteq> fn + of_nat j" if "i < 4096" "j \<le> length bs" for i j using pg [OF that(1)] fnp [OF that(2)] f(11) by auto
  note c = strlcpy_value(2) [OF fn f(5) this, of 4096]
  define m where "m = (copied (mem m3) fp fn (length bs))(fp + of_nat (length bs) := 0)"
  have cp: "strlcpy (mem m3) fp fn 4096 = Some (Inr (length bs, m))" using c len by (simp add: m_def min_absorb1)
  have mo: "m a = mem m3 a" if "page_num a \<noteq> page_num fp" for a
    using that copied_other [OF f(7) _ that] len pg [of "length bs"] by (auto simp: m_def)
  have "cstr m fp bs" using copied_string [of "mem m3" fn bs "length bs" fp] fn by (simp add: m_def string_at_def)
  moreover have "unat fp + length bs < 2 ^ 32"
  proof -
    obtain q where "unat fp = 4096 * q" using f(7) pg_ofs_unat [of fp] by (metis mod_0_imp_dvd dvdE unat_0)
    then show ?thesis using unat_size [of fp] len by simp
  qed
  ultimately have fps: "string_at m fp bs" using f(5) by (simp add: string_at_def)
  have pdm: "m a = vmem ?s a" if "page_num a \<in> pd_pages (mm ?s) (pagedir ?s (curthread ?s))" for a
  proof -
    have "page_num a \<noteq> page_num fp" using that f(10) by auto
    then show ?thesis using mo by simp
  qed
  note k = page_at_write [OF f(6) pdm] and pd = pd_pages_write [OF f(6) pdm]
  have "page_num (fn + of_nat i) \<noteq> page_num fp" if "i \<le> length bs" for i using fnp [OF that] f(11) by auto
  then have "string_at m fn bs" by (intro string_at_cong [OF fn] mo)
  then have "cstr (vmem (set_vmem m ?s)) fn bs" by (simp add: string_at_def)
  moreover have spn: "page_num (sp + of_nat i) \<noteq> page_num fp \<and> page_num (sp + of_nat i) \<noteq> page_num kp" if "i \<le> 1" for i
    using spp [OF that] f(12,13) by auto
  moreover have "string_at m sp [32]" by (intro string_at_cong [OF sp] mo) (use spn in simp)
  ultimately obtain esp s' where r: "push_arguments sp fn fp PHYS_BASE (set_vmem m ?s) = ret (esp, s')"
      "argument_stack (user_mem s') esp (tokens {32} bs)"
    using push_arguments_value [OF k _ assms(2), of fn fp sp] fps f(7-10) pd by auto
  have "setup_stack sp fn esp0 s = ret (True, esp, s')"
    using f(1-5) cp r(1) by (simp add: setup_stack_def frame_or_evict_def PHYS_BASE_def)
  then show ?thesis using r(2) by blast
qed

section \<open>Examples\<close>

text \<open>The command line is \<open>ls -l\<close>.\<close>

definition example_line :: bytes where "example_line = [0x6c, 0x73, 32, 0x2d, 0x6c]"

definition example_line_mem :: memory where
  "example_line_mem = bytes_at 0xc0102000 (example_line @ [0]) (bytes_at 0xc0000100 [32, 0] (\<lambda>_. 0))"

definition example_line_pal :: palloc where
  "example_line_pal = example_palloc\<lparr>kernel_pool := \<lparr>used_map = \<lparr>bit_cnt = 4, bits = [3]\<rparr>, base = 0xc0101000\<rparr>, pmem := example_line_mem\<rparr>"

definition example_new :: vm where
  "example_new = example_vm\<lparr>mm := example_mmu\<lparr>pal := example_line_pal\<rparr>\<rparr>"

lemma example_line_pages: "palloc_ok example_line_pal" "allocated example_line_pal = {0xc0101, 0xc0102}"
  "pool_pages (kernel_pool example_line_pal) = {0xc0101 ..< 0xc0105}" "pool_pages (user_pool example_line_pal) = {0xc0108 ..< 0xc010c}"
proof -
  have o: "pg_ofs 0xc0101000 = 0" "pg_ofs 0xc0108000 = 0" by (simp_all add: pg_ofs_def PGMASK_def BITMASK_def)
  show p: "pool_pages (kernel_pool example_line_pal) = {0xc0101 ..< 0xc0105}" "pool_pages (user_pool example_line_pal) = {0xc0108 ..< 0xc010c}"
    by (simp_all add: pool_pages_def example_line_pal_def example_palloc_def page_num_def pg_no_unat)
  show "palloc_ok example_line_pal"
    using o p by (simp add: palloc_ok_def pool_ok_def bm_ok_def is_kernel_vaddr_def PHYS_BASE_def example_line_pal_def example_palloc_def)
  have two: "bm_used \<lparr>bit_cnt = 4, bits = [3]\<rparr> (k - 0xc0101) \<longleftrightarrow> k = 0xc0101 \<or> k = 0xc0102" if "0xc0101 \<le> k" "k < 0xc0105" for k
  proof -
    have "k \<in> {0xc0101, 0xc0102, 0xc0103, 0xc0104}" using that by auto
    then show ?thesis by (auto simp: bm_used_def bm_list_def)
  qed
  show "allocated example_line_pal = {0xc0101, 0xc0102}"
    unfolding allocated_def pool_allocated_def p using two
    by (auto simp: example_line_pal_def example_palloc_def page_num_def pg_no_unat) (auto simp: bm_used_def bm_list_def)
qed

lemma example_new_process: "new_process 0xc0000100 0xc0102000 example_line example_new"
proof -
  let ?m = "mm example_new"
  have sel: "pal ?m = example_line_pal" "vmem example_new = example_line_mem" "pagedir example_new (curthread example_new) = 0xc0101000"
    "init_page_dir ?m = 0xc0100000" "init_ram_pages ?m = 0x1000"
    by (simp_all add: example_new_def example_vm_def example_mmu_def example_line_pal_def)
  have pm: "pmem example_line_pal = example_line_mem" by (simp add: example_line_pal_def)
  have z: "example_line_mem a = 0" if "page_num a = 0xc0101" for a
  proof -
    have "0xc0101000 \<le> unat a" "unat a < 0xc0102000" using that mult_div_mod_eq [of 4096 "unat a"] mod_less_divisor [of 4096 "unat a"]
      unfolding page_num_alt by linarith+
    then show ?thesis by (auto simp: example_line_mem_def bytes_at_def example_line_def unat_sub_if' word_le_nat_alt)
  qed
  have o: "pg_ofs 0xc0101000 = 0" by (simp add: pg_ofs_def PGMASK_def BITMASK_def)
  have pn: "page_num 0xc0101000 = 0xc0101" by (simp add: page_num_alt)
  have "pde_of ?m 0xc0101000 k = 0" if "k < 768" for k
  proof -
    have "k < 1024" using that by simp
    note w = page_word [OF o this]
    have "load32 example_line_mem (0xc0101000 + of_nat (4 * k)) = load32 (\<lambda>_. 0) (0xc0101000 + of_nat (4 * k))"
      by (rule load32_cong [OF w(2)]) (simp only: w(3) pn z)
    then show ?thesis unfolding pde_of_def sel pm by (simp add: load32_def load_elem_def)
  qed
  then have tab: "pde_of ?m 0xc0101000 k = 0 \<and> table ?m 0xc0101000 k = None" if "k < 768" for k using that by (simp add: table_def)
  have ok: "pd_ok ?m 0xc0101000" using tab o pn example_line_pages sel by (simp add: pd_ok_def)
  have pp: "pd_pages ?m 0xc0101000 = {0xc0101}" using tab pn by (auto simp: pd_pages_def)
  have "is_user_vaddr STACK" by (simp add: is_user_vaddr_def PHYS_BASE_def)
  then have np: "\<not> present ?m 0xc0101000 STACK" using tab index_bounds(2) by (simp add: present_def pte_of_def slot_def)
  have str: "string_at example_line_mem 0xc0102000 example_line" "string_at example_line_mem 0xc0000100 [32]"
    by (simp_all add: string_at_def example_line_mem_def example_line_def bytes_at_def)
  have fn: "page_num (0xc0102000 + of_nat i) = 0xc0102" if "i \<le> length example_line" for i
  proof -
    have "unat (0xc0102000 + of_nat i :: addr) = 0xc0102000 + i" using that by (subst unat_plus_small) (simp_all add: example_line_def)
    then show ?thesis unfolding page_num_alt using that by (simp add: example_line_def)
  qed
  have sp: "page_num (0xc0000100 + of_nat i) = 0xc0000" if "i \<le> 1" for i
    using that by (cases i) (simp_all add: page_num_alt)
  have "0xc0103 \<in> {0xc0101 ..< 0xc0105 :: nat} - {0xc0101, 0xc0102}" by simp
  then have nk: "\<not> {0xc0101 ..< 0xc0105} \<subseteq> {0xc0101, 0xc0102 :: nat}" by blast
  have ex: "\<exists>j k. j \<noteq> k \<and> {j, k} \<subseteq> {0xc0108 ..< 0xc010c} - {0xc0101, 0xc0102 :: nat}"
    by (intro exI [of _ "0xc0108"] exI [of _ "0xc0109"]) simp
  show ?thesis
    unfolding new_process_def sel Let_def pp pm example_line_pages using ok np str fn sp nk ex by simp
qed

theorem setup_stack_correct_witness:
  "\<exists>esp s'. setup_stack 0xc0000100 0xc0102000 0 example_new = ret (True, esp, s')
    \<and> argument_stack (user_mem s') esp [[0x6c, 0x73], [0x2d, 0x6c]]"
proof -
  have "tokens {32} example_line = [[0x6c, 0x73], [0x2d, 0x6c]]" by (simp add: example_line_def tokens.simps)
  moreover from this have "fits example_line" by (simp add: fits_def) (simp add: example_line_def)
  ultimately show ?thesis using setup_stack_correct [OF example_new_process, of 0] by simp
qed

end
