(* ===== verification/Syscall_Properties.thy ===== *)
theory Syscall_Properties
  imports Syscall_Calls Process_Stack
begin

text \<open>
  The properties of the system calls, with a process as an example: thread 3 has one page of memory, at the top of user space, and one open
  file, with descriptor 5 and eight bytes on the disk.
\<close>

section \<open>An example\<close>

definition example_inode :: inode where
  "example_inode = \<lparr>sector = 5, open_cnt = 1, removed = False, deny_write_cnt = 0,
     data = \<lparr>dstart = 10, dlength = 8, dmagic = INODE_MAGIC, dunused = replicate 500 0\<rparr>\<rparr>"

definition example_file :: open_file where
  "example_file = \<lparr>finode = 3, pos = 2, deny_write = False\<rparr>"

definition example_user_fs :: fs where
  "example_user_fs = example_fs\<lparr>devs := example_blocks\<lparr>block_at := (\<lambda>b. (block_at example_blocks b)\<lparr>contents := (\<lambda>i. replicate 512 7)\<rparr>)\<rparr>,
     inodes := (inodes example_fs)(3 \<mapsto> example_inode), open_inodes := [3, 1], files := (files example_fs)(4 \<mapsto> example_file), alloc_cnt := 4\<rparr>"

definition example_user :: "vm \<Rightarrow> usys" where
  "example_user v = \<lparr>uvm = v\<lparr>fsys := example_user_fs\<rparr>, IOLock = 1, fileList = (\<lambda>t. if t = 3 then [\<lparr>mFile = 4, fd = 5\<rparr>] else []),
     fdCounter = (\<lambda>t. if t = 3 then 6 else 5), saved_esp = (\<lambda>_. 0), exitStatus = (\<lambda>_. - 1), console = [], keys = [],
     stack_junk = replicate 20 0, heap_junk = 0\<rparr>"

lemma example_user_quiet: "quiet example_user_fs"
proof -
  have f: "file_refs (files example_user_fs) p = (if p = 1 then {2} else if p = 3 then {4} else {})" "deny_refs (files example_user_fs) p = {}"
    "dir_refs (dirs example_user_fs) p = {}" for p
    by (auto simp: file_refs_def deny_refs_def dir_refs_def example_user_fs_def example_fs_def example_file_def)
  have "counts_ok (\<lambda>_. 0) example_user_fs"
    unfolding counts_ok_def inode_counts_def f by (auto simp: example_user_fs_def example_fs_def example_inode_def)
  moreover have "table_ok example_user_fs"
    by (auto simp: table_ok_def example_user_fs_def example_fs_def example_inode_def example_file_def)
  moreover have "fm_ready example_user_fs" by (auto simp: fm_ready_def example_user_fs_def example_fs_def)
  ultimately show ?thesis by (simp add: quiet_def refs_ok_def)
qed

lemma example_user_ok: "uok (example_user v)"
  using example_user_quiet
  by (auto simp: uok_def descriptors_ok_def files_ok_def owned_files_def inj_on_def example_user_def example_user_fs_def example_fs_def split: if_splits)

lemma example_user_open: "curthread v = 3 \<Longrightarrow> open_for (example_user v) 5 4 example_file example_inode"
  by (simp add: open_for_def getFileWithFd_def example_user_def example_user_fs_def example_fs_def example_file_def example_inode_def inode_fits_def
      bytes_to_sectors_value disk_ok_def writable_def cap_def disk_def example_blocks_def)

lemma example_content: "content example_user_fs example_inode = replicate 8 7"
proof -
  have "dbyte example_user_fs a = 7" for a
    by (simp add: dbyte_def disk_def example_user_fs_def example_fs_def example_blocks_def)
  then have m: "map (dbyte example_user_fs) xs = replicate (length xs) 7" for xs by (intro nth_equalityI) simp_all
  show ?thesis unfolding content_def m length_upt by (simp add: example_inode_def)
qed

text \<open>The page at the top of user space is mapped, and arguments can be put there.\<close>

lemma example_page:
  obtains kp v where "page_at STACK kp v" "curthread v = 3"
proof (rule setup_frames [OF example_new_process])
  fix kp m3 assume "stack_at kp (example_new\<lparr>mm := m3\<rparr>)"
  then show thesis by (rule that) (simp add: example_new_def example_vm_def)
qed

lemma concat_words: "k < length ws \<Longrightarrow> r < 4 \<Longrightarrow> concat (map le32 ws) ! (4 * k + r) = le32 (ws ! k) ! r"
proof (induction ws arbitrary: k)
  case (Cons w ws)
  then show ?case by (cases k) (auto simp: nth_append length_le32)
qed simp

lemma length_concat_words: "length (concat (map le32 ws)) = 4 * length ws"
  by (induction ws) (simp_all add: length_le32)

lemma place_args:
  assumes "page_at U kp v" "length ws \<le> 1024"
  obtains v' where "page_at U kp v'" "curthread v' = curthread v" "\<And>s. uvm s = v'\<lparr>fsys := F\<rparr> \<Longrightarrow> call_args \<lparr>esp = U, eax = 0\<rparr> s ws"
proof -
  let ?bs = "concat (map le32 ws)" and ?v = "set_vmem (write_mem (vmem v) (kp + of_nat 0) (concat (map le32 ws))) v"
  have l: "0 + length ?bs \<le> 4096" using assms(2) by (simp only: length_concat_words)
  note w = user_mem_write [OF assms(1) l]
  have at: "page_at U kp ?v" by (rule page_at_write_mem [OF assms(1) l])
  have "load32 (user_mem ?v) (U + of_nat (4 * k)) = ws ! k" if k: "k < length ws" for k
  proof (rule bytes_in_word, unfold bytes_in_def length_le32, intro allI impI)
    fix r :: nat assume r: "r < 4"
    have "4 * k + r < length ?bs" using k r unfolding length_concat_words by linarith
    then show "user_mem ?v (U + of_nat (4 * k) + of_nat r) = le32 (ws ! k) ! r" using w(2) concat_words [OF k r] by (auto simp: add.assoc)
  qed
  then have "call_args \<lparr>esp = U, eax = 0\<rparr> s ws" if "uvm s = ?v\<lparr>fsys := F\<rparr>" for s
    unfolding call_args_def that page_at_fsys user_mem_fsys
    by (intro exI [of _ U] exI [of _ kp] exI [of _ "0 :: nat"]) (use at assms(2) in simp)
  then show thesis using at by (intro that [of ?v]) simp_all
qed

section \<open>Properties\<close>

text \<open>C19: System calls keep the open files of all processes in order. Take a state in which the reference counts of the file system are right
  and every descriptor of every process leads to a file structure that is open and that no other descriptor leads to. Whatever the process
  passes in its registers and on its stack, the handler never uses a file, inode or directory that has been closed; and the state is
  such a state again when the call returns and also when it ends the process. A call that returns is one of those from \<open>create\<close> to \<open>munmap\<close>; it
  leaves \<open>IOLock\<close> as it was and the tables of the other processes alone, and its effect on the map from descriptors to files is that of the
  specification: \<open>open\<close> returns \<open>-1\<close> or a descriptor that was free and now leads to a new file, \<open>close\<close> frees the descriptor that is its
  argument and the file that it led to, and the other calls change nothing. \<open>exec\<close> and \<open>wait\<close> are followed up to their call of
  \<open>process_execute\<close> and \<open>process_wait\<close> only, at which they have changed neither a table nor the lock; what other processes do while these two wait is
  not part of the claim.\<close>

theorem syscall_files:
  assumes "uok s"
  shows "case syscall_handler f s of None \<Rightarrow> True | Some (Inl e) \<Rightarrow> e \<notin> ref_errors | Some (Inr (Exit s')) \<Rightarrow> uok s'
    | Some (Inr (Ret (r, s'))) \<Rightarrow> call_ok s s' \<and> (\<exists>code. call_number f s = Some code \<and> call_effect code (call_argument f s) s r s')"
  using okx_handler [OF assms, of f] by (auto simp: okx_def oko_def okr_def split: option.splits sum.splits run.splits)

theorem syscall_files_witness:
  "\<exists>f s s'. uok s \<and> syscall_handler f s = ret (Return (f\<lparr>eax := 2\<rparr>), s') \<and> uok s' \<and> fds s' = fds s"
proof -
  obtain kp v where v: "page_at STACK kp v" "curthread v = 3" by (rule example_page)
  obtain v' where v': "curthread v' = curthread v" "\<And>s. uvm s = v'\<lparr>fsys := example_user_fs\<rparr> \<Longrightarrow> call_args \<lparr>esp = STACK, eax = 0\<rparr> s [11, 5]"
    by (rule place_args [OF v(1), of "[11, 5]"]) auto
  let ?s = "example_user v'" and ?f = "\<lparr>esp = STACK, eax = 0\<rparr>"
  have a: "call_args ?f ?s [11, 5]" by (rule v'(2)) (simp add: example_user_def)
  have o: "open_for ?s 5 4 example_file example_inode" using v v' by (intro example_user_open) simp
  let ?t = "?s\<lparr>saved_esp := (saved_esp ?s)(cur ?s := esp ?f)\<rparr>"
  have "syscall_handler ?f ?s = sys_tell ?f ?t" using handler_dispatch [OF a] by (simp add: argCounts_def dispatch_def)
  also have "\<dots> = ret (Return (?f\<lparr>eax := 2\<rparr>), io_up (?t\<lparr>IOLock := 0\<rparr>))"
    using arg_words(1) [OF a, of "?t\<lparr>IOLock := 0\<rparr>"] v v'
    by (simp add: sys_tell_def io_down_def file_or_exit_def getFileWithFd_def example_user_def file_tell_def get_file_def example_user_fs_def example_file_def)
  finally have h: "syscall_handler ?f ?s = ret (Return (?f\<lparr>eax := 2\<rparr>), io_up (?t\<lparr>IOLock := 0\<rparr>))" .
  have "call_number ?f ?s = Some 11" using arg_load(1) [OF a refl, of 0] by (simp add: call_number_def ret_def)
  then have c: "call_ok ?s (io_up (?t\<lparr>IOLock := 0\<rparr>))" "fds (io_up (?t\<lparr>IOLock := 0\<rparr>)) = fds ?s"
    using syscall_files [OF example_user_ok [of v'], of ?f] unfolding h ret_def by (auto simp: call_effect_def fd_effect_def)
  show ?thesis
    by (rule exI [of _ ?f], rule exI [of _ ?s], rule exI [of _ "io_up (?t\<lparr>IOLock := 0\<rparr>)"]) (use h c example_user_ok in \<open>simp add: call_ok_def\<close>)
qed

text \<open>C20: A process that reads from a file gets the bytes of the file. The conditions are: the arguments of the call are on its stack, in one mapped page;
  the descriptor, not 0, is open for a file whose inode lies on the disk; the buffer, of less than \<open>2 ^ 31\<close> bytes, lies in one page that is mapped for writing;
  \<open>IOLock\<close> is free; and the allocation of the bounce buffer succeeds. Then \<open>read\<close> returns, its result is the number of bytes from the position of the
  file to its end, at most the number asked for; these bytes are in the buffer afterwards, the position has advanced by their number, and disk,
  descriptors and lock are unchanged.\<close>

theorem sys_read_correct:
  assumes "call_args f s [8, n, b, sz]" "open_for s (sint n) p x i" "buffer_ok s b (unat sz)" "unat sz < 2 ^ 31" "0 < IOLock s" "n \<noteq> 0"
  shows "\<exists>s' bs. bs = take (unat sz) (drop (nat (pos x)) (content (fsys (uvm s)) i))
    \<and> syscall_handler f s = ret (Return (f\<lparr>eax := of_nat (length bs)\<rparr>), s') \<and> (\<forall>k < length bs. user_mem (uvm s') (b + of_nat k) = bs ! k)
    \<and> files (fsys (uvm s')) = (files (fsys (uvm s)))(p \<mapsto> x\<lparr>pos := pos x + int (length bs)\<rparr>) \<and> disk (fsys (uvm s')) = disk (fsys (uvm s))
    \<and> IOLock s' = IOLock s \<and> fileList s' = fileList s"
  using sys_read_value [OF assms] by blast

theorem sys_read_correct_witness:
  "\<exists>f s s'. syscall_handler f s = ret (Return (f\<lparr>eax := 6\<rparr>), s') \<and> (\<forall>k < 6. user_mem (uvm s') (STACK + 200 + of_nat k) = 7)"
proof -
  obtain kp v where v: "page_at STACK kp v" "curthread v = 3" by (rule example_page)
  obtain v' where v': "page_at STACK kp v'" "curthread v' = curthread v"
    "\<And>s. uvm s = v'\<lparr>fsys := example_user_fs\<rparr> \<Longrightarrow> call_args \<lparr>esp = STACK, eax = 0\<rparr> s [8, 5, STACK + 200, 9]"
    by (rule place_args [OF v(1), of "[8, 5, STACK + 200, 9]"]) auto
  let ?s = "example_user v'" and ?f = "\<lparr>esp = STACK, eax = 0\<rparr>"
  have a: "call_args ?f ?s [8, 5, STACK + 200, 9]" by (rule v'(3)) (simp add: example_user_def)
  have o: "open_for ?s (sint (5 :: addr)) 4 example_file example_inode" using v v' by (simp add: example_user_open)
  have b: "buffer_ok ?s (STACK + 200) (unat (9 :: addr))" unfolding buffer_ok_def example_user_def
    by (intro exI [of _ STACK] exI [of _ kp] exI [of _ 200]) (use v'(1) in \<open>simp add: page_at_fsys\<close>)
  have c: "take (unat (9 :: addr)) (drop (nat (pos example_file)) (content (fsys (uvm ?s)) example_inode)) = replicate 6 7" "0 < IOLock ?s"
    by (simp_all add: example_user_def example_content example_file_def)
  obtain s' where "syscall_handler ?f ?s = ret (Return (?f\<lparr>eax := 6\<rparr>), s')" "\<forall>k < 6. user_mem (uvm s') (STACK + 200 + of_nat k) = 7"
    using sys_read_correct [OF a o b _ c(2)] unfolding c(1) by auto
  then show ?thesis by blast
qed

text \<open>C21: A process that writes to a file changes the file accordingly. The conditions are: the arguments of the call are on its stack, in one mapped page;
  the descriptor, neither 0 nor 1, is open for a file whose inode lies on the disk, and writes to it are not denied; the buffer, of less than \<open>2 ^ 31\<close> bytes,
  lies in one page that is mapped for writing; \<open>IOLock\<close> is free; and the allocation of the bounce buffer succeeds. Then \<open>write\<close> returns, and the bytes of the
  buffer, as many as there is room for up to the end of the file, replace those of the file at its position. Its result is their number, the position advances
  by it, and memory, descriptors and lock are unchanged.\<close>

theorem sys_write_correct:
  assumes "call_args f s [9, n, b, sz]" "open_for s (sint n) p x i" "buffer_ok s b (unat sz)" "unat sz < 2 ^ 31" "0 < IOLock s" "n \<noteq> 0" "n \<noteq> 1"
    "\<not> deny_write x" "deny_write_cnt i = 0"
  shows "\<exists>s' bs. bs = map (\<lambda>k. user_mem (uvm s) (b + of_nat k)) [0..<min (unat sz) (flen (data i) - nat (pos x))]
    \<and> syscall_handler f s = ret (Return (f\<lparr>eax := of_nat (length bs)\<rparr>), s')
    \<and> content (fsys (uvm s')) i = overwrite (content (fsys (uvm s)) i) (nat (pos x)) bs
    \<and> files (fsys (uvm s')) = (files (fsys (uvm s)))(p \<mapsto> x\<lparr>pos := pos x + int (length bs)\<rparr>)
    \<and> mm (uvm s') = mm (uvm s) \<and> IOLock s' = IOLock s \<and> fileList s' = fileList s"
  using sys_write_value [OF assms] by blast

theorem sys_write_correct_witness:
  "\<exists>f s s'. syscall_handler f s = ret (Return (f\<lparr>eax := 3\<rparr>), s') \<and> content (fsys (uvm s')) example_inode
    = [7, 7] @ map (\<lambda>k. user_mem (uvm s) (STACK + of_nat k)) [0..<3] @ [7, 7, 7]"
proof -
  obtain kp v where v: "page_at STACK kp v" "curthread v = 3" by (rule example_page)
  obtain v' where v': "page_at STACK kp v'" "curthread v' = curthread v"
    "\<And>s. uvm s = v'\<lparr>fsys := example_user_fs\<rparr> \<Longrightarrow> call_args \<lparr>esp = STACK, eax = 0\<rparr> s [9, 5, STACK, 3]"
    by (rule place_args [OF v(1), of "[9, 5, STACK, 3]"]) auto
  let ?s = "example_user v'" and ?f = "\<lparr>esp = STACK, eax = 0\<rparr>"
  have a: "call_args ?f ?s [9, 5, STACK, 3]" by (rule v'(3)) (simp add: example_user_def)
  have o: "open_for ?s (sint (5 :: addr)) 4 example_file example_inode" using v v' by (simp add: example_user_open)
  have b: "buffer_ok ?s STACK (unat (3 :: addr))" unfolding buffer_ok_def example_user_def
    by (intro exI [of _ STACK] exI [of _ kp] exI [of _ 0]) (use v'(1) in \<open>simp add: page_at_fsys\<close>)
  let ?bs = "map (\<lambda>k. user_mem (uvm ?s) (STACK + of_nat k)) [0..<3]"
  have c: "min (unat (3 :: addr)) (flen (data example_inode) - nat (pos example_file)) = 3" "0 < IOLock ?s" "\<not> deny_write example_file"
    "deny_write_cnt example_inode = 0"
    by (simp_all add: example_user_def example_inode_def example_file_def)
  have "overwrite (content (fsys (uvm ?s)) example_inode) (nat (pos example_file)) ?bs = [7, 7] @ ?bs @ [7, 7, 7]"
    by (simp add: overwrite_def example_content example_user_def example_file_def numeral_eq_Suc)
  moreover obtain s' where "syscall_handler ?f ?s = ret (Return (?f\<lparr>eax := 3\<rparr>), s')"
    "content (fsys (uvm s')) example_inode = overwrite (content (fsys (uvm ?s)) example_inode) (nat (pos example_file)) ?bs"
    using sys_write_correct [OF a o b _ c(2) _ _ c(3,4)] unfolding c(1) by auto
  ultimately show ?thesis by metis
qed

text \<open>C22: A read with a bad buffer stops all later work on files. When a process calls \<open>read\<close>, with its arguments on a mapped page and \<open>IOLock\<close> free, and
  the buffer is a null pointer or a kernel address, then the handler ends the process and leaves \<open>IOLock\<close> at zero. From a state in which it is zero, no call of any
  process returns to the process, whatever its arguments are; of \<open>exec\<close> and \<open>wait\<close> this says nothing, since they are followed only up to their calls of
  \<open>process_execute\<close> and \<open>process_wait\<close>. Every call that ends its process, such as \<open>exit\<close> or a call with a bad address of its arguments, leaves \<open>IOLock\<close> at zero, as
  \<open>exec\<close> and \<open>wait\<close> do up to these calls. The calls on files other than \<open>write\<close>, with their arguments on a mapped page, wait forever; \<open>write\<close> may find a bad buffer or descriptor and end its
  process before it waits.\<close>

theorem read_bad_buffer_stops:
  assumes "call_args f s [8, n, buffer, sz]" "IOLock s = 1" "buffer = 0 \<or> is_kernel_vaddr buffer"
  shows "\<exists>s'. syscall_handler f s = Some (Inr (Exit s')) \<and> IOLock s' = 0
    \<and> (\<forall>g s2. IOLock s2 = IOLock s' \<longrightarrow> (case syscall_handler g s2 of Some (Inr (Exit s3)) \<Rightarrow> IOLock s3 = 0
         | Some (Inr (Ret (r, s3))) \<Rightarrow> IOLock s3 = 0 \<and> (\<forall>h. r \<noteq> Return h) | _ \<Rightarrow> True))
    \<and> (\<forall>g s2 code ws. IOLock s2 = IOLock s' \<and> call_args g s2 (of_nat code # ws) \<and> code \<in> {4..8} \<union> {10..14} \<and> argCounts ! code \<le> length ws
         \<longrightarrow> syscall_handler g s2 = None)"
proof -
  obtain s' where s': "syscall_handler f s = Some (Inr (Exit s'))" "IOLock s' = 0" using read_bad_buffer [OF assms] by blast
  have "case syscall_handler g s2 of Some (Inr (Exit s3)) \<Rightarrow> IOLock s3 = 0
      | Some (Inr (Ret (r, s3))) \<Rightarrow> IOLock s3 = 0 \<and> (\<forall>h. r \<noteq> Return h) | _ \<Rightarrow> True" if "IOLock s2 = 0" for g s2
    using handler_stays [OF that, of g] by (auto simp: stays_def ret_def split: option.split sum.split run.split)
  moreover have "syscall_handler g s2 = None"
    if "IOLock s2 = IOLock s' \<and> call_args g s2 (of_nat code # ws) \<and> code \<in> {4..8} \<union> {10..14} \<and> argCounts ! code \<le> length ws" for g s2 code ws
    using that s'(2) by (intro handler_blocked [of s2 g code ws]) simp_all
  ultimately show ?thesis using s' by (intro exI [of _ s'] conjI allI impI) simp_all
qed

theorem read_bad_buffer_stops_witness:
  "\<exists>f s s'. syscall_handler f s = Some (Inr (Exit s')) \<and> IOLock s = 1 \<and> IOLock s' = 0"
proof -
  obtain kp v where v: "page_at STACK kp v" "curthread v = 3" by (rule example_page)
  obtain v' where v': "\<And>s. uvm s = v'\<lparr>fsys := example_user_fs\<rparr> \<Longrightarrow> call_args \<lparr>esp = STACK, eax = 0\<rparr> s [8, 5, 0, 9]"
    by (rule place_args [OF v(1), of "[8, 5, 0, 9]"]) auto
  have a: "call_args \<lparr>esp = STACK, eax = 0\<rparr> (example_user v') [8, 5, 0, 9]" by (rule v') (simp add: example_user_def)
  have l: "IOLock (example_user v') = 1" by (simp add: example_user_def)
  then show ?thesis using read_bad_buffer_stops [OF a l] by blast
qed

text \<open>C23: \<open>mmap\<close> does not map files. The handler takes the address of its argument on the stack for the address to map at; unless this happens to be the
  start of a page, the call never returns to the process, whatever its arguments are: the process is ended, the kernel panics, or the call waits forever.\<close>

theorem mmap_never_returns:
  assumes "call_number f s = Some 13" "pg_ofs (esp f + 8) \<noteq> 0"
  shows "syscall_handler f s \<noteq> Some (Inr (Ret r))"
proof
  assume "syscall_handler f s = Some (Inr (Ret r))"
  then have h: "syscall_handler f s = ret r" by (simp add: ret_def)
  obtain w s1 where w: "kload32 (esp f) s = ret (w, s1)" "nat (sint w) = 13"
    using assms(1) by (auto simp: call_number_def ret_def split: option.splits sum.splits run.splits)
  then have "\<exists>s2. sys_mmap f s2 = ret r"
    using h unfolding syscall_handler_def w(1)
    by (auto dest!: bindx_retD simp: dispatch_def split: if_splits)
  then show False using sys_mmap_unaligned [OF assms(2)] by blast
qed

theorem mmap_never_returns_witness:
  "\<exists>f s. call_number f s = Some 13 \<and> (\<forall>r. syscall_handler f s \<noteq> Some (Inr (Ret r)))"
proof -
  obtain kp v where v: "page_at STACK kp v" "curthread v = 3" by (rule example_page)
  obtain v' where v': "\<And>s. uvm s = v'\<lparr>fsys := example_user_fs\<rparr> \<Longrightarrow> call_args \<lparr>esp = STACK, eax = 0\<rparr> s [13, 5, 0x10000000]"
    by (rule place_args [OF v(1), of "[13, 5, 0x10000000]"]) auto
  let ?f = "\<lparr>esp = STACK, eax = 0\<rparr>"
  have a: "call_args ?f (example_user v') [13, 5, 0x10000000]" by (rule v') (simp add: example_user_def)
  have c: "call_number ?f (example_user v') = Some 13" using arg_load(1) [OF a refl, of 0] by (simp add: call_number_def ret_def)
  have "pg_ofs (esp ?f + 8) \<noteq> 0" by (simp add: pg_ofs_def PGMASK_def BITMASK_def)
  then show ?thesis using mmap_never_returns [OF c] c by blast
qed

end
