(* ===== verification/Spec2Isabelle.thy ===== *)
theory Spec2Isabelle
  imports List_Sorting Palloc Kernel_Properties Arithmetic Fs_Properties Stdlib Hash_Table Syscall_Properties
begin

text \<open>
  A verification development of the Pintos kernel of this repository. The repository has two copies of the kernel. \<open>src/proj1/src\<close> is the project on threads:
  priority scheduling with donation and a list of sleeping threads. \<open>src/proj2/src\<close> is the project on user programs: processes, system calls and virtual memory.
  The theories about lists, bitmaps, strings, hash tables, division, pages, threads and synchronisation are about the files of the first; the theories about devices, the file
  system, page directories, virtual memory, loading and system calls are about the files of the second. Paths below are relative to these directories.

  \<^bold>\<open>The parts of the kernel.\<close> Threads run on kernel stacks and are switched by \<open>schedule\<close>; semaphores, locks and condition variables block and wake them; the timer
  interrupt preempts them. The page allocator hands out pages, with a bitmap for each of its two pools. A block device serves sectors; inodes store files as contiguous sectors, the
  free map records which sectors are in use, and directories are files of entries. A process has a page directory, a supplemental page table and a table of open files.
  \<open>load\<close> reads an ELF file into pages and \<open>setup_stack\<close> builds the argument stack; \<open>page_fault\<close> brings in pages and \<open>evict_frame\<close> swaps them out; \<open>syscall_handler\<close> checks
  the pointers that a process passes and works on its files under the semaphore \<open>IOLock\<close>.

  \<^bold>\<open>Conventions.\<close>
    \<^item> \<open>'a res\<close> is a value or an error (\<open>Prelude\<close>). An error is a panic, with the text of the failed assertion, or undefined behaviour, such as the use of a structure that
      has been freed, an access beyond an array, or signed overflow. \<open>bindr\<close> and \<open>require\<close> sequence such code.
    \<^item> A further \<open>option\<close> around it, with \<open>bindo\<close>, is for code that need not return: \<open>None\<close> is a loop that never ends (a \<open>partial_function\<close>), or waiting for a lock
      that nobody releases. No fuel is used: a loop is structural, or has a termination proof, or is a partial function, and a theorem that says that a function returns
      gives its value.
    \<^item> \<open>run\<close> adds that kernel code ends the process: \<open>Exit\<close> with the last state, or \<open>Ret\<close> with the value (\<open>Process\<close>); \<open>bindx\<close> sequences it.
    \<^item> Addresses, page table entries, bitmap words, hash values and the operands of the division are machine words; C integers whose wrap-around matters are
      integers reduced by \<open>int32\<close>, \<open>int64\<close> or \<open>off_t\<close>, or natural numbers with the modulus written out.
    \<^item> Memory that \<open>malloc\<close> provides is a partial function from pointers. Which allocations fail is a field of the state (\<open>alloc_ok\<close>) or an argument, so that statements
      without a condition on it cover every pattern of failures.

  \<^bold>\<open>Theories and what they show.\<close>
    \<^item> \<open>Prelude\<close>: results, sequencing, pointers, and the simplification rules for panics that all theories share.
    \<^item> \<open>Linked_List\<close>, \<open>List_Refinement\<close>, \<open>List_Sorting\<close> (lib/kernel/list.c): every function on a heap of links, assignment by assignment. \<open>list_at h l xs\<close> relates a
      list on the heap to a sequence, and each operation acts on the sequence as expected and writes no other cell; the merge sort is correct, stable and terminates. The contract of a
      comparison is the locale \<open>strict_weak_order\<close>.
    \<^item> \<open>Bitmap\<close> (lib/kernel/bitmap.c), \<open>Vaddr\<close> (threads/vaddr.h, threads/pte.h), \<open>Palloc\<close> (threads/palloc.c): bits in 32-bit words, address arithmetic, and the two pools. The bitmap
      promises the locale \<open>range_allocator\<close>, on which the proofs about the page allocator rest.
    \<^item> \<open>Strings\<close> (lib/string.c), \<open>Stdlib\<close> (lib/stdlib.c), \<open>Arithmetic\<close> (lib/arithmetic.c), \<open>Hash_Table\<close> (lib/kernel/hash.c): byte memory with wrap-around, heap sort and
      binary search on bytes (locales \<open>comparison\<close> and \<open>array_order\<close>), 64-bit division by 32-bit steps, and hash tables as sets (locale \<open>hash_client\<close>).
    \<^item> \<open>Kernel_State\<close>, \<open>Thread\<close>, \<open>Synch\<close>, \<open>Kernel\<close> (threads/thread.c, threads/synch.c, parts of devices/timer.c and threads/interrupt.c): one state record with the static variables. A
      thread's kernel stack is a list of frames, the return points of calls that have been suspended; an operation that switches threads pushes a frame, and a \<open>_resume\<close> function is the
      code after it. The inductive relation \<open>kstep\<close> resumes frames, makes calls and takes timer interrupts. \<open>Scheduler_Invariant\<close> and
      \<open>Kernel_Invariant\<close> prove that every step keeps the invariant \<open>kinv\<close>; \<open>Kernel_Properties\<close> has the theorems on scheduling, waking, donation and release, with the
      calls on which the donation loop hangs. Where a theorem needs priorities that are not negative, it says so, since \<open>thread_set_priority\<close> does not ensure it.
    \<^item> \<open>Block\<close> (devices/block.c), \<open>Inode\<close> (filesys/inode.c, file.c, free-map.c), \<open>Directory\<close> (filesys/directory.c, filesys.c): all operations on the bytes of the device, whose contract is
      the locale \<open>sector_device\<close>. \<open>Inode_Data\<close> and \<open>Fs_Properties\<close> show that an inode is a sequence of bytes and a directory a map; \<open>Fs_References\<close> and \<open>Fs_Ops\<close> that the
      reference counts are right, so that nothing is used after it has been freed.
    \<^item> \<open>Pagedir\<close> (userprog/pagedir.c): page tables as words in memory, refined to a map from pages to entries. \<open>Vm\<close> (vm/frame.c, page.c, swap.c, and \<open>page_fault\<close> and \<open>kill\<close> of
      userprog/exception.c): swapping and page faults, with the round trip of a swapped page and what goes wrong: stale mappings of other owners, locks that are kept.
    \<^item> \<open>Process\<close>, \<open>User_Memory\<close>, \<open>Process_Stack\<close> (userprog/process.c): the ELF loader and its bounds, accesses to user memory that may fault, and the argument stack.
    \<^item> \<open>Syscall\<close> (userprog/syscall.c): the handler with every case. A read or a write of a file moves bytes between the buffer of the process and the device sector by sector, and each
      access to the buffer may fault. \<open>Syscall_Files\<close> proves that every call keeps the tables of open files in order; \<open>Syscall_Calls\<close> that the
      loops over sectors are those of the inode on the bytes of the buffer, if the buffer is mapped, and what a call does while \<open>IOLock\<close> is zero; \<open>Syscall_Properties\<close> has the theorems.

  \<^bold>\<open>Simplifications.\<close>
    \<^item> The structures that are linked into lists (threads, waiters, inodes, frames, open files) are kept in sequences of their addresses, on the ground of \<open>List_Refinement\<close>.
    \<^item> An operation of the page allocator is one step; its pool lock, and the call of \<open>thread_yield\<close> when it is released, are left out, also inside \<open>thread_create\<close>.
    \<^item> In the theories on project 2 an operation runs without interruption by other threads. \<open>SYS_EXEC\<close> and \<open>SYS_WAIT\<close> are followed up to \<open>process_execute\<close> and \<open>process_wait\<close>, during
      which other threads run.
    \<^item> Offsets in files are integers; they agree with \<open>off_t\<close> as long as they are not negative, which \<open>file_seek\<close> ensures, and as long as a position stays below \<open>2 ^ 31\<close>.

  \<^bold>\<open>Not modelled.\<close> \<open>process_execute\<close>, \<open>start_process\<close> and \<open>process_wait\<close>, which create threads and jump to user mode; the IDE driver, keyboard, serial, video and timer hardware
  (port input and output; a disk is an array of sectors); the memory allocator \<open>malloc\<close> (which of its calls fail is a parameter); printing and the console beyond
  the sequence of characters written; interrupt and segment tables, the start of the kernel, and assembly code, where \<open>switch_threads\<close> is the exchange of the running thread. The copy of
  thread.c and synch.c in project 2, without donation, is not modelled either.
\<close>

end
